(* ===== verification/Xv6_Prelude.thy ===== *)
theory Xv6_Prelude
  imports Main "HOL-Library.Word"
begin

text \<open>
  Shared vocabulary of the development: the C integer types of \<^verbatim>\<open>kernel/types.h\<close>, the
  constants of \<^verbatim>\<open>kernel/param.h\<close>, wait channels, the outcome of a piece of kernel code
  (a result, a \<^verbatim>\<open>panic\<close>, or going to sleep) with the state-passing combinators the
  components are written in, and generic lemmas on them, on bounded search over an array and
  on little-endian words in byte arrays.
\<close>

unbundle bit_operations_syntax

section \<open>C types and constants\<close>

type_synonym u8 = "8 word"
type_synonym u16 = "16 word"
type_synonym u32 = "32 word"

text \<open>A C array of bytes (or a pointer into one) is read through its offsets.\<close>

type_synonym bytes = "nat \<Rightarrow> u8"

abbreviation (input) NPROC :: nat where "NPROC \<equiv> 64"
abbreviation (input) NOFILE :: nat where "NOFILE \<equiv> 16"
abbreviation (input) NFILE :: nat where "NFILE \<equiv> 100"
abbreviation (input) NINODE :: nat where "NINODE \<equiv> 50"
abbreviation (input) NDEV :: nat where "NDEV \<equiv> 10"
abbreviation (input) ROOTDEV :: nat where "ROOTDEV \<equiv> 1"
abbreviation (input) MAXARG :: nat where "MAXARG \<equiv> 32"
abbreviation (input) MAXOPBLOCKS :: nat where "MAXOPBLOCKS \<equiv> 10"
abbreviation (input) LOGSIZE :: nat where "LOGSIZE \<equiv> 30"
abbreviation (input) NBUF :: nat where "NBUF \<equiv> 30"
abbreviation (input) FSSIZE :: nat where "FSSIZE \<equiv> 4000"

section \<open>Outcomes of kernel code\<close>

text \<open>
  Wait channels: in the code a channel is the address of the object slept on, here a name
  of that object (an index where the object lives in an array).
\<close>

datatype chan =
    ChTicks
  | ChLog
  | ChProc nat
  | ChBufLock nat
  | ChInodeLock nat
  | ChPipeRead nat
  | ChPipeWrite nat
  | ChConsole

text \<open>
  Kernel code either returns a value in a new state, stops the machine with
  \<^verbatim>\<open>panic(msg)\<close>, or hands the CPU over in \<^verbatim>\<open>sleep(chan, ..)\<close>; in that case the outcome
  holds the channel and the state at the context switch.
\<close>

datatype ('s, 'a) outcome = Ok 'a 's | Panic string | Sleep chan 's

type_synonym ('s, 'a) km = "'s \<Rightarrow> ('s, 'a) outcome"

definition kret :: "'a \<Rightarrow> ('s, 'a) km" where
  "kret x = (\<lambda>s. Ok x s)"

definition kbind :: "('s, 'a) km \<Rightarrow> ('a \<Rightarrow> ('s, 'b) km) \<Rightarrow> ('s, 'b) km" where
  "kbind m f = (\<lambda>s. case m s of
      Ok x t \<Rightarrow> f x t
    | Panic msg \<Rightarrow> Panic msg
    | Sleep c t \<Rightarrow> Sleep c t)"

definition kthen :: "('s, 'a) km \<Rightarrow> ('s, 'b) km \<Rightarrow> ('s, 'b) km" where
  "kthen m n = kbind m (\<lambda>_. n)"

definition kpanic :: "string \<Rightarrow> ('s, 'a) km" where
  "kpanic msg = (\<lambda>s. Panic msg)"

definition kget :: "('s \<Rightarrow> 'a) \<Rightarrow> ('s, 'a) km" where
  "kget f = (\<lambda>s. Ok (f s) s)"

definition kmod :: "('s \<Rightarrow> 's) \<Rightarrow> ('s, unit) km" where
  "kmod f = (\<lambda>s. Ok () (f s))"

definition kassert :: "string \<Rightarrow> ('s \<Rightarrow> bool) \<Rightarrow> ('s, unit) km" where
  "kassert msg p = (\<lambda>s. if p s then Ok () s else Panic msg)"

definition kif :: "('s \<Rightarrow> bool) \<Rightarrow> ('s, 'a) km \<Rightarrow> ('s, 'a) km \<Rightarrow> ('s, 'a) km" where
  "kif p m n = (\<lambda>s. if p s then m s else n s)"

fun kfor :: "('b \<Rightarrow> ('s, unit) km) \<Rightarrow> 'b list \<Rightarrow> ('s, unit) km" where
  "kfor f [] = kret ()"
| "kfor f (x # xs) = kthen (f x) (kfor f xs)"

named_theorems kdefs \<open>unfolding rules of the outcome combinators\<close>

lemma kret_apply [kdefs]: "kret x s = Ok x s"
  by (simp add: kret_def)

lemma kbind_apply [kdefs]:
  "kbind m f s = (case m s of Ok x t \<Rightarrow> f x t | Panic msg \<Rightarrow> Panic msg | Sleep c t \<Rightarrow> Sleep c t)"
  by (simp add: kbind_def)

lemma kthen_apply [kdefs]:
  "kthen m n s = (case m s of Ok x t \<Rightarrow> n t | Panic msg \<Rightarrow> Panic msg | Sleep c t \<Rightarrow> Sleep c t)"
  by (simp add: kthen_def kbind_def)

lemma kpanic_apply [kdefs]: "kpanic msg s = Panic msg"
  by (simp add: kpanic_def)

lemma kget_apply [kdefs]: "kget f s = Ok (f s) s"
  by (simp add: kget_def)

lemma kmod_apply [kdefs]: "kmod f s = Ok () (f s)"
  by (simp add: kmod_def)

lemma kassert_apply [kdefs]: "kassert msg p s = (if p s then Ok () s else Panic msg)"
  by (simp add: kassert_def)

lemma kif_apply [kdefs]: "kif p m n s = (if p s then m s else n s)"
  by (simp add: kif_def)

text \<open>A composed piece of code returns exactly when both parts return.\<close>

lemma kbind_Ok_iff:
  "kbind m f s = Ok x t \<longleftrightarrow> (\<exists>y u. m s = Ok y u \<and> f y u = Ok x t)"
  by (auto simp: kbind_def split: outcome.splits)

lemma kthen_Ok_iff:
  "kthen m n s = Ok x t \<longleftrightarrow> (\<exists>y u. m s = Ok y u \<and> n u = Ok x t)"
  by (auto simp: kthen_def kbind_def split: outcome.splits)

lemma kbind_OkE:
  assumes "kbind m f s = Ok x t"
  obtains y u where "m s = Ok y u" and "f y u = Ok x t"
  using assms by (auto simp: kbind_Ok_iff)

lemma kthen_OkE:
  assumes "kthen m n s = Ok x t"
  obtains y u where "m s = Ok y u" and "n u = Ok x t"
  using assms by (auto simp: kthen_Ok_iff)

lemma kassert_Ok_iff: "kassert msg p s = Ok x t \<longleftrightarrow> p s \<and> t = s"
  by (auto simp: kassert_def)

lemma kbind_step: "m s = Ok y u \<Longrightarrow> kbind m f s = f y u"
  by (simp add: kbind_def)

lemma kthen_step: "m s = Ok y u \<Longrightarrow> kthen m n s = n u"
  by (simp add: kthen_def kbind_def)

text \<open>A loop keeps what its body keeps.\<close>

lemma kfor_inv:
  assumes "kfor f xs s = Ok r t" and "P s"
    and "\<And>x s r t. x \<in> set xs \<Longrightarrow> f x s = Ok r t \<Longrightarrow> P s \<Longrightarrow> P t"
  shows "P t"
  using assms
proof (induction xs arbitrary: s)
  case Nil
  then show ?case by (simp add: kret_apply)
next
  case (Cons x xs)
  from Cons.prems(1) obtain y u where u: "f x s = Ok y u" and rest: "kfor f xs u = Ok r t"
    by (auto simp: kthen_Ok_iff)
  have "P u" using Cons.prems(3)[OF _ u Cons.prems(2)] by simp
  moreover have "\<And>z s r t. z \<in> set xs \<Longrightarrow> f z s = Ok r t \<Longrightarrow> P s \<Longrightarrow> P t"
    using Cons.prems(3) by (meson list.set_intros(2))
  ultimately show ?case using Cons.IH[OF rest] by blast
qed

text \<open>A counting loop returns when each iteration leaves what the next one needs.\<close>

lemma kfor_upt_succeeds:
  assumes step: "\<And>i u. m \<le> i \<Longrightarrow> i < n \<Longrightarrow> Q i u \<Longrightarrow> \<exists>t. f i u = Ok () t \<and> Q (Suc i) t"
    and Q: "Q m s" and "m \<le> n"
  shows "\<exists>t. kfor f [m..<n] s = Ok () t \<and> Q n t"
  using assms
proof (induction "n - m" arbitrary: m s)
  case 0
  then show ?case by (simp add: kret_apply)
next
  case (Suc k)
  then have m: "m < n" by simp
  from Suc.prems(1)[OF order_refl m Suc.prems(2)] obtain u where u: "f m s = Ok () u" "Q (Suc m) u" by blast
  have "\<exists>t. kfor f [Suc m..<n] u = Ok () t \<and> Q n t"
    using Suc.hyps(2) m Suc.prems(1) by (intro Suc.hyps(1)) (auto simp: u(2))
  then show ?case using u(1) m by (simp add: upt_conv_Cons kthen_apply)
qed

lemma kfor_append: "kfor f (xs @ ys) = kthen (kfor f xs) (kfor f ys)"
  by (induction xs) (auto simp: kthen_def kbind_def kret_def fun_eq_iff split: outcome.splits)

section \<open>Applying a sequence of block writes\<close>

definition apply_writes :: "('b \<times> 'c) list \<Rightarrow> ('b \<Rightarrow> 'c) \<Rightarrow> 'b \<Rightarrow> 'c" where
  "apply_writes ws d = fold (\<lambda>(b, x) d. d(b := x)) ws d"

lemma apply_writes_simps [simp]:
  "apply_writes [] d = d"
  "apply_writes ((b, x) # ws) d = apply_writes ws (d(b := x))"
  "apply_writes (ws @ vs) d = apply_writes vs (apply_writes ws d)"
  by (simp_all add: apply_writes_def)

lemma apply_writes_other: "b \<notin> fst ` set ws \<Longrightarrow> apply_writes ws d b = d b"
  by (induction ws arbitrary: d) auto

text \<open>When all writes to an address carry the same value, their order does not matter.\<close>

lemma apply_writes_same:
  assumes "\<And>w. w \<in> set ws \<Longrightarrow> fst w = b \<Longrightarrow> snd w = x" and "b \<in> fst ` set ws"
  shows "apply_writes ws d b = x"
  using assms
proof (induction ws arbitrary: d rule: rev_induct)
  case (snoc w ws)
  then show ?case
  proof (cases "fst w = b")
    case True
    then show ?thesis using snoc.prems(1)[of w] by (cases w) simp
  next
    case False
    then show ?thesis using snoc.IH snoc.prems by (cases w) auto
  qed
qed simp

section \<open>Search over an array\<close>

text \<open>
  \<open>findi p n\<close> is the loop \<^verbatim>\<open>for(i = 0; i < n; i++) if(p(i)) ...\<close>: the least index below
  \<open>n\<close> that satisfies \<open>p\<close>.
\<close>

definition findi :: "(nat \<Rightarrow> bool) \<Rightarrow> nat \<Rightarrow> nat option" where
  "findi p n = find p [0..<n]"

lemma find_upt_None: "find p [m..<n] = None \<longleftrightarrow> (\<forall>i. m \<le> i \<and> i < n \<longrightarrow> \<not> p i)"
  by (auto simp: find_None_iff)

lemma findi_None [simp]: "findi p n = None \<longleftrightarrow> (\<forall>i<n. \<not> p i)"
  by (auto simp: findi_def find_None_iff)

lemma findi_Some_iff:
  "findi p n = Some i \<longleftrightarrow> i < n \<and> p i \<and> (\<forall>j<i. \<not> p j)"
proof
  assume "findi p n = Some i"
  then obtain k where k: "k < n" "p ([0..<n] ! k)" "i = [0..<n] ! k" "\<forall>j<k. \<not> p ([0..<n] ! j)"
    by (auto simp: findi_def find_Some_iff)
  then show "i < n \<and> p i \<and> (\<forall>j<i. \<not> p j)"
    by simp
next
  assume h: "i < n \<and> p i \<and> (\<forall>j<i. \<not> p j)"
  then have "\<exists>k<length [0..<n]. p ([0..<n] ! k) \<and> i = [0..<n] ! k \<and> (\<forall>j<k. \<not> p ([0..<n] ! j))"
    by (intro exI[of _ i]) auto
  then show "findi p n = Some i"
    by (simp add: findi_def find_Some_iff)
qed

lemma findi_SomeD:
  assumes "findi p n = Some i"
  shows "i < n" and "p i" and "j < i \<Longrightarrow> \<not> p j"
  using assms by (auto simp: findi_Some_iff)

lemma findi_cong: "(\<And>i. i < n \<Longrightarrow> p i = q i) \<Longrightarrow> findi p n = findi q n"
  by (auto simp: findi_def intro: find_cong)

section \<open>Little-endian words in byte arrays\<close>

definition byte16 :: "u16 \<Rightarrow> nat \<Rightarrow> u8" where
  "byte16 w k = ucast (drop_bit (8 * k) w)"

definition byte32 :: "u32 \<Rightarrow> nat \<Rightarrow> u8" where
  "byte32 w k = ucast (drop_bit (8 * k) w)"

definition le16 :: "bytes \<Rightarrow> nat \<Rightarrow> u16" where
  "le16 b i = ucast (b i) OR push_bit 8 (ucast (b (i + 1)))"

definition le32 :: "bytes \<Rightarrow> nat \<Rightarrow> u32" where
  "le32 b i = ucast (b i) OR push_bit 8 (ucast (b (i + 1)))
      OR push_bit 16 (ucast (b (i + 2))) OR push_bit 24 (ucast (b (i + 3)))"

definition put32 :: "bytes \<Rightarrow> nat \<Rightarrow> u32 \<Rightarrow> bytes" where
  "put32 b i w = (\<lambda>j. if i \<le> j \<and> j < i + 4 then byte32 w (j - i) else b j)"

definition put16 :: "bytes \<Rightarrow> nat \<Rightarrow> u16 \<Rightarrow> bytes" where
  "put16 b i w = (\<lambda>j. if i \<le> j \<and> j < i + 2 then byte16 w (j - i) else b j)"

text \<open>\<^verbatim>\<open>memmove\<close> between two arrays that do not overlap: \<open>n\<close> bytes of \<open>src\<close> at \<open>j\<close> go to \<open>dst\<close> at \<open>i\<close>.\<close>

definition blit :: "bytes \<Rightarrow> nat \<Rightarrow> bytes \<Rightarrow> nat \<Rightarrow> nat \<Rightarrow> bytes" where
  "blit dst i src j n = (\<lambda>k. if i \<le> k \<and> k < i + n then src (j + (k - i)) else dst k)"

lemma unat_bounds:
  "unat (a :: u8) < 2 ^ 8" "unat (b :: u16) < 2 ^ 16" "unat (c :: u32) < 2 ^ 32"
  using unsigned_less[of a] unsigned_less[of b] unsigned_less[of c] by simp_all

lemma unat_of_nat32: "n < 2 ^ 32 \<Longrightarrow> unat (of_nat n :: u32) = n"
  by (simp add: unat_of_nat)

lemma le16_bytes:
  assumes "\<And>k. k < 2 \<Longrightarrow> b (i + k) = byte16 w k"
  shows "le16 b i = w"
proof -
  have b: "b i = byte16 w 0" "b (i + 1) = byte16 w 1"
    using assms[of 0] assms[of 1] by simp_all
  show ?thesis
    unfolding le16_def b byte16_def
    by (rule bit_word_eqI) (auto simp: bit_simps)
qed

lemma le32_bytes:
  assumes "\<And>k. k < 4 \<Longrightarrow> b (i + k) = byte32 w k"
  shows "le32 b i = w"
proof -
  have b: "b i = byte32 w 0" "b (i + 1) = byte32 w 1" "b (i + 2) = byte32 w 2"
    "b (i + 3) = byte32 w 3"
    using assms[of 0] assms[of 1] assms[of 2] assms[of 3] by simp_all
  show ?thesis
    unfolding le32_def b byte32_def
  proof (rule bit_word_eqI)
    fix n
    assume "n < LENGTH(32)"
    then consider "n < 8" | "8 \<le> n" "n < 16" | "16 \<le> n" "n < 24" | "24 \<le> n" "n < 32"
      by force
    then show "bit (ucast (ucast (drop_bit (8 * 0) w) :: u8)
        OR push_bit 8 (ucast (ucast (drop_bit (8 * 1) w) :: u8))
        OR push_bit 16 (ucast (ucast (drop_bit (8 * 2) w) :: u8))
        OR push_bit 24 (ucast (ucast (drop_bit (8 * 3) w) :: u8)) :: u32) n = bit w n"
      by cases (auto simp: bit_simps)
  qed
qed

lemma le32_put32_same [simp]: "le32 (put32 b i w) i = w"
  by (rule le32_bytes) (simp add: put32_def)

lemma le32_put32_other [simp]:
  "j + 4 \<le> i \<or> i + 4 \<le> j \<Longrightarrow> le32 (put32 b i w) j = le32 b j"
  by (auto simp: le32_def put32_def)

lemma le16_put16_same [simp]: "le16 (put16 b i w) i = w"
  by (rule le16_bytes) (simp add: put16_def)

lemma le16_put16_other [simp]: "j + 2 \<le> i \<or> i + 2 \<le> j \<Longrightarrow> le16 (put16 b i w) j = le16 b j"
  by (auto simp: le16_def put16_def)

lemma le16_put32_other [simp]: "j + 2 \<le> i \<or> i + 4 \<le> j \<Longrightarrow> le16 (put32 b i w) j = le16 b j"
  by (auto simp: le16_def put32_def)

lemma le32_put16_other [simp]: "j + 4 \<le> i \<or> i + 2 \<le> j \<Longrightarrow> le32 (put16 b i w) j = le32 b j"
  by (auto simp: le32_def put16_def)

lemma le32_zero [simp]: "le32 (\<lambda>_. 0) i = 0"
  by (simp add: le32_def)

end
