(* ===== verification/Ring.thy ===== *)
theory Ring
  imports Xv6_Prelude
begin

text \<open>
  A ring buffer of \<open>N\<close> bytes indexed by two free-running 32-bit counters, as the pipes and the
  console keep them: the bytes between the counters are a queue. The locale holds for
  every size that divides \<open>2 ^ 32\<close>, so that the counters may wrap around.
\<close>

definition ring_list :: "nat \<Rightarrow> bytes \<Rightarrow> u32 \<Rightarrow> u32 \<Rightarrow> u8 list" where
  "ring_list N d r w = map (\<lambda>k. d (unat (r + of_nat k) mod N)) [0..<unat (w - r)]"

lemma ring_list_length [simp]: "length (ring_list N d r w) = unat (w - r)"
  by (simp add: ring_list_def)

lemma ring_list_empty [simp]: "ring_list N d r r = []"
  by (simp add: ring_list_def)

text \<open>Parts of the queue, and its newest element.\<close>

lemma ring_list_take:
  assumes "unat (w - r) \<le> unat (e - r)"
  shows "ring_list N d r w = take (unat (w - r)) (ring_list N d r e)"
  using assms by (simp add: ring_list_def take_map)

lemma ring_count_pred:
  assumes "r \<noteq> (w :: u32)"
  shows "unat (w - 1 - r) = unat (w - r) - 1" "0 < unat (w - r)"
proof -
  have "w - r \<noteq> 0" using assms by simp
  then show "unat (w - 1 - r) = unat (w - r) - 1" "0 < unat (w - r)"
    using unat_minus_one[of "w - r"] by (simp_all add: algebra_simps unat_gt_0)
qed

lemma ring_unput:
  assumes "r \<noteq> w"
  shows "ring_list N d r (w - 1) = butlast (ring_list N d r w)"
  using ring_list_take[of "w - 1" r w N d] ring_count_pred[OF assms]
  by (simp add: butlast_conv_take)

lemma ring_last:
  assumes "r \<noteq> w"
  shows "d (unat (w - 1) mod N) = last (ring_list N d r w)"
proof -
  let ?n = "unat (w - r)"
  have "of_nat (?n - 1) = w - r - 1" using ring_count_pred[OF assms] by (simp add: of_nat_diff)
  then have "r + of_nat (?n - 1) = w - 1" by simp
  moreover have "last (ring_list N d r w) = ring_list N d r w ! (?n - 1)"
    using ring_count_pred(2)[OF assms] by (simp add: last_conv_nth ring_list_def)
  ultimately show ?thesis using ring_count_pred(2)[OF assms] by (simp add: ring_list_def)
qed

locale ring_buffer =
  fixes N :: nat
  assumes size_pos: "0 < N" and size_dvd: "N dvd 2 ^ 32"
begin

lemma ring_index: "unat (r + of_nat k :: u32) mod N = (unat r + k) mod N"
proof -
  have "unat (r + of_nat k :: u32) = (unat r + k) mod 2 ^ 32"
    by (simp add: unat_word_ariths(1) unat_of_nat mod_add_right_eq)
  then show ?thesis using size_dvd by (simp add: mod_mod_cancel)
qed

lemma size_le: "N \<le> 2 ^ 32"
  using size_dvd by (simp add: dvd_imp_le)

text \<open>Indices less than \<open>N\<close> apart do not collide.\<close>

lemma index_apart:
  assumes "j < k" "k < j + N"
  shows "(a + j) mod N \<noteq> (a + k) mod N"
proof
  assume "(a + j) mod N = (a + k) mod N"
  then have "N dvd (a + k) - (a + j)" by (metis mod_eq_dvd_iff_nat assms(1) add_le_cancel_left less_imp_le)
  then have "N dvd k - j" by simp
  moreover have "0 < k - j" "k - j < N" using assms by auto
  ultimately show False using nat_dvd_not_less by blast
qed

lemma count_Suc:
  assumes "unat (w - r) < N" "N < 2 ^ 32"
  shows "unat (w + 1 - r :: u32) = Suc (unat (w - r))"
proof -
  have "unat (w - r) + 1 < 2 ^ 32" using assms by linarith
  then have "unat ((w - r) + 1) = Suc (unat (w - r))" using unat_word_ariths(1)[of "w - r" 1] by simp
  moreover have "w + 1 - r = (w - r) + 1" by simp
  ultimately show ?thesis by (simp only:)
qed

lemma ring_put:
  assumes room: "unat (w - r) < N" and big: "N < 2 ^ 32"
  shows "ring_list N (d(unat w mod N := c)) r (w + 1) = ring_list N d r w @ [c]"
proof -
  let ?n = "unat (w - r)"
  have w: "unat w mod N = (unat r + ?n) mod N"
    using ring_index[of r ?n] by simp
  have "(d(unat w mod N := c)) (unat (r + of_nat k) mod N) = d (unat (r + of_nat k) mod N)" if "k < ?n" for k
    using index_apart[of k ?n "unat r"] that room by (simp add: w ring_index)
  moreover have "(d(unat w mod N := c)) (unat (r + of_nat ?n) mod N) = c" by (simp only: w ring_index fun_upd_same)
  ultimately show ?thesis unfolding ring_list_def count_Suc[OF room big] by (simp add: w)
qed

lemma ring_get:
  assumes "r \<noteq> w"
  shows "ring_list N d r w = d (unat r mod N) # ring_list N d (r + 1) w"
proof -
  have "w - r \<noteq> 0" using assms by simp
  then have "unat (w - (r + 1)) = unat (w - r) - 1" "0 < unat (w - r)"
    using unat_minus_one[of "w - r"] by (simp_all add: diff_diff_eq unat_gt_0)
  then have n: "unat (w - r) = Suc (unat (w - (r + 1)))" by simp
  show ?thesis
    unfolding ring_list_def n upt_conv_Cons[OF zero_less_Suc] map_Suc_upt[symmetric]
    by (simp add: algebra_simps)
qed

end

end
