(* ===== verification/Kstring.thy ===== *)
theory Kstring
  imports Xv6_Prelude
begin

text \<open>
  The kernel's memory and string functions (\<^verbatim>\<open>kernel/string.c\<close>).

  The functions that write through possibly overlapping pointers (\<^verbatim>\<open>memset\<close>, \<^verbatim>\<open>memmove\<close>)
  work on a memory \<open>u32 \<Rightarrow> u8\<close> with the address arithmetic of the machine. The others read
  through their pointers, or write to one array: a pointer is the array as seen from it
  (\<open>bytes\<close>), and a function that writes returns the new contents.
\<close>

type_synonym mem = "u32 \<Rightarrow> u8"

section \<open>memset\<close>

text \<open>\<^verbatim>\<open>rep stosb\<close> and \<^verbatim>\<open>rep stosl\<close> of \<^verbatim>\<open>x86.h\<close>.\<close>

fun stosb :: "mem \<Rightarrow> u32 \<Rightarrow> u8 \<Rightarrow> nat \<Rightarrow> mem" where
  "stosb m a c 0 = m"
| "stosb m a c (Suc n) = stosb (m(a := c)) (a + 1) c n"

definition store32 :: "mem \<Rightarrow> u32 \<Rightarrow> u32 \<Rightarrow> mem" where
  "store32 m a w = m(a := byte32 w 0, a + 1 := byte32 w 1, a + 2 := byte32 w 2, a + 3 := byte32 w 3)"

fun stosl :: "mem \<Rightarrow> u32 \<Rightarrow> u32 \<Rightarrow> nat \<Rightarrow> mem" where
  "stosl m a w 0 = m"
| "stosl m a w (Suc n) = stosl (store32 m a w) (a + 4) w n"

definition memset :: "mem \<Rightarrow> u32 \<Rightarrow> u32 \<Rightarrow> u32 \<Rightarrow> mem" where
  "memset m dst c n =
     (if dst mod 4 = 0 \<and> n mod 4 = 0
      then let c = c AND 0xFF in
        stosl m dst (push_bit 24 c OR push_bit 16 c OR push_bit 8 c OR c) (unat (n div 4))
      else stosb m dst (ucast c) (unat n))"

lemma stosb_add: "stosb m a c (k + n) = stosb (stosb m a c k) (a + of_nat k) c n"
  by (induction k arbitrary: m a) (simp_all add: algebra_simps)

lemma fill_byte_aux:
  fixes x c :: u32
  assumes m: "\<And>n. bit x n \<longleftrightarrow> n < 8 \<and> bit c n" and "k < 4"
  shows "byte32 (push_bit 24 x OR push_bit 16 x OR push_bit 8 x OR x) k = (ucast c :: u8)"
proof -
  from \<open>k < 4\<close> consider "k = 0" | "k = 1" | "k = 2" | "k = 3" by force
  then show ?thesis
    unfolding byte32_def
  proof cases
    case 1
    show "(ucast (drop_bit (8 * k) (push_bit 24 x OR push_bit 16 x OR push_bit 8 x OR x)) :: u8) = ucast c"
      unfolding 1 by (rule bit_word_eqI) (auto simp: bit_simps m)
  next
    case 2
    show "(ucast (drop_bit (8 * k) (push_bit 24 x OR push_bit 16 x OR push_bit 8 x OR x)) :: u8) = ucast c"
      unfolding 2 by (rule bit_word_eqI) (auto simp: bit_simps m)
  next
    case 3
    show "(ucast (drop_bit (8 * k) (push_bit 24 x OR push_bit 16 x OR push_bit 8 x OR x)) :: u8) = ucast c"
      unfolding 3 by (rule bit_word_eqI) (auto simp: bit_simps m)
  next
    case 4
    show "(ucast (drop_bit (8 * k) (push_bit 24 x OR push_bit 16 x OR push_bit 8 x OR x)) :: u8) = ucast c"
      unfolding 4 by (rule bit_word_eqI) (auto simp: bit_simps m)
  qed
qed

lemma fill_byte:
  assumes "k < 4"
  shows "byte32 (push_bit 24 (c AND 0xFF) OR push_bit 16 (c AND 0xFF) OR push_bit 8 (c AND 0xFF) OR (c AND 0xFF)) k
    = (ucast c :: u8)"
proof (rule fill_byte_aux[OF _ assms])
  have m: "(0xFF :: u32) = mask 8" by (simp add: mask_eq_exp_minus_1)
  show "bit (c AND 0xFF) n \<longleftrightarrow> n < 8 \<and> bit c n" for n
    unfolding m by (auto simp: bit_and_iff bit_mask_iff dest: bit_imp_le_length)
qed

lemma store32_fill:
  assumes "\<And>k. k < 4 \<Longrightarrow> byte32 w k = c"
  shows "store32 m a w = stosb m a c 4"
  using assms[of 0] assms[of 1] assms[of 2] assms[of 3]
  by (simp add: store32_def numeral_eq_Suc add.assoc)

lemma stosl_fill:
  assumes "\<And>k. k < 4 \<Longrightarrow> byte32 w k = c"
  shows "stosl m a w n = stosb m a c (4 * n)"
proof (induction n arbitrary: m a)
  case (Suc n)
  have "stosb m a c (4 * Suc n) = stosb (stosb m a c 4) (a + 4) c (4 * n)"
    using stosb_add[of m a c 4 "4 * n"] by simp
  then show ?case using Suc.IH store32_fill[OF assms] by simp
qed simp

lemma unat_sub_Suc:
  fixes x a :: u32
  assumes "x \<noteq> a"
  shows "unat (x - a) = Suc (unat (x - (a + 1)))"
proof -
  have "x - a \<noteq> 0" using assms by simp
  from unat_minus_one[OF this] have "unat (x - (a + 1)) = unat (x - a) - 1" by (simp add: diff_diff_eq)
  moreover have "0 < unat (x - a)" using \<open>x - a \<noteq> 0\<close> by (simp add: unat_gt_0)
  ultimately show ?thesis by simp
qed

lemma stosb_at:
  "n < 2 ^ 32 \<Longrightarrow> stosb m a c n x = (if unat (x - a) < n then c else m x)"
proof (induction n arbitrary: m a)
  case (Suc n)
  then have IH: "stosb m a c (Suc n) x = (if unat (x - (a + 1)) < n then c else (m(a := c)) x)" by simp
  show ?case
  proof (cases "x = a")
    case True
    then show ?thesis using IH by simp
  next
    case False
    then show ?thesis using IH unat_sub_Suc[OF False] by simp
  qed
qed simp

lemma memset_at: "memset m dst c n a = (if a - dst < n then ucast c else m a)"
proof -
  have lt: "unat n < 2 ^ 32" by (rule unat_bounds(3))
  have "memset m dst c n = stosb m dst (ucast c) (unat n)"
  proof (cases "dst mod 4 = 0 \<and> n mod 4 = 0")
    case True
    then have "unat (n mod 4) = 0" by simp
    then have "unat n mod 4 = 0" by (simp add: unat_mod)
    then have "4 * unat (n div 4) = unat n" by (simp add: unat_div dvd_eq_mod_eq_0[symmetric])
    then show ?thesis
      using True stosl_fill[OF fill_byte, of m dst c "unat (n div 4)"] by (simp add: memset_def Let_def)
  qed (auto simp: memset_def)
  then show ?thesis using stosb_at[OF lt] by (simp add: word_less_nat_alt)
qed

section \<open>memmove\<close>

fun copy_forward :: "mem \<Rightarrow> u32 \<Rightarrow> u32 \<Rightarrow> nat \<Rightarrow> mem" where
  "copy_forward m d s 0 = m"
| "copy_forward m d s (Suc n) = copy_forward (m(d := m s)) (d + 1) (s + 1) n"

fun copy_backward :: "mem \<Rightarrow> u32 \<Rightarrow> u32 \<Rightarrow> nat \<Rightarrow> mem" where
  "copy_backward m d s 0 = m"
| "copy_backward m d s (Suc n) = copy_backward (m(d - 1 := m (s - 1))) (d - 1) (s - 1) n"

definition memmove :: "mem \<Rightarrow> u32 \<Rightarrow> u32 \<Rightarrow> u32 \<Rightarrow> mem" where
  "memmove m dst src n =
     (if src < dst \<and> src + n > dst then copy_backward m (dst + n) (src + n) (unat n)
      else copy_forward m dst src (unat n))"

definition memcpy :: "mem \<Rightarrow> u32 \<Rightarrow> u32 \<Rightarrow> u32 \<Rightarrow> mem" where
  "memcpy m dst src n = memmove m dst src n"

lemma addr_nat:
  fixes a :: u32
  assumes "unat a + n \<le> 2 ^ 32" "k < n"
  shows "unat (a + of_nat k) = unat a + k"
proof -
  have "k < 2 ^ 32" using assms by linarith
  then have "unat (of_nat k :: u32) = k" by (simp add: unat_of_nat)
  then show ?thesis using assms by (subst unat_plus_simple[THEN iffD1]) (auto simp: no_olen_add_nat)
qed

lemma addr_eq_iff:
  fixes a b :: u32
  assumes "unat a + n \<le> 2 ^ 32" "unat b + n \<le> 2 ^ 32" "j < n" "k < n"
  shows "a + of_nat j = b + of_nat k \<longleftrightarrow> unat a + j = unat b + k"
  using addr_nat[OF assms(1,3)] addr_nat[OF assms(2,4)] by (metis word_unat_eq_iff)

lemma copy_forward_at:
  assumes "unat d + n \<le> 2 ^ 32" "unat s + n \<le> 2 ^ 32" "unat d \<le> unat s \<or> unat s + n \<le> unat d"
  shows "k < n \<Longrightarrow> copy_forward m d s n (d + of_nat k) = m (s + of_nat k)"
    and "(\<And>k. k < n \<Longrightarrow> x \<noteq> d + of_nat k) \<Longrightarrow> copy_forward m d s n x = m x"
proof -
  have "(\<forall>k<n. copy_forward m d s n (d + of_nat k) = m (s + of_nat k)) \<and>
    (\<forall>x. (\<forall>k<n. x \<noteq> d + of_nat k) \<longrightarrow> copy_forward m d s n x = m x)"
    using assms
  proof (induction n arbitrary: m d s)
    case (Suc n)
    show ?case
    proof (cases "n = 0")
      case True
      then show ?thesis by simp
    next
      case False
      have d1: "unat (d + 1) = unat d + 1" and s1: "unat (s + 1) = unat s + 1"
        using addr_nat[of d "Suc n" 1] addr_nat[of s "Suc n" 1] Suc.prems False by simp_all
      define m' where "m' = m(d := m s)"
      have step: "copy_forward m d s (Suc n) = copy_forward m' (d + 1) (s + 1) n" by (simp add: m'_def)
      have ov: "unat (d + 1) \<le> unat (s + 1) \<or> unat (s + 1) + n \<le> unat (d + 1)"
        using Suc.prems(3) d1 s1 by linarith
      have IH: "\<forall>k<n. copy_forward m' (d + 1) (s + 1) n (d + 1 + of_nat k) = m' (s + 1 + of_nat k)"
        "\<forall>x. (\<forall>k<n. x \<noteq> d + 1 + of_nat k) \<longrightarrow> copy_forward m' (d + 1) (s + 1) n x = m' x"
        using Suc.IH[of "d + 1" "s + 1" m', OF _ _ ov] Suc.prems d1 s1 by simp_all
      have ne: "d \<noteq> s + of_nat (Suc k)" if "k < n" for k
        using addr_eq_iff[of d "Suc n" s 0 "Suc k"] Suc.prems that by auto
      have nd: "d \<noteq> d + of_nat (Suc k)" if "k < n" for k
        using addr_eq_iff[of d "Suc n" d 0 "Suc k"] Suc.prems that by auto
      have "copy_forward m d s (Suc n) (d + of_nat k) = m (s + of_nat k)" if "k < Suc n" for k
      proof (cases k)
        case 0
        have "\<forall>k<n. d \<noteq> d + 1 + of_nat k" using nd by (auto simp: algebra_simps)
        then have "copy_forward m' (d + 1) (s + 1) n d = m' d" using IH(2) by blast
        then show ?thesis unfolding step using 0 by (simp add: m'_def)
      next
        case (Suc j)
        then have "copy_forward m' (d + 1) (s + 1) n (d + 1 + of_nat j) = m' (s + 1 + of_nat j)" using IH(1) that by simp
        moreover have "m' (s + 1 + of_nat j) = m (s + 1 + of_nat j)"
          using ne[of j] that Suc by (simp add: m'_def algebra_simps)
        ultimately show ?thesis unfolding step using Suc by (simp add: algebra_simps)
      qed
      moreover have "copy_forward m d s (Suc n) x = m x" if "\<forall>k<Suc n. x \<noteq> d + of_nat k" for x
      proof -
        have "x \<noteq> d" using that[rule_format, of 0] by simp
        moreover have "\<forall>k<n. x \<noteq> d + 1 + of_nat k"
          using that[rule_format, of "Suc k" for k] by (auto simp: algebra_simps)
        ultimately show ?thesis unfolding step using IH(2) by (simp add: m'_def)
      qed
      ultimately show ?thesis by blast
    qed
  qed simp
  then show "k < n \<Longrightarrow> copy_forward m d s n (d + of_nat k) = m (s + of_nat k)"
    "(\<And>k. k < n \<Longrightarrow> x \<noteq> d + of_nat k) \<Longrightarrow> copy_forward m d s n x = m x" by blast+
qed

text \<open>The backward loop is called with the ends of the two areas.\<close>

lemma copy_backward_at:
  assumes "unat d + n \<le> 2 ^ 32" "unat s + n \<le> 2 ^ 32" "unat s \<le> unat d"
  shows "k < n \<Longrightarrow> copy_backward m (d + of_nat n) (s + of_nat n) n (d + of_nat k) = m (s + of_nat k)"
    and "(\<And>k. k < n \<Longrightarrow> x \<noteq> d + of_nat k) \<Longrightarrow> copy_backward m (d + of_nat n) (s + of_nat n) n x = m x"
proof -
  have "(\<forall>k<n. copy_backward m (d + of_nat n) (s + of_nat n) n (d + of_nat k) = m (s + of_nat k)) \<and>
    (\<forall>x. (\<forall>k<n. x \<noteq> d + of_nat k) \<longrightarrow> copy_backward m (d + of_nat n) (s + of_nat n) n x = m x)"
    using assms
  proof (induction n arbitrary: m)
    case (Suc n)
    define m' where "m' = m(d + of_nat n := m (s + of_nat n))"
    have step: "copy_backward m (d + of_nat (Suc n)) (s + of_nat (Suc n)) (Suc n) = copy_backward m' (d + of_nat n) (s + of_nat n) n"
      by (simp add: algebra_simps m'_def)
    have IH: "\<forall>k<n. copy_backward m' (d + of_nat n) (s + of_nat n) n (d + of_nat k) = m' (s + of_nat k)"
      "\<forall>x. (\<forall>k<n. x \<noteq> d + of_nat k) \<longrightarrow> copy_backward m' (d + of_nat n) (s + of_nat n) n x = m' x"
      using Suc.IH[of m'] Suc.prems by simp_all
    have ne: "s + of_nat k \<noteq> d + of_nat n" if "k < n" for k
      using addr_eq_iff[of s "Suc n" d k n] Suc.prems that by auto
    have nd: "d + of_nat n \<noteq> d + of_nat k" if "k < n" for k
      using addr_eq_iff[of d "Suc n" d n k] Suc.prems that by auto
    have "copy_backward m (d + of_nat (Suc n)) (s + of_nat (Suc n)) (Suc n) (d + of_nat k) = m (s + of_nat k)" if "k < Suc n" for k
    proof (cases "k = n")
      case True
      then have "copy_backward m' (d + of_nat n) (s + of_nat n) n (d + of_nat n) = m' (d + of_nat n)" using IH(2) nd by blast
      then show ?thesis unfolding step using True by (simp add: m'_def)
    next
      case False
      then show ?thesis unfolding step using IH(1) ne[of k] that by (simp add: m'_def)
    qed
    moreover have "copy_backward m (d + of_nat (Suc n)) (s + of_nat (Suc n)) (Suc n) x = m x" if "\<forall>k<Suc n. x \<noteq> d + of_nat k" for x
    proof -
      have "\<forall>k<n. x \<noteq> d + of_nat k" "x \<noteq> d + of_nat n" using that by auto
      then show ?thesis unfolding step using IH(2) by (simp add: m'_def)
    qed
    ultimately show ?case by blast
  qed simp
  then show "k < n \<Longrightarrow> copy_backward m (d + of_nat n) (s + of_nat n) n (d + of_nat k) = m (s + of_nat k)"
    "(\<And>k. k < n \<Longrightarrow> x \<noteq> d + of_nat k) \<Longrightarrow> copy_backward m (d + of_nat n) (s + of_nat n) n x = m x" by blast+
qed

section \<open>Comparing\<close>

fun memcmp :: "bytes \<Rightarrow> bytes \<Rightarrow> nat \<Rightarrow> int" where
  "memcmp s1 s2 0 = 0"
| "memcmp s1 s2 (Suc n) =
     (if s1 0 \<noteq> s2 0 then int (unat (s1 0)) - int (unat (s2 0))
      else memcmp (\<lambda>i. s1 (Suc i)) (\<lambda>i. s2 (Suc i)) n)"

fun strncmp :: "bytes \<Rightarrow> bytes \<Rightarrow> nat \<Rightarrow> int" where
  "strncmp p q 0 = 0"
| "strncmp p q (Suc n) =
     (if p 0 \<noteq> 0 \<and> p 0 = q 0 then strncmp (\<lambda>i. p (Suc i)) (\<lambda>i. q (Suc i)) n
      else int (unat (p 0)) - int (unat (q 0)))"

lemma memcmp_zero_iff: "memcmp s1 s2 n = 0 \<longleftrightarrow> (\<forall>i<n. s1 i = s2 i)"
proof (induction n arbitrary: s1 s2)
  case (Suc n)
  have "int (unat (s1 0)) - int (unat (s2 0)) \<noteq> 0" if "s1 0 \<noteq> s2 0"
    using that by (simp add: word_uint_eq_iff)
  then show ?case using Suc.IH by (auto simp: less_Suc_eq_0_disj)
qed simp

text \<open>Equality of two names of at most \<open>n\<close> characters, NUL-terminated when shorter.\<close>

definition same_name :: "bytes \<Rightarrow> bytes \<Rightarrow> nat \<Rightarrow> bool" where
  "same_name p q n \<longleftrightarrow> (\<forall>i<n. (\<forall>j<i. p j \<noteq> 0) \<longrightarrow> p i = q i)"

lemma same_name_Suc:
  "same_name p q (Suc n) \<longleftrightarrow> p 0 = q 0 \<and> (p 0 \<noteq> 0 \<longrightarrow> same_name (\<lambda>i. p (Suc i)) (\<lambda>i. q (Suc i)) n)"
proof -
  have "(\<forall>j<Suc i. p j \<noteq> 0) \<longleftrightarrow> p 0 \<noteq> 0 \<and> (\<forall>j<i. p (Suc j) \<noteq> 0)" for i
    by (auto simp: less_Suc_eq_0_disj)
  then show ?thesis unfolding same_name_def by (auto simp: less_Suc_eq_0_disj)
qed

lemma strncmp_same: "strncmp p q n = 0 \<longleftrightarrow> same_name p q n"
proof (induction n arbitrary: p q)
  case 0
  then show ?case by (simp add: same_name_def)
next
  case (Suc n)
  show ?case
  proof (cases "p 0 = q 0")
    case True
    then show ?thesis using Suc.IH by (simp add: same_name_Suc)
  next
    case False
    then show ?thesis by (simp add: same_name_Suc word_uint_eq_iff)
  qed
qed

lemma same_name_refl [simp]: "same_name p p n"
  by (simp add: same_name_def)

lemma same_name_sym:
  assumes "same_name p q n"
  shows "same_name q p n"
proof -
  have "i < n \<Longrightarrow> (\<forall>j<i. q j \<noteq> 0) \<Longrightarrow> q i = p i" for i
  proof (induction i rule: less_induct)
    case (less i)
    have "p j \<noteq> 0" if "j < i" for j using less.IH[OF that] less.prems that by auto
    then show ?case using assms less.prems(1) by (auto simp: same_name_def)
  qed
  then show ?thesis unfolding same_name_def by blast
qed

section \<open>Copying strings\<close>

text \<open>
  \<open>i\<close> counts the increments of \<^verbatim>\<open>s\<close> and \<^verbatim>\<open>t\<close>. Each loop returns its values of \<open>i\<close> and \<open>n\<close>
  after the last, failed, test.
\<close>

function strncpy_copy :: "bytes \<Rightarrow> bytes \<Rightarrow> nat \<Rightarrow> int \<Rightarrow> bytes \<times> nat \<times> int" where
  "strncpy_copy s t i n =
     (if n > 0 then (if t i \<noteq> 0 then strncpy_copy (s(i := t i)) t (i + 1) (n - 1)
                     else (s(i := t i), i + 1, n - 1))
      else (s, i, n - 1))"
  by pat_completeness auto
termination by (relation "measure (\<lambda>(s, t, i, n). nat n)") auto

function strncpy_pad :: "bytes \<Rightarrow> nat \<Rightarrow> int \<Rightarrow> bytes" where
  "strncpy_pad s i n = (if n > 0 then strncpy_pad (s(i := 0)) (i + 1) (n - 1) else s)"
  by pat_completeness auto
termination by (relation "measure (\<lambda>(s, i, n). nat n)") auto

definition strncpy :: "bytes \<Rightarrow> bytes \<Rightarrow> int \<Rightarrow> bytes" where
  "strncpy s t n = (case strncpy_copy s t 0 n of (s, i, n) \<Rightarrow> strncpy_pad s i n)"

function safestrcpy_copy :: "bytes \<Rightarrow> bytes \<Rightarrow> nat \<Rightarrow> int \<Rightarrow> bytes \<times> nat" where
  "safestrcpy_copy s t i n =
     (let n = n - 1 in
      if n > 0 then (if t i \<noteq> 0 then safestrcpy_copy (s(i := t i)) t (i + 1) n
                     else (s(i := t i), i + 1))
      else (s, i))"
  by pat_completeness auto
termination by (relation "measure (\<lambda>(s, t, i, n). nat n)") auto

definition safestrcpy :: "bytes \<Rightarrow> bytes \<Rightarrow> int \<Rightarrow> bytes" where
  "safestrcpy s t n = (if n \<le> 0 then s else case safestrcpy_copy s t 0 n of (s, i) \<Rightarrow> s(i := 0))"

partial_function (option) strlen_from :: "bytes \<Rightarrow> nat \<Rightarrow> nat option" where
  "strlen_from s n = (if s n \<noteq> 0 then strlen_from s (n + 1) else Some n)"

definition strlen :: "bytes \<Rightarrow> nat option" where
  "strlen s = strlen_from s 0"

declare strncpy_copy.simps [simp del] strncpy_pad.simps [simp del] safestrcpy_copy.simps [simp del]

lemma strncpy_pad_at: "strncpy_pad s i n j = (if i \<le> j \<and> int j < int i + n then 0 else s j)"
proof (induction s i n rule: strncpy_pad.induct)
  case (1 s i n)
  show ?case
  proof (cases "n > 0")
    case True
    have "strncpy_pad s i n j = strncpy_pad (s(i := 0)) (i + 1) (n - 1) j"
      by (subst strncpy_pad.simps) (simp only: True if_True)
    also have "\<dots> = (if i + 1 \<le> j \<and> int j < int (i + 1) + (n - 1) then 0 else (s(i := 0)) j)"
      by (rule 1[OF True])
    finally show ?thesis using True by auto
  qed (subst strncpy_pad.simps, auto)
qed

text \<open>The first \<open>n\<close> bytes become the string \<open>t\<close>, cut at \<open>n\<close> or padded with NULs.\<close>

definition name_field :: "bytes \<Rightarrow> nat \<Rightarrow> u8" where
  "name_field t j = (if \<exists>k<j. t k = 0 then 0 else t j)"

lemma strncpy_aux:
  assumes "\<And>k. k < i \<Longrightarrow> t k \<noteq> 0"
  shows "(case strncpy_copy s t i n of (s, i, n) \<Rightarrow> strncpy_pad s i n) j =
    (if i \<le> j \<and> int j < int i + n then name_field t j else s j)"
  using assms
proof (induction s t i n rule: strncpy_copy.induct)
  case (1 s t i n)
  consider "n \<le> 0" | "n > 0" "t i = 0" | "n > 0" "t i \<noteq> 0" by linarith
  then show ?case
  proof cases
    case 1
    then have "strncpy_copy s t i n = (s, i, n - 1)" by (subst strncpy_copy.simps) simp
    then show ?thesis using 1 by (auto simp: strncpy_pad_at)
  next
    case 2
    then have e: "strncpy_copy s t i n = (s(i := t i), i + 1, n - 1)" by (subst strncpy_copy.simps) simp
    have "name_field t j = 0" if "i \<le> j" using that 2(2) by (auto simp: name_field_def le_less)
    then show ?thesis using 2 by (auto simp: e strncpy_pad_at)
  next
    case 3
    then have e: "strncpy_copy s t i n = strncpy_copy (s(i := t i)) t (i + 1) (n - 1)"
      by (subst strncpy_copy.simps) (simp only: if_True not_False_eq_True)
    have pre: "\<And>k. k < i + 1 \<Longrightarrow> t k \<noteq> 0" using 1(2) 3(2) by (auto simp: less_Suc_eq)
    have "name_field t i = t i" using 1(2) by (auto simp: name_field_def)
    moreover have "(case strncpy_copy s t i n of (s, i, n) \<Rightarrow> strncpy_pad s i n) j =
        (if i + 1 \<le> j \<and> int j < int (i + 1) + (n - 1) then name_field t j else (s(i := t i)) j)"
      unfolding e by (rule 1(1)[OF 3 pre])
    ultimately show ?thesis using 3 by auto
  qed
qed

lemma strncpy_at: "strncpy s t n j = (if int j < n then name_field t j else s j)"
  unfolding strncpy_def using strncpy_aux[of 0 t s n j] by simp

lemma name_field_same: "same_name t u n \<Longrightarrow> j < n \<Longrightarrow> name_field t j = name_field u j"
proof -
  assume s: "same_name t u n" and j: "j < n"
  show "name_field t j = name_field u j"
  proof (cases "\<exists>k<j. t k = 0")
    case False
    then have "t k = u k" if "k \<le> j" for k using s j that by (auto simp: same_name_def)
    then show ?thesis using False by (auto simp: name_field_def)
  next
    case True
    define k where "k = (LEAST k. t k = 0)"
    from True obtain k' where "k' < j" "t k' = 0" by blast
    then have k: "k < j" "t k = 0"
      using Least_le[of "\<lambda>k. t k = 0" k'] LeastI[of "\<lambda>k. t k = 0" k'] by (simp_all add: k_def)
    moreover have "\<forall>i<k. t i \<noteq> 0" unfolding k_def by (blast dest: not_less_Least)
    ultimately have "u k = 0" using s j by (auto simp: same_name_def)
    then show ?thesis using True k(1) by (auto simp: name_field_def)
  qed
qed

lemma same_name_field: "same_name t (name_field t) n"
  by (auto simp: same_name_def name_field_def)

lemma safestrcpy_copy_at:
  assumes "\<And>k. k < i \<Longrightarrow> t k \<noteq> 0" "n > 0"
  shows "case safestrcpy_copy s t i n of (u, m) \<Rightarrow>
    i \<le> m \<and> int m < int i + n \<and> (\<forall>j. u j = (if i \<le> j \<and> j < m then t j else s j)) \<and>
    (\<forall>k. k + 1 < m \<longrightarrow> t k \<noteq> 0) \<and> (int m + 1 = int i + n \<or> 0 < m \<and> t (m - 1) = 0)"
  using assms
proof (induction s t i n rule: safestrcpy_copy.induct)
  case (1 s t i n)
  consider "n - 1 \<le> 0" | "n - 1 > 0" "t i = 0" | "n - 1 > 0" "t i \<noteq> 0" by linarith
  then show ?case
  proof cases
    case 1
    then have "safestrcpy_copy s t i n = (s, i)" by (subst safestrcpy_copy.simps) (simp add: Let_def)
    then show ?thesis using "1.prems" 1 by auto
  next
    case 2
    then have e: "safestrcpy_copy s t i n = (s(i := t i), i + 1)"
      by (subst safestrcpy_copy.simps) (simp add: Let_def)
    show ?thesis using "1.prems" 2 by (auto simp: e)
  next
    case 3
    then have e: "safestrcpy_copy s t i n = safestrcpy_copy (s(i := t i)) t (i + 1) (n - 1)"
      by (subst safestrcpy_copy.simps) (simp only: Let_def if_True not_False_eq_True)
    have pre: "\<And>k. k < i + 1 \<Longrightarrow> t k \<noteq> 0" using "1.prems"(1) 3(2) by (auto simp: less_Suc_eq)
    obtain u m where um: "safestrcpy_copy (s(i := t i)) t (i + 1) (n - 1) = (u, m)" by fastforce
    have "case safestrcpy_copy (s(i := t i)) t (i + 1) (n - 1) of (u, m) \<Rightarrow>
      i + 1 \<le> m \<and> int m < int (i + 1) + (n - 1) \<and>
      (\<forall>j. u j = (if i + 1 \<le> j \<and> j < m then t j else (s(i := t i)) j)) \<and>
      (\<forall>k. k + 1 < m \<longrightarrow> t k \<noteq> 0) \<and> (int m + 1 = int (i + 1) + (n - 1) \<or> 0 < m \<and> t (m - 1) = 0)"
      by (rule "1.IH"[OF refl 3(1) 3(2)]) (use pre 3 in auto)
    then have IH: "i + 1 \<le> m" "int m < int i + n" "\<forall>j. u j = (if i + 1 \<le> j \<and> j < m then t j else (s(i := t i)) j)"
      "\<forall>k. k + 1 < m \<longrightarrow> t k \<noteq> 0" "int m + 1 = int i + n \<or> 0 < m \<and> t (m - 1) = 0"
      unfolding um by auto
    have "u j = (if i \<le> j \<and> j < m then t j else s j)" for j
      using IH(1) IH(3)[rule_format, of j] by (cases "j = i") auto
    then show ?thesis unfolding e um using IH by simp
  qed
qed

text \<open>
  \<^verbatim>\<open>safestrcpy\<close> leaves a NUL-terminated string of at most \<open>n - 1\<close> characters, the longest
  prefix of the source that fits, and writes nothing past the buffer.
\<close>

lemma safestrcpy_at:
  assumes "0 < n"
  shows "\<exists>m. int m < n \<and> safestrcpy s t n m = 0 \<and> (\<forall>j<m. safestrcpy s t n j = t j) \<and>
    (\<forall>j>m. safestrcpy s t n j = s j) \<and> (\<forall>k. k + 1 < m \<longrightarrow> t k \<noteq> 0) \<and>
    (int m + 1 = n \<or> 0 < m \<and> t (m - 1) = 0)"
proof -
  obtain u m where um: "safestrcpy_copy s t 0 n = (u, m)" by fastforce
  have "safestrcpy s t n = u(m := 0)" using assms by (simp add: safestrcpy_def um)
  then show ?thesis using safestrcpy_copy_at[of 0 t n s] assms unfolding um by (intro exI[of _ m]) auto
qed

section \<open>Length\<close>

lemma strlen_from_Some: "(\<And>k. n \<le> k \<Longrightarrow> k < m \<Longrightarrow> s k \<noteq> 0) \<Longrightarrow> n \<le> m \<Longrightarrow> s m = 0 \<Longrightarrow> strlen_from s n = Some m"
proof (induction "m - n" arbitrary: n)
  case 0
  then show ?case by (subst strlen_from.simps) simp
next
  case (Suc k)
  then have "s n \<noteq> 0" by simp
  moreover have "strlen_from s (n + 1) = Some m" using Suc by (intro Suc.hyps(1)) auto
  ultimately show ?case by (subst strlen_from.simps) simp
qed

lemma strlen_Some: "strlen s = Some m" if "s m = 0" "\<And>k. k < m \<Longrightarrow> s k \<noteq> 0"
  unfolding strlen_def using that by (intro strlen_from_Some) auto

section \<open>Properties\<close>

text \<open>
  \<^verbatim>\<open>memset\<close> sets exactly the \<open>n\<close> bytes from \<open>dst\<close> on to the low byte of \<open>c\<close>: the branch that
  stores four bytes at a time agrees with the one that stores single bytes.
\<close>

theorem memset_correct: "memset m dst c n a = (if a - dst < n then ucast c else m a)"
  by (rule memset_at)

text \<open>
  \<^verbatim>\<open>memmove\<close> copies the source as it was before the call, however the two areas overlap, and
  changes no byte outside the destination. Neither area may wrap around the address space.
\<close>

theorem memmove_correct:
  assumes d: "unat dst + unat n \<le> 2 ^ 32" and s: "unat src + unat n \<le> 2 ^ 32"
  shows "(\<forall>k < unat n. memmove m dst src n (dst + of_nat k) = m (src + of_nat k)) \<and>
    (\<forall>a. (\<forall>k < unat n. a \<noteq> dst + of_nat k) \<longrightarrow> memmove m dst src n a = m a)"
proof (cases "src < dst \<and> src + n > dst")
  case True
  then have "memmove m dst src n = copy_backward m (dst + of_nat (unat n)) (src + of_nat (unat n)) (unat n)"
    by (simp add: memmove_def)
  then show ?thesis using copy_backward_at[OF d s] True by (auto simp: word_less_nat_alt)
next
  case False
  have "unat dst \<le> unat src \<or> unat src + unat n \<le> unat dst"
  proof (rule ccontr)
    assume a: "\<not> ?thesis"
    then have "src < dst" by (simp add: word_less_nat_alt)
    moreover have "unat (src + n) = unat src + unat n \<or> unat src + unat n = 2 ^ 32"
      using s by (auto simp: unat_plus_simple[symmetric] no_olen_add_nat)
    ultimately show False using a False d unat_bounds(3)[of dst] by (auto simp: word_less_nat_alt)
  qed
  from copy_forward_at[OF d s this] show ?thesis using False by (auto simp: memmove_def)
qed

theorem memmove_correct_witness: "memmove (\<lambda>a. ucast a) 2 0 5 5 = 3 \<and> memmove (\<lambda>a. ucast a) 2 0 5 7 = 7"
proof -
  note T = memmove_correct[of 2 5 0 "\<lambda>a. ucast a", simplified]
  have "memmove (\<lambda>a. ucast a) 2 0 5 (2 + of_nat 3) = ucast (of_nat 3 :: u32)"
    using T[THEN conjunct1, rule_format, of 3] by simp
  moreover have "(7 :: u32) \<noteq> 2 + of_nat k" if "k < 5" for k :: nat
  proof -
    from that have "k \<in> {0, 1, 2, 3, 4}" by auto
    then show ?thesis by auto
  qed
  ultimately show ?thesis using T by simp
qed

end
