(* ===== verification/Kalloc.thy ===== *)
theory Kalloc
  imports Kstring
begin

text \<open>
  The physical page allocator (\<^verbatim>\<open>kernel/kalloc.c\<close>). Free pages form a linked list through
  their own first word, so the state is the memory and the head of the list. \<open>km_end\<close> and \<open>km_data\<close>
  are the addresses of the linker's symbols \<^verbatim>\<open>end\<close> and \<^verbatim>\<open>data\<close>, which never change. The spin-lock of the allocator makes its operations atomic.

  The allocator refines a list of free pages: \<open>kalloc\<close> takes the first page, \<open>kfree\<close> puts a
  page in front. The interface \<open>page_allocator\<close> states this, and shows that a page is never
  handed out twice.
\<close>

abbreviation (input) PGSIZE :: u32 where "PGSIZE \<equiv> 4096"
abbreviation (input) KERNBASE :: u32 where "KERNBASE \<equiv> 0x80000000"
abbreviation (input) PHYSTOP :: u32 where "PHYSTOP \<equiv> 0xE000000"

definition V2P :: "u32 \<Rightarrow> u32" where
  "V2P a = a - KERNBASE"

definition P2V :: "u32 \<Rightarrow> u32" where
  "P2V a = a + KERNBASE"

definition PGROUNDUP :: "u32 \<Rightarrow> u32" where
  "PGROUNDUP sz = (sz + PGSIZE - 1) AND NOT (PGSIZE - 1)"

definition PGROUNDDOWN :: "u32 \<Rightarrow> u32" where
  "PGROUNDDOWN a = a AND NOT (PGSIZE - 1)"

record kmem =
  km_end :: u32
  km_data :: u32
  km_mem :: mem
  km_use_lock :: bool
  km_freelist :: u32

definition load32 :: "mem \<Rightarrow> u32 \<Rightarrow> u32" where
  "load32 m a = ucast (m a) OR push_bit 8 (ucast (m (a + 1)))
      OR push_bit 16 (ucast (m (a + 2))) OR push_bit 24 (ucast (m (a + 3)))"

definition kfree :: "u32 \<Rightarrow> ('a kmem_scheme, unit) km" where
  "kfree v =
     kthen (kassert ''kfree'' (\<lambda>s. \<not> (v mod PGSIZE \<noteq> 0 \<or> v < km_end s \<or> V2P v \<ge> PHYSTOP)))
    (kthen (kmod (\<lambda>s. s\<lparr>km_mem := memset (km_mem s) v 1 PGSIZE\<rparr>))
    (kthen (kmod (\<lambda>s. s\<lparr>km_mem := store32 (km_mem s) v (km_freelist s)\<rparr>))
     (kmod (\<lambda>s. s\<lparr>km_freelist := v\<rparr>))))"

definition kalloc :: "('a kmem_scheme, u32) km" where
  "kalloc = (\<lambda>s. let r = km_freelist s in
     if r \<noteq> 0 then Ok r (s\<lparr>km_freelist := load32 (km_mem s) r\<rparr>) else Ok r s)"

definition freerange :: "u32 \<Rightarrow> u32 \<Rightarrow> ('a kmem_scheme, unit) km" where
  "freerange vstart vend =
     (let p = unat (PGROUNDUP vstart) in
      kfor (\<lambda>k. kfree (of_nat (p + 4096 * k))) [0..<(unat vend - p) div 4096])"

definition kinit1 :: "u32 \<Rightarrow> u32 \<Rightarrow> ('a kmem_scheme, unit) km" where
  "kinit1 vstart vend =
     kthen (kmod (\<lambda>s. s\<lparr>km_use_lock := False\<rparr>)) (freerange vstart vend)"

definition kinit2 :: "u32 \<Rightarrow> u32 \<Rightarrow> ('a kmem_scheme, unit) km" where
  "kinit2 vstart vend =
     kthen (freerange vstart vend) (kmod (\<lambda>s. s\<lparr>km_use_lock := True\<rparr>))"

section \<open>The interface\<close>

locale page_allocator =
  fixes free_pages :: "'s \<Rightarrow> 'p list \<Rightarrow> bool"
    and page :: "'s \<Rightarrow> 'p \<Rightarrow> bool"
    and null :: 'p
    and alloc :: "('s, 'p) km"
    and free :: "'p \<Rightarrow> ('s, unit) km"
  assumes alloc_empty: "free_pages s [] \<Longrightarrow> alloc s = Ok null s"
    and alloc_page: "free_pages s (x # xs) \<Longrightarrow> \<exists>t. alloc s = Ok x t \<and> free_pages t xs"
    and free_page: "free_pages s xs \<Longrightarrow> page s x \<Longrightarrow> x \<notin> set xs \<Longrightarrow> \<exists>t. free x s = Ok () t \<and> free_pages t (x # xs)"
    and pages_ok: "free_pages s xs \<Longrightarrow> distinct xs \<and> (\<forall>x \<in> set xs. page s x \<and> x \<noteq> null)"
begin

text \<open>Allocating \<open>n\<close> pages in a row: all different, none of them still free.\<close>

lemma alloc_many:
  assumes "free_pages s xs" "n \<le> length xs"
  shows "\<exists>t. kfor (\<lambda>_. kbind alloc (\<lambda>x. kassert ''null'' (\<lambda>_. x \<noteq> null))) [0..<n] s = Ok () t \<and>
    free_pages t (drop n xs) \<and> distinct (take n xs) \<and> set (take n xs) \<inter> set (drop n xs) = {}"
proof -
  have "\<exists>t. kfor (\<lambda>_. kbind alloc (\<lambda>x. kassert ''null'' (\<lambda>_. x \<noteq> null))) [0..<n] s = Ok () t \<and> free_pages t (drop n xs)"
  proof (rule kfor_upt_succeeds[where Q = "\<lambda>i u. free_pages u (drop i xs)"])
    fix i u
    assume i: "i < n" and u: "free_pages u (drop i xs)"
    then have d: "drop i xs = xs ! i # drop (Suc i) xs" using assms(2) by (simp add: Cons_nth_drop_Suc)
    from alloc_page[OF u[unfolded d]] obtain t where t: "alloc u = Ok (xs ! i) t" "free_pages t (drop (Suc i) xs)" by blast
    moreover have "xs ! i \<noteq> null" using pages_ok[OF assms(1)] i assms(2) by auto
    ultimately show "\<exists>t. kbind alloc (\<lambda>x. kassert ''null'' (\<lambda>_. x \<noteq> null)) u = Ok () t \<and> free_pages t (drop (Suc i) xs)"
      by (simp add: kbind_apply kassert_apply)
  qed (use assms in auto)
  moreover have "distinct xs" using pages_ok[OF assms(1)] by simp
  ultimately show ?thesis by (simp add: set_take_disj_set_drop_if_distinct)
qed

lemma free_alloc:
  assumes "free_pages s xs" "page s x" "x \<notin> set xs"
  shows "\<exists>t. kthen (free x) alloc s = Ok x t \<and> free_pages t xs"
proof -
  obtain u where "free x s = Ok () u" "free_pages u (x # xs)" using free_page[OF assms] by blast
  then show ?thesis using alloc_page[of u x xs] by (auto simp: kthen_apply)
qed

end

section \<open>The linked list\<close>

fun flist :: "mem \<Rightarrow> u32 \<Rightarrow> u32 list \<Rightarrow> bool" where
  "flist m a [] \<longleftrightarrow> a = 0"
| "flist m a (x # xs) \<longleftrightarrow> a = x \<and> flist m (load32 m x) xs"

definition kpage :: "'a kmem_scheme \<Rightarrow> u32 \<Rightarrow> bool" where
  "kpage s v \<longleftrightarrow> 0 < km_end s \<and> v mod PGSIZE = 0 \<and> km_end s \<le> v \<and> V2P v < PHYSTOP"

definition kfree_pages :: "'a kmem_scheme \<Rightarrow> u32 list \<Rightarrow> bool" where
  "kfree_pages s xs \<longleftrightarrow> flist (km_mem s) (km_freelist s) xs \<and> distinct xs \<and> (\<forall>x \<in> set xs. kpage s x)"

lemma load32_le32: "load32 m a = le32 (\<lambda>i. m (a + of_nat i)) 0"
  by (simp add: load32_def le32_def)

lemma load_store32 [simp]: "load32 (store32 m a w) a = w"
proof -
  have ne: "a + 1 \<noteq> a" "a + 2 \<noteq> a" "a + 3 \<noteq> a" "a + 2 \<noteq> a + 1" "a + 3 \<noteq> a + 1" "a + 3 \<noteq> a + 2"
    by simp_all
  show ?thesis
    unfolding load32_le32
  proof (rule le32_bytes)
    fix k :: nat
    assume "k < 4"
    then have "k \<in> {0, 1, 2, 3}" by auto
    then show "store32 m a w (a + of_nat (0 + k)) = byte32 w k" by (auto simp: store32_def ne)
  qed
qed

lemma store32_other: "x \<noteq> a \<Longrightarrow> x \<noteq> a + 1 \<Longrightarrow> x \<noteq> a + 2 \<Longrightarrow> x \<noteq> a + 3 \<Longrightarrow> store32 m a w x = m x"
  by (simp add: store32_def)

text \<open>Two different pages do not overlap.\<close>

lemma page_diff:
  fixes x v :: u32
  assumes "x mod 4096 = 0" "v mod 4096 = 0" "x \<noteq> v"
  shows "4096 \<le> unat (x - v)" "unat (x - v) + 4096 \<le> 2 ^ 32"
proof -
  have "x = x div 4096 * 4096" "v = v div 4096 * 4096"
    using assms(1,2) div_mult_mod_eq[of x 4096] div_mult_mod_eq[of v 4096] by simp_all
  then have "x - v = (x div 4096 - v div 4096) * 4096" by (metis left_diff_distrib)
  then have "unat (x - v) = unat (x div 4096 - v div 4096) * 4096 mod 2 ^ 32"
    using unat_word_ariths(2)[of "x div 4096 - v div 4096" 4096] by (simp only:) simp
  moreover have "(n * 4096 mod 2 ^ 32) mod 4096 = 0" for n :: nat by (simp add: mod_mod_cancel)
  ultimately have "unat (x - v) mod 4096 = 0" by simp
  then obtain q where q: "unat (x - v) = 4096 * q" by auto
  moreover have "unat (x - v) \<noteq> 0" using assms(3) by (simp add: unat_eq_0)
  ultimately show "4096 \<le> unat (x - v)" by (cases q) auto
  have "4096 * q < 2 ^ 32" using unat_bounds(3)[of "x - v"] q by simp
  then have "q < 2 ^ 20" by simp
  then show "unat (x - v) + 4096 \<le> 2 ^ 32" using q by simp
qed

lemma page_apart:
  fixes x v :: u32
  assumes "x mod 4096 = 0" "v mod 4096 = 0" "x \<noteq> v" "k < 4096" "j < 4096"
  shows "x + of_nat k \<noteq> v + of_nat j" "\<not> x + of_nat k - v < 4096"
proof -
  have "unat (of_nat k :: u32) = k" using assms(4) by (simp add: unat_of_nat)
  then have eq: "unat ((x - v) + of_nat k) = unat (x - v) + k"
    using page_diff[OF assms(1-3)] assms(4) by (subst unat_plus_simple[THEN iffD1]) (auto simp: no_olen_add_nat)
  moreover have "x + of_nat k - v = (x - v) + of_nat k" by simp
  ultimately have u: "4096 \<le> unat (x + of_nat k - v)" using page_diff(1)[OF assms(1-3)] by (metis trans_le_add1)
  then show "\<not> x + of_nat k - v < 4096" by (simp add: word_less_nat_alt)
  have "unat (of_nat j :: u32) < 4096" using assms(5) by (simp add: unat_of_nat)
  then show "x + of_nat k \<noteq> v + of_nat j" using u by auto
qed

lemma load32_other_page:
  assumes "x mod 4096 = 0" "v mod 4096 = 0" "x \<noteq> v"
  shows "load32 (store32 (memset m v c 4096) v w) x = load32 m x"
proof -
  have at: "store32 (memset m v c 4096) v w (x + of_nat k) = m (x + of_nat k)" if k: "k < 4" for k
  proof -
    have "x + of_nat k \<noteq> v + of_nat j" if "j < 4" for j using page_apart(1)[OF assms, of k j] k that by simp
    from this[of 0] this[of 1] this[of 2] this[of 3]
    show ?thesis using page_apart(2)[OF assms, of k 0] k by (simp add: store32_other memset_at)
  qed
  show ?thesis unfolding load32_def using at[of 0] at[of 1] at[of 2] at[of 3] by simp
qed

lemma flist_frame:
  "(\<And>x. x \<in> set xs \<Longrightarrow> load32 m' x = load32 m x) \<Longrightarrow> flist m' a xs = flist m a xs"
  by (induction xs arbitrary: a) auto

lemma kpage_nonzero: "kpage s x \<Longrightarrow> x \<noteq> 0"
  by (auto simp: kpage_def)

lemma kfree_law:
  assumes f: "kfree_pages s xs" and p: "kpage s x" and x: "x \<notin> set xs"
  shows "\<exists>t. kfree x s = Ok () t \<and> kfree_pages t (x # xs) \<and> km_end t = km_end s"
proof -
  let ?m = "store32 (memset (km_mem s) x 1 PGSIZE) x (km_freelist s)"
  let ?t = "s\<lparr>km_mem := ?m, km_freelist := x\<rparr>"
  have "kfree x s = Ok () ?t"
    using p by (simp add: kfree_def kthen_apply kassert_apply kmod_apply kpage_def not_less not_le)
  moreover have "flist ?m (km_freelist s) xs = flist (km_mem s) (km_freelist s) xs"
  proof (rule flist_frame)
    fix y
    assume "y \<in> set xs"
    then show "load32 ?m y = load32 (km_mem s) y"
      using f p x by (intro load32_other_page) (auto simp: kfree_pages_def kpage_def)
  qed
  ultimately show ?thesis using f p x by (auto simp: kfree_pages_def kpage_def)
qed

lemma kalloc_law:
  assumes "kfree_pages s (x # xs)"
  shows "\<exists>t. kalloc s = Ok x t \<and> kfree_pages t xs"
  using assms kpage_nonzero[of s x] by (auto simp: kfree_pages_def kalloc_def kpage_def)

interpretation ka: page_allocator kfree_pages kpage 0 kalloc kfree
proof
  show "kfree_pages s [] \<Longrightarrow> kalloc s = Ok 0 s" for s :: "'a kmem_scheme"
    by (simp add: kfree_pages_def kalloc_def)
  show "distinct xs \<and> (\<forall>x \<in> set xs. kpage s x \<and> x \<noteq> 0)" if "kfree_pages s xs" for s :: "'a kmem_scheme" and xs
    using that kpage_nonzero[of s] by (auto simp: kfree_pages_def)
  show "\<exists>t. kfree x s = Ok () t \<and> kfree_pages t (x # xs)" if "kfree_pages s xs" "kpage s x" "x \<notin> set xs"
    for s :: "'a kmem_scheme" and x xs
    using kfree_law[OF that] by blast
qed (rule kalloc_law)

section \<open>Initialisation\<close>

lemma PGROUNDUP_aligned: "unat (PGROUNDUP v) mod 4096 = 0"
proof -
  have m: "(4096 - 1 :: u32) = mask 12" by (simp add: mask_eq_exp_minus_1)
  have "take_bit 12 (PGROUNDUP v) = 0"
    unfolding PGROUNDUP_def m by (rule bit_eqI) (simp add: bit_simps)
  then have "unat (take_bit 12 (PGROUNDUP v)) = 0" by simp
  then show ?thesis by (simp add: take_bit_eq_mod unat_mod)
qed

definition range_pages :: "u32 \<Rightarrow> u32 \<Rightarrow> u32 list" where
  "range_pages vstart vend = (let p = unat (PGROUNDUP vstart) in
     map (\<lambda>k. of_nat (p + 4096 * k)) [0..<(unat vend - p) div 4096])"

lemma range_page:
  assumes "0 < km_end s" "km_end s \<le> PGROUNDUP vstart" "KERNBASE \<le> PGROUNDUP vstart" "vend \<le> P2V PHYSTOP"
    and k: "k < (unat vend - unat (PGROUNDUP vstart)) div 4096"
  shows "kpage s (of_nat (unat (PGROUNDUP vstart) + 4096 * k))"
    and "unat (of_nat (unat (PGROUNDUP vstart) + 4096 * k) :: u32) = unat (PGROUNDUP vstart) + 4096 * k"
proof -
  let ?p = "unat (PGROUNDUP vstart)"
  have top: "unat vend \<le> 0x8E000000" using assms(4) by (simp add: P2V_def word_le_nat_alt)
  have "4096 * Suc k \<le> unat vend - ?p" using k by (simp add: less_eq_Suc_le)
  then have a: "?p + 4096 * k < 0x8E000000" using top by simp
  show u: "unat (of_nat (?p + 4096 * k) :: u32) = ?p + 4096 * k" by (rule unat_of_nat32) (use a in simp)
  define v where "v = (of_nat (?p + 4096 * k) :: u32)"
  have uv: "unat v = ?p + 4096 * k" using u by (simp only: v_def)
  have "(?p + 4096 * k) mod 4096 = ?p mod 4096" by simp
  then have "unat (v mod 4096) = 0" using PGROUNDUP_aligned[of vstart] by (simp add: unat_mod uv)
  then have al: "v mod 4096 = 0" by (simp add: unat_eq_0)
  have kb: "0x80000000 \<le> ?p" using assms(3) by (simp add: word_le_nat_alt)
  then have "KERNBASE \<le> v" using uv by (simp add: word_le_nat_alt)
  then have "unat (V2P v) = ?p + 4096 * k - 0x80000000" by (simp add: V2P_def unat_sub uv)
  then have "V2P v < PHYSTOP" using a kb by (simp add: word_less_nat_alt)
  moreover have "km_end s \<le> v" using assms(2) uv by (simp add: word_le_nat_alt)
  ultimately have "kpage s v" using al assms(1) by (simp add: kpage_def)
  then show "kpage s (of_nat (?p + 4096 * k))" by (simp only: v_def)
qed

section \<open>Properties\<close>

text \<open>
  Initialisation: freeing a range of physical memory above the kernel puts exactly the whole
  pages of the range on the free list, each once.
\<close>

theorem freerange_builds_list:
  assumes empty: "kfree_pages s []"
    and range: "0 < km_end s" "km_end s \<le> PGROUNDUP vstart" "KERNBASE \<le> PGROUNDUP vstart" "vend \<le> P2V PHYSTOP"
  shows "\<exists>t. freerange vstart vend s = Ok () t \<and> kfree_pages t (rev (range_pages vstart vend))"
proof -
  let ?p = "unat (PGROUNDUP vstart)" and ?n = "(unat vend - unat (PGROUNDUP vstart)) div 4096"
  define f where "f = (\<lambda>k. of_nat (?p + 4096 * k) :: u32)"
  have rp: "kpage s (f k)" "unat (f k) = ?p + 4096 * k" if "k < ?n" for k
    using range_page[OF range that] by (simp_all only: f_def)
  have "\<exists>t. kfor (\<lambda>k. kfree (f k)) [0..<?n] s = Ok () t \<and> kfree_pages t (rev (map f [0..<?n])) \<and> km_end t = km_end s"
  proof (rule kfor_upt_succeeds[where Q = "\<lambda>i u. kfree_pages u (rev (map f [0..<i])) \<and> km_end u = km_end s"])
    fix i u
    assume i: "i < ?n" and Q: "kfree_pages u (rev (map f [0..<i])) \<and> km_end u = km_end s"
    then have u: "kfree_pages u (rev (map f [0..<i]))" and pg: "kpage u (f i)"
      using rp(1)[OF i] by (simp_all add: kpage_def)
    have "f i \<noteq> f j" if "j < i" for j
    proof
      assume "f i = f j"
      then have "unat (f i) = unat (f j)" by (rule arg_cong)
      then show False unfolding rp(2)[OF i] rp(2)[OF less_trans[OF that i]] using that by simp
    qed
    then have "\<forall>j \<in> {0..<i}. f i \<noteq> f j" by simp
    then have "f i \<notin> f ` {0..<i}" by blast
    then have "f i \<notin> set (rev (map f [0..<i]))" by simp
    from kfree_law[OF u pg this] Q
    show "\<exists>t. kfree (f i) u = Ok () t \<and> kfree_pages t (rev (map f [0..<Suc i])) \<and> km_end t = km_end s" by auto
  qed (use empty in auto)
  then show ?thesis by (simp only: freerange_def range_pages_def Let_def f_def) blast
qed

definition ex_kmem :: kmem where
  "ex_kmem = \<lparr>km_end = 0x80100000, km_data = 0x80108000, km_mem = (\<lambda>_. 0), km_use_lock = False, km_freelist = 0\<rparr>"

theorem freerange_builds_list_witness:
  "\<exists>t. freerange 0x80100001 0x80103000 ex_kmem = Ok () t \<and>
     kfree_pages t [0x80102000, 0x80101000]"
proof -
  have r: "PGROUNDUP 0x80100001 = 0x80101000" by (simp add: PGROUNDUP_def)
  then have "rev (range_pages 0x80100001 0x80103000) = [0x80102000, 0x80101000]"
    by (simp add: range_pages_def upt_rec)
  then show ?thesis
    using freerange_builds_list[of ex_kmem "0x80100001" "0x80103000"] r
    by (simp add: kfree_pages_def ex_kmem_def P2V_def)
qed

text \<open>
  C33. The allocator implements its interface: \<^verbatim>\<open>kalloc\<close> takes the first page of the free list, and
  returns a null pointer only when the list is empty; \<^verbatim>\<open>kfree\<close> of a page that is not free
  puts it in front, and the next \<^verbatim>\<open>kalloc\<close> returns it. No page is on the list twice, so no page
  is handed out twice.
\<close>

theorem kalloc_kfree_refine:
  assumes "kfree_pages s xs"
  shows "distinct xs \<and> (\<forall>x \<in> set xs. kpage s x) \<and>
    (xs = [] \<longrightarrow> kalloc s = Ok 0 s) \<and>
    (\<forall>x ys. xs = x # ys \<longrightarrow> (\<exists>t. kalloc s = Ok x t \<and> kfree_pages t ys)) \<and>
    (\<forall>x. kpage s x \<and> x \<notin> set xs \<longrightarrow>
      (\<exists>t. kfree x s = Ok () t \<and> kfree_pages t (x # xs)) \<and>
      (\<exists>t. kthen (kfree x) kalloc s = Ok x t \<and> kfree_pages t xs))"
proof (intro conjI allI impI)
  show "distinct xs" "\<forall>x \<in> set xs. kpage s x" using ka.pages_ok[OF assms] by simp_all
  show "kalloc s = Ok 0 s" if "xs = []" using ka.alloc_empty[of s] assms that by simp
  show "\<exists>t. kalloc s = Ok x t \<and> kfree_pages t ys" if "xs = x # ys" for x ys
    using ka.alloc_page[of s x ys] assms that by simp
  show "\<exists>t. kfree x s = Ok () t \<and> kfree_pages t (x # xs)" if "kpage s x \<and> x \<notin> set xs" for x
    using ka.free_page[OF assms] that by simp
  show "\<exists>t. kthen (kfree x) kalloc s = Ok x t \<and> kfree_pages t xs" if "kpage s x \<and> x \<notin> set xs" for x
    using ka.free_alloc[OF assms] that by simp
qed

theorem kalloc_kfree_refine_witness:
  "kalloc ex_kmem = Ok 0 ex_kmem \<and>
   (\<exists>t. kthen (kfree 0x80200000) kalloc ex_kmem = Ok 0x80200000 t \<and> kfree_pages t [])"
proof -
  have "kfree_pages ex_kmem []" by (simp add: kfree_pages_def ex_kmem_def)
  moreover have "kpage ex_kmem 0x80200000" by (simp add: kpage_def V2P_def ex_kmem_def)
  ultimately show ?thesis using kalloc_kfree_refine[of ex_kmem "[]"] by auto
qed

end
