(* ===== verification/Proc_Table.thy ===== *)
theory Proc_Table
  imports Kalloc
begin

text \<open>
  The process table (\<^verbatim>\<open>kernel/proc.h\<close> and the part of \<^verbatim>\<open>kernel/proc.c\<close> the rest of the kernel
  calls: \<open>sleep\<close>, \<open>wakeup1\<close>, \<open>wakeup\<close>, \<open>kill\<close>) and sleep-locks (\<^verbatim>\<open>kernel/sleeplock.c\<close>).

  A process is an index into \<open>ptable\<close>; \<open>cur\<close> is the process on whose behalf the kernel runs
  (\<^verbatim>\<open>myproc()\<close>). The spin-lock \<^verbatim>\<open>ptable.lock\<close> makes each of these functions atomic, so the
  lock itself is not part of this state; the spin-lock protocol is the subject of its own
  theory. The components above extend the record \<open>kbase\<close> with their own state.
\<close>

section \<open>Processes\<close>

datatype procstate = UNUSED | EMBRYO | SLEEPING | RUNNABLE | RUNNING | ZOMBIE

abbreviation (input) MAXGROUPS :: nat where "MAXGROUPS \<equiv> 32"

text \<open>The saved user registers a system call reads or writes (\<^verbatim>\<open>struct trapframe\<close>).\<close>

record trapframe =
  tf_eax :: u32
  tf_eip :: u32
  tf_esp :: u32
  tf_cs :: u16
  tf_ds :: u16
  tf_es :: u16
  tf_ss :: u16
  tf_eflags :: u32
  tf_trapno :: u32

text \<open>
  \<^verbatim>\<open>struct proc\<close>. Pointers to files and inodes are indices into \<^verbatim>\<open>ftable\<close> and \<^verbatim>\<open>icache\<close>,
  a null pointer is \<open>None\<close>; the kernel-thread context saved by \<^verbatim>\<open>swtch\<close> is not represented.
\<close>

record proc =
  p_sz :: u32
  p_pgdir :: "u32 option"
  p_kstack :: "u32 option"
  p_state :: procstate
  p_pid :: int
  p_parent :: "nat option"
  p_tf :: trapframe
  p_chan :: "chan option"
  p_killed :: bool
  p_ofile :: "nat \<Rightarrow> nat option"
  p_cwd :: "nat option"
  p_name :: bytes
  p_uid :: u32
  p_euid :: u32
  p_ngroups :: int
  p_gids :: "nat \<Rightarrow> u32"

text \<open>The table is a static variable: every entry is zero when the kernel starts.\<close>

definition zero_tf :: trapframe where
  "zero_tf = \<lparr>tf_eax = 0, tf_eip = 0, tf_esp = 0, tf_cs = 0, tf_ds = 0, tf_es = 0, tf_ss = 0,
     tf_eflags = 0, tf_trapno = 0\<rparr>"

definition zero_proc :: proc where
  "zero_proc = \<lparr>p_sz = 0, p_pgdir = None, p_kstack = None, p_state = UNUSED, p_pid = 0, p_parent = None,
     p_tf = zero_tf, p_chan = None, p_killed = False, p_ofile = (\<lambda>_. None), p_cwd = None,
     p_name = (\<lambda>_. 0), p_uid = 0, p_euid = 0, p_ngroups = 0, p_gids = (\<lambda>_. 0)\<rparr>"

text \<open>The kernel's state, on top of the memory and the free pages.\<close>

record kbase = kmem +
  ptable :: "nat \<Rightarrow> proc"
  cur :: nat

abbreviation myproc :: "'a kbase_scheme \<Rightarrow> proc" where
  "myproc s \<equiv> ptable s (cur s)"

definition upd_proc :: "nat \<Rightarrow> (proc \<Rightarrow> proc) \<Rightarrow> 'a kbase_scheme \<Rightarrow> 'a kbase_scheme" where
  "upd_proc i f s = s\<lparr>ptable := (ptable s)(i := f (ptable s i))\<rparr>"

section \<open>Sleeping and waking\<close>

text \<open>
  \<^verbatim>\<open>sleep(chan, lk)\<close> up to the context switch in \<^verbatim>\<open>sched()\<close>; what follows the switch
  (\<^verbatim>\<open>p->chan = 0\<close> and taking the lock again) is \<open>sleep_resume\<close>.
\<close>

definition sleep :: "chan \<Rightarrow> ('a kbase_scheme, 'b) km" where
  "sleep c = (\<lambda>s. Sleep c
     (upd_proc (cur s) (\<lambda>p. p\<lparr>p_chan := Some c, p_state := SLEEPING\<rparr>) s))"

definition sleep_resume :: "('a kbase_scheme, unit) km" where
  "sleep_resume = kmod (\<lambda>s. upd_proc (cur s) (\<lambda>p. p\<lparr>p_chan := None\<rparr>) s)"

definition wakeup1 :: "chan option \<Rightarrow> 'a kbase_scheme \<Rightarrow> 'a kbase_scheme" where
  "wakeup1 c s = s\<lparr>ptable := (\<lambda>i.
     if i < NPROC \<and> p_state (ptable s i) = SLEEPING \<and> p_chan (ptable s i) = c
     then (ptable s i)\<lparr>p_state := RUNNABLE\<rparr> else ptable s i)\<rparr>"

definition wakeup :: "chan \<Rightarrow> ('a kbase_scheme, unit) km" where
  "wakeup c = kmod (wakeup1 (Some c))"

definition kill :: "int \<Rightarrow> ('a kbase_scheme, int) km" where
  "kill pid = (\<lambda>s. case findi (\<lambda>i. p_pid (ptable s i) = pid) NPROC of
       Some i \<Rightarrow> Ok 0 (upd_proc i (\<lambda>p. p\<lparr>p_killed := True,
           p_state := (if p_state p = SLEEPING then RUNNABLE else p_state p)\<rparr>) s)
     | None \<Rightarrow> Ok (-1) s)"

section \<open>Sleep-locks\<close>

record sleeplock =
  sl_locked :: bool
  sl_pid :: int

definition initsleeplock :: sleeplock where
  "initsleeplock = \<lparr>sl_locked = False, sl_pid = 0\<rparr>"

text \<open>
  The operations take the lock as the C code takes a pointer: the channel that stands for
  its address, and how to read and write it in the state.
\<close>

definition acquiresleep ::
  "chan \<Rightarrow> ('a kbase_scheme \<Rightarrow> sleeplock) \<Rightarrow> (sleeplock \<Rightarrow> 'a kbase_scheme \<Rightarrow> 'a kbase_scheme)
    \<Rightarrow> ('a kbase_scheme, unit) km" where
  "acquiresleep c get put = (\<lambda>s.
     if sl_locked (get s) then sleep c s
     else Ok () (put \<lparr>sl_locked = True, sl_pid = p_pid (myproc s)\<rparr> s))"

definition releasesleep ::
  "chan \<Rightarrow> (sleeplock \<Rightarrow> 'a kbase_scheme \<Rightarrow> 'a kbase_scheme) \<Rightarrow> ('a kbase_scheme, unit) km" where
  "releasesleep c put = kthen (kmod (put \<lparr>sl_locked = False, sl_pid = 0\<rparr>)) (wakeup c)"

definition holdingsleep :: "'a kbase_scheme \<Rightarrow> sleeplock \<Rightarrow> bool" where
  "holdingsleep s lk \<longleftrightarrow> sl_locked lk \<and> sl_pid lk = p_pid (myproc s)"

section \<open>Frame facts\<close>

lemma upd_proc_simps [simp]:
  "ptable (upd_proc i f s) = (ptable s)(i := f (ptable s i))"
  "cur (upd_proc i f s) = cur s"
  "km_end (upd_proc i f s) = km_end s" "km_data (upd_proc i f s) = km_data s" "km_mem (upd_proc i f s) = km_mem s" "km_use_lock (upd_proc i f s) = km_use_lock s"
  "km_freelist (upd_proc i f s) = km_freelist s"
  "kbase.more (upd_proc i f s) = kbase.more s"
  by (simp_all add: upd_proc_def)

lemma wakeup1_frame [simp]:
  "km_end (wakeup1 c s) = km_end s" "km_data (wakeup1 c s) = km_data s" "km_mem (wakeup1 c s) = km_mem s" "km_use_lock (wakeup1 c s) = km_use_lock s"
  "km_freelist (wakeup1 c s) = km_freelist s"
  "cur (wakeup1 c s) = cur s"
  "kbase.more (wakeup1 c s) = kbase.more s"
  "p_pid (ptable (wakeup1 c s) i) = p_pid (ptable s i)"
  "p_euid (ptable (wakeup1 c s) i) = p_euid (ptable s i)"
  "p_uid (ptable (wakeup1 c s) i) = p_uid (ptable s i)"
  "p_gids (ptable (wakeup1 c s) i) = p_gids (ptable s i)"
  "p_ngroups (ptable (wakeup1 c s) i) = p_ngroups (ptable s i)"
  "p_cwd (ptable (wakeup1 c s) i) = p_cwd (ptable s i)"
  "p_ofile (ptable (wakeup1 c s) i) = p_ofile (ptable s i)"
  "p_killed (ptable (wakeup1 c s) i) = p_killed (ptable s i)"
  by (simp_all add: wakeup1_def)

lemma wakeup_apply: "wakeup c s = Ok () (wakeup1 (Some c) s)"
  by (simp add: wakeup_def kdefs)

lemma releasesleep_apply:
  "releasesleep c put s = Ok () (wakeup1 (Some c) (put \<lparr>sl_locked = False, sl_pid = 0\<rparr> s))"
  by (simp add: releasesleep_def wakeup_def kdefs)

lemma sleep_not_Ok [simp]: "sleep c s \<noteq> Ok x t"
  by (simp add: sleep_def)

lemma acquiresleep_Ok_iff:
  "acquiresleep c get put s = Ok x t \<longleftrightarrow>
     \<not> sl_locked (get s) \<and> t = put \<lparr>sl_locked = True, sl_pid = p_pid (myproc s)\<rparr> s"
  by (auto simp: acquiresleep_def)


text \<open>
  Most kernel code leaves the process table alone up to waking sleepers: \<open>woken s t\<close>.
\<close>

definition same_memory :: "'a kmem_scheme \<Rightarrow> 'b kmem_scheme \<Rightarrow> bool" where
  "same_memory s t \<longleftrightarrow> km_end t = km_end s \<and> km_data t = km_data s \<and> km_mem t = km_mem s \<and> km_use_lock t = km_use_lock s \<and>
     km_freelist t = km_freelist s"

lemma same_memory_refl [simp]: "same_memory s s"
  by (simp add: same_memory_def)

lemma same_memory_trans: "same_memory s t \<Longrightarrow> same_memory t u \<Longrightarrow> same_memory s u"
  by (simp add: same_memory_def)

definition woken :: "'a kbase_scheme \<Rightarrow> 'b kbase_scheme \<Rightarrow> bool" where
  "woken s t \<longleftrightarrow> cur t = cur s \<and> same_memory s t \<and>
     (\<forall>i. ptable t i = ptable s i \<or>
        p_state (ptable s i) = SLEEPING \<and> ptable t i = (ptable s i)\<lparr>p_state := RUNNABLE\<rparr>)"

lemma woken_refl [simp]: "woken s s"
  by (simp add: woken_def)

lemma woken_eq: "cur t = cur s \<Longrightarrow> ptable t = ptable s \<Longrightarrow> same_memory s t \<Longrightarrow> woken s t"
  by (simp add: woken_def)

lemma woken_trans [trans]:
  assumes "woken s t" "woken t u"
  shows "woken s u"
proof -
  have "ptable u i = ptable s i \<or> p_state (ptable s i) = SLEEPING \<and> ptable u i = (ptable s i)\<lparr>p_state := RUNNABLE\<rparr>" for i
  proof (cases "ptable t i = ptable s i")
    case True
    then show ?thesis using assms(2) unfolding woken_def by metis
  next
    case False
    then have s: "p_state (ptable s i) = SLEEPING" "ptable t i = (ptable s i)\<lparr>p_state := RUNNABLE\<rparr>"
      using assms(1) unfolding woken_def by blast+
    then have "p_state (ptable t i) \<noteq> SLEEPING" by simp
    then have "ptable u i = ptable t i" using assms(2) unfolding woken_def by blast
    then show ?thesis using s by simp
  qed
  then show ?thesis using assms same_memory_trans unfolding woken_def by metis
qed

lemma woken_wakeup1 [simp]: "woken s (wakeup1 c s)"
  by (auto simp: woken_def wakeup1_def same_memory_def)

lemma wokenD:
  assumes "woken s t"
  shows "cur t = cur s" "same_memory s t" "p_pid (ptable t i) = p_pid (ptable s i)"
    "p_euid (ptable t i) = p_euid (ptable s i)" "p_uid (ptable t i) = p_uid (ptable s i)"
    "p_gids (ptable t i) = p_gids (ptable s i)" "p_ngroups (ptable t i) = p_ngroups (ptable s i)"
    "p_cwd (ptable t i) = p_cwd (ptable s i)" "p_ofile (ptable t i) = p_ofile (ptable s i)"
    "p_killed (ptable t i) = p_killed (ptable s i)" "p_sz (ptable t i) = p_sz (ptable s i)"
proof -
  show "same_memory s t" using assms by (simp add: woken_def)
  have c: "cur t = cur s" and "ptable t i = ptable s i \<or> ptable t i = (ptable s i)\<lparr>p_state := RUNNABLE\<rparr>"
    using assms by (auto simp: woken_def)
  then show "cur t = cur s" "p_pid (ptable t i) = p_pid (ptable s i)"
    "p_euid (ptable t i) = p_euid (ptable s i)" "p_uid (ptable t i) = p_uid (ptable s i)"
    "p_gids (ptable t i) = p_gids (ptable s i)" "p_ngroups (ptable t i) = p_ngroups (ptable s i)"
    "p_cwd (ptable t i) = p_cwd (ptable s i)" "p_ofile (ptable t i) = p_ofile (ptable s i)"
    "p_killed (ptable t i) = p_killed (ptable s i)" "p_sz (ptable t i) = p_sz (ptable s i)"
    by auto
qed

end
