(* ===== verification/Block_Iface.thy ===== *)
theory Block_Iface
  imports Xv6_Prelude
begin

text \<open>
  What the log and the file system rely on in the buffer cache, as a locale: reading a block
  gives a buffer with its current contents, a buffer is changed in place, written to the disk
  and released. The idioms of the client code (read a block, change a block and write it out,
  copy one block onto another) are proved here once, from those laws. The buffer cache
  interprets the locale on its own definitions.
\<close>

locale block_cache =
  fixes coherent :: "'s \<Rightarrow> bool"
    and view :: "'s \<Rightarrow> nat \<Rightarrow> bytes"
    and disk :: "'s \<Rightarrow> nat \<Rightarrow> bytes"
    and writes :: "'s \<Rightarrow> (nat \<times> bytes) list"
    and owned :: "'s \<Rightarrow> nat set"
    and locked :: "'s \<Rightarrow> nat set"
    and pending :: "'s \<Rightarrow> nat set"
    and room :: "'s \<Rightarrow> nat \<Rightarrow> bool"
    and blocks :: "'s \<Rightarrow> nat"
    and blk :: "'s \<Rightarrow> nat \<Rightarrow> nat"
    and bdata :: "'s \<Rightarrow> nat \<Rightarrow> bytes"
    and clean :: "'s \<Rightarrow> nat \<Rightarrow> bool"
    and rest :: "'s \<Rightarrow> 's \<Rightarrow> bool"
    and rd :: "nat \<Rightarrow> ('s, nat) km"
    and put :: "nat \<Rightarrow> (bytes \<Rightarrow> bytes) \<Rightarrow> 's \<Rightarrow> 's"
    and wr :: "nat \<Rightarrow> ('s, unit) km"
    and rel :: "nat \<Rightarrow> ('s, unit) km"
  assumes rest_refl: "rest s s"
    and rest_trans: "rest s t \<Longrightarrow> rest t u \<Longrightarrow> rest s u"
    and rest_blocks: "rest s t \<Longrightarrow> blocks t = blocks s"
    and owned_locked: "owned s \<subseteq> locked s"
    and blk_inj: "coherent s \<Longrightarrow> i \<in> owned s \<Longrightarrow> j \<in> owned s \<Longrightarrow> blk s i = blk s j \<Longrightarrow> i = j"
    and rd_law: "coherent s \<Longrightarrow> rd b s = Ok i t \<Longrightarrow>
      coherent t \<and> view t = view s \<and> disk t = disk s \<and> writes t = writes s \<and>
      i \<notin> locked s \<and> owned t = insert i (owned s) \<and> locked t = insert i (locked s) \<and>
      pending t = pending s \<and> blk t i = b \<and> bdata t i = view s b \<and> clean t i \<and>
      (\<forall>j \<in> locked s. blk t j = blk s j \<and> bdata t j = bdata s j \<and> clean t j = clean s j) \<and>
      (room s (Suc n) \<or> b \<in> pending s \<and> room s n \<longrightarrow> room t n) \<and> b < blocks s \<and> rest s t"
    and rd_succeeds: "coherent s \<Longrightarrow> b < blocks s \<Longrightarrow> b \<notin> blk s ` locked s \<Longrightarrow>
      b \<in> pending s \<or> room s 1 \<Longrightarrow> \<exists>i t. rd b s = Ok i t"
    and put_law: "coherent s \<Longrightarrow> i \<in> owned s \<Longrightarrow>
      coherent (put i f s) \<and> view (put i f s) = (view s)(blk s i := f (bdata s i)) \<and>
      disk (put i f s) = disk s \<and> writes (put i f s) = writes s \<and>
      owned (put i f s) = owned s \<and> locked (put i f s) = locked s \<and>
      pending (put i f s) = pending s \<and> blk (put i f s) = blk s \<and>
      bdata (put i f s) = (bdata s)(i := f (bdata s i)) \<and>
      (\<forall>j. j \<noteq> i \<longrightarrow> clean (put i f s) j = clean s j) \<and>
      room (put i f s) = room s \<and> rest s (put i f s)"
    and wr_law: "coherent s \<Longrightarrow> i \<in> owned s \<Longrightarrow> \<exists>t. wr i s = Ok () t \<and>
      coherent t \<and> view t = view s \<and> disk t = (disk s)(blk s i := bdata s i) \<and>
      writes t = writes s @ [(blk s i, bdata s i)] \<and>
      owned t = owned s \<and> locked t = locked s \<and> pending t = pending s - {blk s i} \<and>
      blk t = blk s \<and> bdata t = bdata s \<and> clean t i \<and>
      (\<forall>j \<in> owned s. j \<noteq> i \<longrightarrow> clean t j = clean s j) \<and> (room s n \<longrightarrow> room t n) \<and> rest s t"
    and rel_law: "coherent s \<Longrightarrow> i \<in> owned s \<Longrightarrow> clean s i \<Longrightarrow> \<exists>t. rel i s = Ok () t \<and>
      coherent t \<and> view t = view s \<and> disk t = disk s \<and> writes t = writes s \<and>
      owned t = owned s - {i} \<and> locked t = locked s - {i} \<and> pending t = pending s \<and>
      blk t = blk s \<and> bdata t = bdata s \<and> (\<forall>j. clean t j = clean s j) \<and>
      (room s n \<longrightarrow> room t n) \<and> (blk s i \<notin> pending s \<and> room s n \<longrightarrow> room t (Suc n)) \<and> rest s t"
begin

text \<open>Reading a block's contents and releasing the buffer.\<close>

lemma peek:
  assumes c: "coherent s" and r: "kbind (rd b) (\<lambda>i. kbind (kget (\<lambda>s. f (bdata s i))) (\<lambda>v.
      kthen (rel i) (kret v))) s = Ok x t"
  shows "x = f (view s b)" and "coherent t" and "view t = view s" and "disk t = disk s"
    and "writes t = writes s" and "owned t = owned s" and "locked t = locked s"
    and "pending t = pending s" and "rest s t" and "b < blocks s"
proof -
  from r obtain i u where u: "rd b s = Ok i u" and k: "kthen (rel i) (kret (f (bdata u i))) u = Ok x t"
    by (auto simp: kbind_Ok_iff kget_apply)
  note R = rd_law[OF c u, of 0]
  have cu: "coherent u" "i \<in> owned u" "clean u i" using R by auto
  have "rest s u" using R by simp
  moreover have "rest u t" using rel_law[OF cu, of 0] k by (auto simp: kthen_Ok_iff kret_apply)
  ultimately show "rest s t" by (rule rest_trans)
  from rel_law[OF cu, of 0] k R
  show "x = f (view s b)" "coherent t" "view t = view s" "disk t = disk s"
    "writes t = writes s" "owned t = owned s" "locked t = locked s"
    "pending t = pending s" "b < blocks s"
    using owned_locked[of s] by (auto simp: kthen_Ok_iff kret_apply)
qed

lemma peek_room:
  assumes c: "coherent s" and r: "kbind (rd b) (\<lambda>i. kbind (kget (\<lambda>s. f (bdata s i))) (\<lambda>v.
      kthen (rel i) (kret v))) s = Ok x t" and room: "room s (Suc n)" and np: "b \<notin> pending s"
  shows "room t (Suc n)"
proof -
  from r obtain i u where u: "rd b s = Ok i u" and k: "kthen (rel i) (kret (f (bdata u i))) u = Ok x t"
    by (auto simp: kbind_Ok_iff kget_apply)
  note R = rd_law[OF c u, of n]
  have "coherent u" "i \<in> owned u" "clean u i" "room u n" "blk u i \<notin> pending u" using R room np by auto
  with rel_law[of u i n] k show ?thesis by (auto simp: kthen_Ok_iff kret_apply)
qed

text \<open>Changing a block and writing it to the disk.\<close>

lemma rewrite:
  assumes c: "coherent s" and r: "kbind (rd b) (\<lambda>i. kthen (kmod (put i f)) (kthen (wr i) (rel i))) s = Ok x t"
  shows "coherent t" and "view t = (view s)(b := f (view s b))" and "disk t = (disk s)(b := f (view s b))"
    and "writes t = writes s @ [(b, f (view s b))]" and "owned t = owned s" and "locked t = locked s"
    and "pending t = pending s - {b}" and "rest s t"
    and "room s (Suc n) \<Longrightarrow> room t (Suc n)"
proof -
  from r obtain i u where u: "rd b s = Ok i u" and k: "kthen (wr i) (rel i) (put i f u) = Ok x t"
    by (auto simp: kbind_Ok_iff kthen_Ok_iff kmod_apply)
  note R = rd_law[OF c u, of n]
  have cu: "coherent u" "i \<in> owned u" using R by auto
  note P = put_law[OF cu, of f]
  have "coherent (put i f u)" "i \<in> owned (put i f u)" using P cu by auto
  from wr_law[OF this, of n] k obtain v where W: "wr i (put i f u) = Ok () v" "rel i v = Ok x t"
    "coherent v" "view v = view (put i f u)" "disk v = (disk (put i f u))(blk (put i f u) i := bdata (put i f u) i)"
    "writes v = writes (put i f u) @ [(blk (put i f u) i, bdata (put i f u) i)]"
    "owned v = owned (put i f u)" "locked v = locked (put i f u)"
    "pending v = pending (put i f u) - {blk (put i f u) i}" "blk v = blk (put i f u)" "clean v i"
    "room (put i f u) n \<longrightarrow> room v n" "rest (put i f u) v"
    by (auto simp: kthen_Ok_iff)
  have "i \<in> owned v" using W(7) P cu by simp
  from rel_law[OF W(3) this W(11), of n] W(2)
  have L: "coherent t" "view t = view v" "disk t = disk v" "writes t = writes v"
    "owned t = owned v - {i}" "locked t = locked v - {i}" "pending t = pending v"
    "blk v i \<notin> pending v \<and> room v n \<longrightarrow> room t (Suc n)" "rest v t" by auto
  show "coherent t" "view t = (view s)(b := f (view s b))" "disk t = (disk s)(b := f (view s b))"
    "writes t = writes s @ [(b, f (view s b))]" "owned t = owned s" "locked t = locked s"
    "pending t = pending s - {b}" "room s (Suc n) \<Longrightarrow> room t (Suc n)"
    using L W P R owned_locked[of s] by auto
  have "rest s u" using R by simp
  also have "rest u (put i f u)" using P by simp
  also (rest_trans) note W(13)
  also (rest_trans) note L(9)
  finally (rest_trans) show "rest s t" .
qed

text \<open>
  Copying the block \<open>a\<close> onto the block \<open>b\<close>. The log reads source and destination in either
  order, so the tail of the sequence is stated for two buffers already read.
\<close>

lemma copy_tail:
  assumes c: "coherent s" and l: "l \<in> owned s" "clean s l" and d: "d \<in> owned s" and ld: "l \<noteq> d"
    and r: "kthen (kmod (\<lambda>s. put d (\<lambda>_. bdata s l) s)) (kthen (wr d) (kthen (rel l) (rel d))) s = Ok x t"
  shows "coherent t" and "view t = (view s)(blk s d := bdata s l)"
    and "disk t = (disk s)(blk s d := bdata s l)"
    and "writes t = writes s @ [(blk s d, bdata s l)]"
    and "owned t = owned s - {l, d}" and "locked t = locked s - {l, d}"
    and "pending t = pending s - {blk s d}" and "rest s t" and "room s n \<Longrightarrow> room t (Suc n)"
    and "room s n \<Longrightarrow> blk s l \<notin> pending s \<Longrightarrow> room t (Suc (Suc n))"
proof -
  let ?p = "put d (\<lambda>_. bdata s l) s"
  note P = put_law[OF c d, of "\<lambda>_. bdata s l"]
  have "coherent ?p" "d \<in> owned ?p" using P d by auto
  from wr_law[OF this, of n] r obtain v where W: "coherent v" "view v = view ?p"
    "disk v = (disk ?p)(blk ?p d := bdata ?p d)" "writes v = writes ?p @ [(blk ?p d, bdata ?p d)]"
    "owned v = owned ?p" "locked v = locked ?p" "pending v = pending ?p - {blk ?p d}"
    "blk v = blk ?p" "clean v d" "\<forall>j \<in> owned ?p. j \<noteq> d \<longrightarrow> clean v j = clean ?p j"
    "room ?p n \<longrightarrow> room v n" "rest ?p v" and k: "kthen (rel l) (rel d) v = Ok x t"
    by (auto simp: kthen_Ok_iff kmod_apply)
  have vl: "l \<in> owned v" "clean v l" using W P l ld by auto
  from k obtain y w where w: "rel l v = Ok y w" and k2: "rel d w = Ok x t" by (auto simp: kthen_Ok_iff)
  from rel_law[OF W(1) vl, of n] w have L: "coherent w" "view w = view v" "disk w = disk v"
    "writes w = writes v" "owned w = owned v - {l}" "locked w = locked v - {l}" "pending w = pending v"
    "blk w = blk v" "\<forall>j. clean w j = clean v j" "room v n \<longrightarrow> room w n" "rest v w"
    "blk v l \<notin> pending v \<and> room v n \<longrightarrow> room w (Suc n)" by auto
  have "d \<in> owned w" "clean w d" using L W P d ld by auto
  from rel_law[OF L(1) this, of n] rel_law[OF L(1) this, of "Suc n"] k2
  have D: "coherent t" "view t = view w" "disk t = disk w" "writes t = writes w"
    "owned t = owned w - {d}" "locked t = locked w - {d}" "pending t = pending w"
    "blk w d \<notin> pending w \<and> room w n \<longrightarrow> room t (Suc n)" "rest w t"
    "blk w d \<notin> pending w \<and> room w (Suc n) \<longrightarrow> room t (Suc (Suc n))" by auto
  show "coherent t" "view t = (view s)(blk s d := bdata s l)"
    "disk t = (disk s)(blk s d := bdata s l)" "writes t = writes s @ [(blk s d, bdata s l)]"
    "owned t = owned s - {l, d}" "locked t = locked s - {l, d}"
    "pending t = pending s - {blk s d}" "room s n \<Longrightarrow> room t (Suc n)"
    "room s n \<Longrightarrow> blk s l \<notin> pending s \<Longrightarrow> room t (Suc (Suc n))"
    using D L W P by auto
  have "rest s ?p" using P by simp
  also note W(12)
  also (rest_trans) note L(11)
  also (rest_trans) note D(9)
  finally (rest_trans) show "rest s t" .
qed

lemma copy_tail_succeeds:
  assumes c: "coherent s" and l: "l \<in> owned s" "clean s l" and d: "d \<in> owned s" and ld: "l \<noteq> d"
  shows "\<exists>t. kthen (kmod (\<lambda>s. put d (\<lambda>_. bdata s l) s)) (kthen (wr d) (kthen (rel l) (rel d))) s = Ok () t"
proof -
  let ?p = "put d (\<lambda>_. bdata s l) s"
  note P = put_law[OF c d, of "\<lambda>_. bdata s l"]
  have "coherent ?p" "d \<in> owned ?p" using P d by auto
  from wr_law[OF this, of 0] obtain v where W: "wr d ?p = Ok () v" "coherent v" "owned v = owned ?p" "clean v d"
    "\<forall>j \<in> owned ?p. j \<noteq> d \<longrightarrow> clean v j = clean ?p j" by auto
  have vl: "l \<in> owned v" "clean v l" using W P l ld by auto
  from rel_law[OF W(2) vl, of 0] obtain w where L: "rel l v = Ok () w" "coherent w" "owned w = owned v - {l}"
    "\<forall>j. clean w j = clean v j" by auto
  have "d \<in> owned w" "clean w d" using L W P d ld by auto
  from rel_law[OF L(2) this, of 0] obtain t where "rel d w = Ok () t" by auto
  then show ?thesis using W(1) L(1) by (auto simp: kthen_Ok_iff kmod_apply)
qed

lemma copy_src_first:
  assumes c: "coherent s"
    and r: "kbind (rd a) (\<lambda>l. kbind (rd b) (\<lambda>d. kthen (kmod (\<lambda>s. put d (\<lambda>_. bdata s l) s))
      (kthen (wr d) (kthen (rel l) (rel d))))) s = Ok x t"
  shows "coherent t" and "view t = (view s)(b := view s a)" and "disk t = (disk s)(b := view s a)"
    and "writes t = writes s @ [(b, view s a)]" and "owned t = owned s" and "locked t = locked s"
    and "pending t = pending s - {b}" and "rest s t" and "b < blocks s"
    and "room s 1 \<Longrightarrow> b \<in> pending s \<or> room s 2 \<Longrightarrow> room t 1"
    and "room s 2 \<Longrightarrow> a \<notin> pending s \<Longrightarrow> room t 2"
proof -
  from r obtain l u where u: "rd a s = Ok l u" and k: "kbind (rd b) (\<lambda>d. kthen (kmod (\<lambda>s. put d (\<lambda>_. bdata s l) s))
      (kthen (wr d) (kthen (rel l) (rel d)))) u = Ok x t" by (auto simp: kbind_Ok_iff)
  from k obtain d v where v: "rd b u = Ok d v" and k2: "kthen (kmod (\<lambda>s. put d (\<lambda>_. bdata s l) s))
      (kthen (wr d) (kthen (rel l) (rel d))) v = Ok x t" by (auto simp: kbind_Ok_iff)
  note A = rd_law[OF c u, of 0] rd_law[OF c u, of 1]
  have cu: "coherent u" using A by simp
  note B = rd_law[OF cu v, of 0]
  have h: "coherent v" "l \<in> owned v" "clean v l" "d \<in> owned v" "l \<noteq> d" using A B by auto
  note C = copy_tail[OF h k2]
  show "coherent t" "view t = (view s)(b := view s a)" "disk t = (disk s)(b := view s a)"
    "writes t = writes s @ [(b, view s a)]" "owned t = owned s" "locked t = locked s"
    "pending t = pending s - {b}"
    using A B C(1-7) owned_locked[of s] by auto
  have su: "rest s u" using A by simp
  also have "rest u v" using B by simp
  also (rest_trans) note C(8)
  finally (rest_trans) show "rest s t" .
  show "b < blocks s" using B rest_blocks[OF su] by simp
  { assume "room s 1" "b \<in> pending s \<or> room s 2"
    then have "room v 0" using A B by (auto simp: numeral_2_eq_2)
    from C(9)[OF this] show "room t 1" by simp }
  { assume "room s 2" "a \<notin> pending s"
    then have "room v 0" "blk v l \<notin> pending v" using A B by (auto simp: numeral_2_eq_2)
    from C(10)[OF this] show "room t 2" by (simp add: numeral_2_eq_2) }
qed

lemma copy_dst_first:
  assumes c: "coherent s"
    and r: "kbind (rd b) (\<lambda>d. kbind (rd a) (\<lambda>l. kthen (kmod (\<lambda>s. put d (\<lambda>_. bdata s l) s))
      (kthen (wr d) (kthen (rel l) (rel d))))) s = Ok x t"
  shows "coherent t" and "view t = (view s)(b := view s a)" and "disk t = (disk s)(b := view s a)"
    and "writes t = writes s @ [(b, view s a)]" and "owned t = owned s" and "locked t = locked s"
    and "pending t = pending s - {b}" and "rest s t" and "b < blocks s"
    and "room s 1 \<Longrightarrow> a \<in> pending s \<or> room s 2 \<Longrightarrow> room t 1"
proof -
  from r obtain d u where u: "rd b s = Ok d u" and k: "kbind (rd a) (\<lambda>l. kthen (kmod (\<lambda>s. put d (\<lambda>_. bdata s l) s))
      (kthen (wr d) (kthen (rel l) (rel d)))) u = Ok x t" by (auto simp: kbind_Ok_iff)
  from k obtain l v where v: "rd a u = Ok l v" and k2: "kthen (kmod (\<lambda>s. put d (\<lambda>_. bdata s l) s))
      (kthen (wr d) (kthen (rel l) (rel d))) v = Ok x t" by (auto simp: kbind_Ok_iff)
  note A = rd_law[OF c u, of 0] rd_law[OF c u, of 1]
  have cu: "coherent u" using A by simp
  note B = rd_law[OF cu v, of 0]
  have h: "coherent v" "l \<in> owned v" "clean v l" "d \<in> owned v" "l \<noteq> d" using A B by auto
  note C = copy_tail[OF h k2]
  show "coherent t" "view t = (view s)(b := view s a)" "disk t = (disk s)(b := view s a)"
    "writes t = writes s @ [(b, view s a)]" "owned t = owned s" "locked t = locked s"
    "pending t = pending s - {b}"
    using A B C(1-7) owned_locked[of s] by auto
  have su: "rest s u" using A by simp
  also have "rest u v" using B by simp
  also (rest_trans) note C(8)
  finally (rest_trans) show "rest s t" .
  show "b < blocks s" using A by simp
  assume "room s 1" "a \<in> pending s \<or> room s 2"
  then have "room v 0" using A B by (auto simp: numeral_2_eq_2)
  from C(9)[OF this] show "room t 1" by simp
qed

text \<open>A loop of copies, for sources that are not destinations.\<close>

lemma copy_loop:
  assumes c: "coherent s" and r: "kfor body [0..<n] s = Ok x t"
    and step: "\<And>i u x t. i < n \<Longrightarrow> coherent u \<Longrightarrow> rest s u \<Longrightarrow> body i u = Ok x t \<Longrightarrow>
      coherent t \<and> view t = (view u)(dst i := view u (src i)) \<and> disk t = (disk u)(dst i := view u (src i)) \<and>
      writes t = writes u @ [(dst i, view u (src i))] \<and> owned t = owned u \<and> locked t = locked u \<and>
      pending t = pending u - {dst i} \<and> rest u t"
    and apart: "\<And>i j. i < n \<Longrightarrow> j < n \<Longrightarrow> src i \<noteq> dst j"
  defines "ws \<equiv> map (\<lambda>i. (dst i, view s (src i))) [0..<n]"
  shows "coherent t \<and> view t = apply_writes ws (view s) \<and> disk t = apply_writes ws (disk s) \<and>
    writes t = writes s @ ws \<and> owned t = owned s \<and> locked t = locked s \<and>
    pending t = pending s - dst ` {..<n} \<and> rest s t"
  using r step apart unfolding ws_def
proof (induction n arbitrary: x t)
  case 0
  then show ?case using c rest_refl by (simp add: kret_apply)
next
  case (Suc n)
  from Suc.prems(1) obtain y u where u: "kfor body [0..<n] s = Ok y u" and b: "body n u = Ok () t"
    by (auto simp: kfor_append kthen_Ok_iff kret_apply)
  let ?ws = "map (\<lambda>i. (dst i, view s (src i))) [0..<n]"
  have IH: "coherent u \<and> view u = apply_writes ?ws (view s) \<and> disk u = apply_writes ?ws (disk s) \<and>
    writes u = writes s @ ?ws \<and> owned u = owned s \<and> locked u = locked s \<and>
    pending u = pending s - dst ` {..<n} \<and> rest s u"
    by (rule Suc.IH[OF u]) (rule Suc.prems(2), simp_all add: Suc.prems(3))
  have src: "view u (src n) = view s (src n)"
    using IH Suc.prems(3) by (subst conjunct1[OF conjunct2[OF IH]], subst apply_writes_other) auto
  have "rest s t" using rest_trans[of s u t] Suc.prems(2)[OF _ _ _ b] IH by auto
  then show ?case
    using Suc.prems(2)[OF _ _ _ b] IH src by (auto simp: lessThan_Suc)
qed

text \<open>The same sequences succeed while the cache has a free buffer.\<close>

lemma copy_reads_succeed:
  assumes c: "coherent s" and ab: "a < blocks s" "b < blocks s" "a \<noteq> b" and idle: "locked s = {}"
    and room: "room s 1" "b \<in> pending s \<or> room s 2"
  obtains l d u v where "rd a s = Ok l u" "rd b u = Ok d v" "coherent v" "l \<in> owned v" "clean v l"
    "d \<in> owned v" "clean v d" "l \<noteq> d"
proof -
  from rd_succeeds[OF c ab(1)] idle room obtain l u where u: "rd a s = Ok l u" by auto
  note A = rd_law[OF c u, of 0] rd_law[OF c u, of 1]
  have cu: "coherent u" "b < blocks u" "b \<notin> blk u ` locked u" "b \<in> pending u \<or> room u 1"
    using A ab idle room rest_blocks[of s u] by (auto simp: numeral_2_eq_2)
  from rd_succeeds[OF cu] obtain d v where v: "rd b u = Ok d v" by auto
  note B = rd_law[OF cu(1) v, of 0]
  show thesis by (rule that[OF u v]) (use A B in auto)
qed

lemma copy_src_first_succeeds:
  assumes "coherent s" "a < blocks s" "b < blocks s" "a \<noteq> b" "locked s = {}"
    "room s 1" "b \<in> pending s \<or> room s 2"
  shows "\<exists>t. kbind (rd a) (\<lambda>l. kbind (rd b) (\<lambda>d. kthen (kmod (\<lambda>s. put d (\<lambda>_. bdata s l) s))
      (kthen (wr d) (kthen (rel l) (rel d))))) s = Ok () t"
proof -
  obtain l d u v where r: "rd a s = Ok l u" "rd b u = Ok d v" and h: "coherent v" "l \<in> owned v" "clean v l"
    "d \<in> owned v" "clean v d" "l \<noteq> d" using copy_reads_succeed[OF assms] .
  show ?thesis using copy_tail_succeeds[OF h(1,2,3,4,6)] r by (auto simp: kbind_Ok_iff)
qed

lemma copy_dst_first_succeeds:
  assumes "coherent s" "b < blocks s" "a < blocks s" "b \<noteq> a" "locked s = {}"
    "room s 1" "a \<in> pending s \<or> room s 2"
  shows "\<exists>t. kbind (rd b) (\<lambda>d. kbind (rd a) (\<lambda>l. kthen (kmod (\<lambda>s. put d (\<lambda>_. bdata s l) s))
      (kthen (wr d) (kthen (rel l) (rel d))))) s = Ok () t"
proof -
  obtain d l u v where r: "rd b s = Ok d u" "rd a u = Ok l v" and h: "coherent v" "d \<in> owned v" "clean v d"
    "l \<in> owned v" "clean v l" "d \<noteq> l" using copy_reads_succeed[OF assms] .
  show ?thesis using copy_tail_succeeds[OF h(1,4,5,2)] h(6) r by (auto simp: kbind_Ok_iff)
qed

lemma peek_succeeds:
  assumes c: "coherent s" "b < blocks s" "locked s = {}" "room s 1"
  shows "\<exists>t. kbind (rd b) (\<lambda>i. kbind (kget (\<lambda>s. f (bdata s i))) (\<lambda>v.
      kthen (rel i) (kret v))) s = Ok (f (view s b)) t"
proof -
  from rd_succeeds[of s b] c obtain i u where u: "rd b s = Ok i u" by auto
  note R = rd_law[OF c(1) u, of 0]
  have cu: "coherent u" "i \<in> owned u" "clean u i" "bdata u i = view s b" using R by auto
  from rel_law[OF cu(1,2,3), of 0] obtain t where "rel i u = Ok () t" by auto
  then show ?thesis using u cu(4) by (auto simp: kbind_Ok_iff kthen_Ok_iff kget_apply kret_apply)
qed

lemma rewrite_succeeds:
  assumes c: "coherent s" "b < blocks s" "locked s = {}" "room s 1"
  shows "\<exists>t. kbind (rd b) (\<lambda>i. kthen (kmod (put i f)) (kthen (wr i) (rel i))) s = Ok () t"
proof -
  from rd_succeeds[of s b] c obtain i u where u: "rd b s = Ok i u" by auto
  note R = rd_law[OF c(1) u, of 0]
  have cu: "coherent u" "i \<in> owned u" using R by auto
  note P = put_law[OF cu, of f]
  have "coherent (put i f u)" "i \<in> owned (put i f u)" using P cu by auto
  from wr_law[OF this, of 0] obtain v where W: "wr i (put i f u) = Ok () v" "coherent v"
    "owned v = owned (put i f u)" "clean v i" by auto
  have "i \<in> owned v" using W P cu by auto
  from rel_law[OF W(2) this W(4), of 0] obtain t where "rel i v = Ok () t" by auto
  then show ?thesis using u W(1) by (auto simp: kbind_Ok_iff kthen_Ok_iff kmod_apply)
qed

end

end
