(* ===== verification/Bio.thy ===== *)
theory Bio
  imports Proc_Table Block_Iface
begin

text \<open>
  The buffer cache (\<^verbatim>\<open>kernel/bio.c\<close>) over the in-memory disk driver (\<^verbatim>\<open>kernel/memide.c\<close>).

  \<open>bufs\<close> is the array \<^verbatim>\<open>bcache.buf[NBUF]\<close>; the doubly linked list through \<^verbatim>\<open>prev\<close>/\<^verbatim>\<open>next\<close>
  is the list \<open>mru\<close> of buffer indices from \<^verbatim>\<open>head.next\<close> (most recently used) to \<^verbatim>\<open>head.prev\<close>.
  The flag bits \<^verbatim>\<open>B_VALID\<close> and \<^verbatim>\<open>B_DIRTY\<close> are two booleans. \<open>dwrites\<close> records the writes
  the driver made to the disk, in order: it is not in the code, and says what a crash may
  leave on the disk.

  The theory shows that the cache is a coherent view of the disk: \<open>bview s b\<close> is what block
  \<open>b\<close> holds, wherever its newest copy is, and every operation is described by its effect on
  that view.
\<close>

abbreviation (input) BSIZE :: nat where "BSIZE \<equiv> 512"

record buf =
  b_valid :: bool
  b_dirty :: bool
  b_dev :: nat
  b_blockno :: nat
  b_lock :: sleeplock
  b_refcnt :: nat
  b_data :: bytes

record bio = kbase +
  memdisk :: "nat \<Rightarrow> bytes"
  disksize :: nat
  dwrites :: "(nat \<times> bytes) list"
  bufs :: "nat \<Rightarrow> buf"
  mru :: "nat list"

definition upd_buf :: "nat \<Rightarrow> (buf \<Rightarrow> buf) \<Rightarrow> 'a bio_scheme \<Rightarrow> 'a bio_scheme" where
  "upd_buf i f s = s\<lparr>bufs := (bufs s)(i := f (bufs s i))\<rparr>"

definition upd_data :: "nat \<Rightarrow> (bytes \<Rightarrow> bytes) \<Rightarrow> 'a bio_scheme \<Rightarrow> 'a bio_scheme" where
  "upd_data i f = upd_buf i (\<lambda>b. b\<lparr>b_data := f (b_data b)\<rparr>)"

section \<open>The disk driver\<close>

definition iderw :: "nat \<Rightarrow> ('a bio_scheme, unit) km" where
  "iderw i =
     kthen (kassert ''iderw: buf not locked'' (\<lambda>s. holdingsleep s (b_lock (bufs s i))))
    (kthen (kassert ''iderw: nothing to do''
              (\<lambda>s. \<not> (b_valid (bufs s i) \<and> \<not> b_dirty (bufs s i))))
    (kthen (kassert ''iderw: request not for disk 1'' (\<lambda>s. b_dev (bufs s i) = 1))
    (kthen (kassert ''iderw: block out of range'' (\<lambda>s. b_blockno (bufs s i) < disksize s))
    (kthen (kif (\<lambda>s. b_dirty (bufs s i))
        (kmod (\<lambda>s. (upd_buf i (\<lambda>b. b\<lparr>b_dirty := False\<rparr>) s)
            \<lparr>memdisk := (memdisk s)(b_blockno (bufs s i) := b_data (bufs s i)),
             dwrites := dwrites s @ [(b_blockno (bufs s i), b_data (bufs s i))]\<rparr>))
        (kmod (\<lambda>s. upd_buf i (\<lambda>b. b\<lparr>b_data := memdisk s (b_blockno b)\<rparr>) s)))
    (kmod (upd_buf i (\<lambda>b. b\<lparr>b_valid := True\<rparr>)))))))"

section \<open>The cache\<close>

definition init_buf :: buf where
  "init_buf = \<lparr>b_valid = False, b_dirty = False, b_dev = 0, b_blockno = 0,
     b_lock = initsleeplock, b_refcnt = 0, b_data = (\<lambda>_. 0)\<rparr>"

definition binit :: "('a bio_scheme, unit) km" where
  "binit = kthen (kmod (\<lambda>s. s\<lparr>mru := [], bufs := (\<lambda>_. init_buf)\<rparr>))
     (kfor (\<lambda>b. kmod (\<lambda>s. (upd_buf b (\<lambda>x. x\<lparr>b_lock := initsleeplock\<rparr>) s)\<lparr>mru := b # mru s\<rparr>))
       [0..<NBUF])"

definition block_lock :: "nat \<Rightarrow> ('a bio_scheme, unit) km" where
  "block_lock i = acquiresleep (ChBufLock i) (\<lambda>s. b_lock (bufs s i))
     (\<lambda>lk. upd_buf i (\<lambda>b. b\<lparr>b_lock := lk\<rparr>))"

definition bget :: "nat \<Rightarrow> nat \<Rightarrow> ('a bio_scheme, nat) km" where
  "bget dev blockno = (\<lambda>s.
     case find (\<lambda>i. b_dev (bufs s i) = dev \<and> b_blockno (bufs s i) = blockno) (mru s) of
       Some i \<Rightarrow>
         kthen (kmod (upd_buf i (\<lambda>b. b\<lparr>b_refcnt := b_refcnt b + 1\<rparr>)))
           (kthen (block_lock i) (kret i)) s
     | None \<Rightarrow>
        (case find (\<lambda>i. b_refcnt (bufs s i) = 0 \<and> \<not> b_dirty (bufs s i)) (rev (mru s)) of
           Some i \<Rightarrow>
             kthen (kmod (upd_buf i (\<lambda>b. b\<lparr>b_dev := dev, b_blockno := blockno,
                 b_valid := False, b_dirty := False, b_refcnt := 1\<rparr>)))
               (kthen (block_lock i) (kret i)) s
         | None \<Rightarrow> Panic ''bget: no buffers''))"

definition bread :: "nat \<Rightarrow> nat \<Rightarrow> ('a bio_scheme, nat) km" where
  "bread dev blockno =
     kbind (bget dev blockno) (\<lambda>b.
     kthen (kif (\<lambda>s. \<not> b_valid (bufs s b)) (iderw b) (kret ()))
     (kret b))"

definition bwrite :: "nat \<Rightarrow> ('a bio_scheme, unit) km" where
  "bwrite b =
     kthen (kassert ''bwrite'' (\<lambda>s. holdingsleep s (b_lock (bufs s b))))
    (kthen (kmod (upd_buf b (\<lambda>x. x\<lparr>b_dirty := True\<rparr>)))
     (iderw b))"

definition brelse :: "nat \<Rightarrow> ('a bio_scheme, unit) km" where
  "brelse b =
     kthen (kassert ''brelse'' (\<lambda>s. holdingsleep s (b_lock (bufs s b))))
    (kthen (releasesleep (ChBufLock b) (\<lambda>lk. upd_buf b (\<lambda>x. x\<lparr>b_lock := lk\<rparr>)))
    (kthen (kmod (upd_buf b (\<lambda>x. x\<lparr>b_refcnt := b_refcnt x - 1\<rparr>)))
     (kif (\<lambda>s. b_refcnt (bufs s b) = 0)
        (kmod (\<lambda>s. s\<lparr>mru := b # remove1 b (mru s)\<rparr>))
        (kret ()))))"

section \<open>Coherence\<close>

text \<open>What block \<open>b\<close> of the disk holds, seen through the cache.\<close>

definition bview :: "'a bio_scheme \<Rightarrow> nat \<Rightarrow> bytes" where
  "bview s b =
     (case findi (\<lambda>i. b_valid (bufs s i) \<and> b_dev (bufs s i) = 1 \<and> b_blockno (bufs s i) = b) NBUF of
        Some i \<Rightarrow> b_data (bufs s i)
      | None \<Rightarrow> memdisk s b)"

definition held :: "'a bio_scheme \<Rightarrow> nat set" where
  "held s = {i. i < NBUF \<and> sl_locked (b_lock (bufs s i))}"

definition dirty :: "'a bio_scheme \<Rightarrow> nat set" where
  "dirty s = {i. i < NBUF \<and> b_dirty (bufs s i)}"

definition buf_ok :: "'a bio_scheme \<Rightarrow> nat \<Rightarrow> bool" where
  "buf_ok s i \<longleftrightarrow>
     (b_valid (bufs s i) \<longrightarrow> b_dev (bufs s i) = 1 \<and> b_blockno (bufs s i) < disksize s) \<and>
     (b_dirty (bufs s i) \<longrightarrow> b_valid (bufs s i)) \<and>
     (b_valid (bufs s i) \<and> \<not> b_dirty (bufs s i) \<and> \<not> sl_locked (b_lock (bufs s i)) \<longrightarrow>
        b_data (bufs s i) = memdisk s (b_blockno (bufs s i))) \<and>
     b_refcnt (bufs s i) = (if sl_locked (b_lock (bufs s i)) then 1 else 0)"

definition bio_inv :: "'a bio_scheme \<Rightarrow> bool" where
  "bio_inv s \<longleftrightarrow>
     distinct (mru s) \<and> set (mru s) = {..<NBUF} \<and>
     (\<forall>i<NBUF. buf_ok s i) \<and>
     (\<forall>i<NBUF. \<forall>j<NBUF. b_dev (bufs s i) \<noteq> 0 \<and> b_dev (bufs s i) = b_dev (bufs s j) \<and>
        b_blockno (bufs s i) = b_blockno (bufs s j) \<longrightarrow> i = j)"


subsection \<open>Updates of one buffer\<close>

lemma upd_buf_simps [simp]:
  "bufs (upd_buf i f s) = (bufs s)(i := f (bufs s i))"
  "memdisk (upd_buf i f s) = memdisk s"
  "disksize (upd_buf i f s) = disksize s"
  "dwrites (upd_buf i f s) = dwrites s"
  "mru (upd_buf i f s) = mru s"
  "ptable (upd_buf i f s) = ptable s"
  "km_end (upd_buf i f s) = km_end s" "km_data (upd_buf i f s) = km_data s" "km_mem (upd_buf i f s) = km_mem s" "km_use_lock (upd_buf i f s) = km_use_lock s"
  "km_freelist (upd_buf i f s) = km_freelist s"
  "cur (upd_buf i f s) = cur s"
  "bio.more (upd_buf i f s) = bio.more s"
  by (simp_all add: upd_buf_def)

lemma upd_data_simps [simp]:
  "bufs (upd_data i f s) = (bufs s)(i := (bufs s i)\<lparr>b_data := f (b_data (bufs s i))\<rparr>)"
  "memdisk (upd_data i f s) = memdisk s"
  "disksize (upd_data i f s) = disksize s"
  "dwrites (upd_data i f s) = dwrites s"
  "mru (upd_data i f s) = mru s"
  "ptable (upd_data i f s) = ptable s"
  "km_end (upd_data i f s) = km_end s" "km_data (upd_data i f s) = km_data s" "km_mem (upd_data i f s) = km_mem s" "km_use_lock (upd_data i f s) = km_use_lock s"
  "km_freelist (upd_data i f s) = km_freelist s"
  "cur (upd_data i f s) = cur s"
  "bio.more (upd_data i f s) = bio.more s"
  by (simp_all add: upd_data_def)

lemma wakeup1_bio [simp]:
  "bufs (wakeup1 c s) = bufs s" "memdisk (wakeup1 c s) = memdisk s"
  "disksize (wakeup1 c s) = disksize s" "dwrites (wakeup1 c s) = dwrites s"
  "mru (wakeup1 c s) = mru s" "bio.more (wakeup1 c s) = bio.more s"
  by (simp_all add: wakeup1_def)

text \<open>The view, the locked and the dirty buffers depend on the cache and the disk only.\<close>

lemma bview_cong:
  "bufs t = bufs s \<Longrightarrow> memdisk t = memdisk s \<Longrightarrow> bview t = bview s"
  by (rule ext) (simp add: bview_def cong: option.case_cong)

lemma held_cong: "bufs t = bufs s \<Longrightarrow> held t = held s"
  by (simp add: held_def)

lemma dirty_cong: "bufs t = bufs s \<Longrightarrow> dirty t = dirty s"
  by (simp add: dirty_def)

lemma bio_inv_cong:
  "bufs t = bufs s \<Longrightarrow> memdisk t = memdisk s \<Longrightarrow> disksize t = disksize s \<Longrightarrow>
   distinct (mru t) \<Longrightarrow> set (mru t) = set (mru s) \<Longrightarrow> bio_inv s \<Longrightarrow> bio_inv t"
  by (simp add: bio_inv_def buf_ok_def)

lemma bio_inv_bufD: "bio_inv s \<Longrightarrow> i < NBUF \<Longrightarrow> buf_ok s i"
  by (simp add: bio_inv_def)

lemma bio_inv_uniqueD:
  "bio_inv s \<Longrightarrow> i < NBUF \<Longrightarrow> j < NBUF \<Longrightarrow> b_dev (bufs s i) \<noteq> 0 \<Longrightarrow>
   b_dev (bufs s i) = b_dev (bufs s j) \<Longrightarrow> b_blockno (bufs s i) = b_blockno (bufs s j) \<Longrightarrow> i = j"
  by (simp add: bio_inv_def)

lemma bio_inv_mruD: "bio_inv s \<Longrightarrow> distinct (mru s) \<and> set (mru s) = {..<NBUF}"
  by (simp add: bio_inv_def)

text \<open>A valid buffer is the view of its block: no block is cached twice.\<close>

lemma bview_buf:
  assumes inv: "bio_inv s" and i: "i < NBUF" and v: "b_valid (bufs s i)"
  shows "bview s (b_blockno (bufs s i)) = b_data (bufs s i)"
proof -
  let ?p = "\<lambda>j. b_valid (bufs s j) \<and> b_dev (bufs s j) = 1 \<and> b_blockno (bufs s j) = b_blockno (bufs s i)"
  have dev: "b_dev (bufs s i) = 1"
    using bio_inv_bufD[OF inv i] v by (simp add: buf_ok_def)
  have "\<not> ?p j" if "j < i" for j
    using bio_inv_uniqueD[OF inv _ i, of j] dev i that by auto
  then have "findi ?p NBUF = Some i"
    using i v dev by (simp add: findi_Some_iff)
  then show ?thesis by (simp add: bview_def)
qed

lemma bview_uncached:
  "(\<And>i. i < NBUF \<Longrightarrow> b_valid (bufs s i) \<Longrightarrow> b_dev (bufs s i) = 1 \<Longrightarrow> b_blockno (bufs s i) \<noteq> b) \<Longrightarrow>
   bview s b = memdisk s b"
  unfolding bview_def
  by (subst (1) findi_None[THEN iffD2]) auto


subsection \<open>bread\<close>

lemma block_lock_Ok_iff:
  "block_lock i s = Ok x t \<longleftrightarrow> \<not> sl_locked (b_lock (bufs s i)) \<and>
     t = upd_buf i (\<lambda>b. b\<lparr>b_lock := \<lparr>sl_locked = True, sl_pid = p_pid (myproc s)\<rparr>\<rparr>) s"
  by (simp add: block_lock_def acquiresleep_Ok_iff)

definition loaded :: "'a bio_scheme \<Rightarrow> nat \<Rightarrow> bool \<Rightarrow> bytes \<Rightarrow> buf" where
  "loaded s b d v = \<lparr>b_valid = True, b_dirty = d, b_dev = 1, b_blockno = b,
     b_lock = \<lparr>sl_locked = True, sl_pid = p_pid (myproc s)\<rparr>, b_refcnt = 1, b_data = v\<rparr>"

text \<open>
  \<open>bread\<close> returns a buffer that either held the block already, or was free and is now filled
  from the disk; nothing else changes.
\<close>

lemma find_SomeD: "find p xs = Some x \<Longrightarrow> x \<in> set xs \<and> p x"
  by (auto simp: find_Some_iff)

lemma bget_cases:
  assumes inv: "bio_inv s" and r: "bget 1 b s = Ok i t"
  obtains
    (hit) "i < NBUF" "b_dev (bufs s i) = 1" "b_blockno (bufs s i) = b"
      "\<not> sl_locked (b_lock (bufs s i))"
      "t = upd_buf i (\<lambda>x. x\<lparr>b_refcnt := 1,
             b_lock := \<lparr>sl_locked = True, sl_pid = p_pid (myproc s)\<rparr>\<rparr>) s"
  | (miss) "i < NBUF" "\<not> sl_locked (b_lock (bufs s i))" "\<not> b_dirty (bufs s i)"
      "\<forall>j<NBUF. \<not> (b_dev (bufs s j) = 1 \<and> b_blockno (bufs s j) = b)"
      "t = upd_buf i (\<lambda>x. x\<lparr>b_dev := 1, b_blockno := b, b_valid := False, b_dirty := False,
             b_refcnt := 1, b_lock := \<lparr>sl_locked = True, sl_pid = p_pid (myproc s)\<rparr>\<rparr>) s"
proof (cases "find (\<lambda>i. b_dev (bufs s i) = 1 \<and> b_blockno (bufs s i) = b) (mru s)")
  case (Some k)
  note found = Some
  from find_SomeD[OF Some] bio_inv_mruD[OF inv]
  have k: "k < NBUF" "b_dev (bufs s k) = 1" "b_blockno (bufs s k) = b" by auto
  from r found have i: "i = k" and nl: "\<not> sl_locked (b_lock (bufs s k))"
    and t: "t = upd_buf k (\<lambda>x. x\<lparr>b_lock := \<lparr>sl_locked = True, sl_pid = p_pid (myproc s)\<rparr>\<rparr>)
        (upd_buf k (\<lambda>x. x\<lparr>b_refcnt := b_refcnt x + 1\<rparr>) s)"
    by (auto simp: bget_def kthen_Ok_iff kmod_apply kret_apply block_lock_Ok_iff)
  have "b_refcnt (bufs s k) = 0"
    using bio_inv_bufD[OF inv k(1)] nl by (simp add: buf_ok_def)
  then have "t = upd_buf k (\<lambda>x. x\<lparr>b_refcnt := 1,
             b_lock := \<lparr>sl_locked = True, sl_pid = p_pid (myproc s)\<rparr>\<rparr>) s"
    using t by (simp add: upd_buf_def)
  with k nl i show ?thesis by (intro hit) auto
next
  case None
  note nf = None
  then have none: "\<forall>j<NBUF. \<not> (b_dev (bufs s j) = 1 \<and> b_blockno (bufs s j) = b)"
    using bio_inv_mruD[OF inv] by (auto simp: find_None_iff)
  from r nf obtain k where f: "find (\<lambda>i. b_refcnt (bufs s i) = 0 \<and> \<not> b_dirty (bufs s i)) (rev (mru s)) = Some k"
    by (auto simp: bget_def split: option.splits)
  from find_SomeD[OF f] bio_inv_mruD[OF inv]
  have k: "k < NBUF" "b_refcnt (bufs s k) = 0" "\<not> b_dirty (bufs s k)" by auto
  have nl: "\<not> sl_locked (b_lock (bufs s k))"
    using bio_inv_bufD[OF inv k(1)] k(2) by (auto simp: buf_ok_def split: if_splits)
  from r nf f have "i = k"
    and t: "t = upd_buf k (\<lambda>x. x\<lparr>b_lock := \<lparr>sl_locked = True, sl_pid = p_pid (myproc s)\<rparr>\<rparr>)
        (upd_buf k (\<lambda>x. x\<lparr>b_dev := 1, b_blockno := b, b_valid := False, b_dirty := False, b_refcnt := 1\<rparr>) s)"
    by (auto simp: bget_def kthen_Ok_iff kmod_apply kret_apply block_lock_Ok_iff)
  then show ?thesis using k nl none by (intro miss) (auto simp: upd_buf_def)
qed

lemma iderw_read:
  assumes "iderw i s = Ok x t" and "\<not> b_dirty (bufs s i)"
  shows "t = upd_buf i (\<lambda>b. b\<lparr>b_data := memdisk s (b_blockno b), b_valid := True\<rparr>) s"
    and "b_blockno (bufs s i) < disksize s" and "b_dev (bufs s i) = 1"
  using assms
  by (auto simp: iderw_def kthen_Ok_iff kassert_Ok_iff kif_apply kmod_apply upd_buf_def)

lemma loaded_hit:
  "b_valid x \<Longrightarrow> b_dev x = 1 \<Longrightarrow> b_blockno x = b \<Longrightarrow>
   x\<lparr>b_refcnt := 1, b_lock := \<lparr>sl_locked = True, sl_pid = p_pid (myproc s)\<rparr>\<rparr>
     = loaded s b (b_dirty x) (b_data x)"
  by (cases x) (simp add: loaded_def)

lemma loaded_fill:
  "\<not> b_dirty x \<Longrightarrow> b_dev x = 1 \<Longrightarrow> b_blockno x = b \<Longrightarrow> b_refcnt x = 1 \<Longrightarrow>
   b_lock x = \<lparr>sl_locked = True, sl_pid = p_pid (myproc s)\<rparr> \<Longrightarrow>
   x\<lparr>b_data := v, b_valid := True\<rparr> = loaded s b False v"
  by (cases x) (simp add: loaded_def)

lemma bread_cases:
  assumes inv: "bio_inv s" and r: "bread 1 b s = Ok i t"
  obtains
    (cached) "i < NBUF" "b_valid (bufs s i)" "b_dev (bufs s i) = 1" "b_blockno (bufs s i) = b"
      "\<not> sl_locked (b_lock (bufs s i))"
      "t = upd_buf i (\<lambda>x. loaded s b (b_dirty x) (b_data x)) s"
  | (filled) "i < NBUF" "\<not> sl_locked (b_lock (bufs s i))" "\<not> b_dirty (bufs s i)" "b < disksize s"
      "\<forall>j<NBUF. b_valid (bufs s j) \<and> b_dev (bufs s j) = 1 \<longrightarrow> b_blockno (bufs s j) \<noteq> b"
      "\<forall>j<NBUF. j \<noteq> i \<and> b_dev (bufs s j) = 1 \<longrightarrow> b_blockno (bufs s j) \<noteq> b"
      "t = upd_buf i (\<lambda>x. loaded s b False (memdisk s b)) s"
proof -
  from r obtain u where g: "bget 1 b s = Ok i u"
    and rd: "kif (\<lambda>s. \<not> b_valid (bufs s i)) (iderw i) (kret ()) u = Ok () t"
    by (auto simp: bread_def kbind_Ok_iff kthen_Ok_iff kret_apply)
  from inv g show ?thesis
  proof (cases rule: bget_cases)
    case hit
    show ?thesis
    proof (cases "b_valid (bufs s i)")
      case True
      with hit rd have "t = u" by (simp add: kif_apply kret_apply)
      then have "t = upd_buf i (\<lambda>x. loaded s b (b_dirty x) (b_data x)) s"
        unfolding hit(5) upd_buf_def using loaded_hit[OF True hit(2,3), of s] by simp
      then show ?thesis using hit(1-4) True by (intro cached)
    next
      case False
      have nd: "\<not> b_dirty (bufs s i)"
        using bio_inv_bufD[OF inv hit(1)] False by (simp add: buf_ok_def)
      have "iderw i u = Ok () t" and "\<not> b_dirty (bufs u i)"
        using rd hit(5) False nd by (simp_all add: kif_apply)
      note t = iderw_read[OF this]
      have eq: "t = upd_buf i (\<lambda>x. loaded s b False (memdisk s b)) s"
        unfolding t(1) hit(5) using hit(3) nd hit(2)
        by (simp add: upd_buf_def loaded_fill)
      have oth: "\<forall>j<NBUF. j \<noteq> i \<and> b_dev (bufs s j) = 1 \<longrightarrow> b_blockno (bufs s j) \<noteq> b"
        using bio_inv_uniqueD[OF inv _ hit(1)] hit(2,3) by auto
      have "\<forall>j<NBUF. b_valid (bufs s j) \<and> b_dev (bufs s j) = 1 \<longrightarrow> b_blockno (bufs s j) \<noteq> b"
        using oth False by auto
      moreover have "b < disksize s" using t(2) hit(3,5) by simp
      ultimately show ?thesis using hit(1,4) nd oth eq by (intro filled)
    qed
  next
    case miss
    have "iderw i u = Ok () t" and "\<not> b_dirty (bufs u i)"
      using rd miss(5) by (simp_all add: kif_apply)
    note t = iderw_read[OF this]
    have eq: "t = upd_buf i (\<lambda>x. loaded s b False (memdisk s b)) s"
      unfolding t(1) miss(5) by (simp add: upd_buf_def loaded_fill)
    have "b < disksize s" using t(2) miss(5) by simp
    then show ?thesis using miss(1-4) eq by (intro filled) auto
  qed
qed


text \<open>The numbers of the blocks whose newest copy is not on the disk yet.\<close>

definition dirty_blocks :: "'a bio_scheme \<Rightarrow> nat set" where
  "dirty_blocks s = (\<lambda>i. b_blockno (bufs s i)) ` dirty s"

lemma loaded_simps [simp]:
  "b_valid (loaded s b d v)" "b_dirty (loaded s b d v) = d" "b_dev (loaded s b d v) = 1"
  "b_blockno (loaded s b d v) = b" "b_refcnt (loaded s b d v) = 1" "b_data (loaded s b d v) = v"
  "sl_locked (b_lock (loaded s b d v))" "sl_pid (b_lock (loaded s b d v)) = p_pid (myproc s)"
  by (simp_all add: loaded_def)

lemma bio_inv_update:
  assumes inv: "bio_inv s" and i: "i < NBUF" and B: "b_dev B = 1" "b_blockno B = b"
    and ok: "buf_ok (upd_buf i (\<lambda>_. B) s) i"
    and oth: "\<And>j. j < NBUF \<Longrightarrow> j \<noteq> i \<Longrightarrow> b_dev (bufs s j) = 1 \<Longrightarrow> b_blockno (bufs s j) \<noteq> b"
  shows "bio_inv (upd_buf i (\<lambda>_. B) s)"
  unfolding bio_inv_def
proof (intro conjI allI impI)
  let ?t = "upd_buf i (\<lambda>_. B) s"
  show "distinct (mru ?t)" "set (mru ?t) = {..<NBUF}"
    using bio_inv_mruD[OF inv] by simp_all
  fix j
  assume j: "j < NBUF"
  show "buf_ok ?t j"
    using ok bio_inv_bufD[OF inv j] by (cases "j = i") (simp_all add: buf_ok_def)
next
  fix j k
  let ?t = "upd_buf i (\<lambda>_. B) s"
  assume "j < NBUF" "k < NBUF" and eq: "b_dev (bufs ?t j) \<noteq> 0 \<and> b_dev (bufs ?t j) = b_dev (bufs ?t k) \<and>
      b_blockno (bufs ?t j) = b_blockno (bufs ?t k)"
  then show "j = k"
    using bio_inv_uniqueD[OF inv, of j k] oth[of j] oth[of k] B
    by (cases "j = i"; cases "k = i") auto
qed

lemma upd_buf_const: "upd_buf i f s = upd_buf i (\<lambda>_. f (bufs s i)) s"
  by (simp add: upd_buf_def)

text \<open>
  The contract of \<open>bread\<close>: a buffer that no one held, locked by the caller and holding the
  current contents of the block; the view and the disk are unchanged.
\<close>

lemma bread_inv:
  assumes inv: "bio_inv s" and r: "bread 1 b s = Ok i t"
  shows "bio_inv t"
  using inv r
proof (cases rule: bread_cases)
  case cached
  have "bio_inv (upd_buf i (\<lambda>_. loaded s b (b_dirty (bufs s i)) (b_data (bufs s i))) s)"
  proof (rule bio_inv_update[OF inv cached(1)])
    show "buf_ok (upd_buf i (\<lambda>_. loaded s b (b_dirty (bufs s i)) (b_data (bufs s i))) s) i"
      using bio_inv_bufD[OF inv cached(1)] cached(2,4) by (simp add: buf_ok_def)
    show "b_blockno (bufs s j) \<noteq> b" if "j < NBUF" "j \<noteq> i" "b_dev (bufs s j) = 1" for j
      using bio_inv_uniqueD[OF inv that(1) cached(1)] that cached(3,4) by auto
  qed simp_all
  then show ?thesis by (simp only: cached(6) upd_buf_const[of _ "\<lambda>x. loaded s b (b_dirty x) (b_data x)"])
next
  case filled
  show ?thesis unfolding filled(7)
  proof (rule bio_inv_update[OF inv filled(1)])
    show "buf_ok (upd_buf i (\<lambda>_. loaded s b False (memdisk s b)) s) i"
      using filled(4) by (simp add: buf_ok_def)
  qed (use filled(6) in auto)
qed

lemma bread_spec:
  assumes inv: "bio_inv s" and r: "bread 1 b s = Ok i t"
  shows "i < NBUF" and "i \<notin> held s"
    and "bufs t i = loaded s b (b \<in> dirty_blocks s) (bview s b)"
    and "j \<noteq> i \<Longrightarrow> bufs t j = bufs s j"
    and "b \<in> dirty_blocks s \<or> bview s b = memdisk s b" and "b < disksize s"
    and "\<exists>v. t = upd_buf i (\<lambda>_. v) s"
    and "dirty_blocks t = dirty_blocks s"
proof -
  have "i < NBUF \<and> i \<notin> held s \<and> bufs t i = loaded s b (b \<in> dirty_blocks s) (bview s b) \<and>
    (\<forall>j. j \<noteq> i \<longrightarrow> bufs t j = bufs s j) \<and> (b \<in> dirty_blocks s \<or> bview s b = memdisk s b) \<and>
    b < disksize s \<and> (\<exists>v. t = upd_buf i (\<lambda>_. v) s) \<and> dirty_blocks t = dirty_blocks s"
    using inv r
  proof (cases rule: bread_cases)
    case cached
    have v: "bview s b = b_data (bufs s i)"
      using bview_buf[OF inv cached(1,2)] cached(4) by simp
    have d: "b \<in> dirty_blocks s \<longleftrightarrow> b_dirty (bufs s i)"
    proof
      assume "b \<in> dirty_blocks s"
      then obtain j where j: "j < NBUF" "b_dirty (bufs s j)" "b_blockno (bufs s j) = b"
        by (auto simp: dirty_blocks_def dirty_def)
      moreover have "b_dev (bufs s j) = 1"
        using bio_inv_bufD[OF inv j(1)] j(2) by (simp add: buf_ok_def)
      ultimately show "b_dirty (bufs s i)"
        using bio_inv_uniqueD[OF inv j(1) cached(1)] cached(3,4) by auto
    qed (use cached in \<open>auto simp: dirty_blocks_def dirty_def\<close>)
    have "dirty_blocks t = dirty_blocks s"
      using cached by (auto simp: dirty_blocks_def dirty_def image_def)
    moreover have "\<exists>v. t = upd_buf i (\<lambda>_. v) s"
      using cached(6) by (auto simp: upd_buf_def)
    moreover have "b_dirty (bufs s i) \<or> b_data (bufs s i) = memdisk s b" "b < disksize s"
      using bio_inv_bufD[OF inv cached(1)] cached(2,4,5) by (auto simp: buf_ok_def)
    ultimately show ?thesis
      using cached v d by (auto simp: held_def)
  next
    case filled
    have v: "bview s b = memdisk s b"
      using filled(5) by (intro bview_uncached) auto
    have d: "b \<notin> dirty_blocks s"
      using filled(5) bio_inv_bufD[OF inv] by (auto simp: dirty_blocks_def dirty_def buf_ok_def)
    have "dirty_blocks t = dirty_blocks s"
      using filled by (auto simp: dirty_blocks_def dirty_def image_def)
    then show ?thesis
      using filled v d by (auto simp: held_def)
  qed
  then show "i < NBUF" "i \<notin> held s"
    "bufs t i = loaded s b (b \<in> dirty_blocks s) (bview s b)"
    "j \<noteq> i \<Longrightarrow> bufs t j = bufs s j"
    "b \<in> dirty_blocks s \<or> bview s b = memdisk s b" "b < disksize s"
    "\<exists>v. t = upd_buf i (\<lambda>_. v) s" "dirty_blocks t = dirty_blocks s"
    by auto
qed

lemma bread_frame:
  assumes "bio_inv s" and "bread 1 b s = Ok i t"
  shows "memdisk t = memdisk s" "dwrites t = dwrites s" "disksize t = disksize s"
    "ptable t = ptable s" "cur t = cur s" "bio.more t = bio.more s" "same_memory s t"
  using bread_spec(7)[OF assms] by (auto simp: same_memory_def)

lemma bread_held:
  assumes "bio_inv s" and "bread 1 b s = Ok i t"
  shows "held t = insert i (held s)"
proof -
  have "sl_locked (b_lock (bufs t j)) \<longleftrightarrow> j = i \<or> sl_locked (b_lock (bufs s j))" for j
    using bread_spec(3)[OF assms] bread_spec(4)[OF assms, of j] by (cases "j = i") auto
  then show ?thesis using bread_spec(1)[OF assms] by (auto simp: held_def)
qed

text \<open>The view of a coherent cache, block by block.\<close>

lemma bview_cases:
  assumes "bio_inv s"
  obtains (cache) i where "i < NBUF" "b_valid (bufs s i)" "b_dev (bufs s i) = 1"
      "b_blockno (bufs s i) = b" "bview s b = b_data (bufs s i)"
  | (disk) "\<forall>i<NBUF. b_valid (bufs s i) \<longrightarrow> b_blockno (bufs s i) \<noteq> b" "bview s b = memdisk s b"
proof (cases "\<exists>i<NBUF. b_valid (bufs s i) \<and> b_blockno (bufs s i) = b")
  case True
  then obtain i where i: "i < NBUF" "b_valid (bufs s i)" "b_blockno (bufs s i) = b" by blast
  have "b_dev (bufs s i) = 1" using bio_inv_bufD[OF assms i(1)] i(2) by (simp add: buf_ok_def)
  with i bview_buf[OF assms i(1,2)] show ?thesis by (intro cache) auto
next
  case False
  then show ?thesis by (intro disk bview_uncached) auto
qed

lemma bread_view:
  assumes inv: "bio_inv s" and r: "bread 1 b s = Ok i t"
  shows "bview t = bview s"
proof
  fix c
  note sp = bread_spec[OF inv r] and fr = bread_frame[OF inv r]
  have it: "bio_inv t" using inv r by (rule bread_inv)
  show "bview t c = bview s c"
  proof (cases "c = b")
    case True
    then show ?thesis using bview_buf[OF it sp(1)] sp(3) by simp
  next
    case False
    from inv show ?thesis
    proof (cases rule: bview_cases[where b = c])
      case (cache j)
      show ?thesis
      proof (cases "j = i")
        case True
        have cl: "\<not> b_dirty (bufs s i) \<and> b_data (bufs s i) = memdisk s c"
          using inv r
        proof (cases rule: bread_cases)
          case cached
          then show ?thesis using cache True False by simp
        next
          case filled
          then show ?thesis
            using bio_inv_bufD[OF inv filled(1)] cache True by (simp add: buf_ok_def)
        qed
        have "bview t c = memdisk t c"
        proof (rule bview_uncached)
          fix k
          assume k: "k < NBUF" "b_valid (bufs t k)" "b_dev (bufs t k) = 1"
          show "b_blockno (bufs t k) \<noteq> c"
            using sp(3,4) False k cache True bio_inv_uniqueD[OF inv k(1) sp(1)]
            by (cases "k = i") auto
        qed
        then show ?thesis using cl cache(5) True fr(1) by simp
      next
        case False
        then have "bufs t j = bufs s j" using sp(4) by simp
        then show ?thesis using bview_buf[OF it cache(1)] cache by simp
      qed
    next
      case disk
      have "bview t c = memdisk t c"
        using disk(1) sp(3,4) False by (intro bview_uncached) (metis loaded_simps(4))
      then show ?thesis using disk(2) fr(1) by simp
    qed
  qed
qed


subsection \<open>Writing through a held buffer\<close>

text \<open>The buffers the running process holds.\<close>

definition own :: "'a bio_scheme \<Rightarrow> nat set" where
  "own s = {i. i < NBUF \<and> holdingsleep s (b_lock (bufs s i)) \<and> b_valid (bufs s i)}"

lemma ownD:
  assumes "bio_inv s" and "i \<in> own s"
  shows "i < NBUF" "b_valid (bufs s i)" "b_dev (bufs s i) = 1" "sl_locked (b_lock (bufs s i))"
    "sl_pid (b_lock (bufs s i)) = p_pid (myproc s)" "b_refcnt (bufs s i) = 1"
    "b_blockno (bufs s i) < disksize s" "bview s (b_blockno (bufs s i)) = b_data (bufs s i)"
proof -
  have i: "i < NBUF" "b_valid (bufs s i)" and l: "holdingsleep s (b_lock (bufs s i))"
    using assms(2) by (auto simp: own_def)
  show "i < NBUF" "b_valid (bufs s i)" by (fact i)+
  show "sl_locked (b_lock (bufs s i))" "sl_pid (b_lock (bufs s i)) = p_pid (myproc s)"
    using l by (auto simp: holdingsleep_def)
  then show "b_dev (bufs s i) = 1" "b_refcnt (bufs s i) = 1" "b_blockno (bufs s i) < disksize s"
    using bio_inv_bufD[OF assms(1) i(1)] i(2) by (auto simp: buf_ok_def)
  show "bview s (b_blockno (bufs s i)) = b_data (bufs s i)"
    using bview_buf[OF assms(1) i] .
qed

lemma own_blockno_inj:
  "bio_inv s \<Longrightarrow> i \<in> own s \<Longrightarrow> j \<in> own s \<Longrightarrow> b_blockno (bufs s i) = b_blockno (bufs s j) \<Longrightarrow> i = j"
  using ownD(1,3) bio_inv_uniqueD by (metis zero_neq_one)

text \<open>
  One lemma for every change of a held buffer that keeps its identity and its lock (and may
  change the disk below it): the invariant is kept and the view changes at its block only.
\<close>

lemma held_update:
  assumes inv: "bio_inv s" and i: "i \<in> own s"
    and t: "bufs t = (bufs s)(i := B)" "mru t = mru s" "disksize t = disksize s"
    and disk: "\<forall>c. c \<noteq> b_blockno (bufs s i) \<longrightarrow> memdisk t c = memdisk s c"
    and B: "b_valid B" "b_dev B = 1" "b_blockno B = b_blockno (bufs s i)"
      "b_lock B = b_lock (bufs s i)" "b_refcnt B = 1"
  shows "bio_inv t" and "bview t = (bview s)(b_blockno (bufs s i) := b_data B)"
proof -
  note o = ownD[OF inv i]
  have ne: "b_blockno (bufs s j) \<noteq> b_blockno (bufs s i)"
    if "j < NBUF" "j \<noteq> i" "b_valid (bufs s j)" for j
    using bio_inv_uniqueD[OF inv that(1) o(1)] that o(3) bio_inv_bufD[OF inv that(1)]
    by (auto simp: buf_ok_def)
  have ok: "buf_ok t j" if "j < NBUF" for j
  proof (cases "j = i")
    case True
    then show ?thesis using t B o by (simp add: buf_ok_def)
  next
    case False
    then show ?thesis
      using bio_inv_bufD[OF inv that] ne[OF that False] t disk by (simp add: buf_ok_def)
  qed
  show it: "bio_inv t"
    unfolding bio_inv_def
  proof (intro conjI allI impI)
    show "distinct (mru t)" "set (mru t) = {..<NBUF}" using bio_inv_mruD[OF inv] t(2) by simp_all
    show "buf_ok t j" if "j < NBUF" for j using that by (rule ok)
    fix j k
    assume "j < NBUF" "k < NBUF" "b_dev (bufs t j) \<noteq> 0 \<and> b_dev (bufs t j) = b_dev (bufs t k) \<and>
      b_blockno (bufs t j) = b_blockno (bufs t k)"
    then show "j = k"
      using bio_inv_uniqueD[OF inv, of j k] t(1) B o(1,3)
      by (cases "j = i"; cases "k = i") auto
  qed
  show "bview t = (bview s)(b_blockno (bufs s i) := b_data B)"
  proof
    fix c
    show "bview t c = ((bview s)(b_blockno (bufs s i) := b_data B)) c"
    proof (cases "c = b_blockno (bufs s i)")
      case True
      then show ?thesis using bview_buf[OF it o(1)] t(1) B by simp
    next
      case False
      from inv show ?thesis
      proof (cases rule: bview_cases[where b = c])
        case (cache j)
        then have "j \<noteq> i" using False by auto
        then show ?thesis using bview_buf[OF it cache(1)] cache t(1) False by simp
      next
        case disk
        then have "bview t c = memdisk t c"
          using t(1) B(3) False by (intro bview_uncached) (auto split: if_splits)
        then show ?thesis using disk False assms(6) by simp
      qed
    qed
  qed
qed

lemma upd_data_spec:
  assumes inv: "bio_inv s" and i: "i \<in> own s"
  shows "bio_inv (upd_data i f s)"
    and "bview (upd_data i f s) = (bview s)(b_blockno (bufs s i) := f (b_data (bufs s i)))"
    and "own (upd_data i f s) = own s" and "held (upd_data i f s) = held s"
    and "dirty_blocks (upd_data i f s) = dirty_blocks s"
proof -
  note o = ownD[OF inv i]
  show "bio_inv (upd_data i f s)"
    "bview (upd_data i f s) = (bview s)(b_blockno (bufs s i) := f (b_data (bufs s i)))"
    using held_update[OF inv i, of "upd_data i f s" "(bufs s i)\<lparr>b_data := f (b_data (bufs s i))\<rparr>"] o
    by simp_all
  show "own (upd_data i f s) = own s" "held (upd_data i f s) = held s"
    by (auto simp: own_def held_def holdingsleep_def)
  show "dirty_blocks (upd_data i f s) = dirty_blocks s"
    by (auto simp: dirty_blocks_def dirty_def image_def)
qed

lemma bwrite_Ok:
  assumes inv: "bio_inv s" and i: "i \<in> own s"
  shows "bwrite i s = Ok () (s
     \<lparr>memdisk := (memdisk s)(b_blockno (bufs s i) := b_data (bufs s i)),
      dwrites := dwrites s @ [(b_blockno (bufs s i), b_data (bufs s i))],
      bufs := (bufs s)(i := (bufs s i)\<lparr>b_dirty := False\<rparr>)\<rparr>)"
proof -
  note o = ownD[OF inv i]
  have eq: "(bufs s i)\<lparr>b_dirty := False, b_valid := True\<rparr> = (bufs s i)\<lparr>b_dirty := False\<rparr>"
    using o(2) by (cases "bufs s i") simp
  have "bwrite i s = Ok () (s
     \<lparr>memdisk := (memdisk s)(b_blockno (bufs s i) := b_data (bufs s i)),
      dwrites := dwrites s @ [(b_blockno (bufs s i), b_data (bufs s i))],
      bufs := (bufs s)(i := (bufs s i)\<lparr>b_dirty := False, b_valid := True\<rparr>)\<rparr>)"
    using o by (simp add: bwrite_def iderw_def kdefs holdingsleep_def upd_buf_def)
  then show ?thesis by (simp only: eq)
qed

lemma bwrite_spec:
  assumes inv: "bio_inv s" and i: "i \<in> own s" and r: "bwrite i s = Ok x t"
  shows "bio_inv t" and "bview t = bview s"
    and "memdisk t = (memdisk s)(b_blockno (bufs s i) := b_data (bufs s i))"
    and "dwrites t = dwrites s @ [(b_blockno (bufs s i), b_data (bufs s i))]"
    and "bufs t = (bufs s)(i := (bufs s i)\<lparr>b_dirty := False\<rparr>)"
    and "own t = own s" and "held t = held s"
    and "dirty_blocks t = dirty_blocks s - {b_blockno (bufs s i)}"
    and "ptable t = ptable s" "cur t = cur s" "disksize t = disksize s" "bio.more t = bio.more s"
    "same_memory s t"
proof -
  note o = ownD[OF inv i]
  let ?b = "b_blockno (bufs s i)"
  have t: "t = s\<lparr>memdisk := (memdisk s)(?b := b_data (bufs s i)),
      dwrites := dwrites s @ [(?b, b_data (bufs s i))],
      bufs := (bufs s)(i := (bufs s i)\<lparr>b_dirty := False\<rparr>)\<rparr>"
    using r bwrite_Ok[OF inv i] by simp
  have v: "bio_inv t \<and> bview t = (bview s)(?b := b_data (bufs s i))"
    using held_update[OF inv i, of t "(bufs s i)\<lparr>b_dirty := False\<rparr>"] o t by simp
  then show "bio_inv t" by simp
  have "(bview s)(?b := b_data (bufs s i)) = bview s"
    using o(8) by (simp add: fun_upd_idem)
  with v show "bview t = bview s" by simp
  show "memdisk t = (memdisk s)(?b := b_data (bufs s i))"
    "dwrites t = dwrites s @ [(?b, b_data (bufs s i))]"
    "bufs t = (bufs s)(i := (bufs s i)\<lparr>b_dirty := False\<rparr>)"
    "ptable t = ptable s" "cur t = cur s" "disksize t = disksize s" "bio.more t = bio.more s" "same_memory s t"
    using t by (simp_all add: same_memory_def)
  show "own t = own s" "held t = held s"
    using t by (auto simp: own_def held_def holdingsleep_def)
  have "j = i" if "j < NBUF" "b_dirty (bufs s j)" "b_blockno (bufs s j) = ?b" for j
    using bio_inv_bufD[OF inv that(1)] that bio_inv_uniqueD[OF inv that(1) o(1)] o(3)
    by (auto simp: buf_ok_def)
  then have "dirty t = dirty s - {i}" and "\<forall>j \<in> dirty s. b_blockno (bufs s j) = ?b \<longrightarrow> j = i"
    using t by (auto simp: dirty_def)
  moreover have "b_blockno (bufs t j) = b_blockno (bufs s j)" for j
    using t by simp
  ultimately show "dirty_blocks t = dirty_blocks s - {?b}"
    by (auto simp: dirty_blocks_def)
qed


subsection \<open>brelse\<close>

text \<open>A held buffer may be released once its contents are on the disk or it is marked dirty.\<close>

definition settled :: "'a bio_scheme \<Rightarrow> nat \<Rightarrow> bool" where
  "settled s i \<longleftrightarrow> b_dirty (bufs s i) \<or> b_data (bufs s i) = memdisk s (b_blockno (bufs s i))"

definition released :: "nat \<Rightarrow> 'a bio_scheme \<Rightarrow> 'a bio_scheme" where
  "released i s = (wakeup1 (Some (ChBufLock i)) s)
     \<lparr>bufs := (bufs s)(i := (bufs s i)\<lparr>b_lock := \<lparr>sl_locked = False, sl_pid = 0\<rparr>, b_refcnt := 0\<rparr>),
      mru := i # remove1 i (mru s)\<rparr>"

lemma wakeup1_upd_buf: "wakeup1 c (upd_buf i f s) = upd_buf i f (wakeup1 c s)"
  by (cases s) (simp add: wakeup1_def upd_buf_def cong: if_cong)

lemma brelse_Ok:
  assumes inv: "bio_inv s" and i: "i \<in> own s"
  shows "brelse i s = Ok () (released i s)"
proof -
  note o = ownD[OF inv i]
  show ?thesis
    using o by (simp add: brelse_def kdefs holdingsleep_def releasesleep_apply wakeup1_upd_buf)
      (simp add: released_def upd_buf_def)
qed

lemma released_simps [simp]:
  "bufs (released i s) = (bufs s)(i := (bufs s i)\<lparr>b_lock := \<lparr>sl_locked = False, sl_pid = 0\<rparr>, b_refcnt := 0\<rparr>)"
  "memdisk (released i s) = memdisk s" "disksize (released i s) = disksize s"
  "dwrites (released i s) = dwrites s" "cur (released i s) = cur s"
  "mru (released i s) = i # remove1 i (mru s)"
  "bio.more (released i s) = bio.more s"
  "ptable (released i s) = ptable (wakeup1 (Some (ChBufLock i)) s)"
  by (simp_all add: released_def)

lemma released_woken [simp]: "woken s (released i s)"
proof -
  have "woken s (wakeup1 (Some (ChBufLock i)) s)" by simp
  then show ?thesis by (simp add: woken_def same_memory_def released_def)
qed

lemma brelse_spec:
  assumes inv: "bio_inv s" and i: "i \<in> own s" and st: "settled s i"
  shows "bio_inv (released i s)" and "bview (released i s) = bview s"
    and "own (released i s) = own s - {i}" and "held (released i s) = held s - {i}"
    and "dirty_blocks (released i s) = dirty_blocks s"
proof -
  note o = ownD[OF inv i]
  let ?t = "released i s"
  have vb: "b_valid (bufs ?t j) = b_valid (bufs s j)" "b_dev (bufs ?t j) = b_dev (bufs s j)"
    "b_blockno (bufs ?t j) = b_blockno (bufs s j)" "b_data (bufs ?t j) = b_data (bufs s j)"
    "b_dirty (bufs ?t j) = b_dirty (bufs s j)" for j
    by simp_all
  show "bview ?t = bview s"
    unfolding bview_def vb by (simp cong: option.case_cong)
  show "bio_inv ?t"
    unfolding bio_inv_def
  proof (intro conjI allI impI)
    show "distinct (mru ?t)" "set (mru ?t) = {..<NBUF}"
      using bio_inv_mruD[OF inv] o(1) by auto
    show "buf_ok ?t j" if "j < NBUF" for j
      using bio_inv_bufD[OF inv that] st o by (cases "j = i") (auto simp: buf_ok_def settled_def)
    show "j = k" if "j < NBUF" "k < NBUF" "b_dev (bufs ?t j) \<noteq> 0 \<and> b_dev (bufs ?t j) = b_dev (bufs ?t k) \<and>
      b_blockno (bufs ?t j) = b_blockno (bufs ?t k)" for j k
      using bio_inv_uniqueD[OF inv that(1,2)] that(3) unfolding vb by blast
  qed
  show "own ?t = own s - {i}" "held ?t = held s - {i}"
    by (auto simp: own_def held_def holdingsleep_def)
  show "dirty_blocks ?t = dirty_blocks s"
    unfolding dirty_blocks_def dirty_def vb by simp
qed

subsection \<open>When bread succeeds\<close>

lemma bread_total:
  assumes inv: "bio_inv s" and b: "b < disksize s"
    and free: "b \<notin> (\<lambda>i. b_blockno (bufs s i)) ` held s"
    and room: "b \<in> dirty_blocks s \<or> (\<exists>k<NBUF. k \<notin> held s \<and> k \<notin> dirty s)"
  shows "\<exists>i t. bread 1 b s = Ok i t"
proof (cases "find (\<lambda>i. b_dev (bufs s i) = 1 \<and> b_blockno (bufs s i) = b) (mru s)")
  case (Some k)
  note hit = Some
  from find_SomeD[OF hit] bio_inv_mruD[OF inv]
  have k: "k < NBUF" "b_dev (bufs s k) = 1" "b_blockno (bufs s k) = b" by auto
  have "\<not> sl_locked (b_lock (bufs s k))" using free k by (auto simp: held_def image_def)
  with hit k b show ?thesis
    using bio_inv_bufD[OF inv k(1)]
    by (simp add: bread_def bget_def block_lock_def acquiresleep_def iderw_def kdefs holdingsleep_def
        buf_ok_def)
next
  case None
  note miss = None
  have "b \<notin> dirty_blocks s"
    using miss bio_inv_mruD[OF inv] bio_inv_bufD[OF inv]
    by (auto simp: find_None_iff dirty_blocks_def dirty_def buf_ok_def)
  then obtain k where "k < NBUF" "k \<notin> held s" "k \<notin> dirty s" using room by blast
  then have "k \<in> set (rev (mru s))" "b_refcnt (bufs s k) = 0 \<and> \<not> b_dirty (bufs s k)"
    using bio_inv_mruD[OF inv] bio_inv_bufD[OF inv] by (auto simp: held_def dirty_def buf_ok_def)
  then obtain m where m: "find (\<lambda>i. b_refcnt (bufs s i) = 0 \<and> \<not> b_dirty (bufs s i)) (rev (mru s)) = Some m"
    by (metis (mono_tags, lifting) find_None_iff option.exhaust)
  from find_SomeD[OF m] bio_inv_mruD[OF inv]
  have mb: "m < NBUF" "b_refcnt (bufs s m) = 0" "\<not> b_dirty (bufs s m)" by auto
  then have "\<not> sl_locked (b_lock (bufs s m))"
    using bio_inv_bufD[OF inv mb(1)] by (auto simp: buf_ok_def split: if_splits)
  with miss m b show ?thesis
    by (simp add: bread_def bget_def block_lock_def acquiresleep_def iderw_def kdefs holdingsleep_def)
qed


subsection \<open>Initialisation\<close>

lemma binit_loop:
  "kfor (\<lambda>b. kmod (\<lambda>s. (upd_buf b (\<lambda>x. x\<lparr>b_lock := initsleeplock\<rparr>) s)\<lparr>mru := b # mru s\<rparr>)) xs
     (s\<lparr>mru := m, bufs := (\<lambda>_. init_buf)\<rparr>) = Ok () (s\<lparr>mru := rev xs @ m, bufs := (\<lambda>_. init_buf)\<rparr>)"
proof (induction xs arbitrary: m)
  case Nil
  then show ?case by (simp add: kdefs)
next
  case (Cons x xs)
  have "init_buf\<lparr>b_lock := initsleeplock\<rparr> = init_buf" by (simp add: init_buf_def)
  then have "(upd_buf x (\<lambda>x. x\<lparr>b_lock := initsleeplock\<rparr>) (s\<lparr>mru := m, bufs := (\<lambda>_. init_buf)\<rparr>))
      \<lparr>mru := x # m\<rparr> = s\<lparr>mru := x # m, bufs := (\<lambda>_. init_buf)\<rparr>"
    by (cases s) (simp add: upd_buf_def fun_upd_idem)
  then show ?case using Cons.IH[of "x # m"] by (simp add: kdefs)
qed

text \<open>A freshly initialised cache is coherent and shows the disk.\<close>

lemma binit_spec:
  assumes "binit s = Ok x t"
  shows "bio_inv t" "bview t = memdisk s" "memdisk t = memdisk s" "held t = {}" "dirty t = {}"
    "disksize t = disksize s" "dwrites t = dwrites s" "ptable t = ptable s" "cur t = cur s"
    "bio.more t = bio.more s"
proof -
  have t: "t = s\<lparr>mru := rev [0..<NBUF], bufs := (\<lambda>_. init_buf)\<rparr>"
    using assms binit_loop[where xs = "[0..<NBUF]" and s = s and m = "[]"] by (simp add: binit_def kdefs del: upt.simps)
  show "bio_inv t"
    unfolding t bio_inv_def
    by (auto simp: buf_ok_def init_buf_def initsleeplock_def)
  show "bview t = memdisk s"
    unfolding t by (rule ext, subst bview_uncached) (auto simp: init_buf_def)
  show "memdisk t = memdisk s" "held t = {}" "dirty t = {}"
    "disksize t = disksize s" "dwrites t = dwrites s" "ptable t = ptable s" "cur t = cur s"
    "bio.more t = bio.more s"
    unfolding t by (auto simp: held_def dirty_def init_buf_def initsleeplock_def)
qed

lemma binit_Ok: "\<exists>t. binit s = Ok () t"
  using binit_loop[where xs = "[0..<NBUF]" and s = s and m = "[]"] by (auto simp: binit_def kdefs simp del: upt.simps)


section \<open>The cache as the interface of the log and the file system\<close>

definition buf_room :: "'a bio_scheme \<Rightarrow> nat \<Rightarrow> bool" where
  "buf_room s n \<longleftrightarrow> n + card (held s \<union> dirty s) \<le> NBUF"

definition bio_rest :: "'a bio_scheme \<Rightarrow> 'a bio_scheme \<Rightarrow> bool" where
  "bio_rest s t \<longleftrightarrow> woken s t \<and> disksize t = disksize s \<and> bio.more t = bio.more s"

lemma held_dirty_finite [simp]: "finite (held s)" "finite (dirty s)"
  by (simp_all add: held_def dirty_def)

lemma busy_finite: "finite (held s \<union> dirty s)"
  by simp

lemma buf_roomE:
  assumes "buf_room s (Suc n)"
  shows "\<exists>k<NBUF. k \<notin> held s \<and> k \<notin> dirty s"
proof (rule ccontr)
  assume "\<not> ?thesis"
  then have "{..<NBUF} \<subseteq> held s \<union> dirty s" by auto
  from card_mono[OF busy_finite this] assms show False by (simp add: buf_room_def)
qed

lemma bread_busy:
  assumes inv: "bio_inv s" and r: "bread 1 b s = Ok i t"
  shows "held t \<union> dirty t \<subseteq> insert i (held s \<union> dirty s)"
    and "b \<in> dirty_blocks s \<Longrightarrow> i \<in> dirty s"
proof -
  note sp = bread_spec[OF inv r]
  have "j \<in> dirty s" if "j \<in> dirty t" "j \<noteq> i" for j
    using that sp(4)[of j] by (simp add: dirty_def)
  then show "held t \<union> dirty t \<subseteq> insert i (held s \<union> dirty s)"
    using bread_held[OF inv r] by auto
  assume "b \<in> dirty_blocks s"
  then obtain k where k: "k \<in> dirty s" "b_blockno (bufs s k) = b" by (auto simp: dirty_blocks_def)
  then have kb: "k < NBUF" "b_dev (bufs s k) = 1"
    using bio_inv_bufD[OF inv, of k] by (auto simp: dirty_def buf_ok_def)
  have "k = i"
  proof (rule ccontr)
    assume ne: "k \<noteq> i"
    have "bio_inv t" using inv r by (rule bread_inv)
    from bio_inv_uniqueD[OF this kb(1) sp(1)] ne k(2) kb(2) sp(3) sp(4)[of k] show False by simp
  qed
  with k show "i \<in> dirty s" by simp
qed

lemma bread_room:
  assumes inv: "bio_inv s" and r: "bread 1 b s = Ok i t"
    and room: "buf_room s (Suc n) \<or> b \<in> dirty_blocks s \<and> buf_room s n"
  shows "buf_room t n"
proof -
  note B = bread_busy[OF inv r]
  have le: "card (held t \<union> dirty t) \<le> card (insert i (held s \<union> dirty s))"
    by (rule card_mono) (use B(1) in auto)
  show ?thesis
  proof (cases "i \<in> dirty s")
    case True
    then show ?thesis using le room by (auto simp: buf_room_def insert_absorb)
  next
    case False
    then have "b \<notin> dirty_blocks s" using B(2) by auto
    moreover have "card (insert i (held s \<union> dirty s)) \<le> Suc (card (held s \<union> dirty s))"
      using card_insert_if[OF busy_finite[of s], of i] by simp
    ultimately show ?thesis using le room by (simp add: buf_room_def)
  qed
qed

lemma bread_law:
  assumes inv: "bio_inv s" and r: "bread 1 b s = Ok i t"
  shows "bio_inv t \<and> bview t = bview s \<and> memdisk t = memdisk s \<and> dwrites t = dwrites s \<and>
      i \<notin> held s \<and> own t = insert i (own s) \<and> held t = insert i (held s) \<and>
      dirty_blocks t = dirty_blocks s \<and> b_blockno (bufs t i) = b \<and> b_data (bufs t i) = bview s b \<and>
      settled t i \<and>
      (\<forall>j \<in> held s. b_blockno (bufs t j) = b_blockno (bufs s j) \<and> b_data (bufs t j) = b_data (bufs s j) \<and>
         settled t j = settled s j) \<and>
      (buf_room s (Suc n) \<or> b \<in> dirty_blocks s \<and> buf_room s n \<longrightarrow> buf_room t n) \<and>
      b < disksize s \<and> bio_rest s t"
proof -
  note sp = bread_spec[OF inv r] and fr = bread_frame[OF inv r]
  have "j \<in> own t \<longleftrightarrow> j = i \<or> j \<in> own s" for j
    using sp(1,3) sp(4)[of j] fr by (cases "j = i") (auto simp: own_def holdingsleep_def)
  then have o: "own t = insert i (own s)" by auto
  have "settled t i" using sp(3,5) fr(1) by (auto simp: settled_def)
  moreover have "b_blockno (bufs t j) = b_blockno (bufs s j) \<and> b_data (bufs t j) = b_data (bufs s j) \<and>
         settled t j = settled s j" if "j \<in> held s" for j
  proof -
    have "j \<noteq> i" using that sp(2) by auto
    then show ?thesis using sp(4)[of j] fr(1) by (simp add: settled_def)
  qed
  ultimately show ?thesis
    using bread_inv[OF inv r] bread_view[OF inv r] fr sp(2,3,6,8) o bread_held[OF inv r] bread_room[OF inv r]
    by (simp add: bio_rest_def woken_eq)
qed

lemma own_held: "own s \<subseteq> held s"
  by (auto simp: own_def held_def holdingsleep_def)

lemma upd_data_law:
  assumes inv: "bio_inv s" and i: "i \<in> own s"
  shows "bio_inv (upd_data i f s) \<and>
      bview (upd_data i f s) = (bview s)(b_blockno (bufs s i) := f (b_data (bufs s i))) \<and>
      memdisk (upd_data i f s) = memdisk s \<and> dwrites (upd_data i f s) = dwrites s \<and>
      own (upd_data i f s) = own s \<and> held (upd_data i f s) = held s \<and>
      dirty_blocks (upd_data i f s) = dirty_blocks s \<and>
      (\<lambda>j. b_blockno (bufs (upd_data i f s) j)) = (\<lambda>j. b_blockno (bufs s j)) \<and>
      (\<lambda>j. b_data (bufs (upd_data i f s) j)) = (\<lambda>j. b_data (bufs s j))(i := f (b_data (bufs s i))) \<and>
      (\<forall>j. j \<noteq> i \<longrightarrow> settled (upd_data i f s) j = settled s j) \<and>
      buf_room (upd_data i f s) = buf_room s \<and> bio_rest s (upd_data i f s)"
proof -
  note sp = upd_data_spec[OF inv i, of f]
  have "dirty (upd_data i f s) = dirty s" by (auto simp: dirty_def)
  then have "buf_room (upd_data i f s) = buf_room s" using sp(4) by (simp add: buf_room_def fun_eq_iff)
  then show ?thesis using sp by (auto simp: settled_def bio_rest_def woken_eq same_memory_def)
qed

lemma bwrite_law:
  assumes inv: "bio_inv s" and i: "i \<in> own s"
  shows "\<exists>t. bwrite i s = Ok () t \<and> bio_inv t \<and> bview t = bview s \<and>
      memdisk t = (memdisk s)(b_blockno (bufs s i) := b_data (bufs s i)) \<and>
      dwrites t = dwrites s @ [(b_blockno (bufs s i), b_data (bufs s i))] \<and>
      own t = own s \<and> held t = held s \<and> dirty_blocks t = dirty_blocks s - {b_blockno (bufs s i)} \<and>
      (\<lambda>j. b_blockno (bufs t j)) = (\<lambda>j. b_blockno (bufs s j)) \<and>
      (\<lambda>j. b_data (bufs t j)) = (\<lambda>j. b_data (bufs s j)) \<and> settled t i \<and>
      (\<forall>j \<in> own s. j \<noteq> i \<longrightarrow> settled t j = settled s j) \<and> (buf_room s n \<longrightarrow> buf_room t n) \<and> bio_rest s t"
proof -
  obtain t where t: "bwrite i s = Ok () t" using bwrite_Ok[OF inv i] by blast
  note sp = bwrite_spec[OF inv i t]
  have oth: "settled t j = settled s j" if "j \<in> own s" "j \<noteq> i" for j
    using own_blockno_inj[OF inv that(1) i] that(2) sp(3,5) by (auto simp: settled_def)
  have "dirty t \<subseteq> dirty s" using sp(5) by (auto simp: dirty_def split: if_splits)
  then have "held t \<union> dirty t \<subseteq> held s \<union> dirty s" using sp(7) by auto
  from card_mono[OF busy_finite this] have "buf_room s n \<longrightarrow> buf_room t n" by (simp add: buf_room_def)
  with t sp oth show ?thesis by (auto simp: settled_def bio_rest_def woken_eq)
qed

lemma brelse_law:
  assumes inv: "bio_inv s" and i: "i \<in> own s" and st: "settled s i"
  shows "\<exists>t. brelse i s = Ok () t \<and> bio_inv t \<and> bview t = bview s \<and> memdisk t = memdisk s \<and>
      dwrites t = dwrites s \<and> own t = own s - {i} \<and> held t = held s - {i} \<and>
      dirty_blocks t = dirty_blocks s \<and>
      (\<lambda>j. b_blockno (bufs t j)) = (\<lambda>j. b_blockno (bufs s j)) \<and>
      (\<lambda>j. b_data (bufs t j)) = (\<lambda>j. b_data (bufs s j)) \<and> (\<forall>j. settled t j = settled s j) \<and>
      (buf_room s n \<longrightarrow> buf_room t n) \<and>
      (b_blockno (bufs s i) \<notin> dirty_blocks s \<and> buf_room s n \<longrightarrow> buf_room t (Suc n)) \<and> bio_rest s t"
proof -
  let ?t = "released i s"
  note sp = brelse_spec[OF inv i st]
  have d: "dirty ?t = dirty s" by (auto simp: dirty_def)
  then have "held ?t \<union> dirty ?t \<subseteq> held s \<union> dirty s" using sp(4) by auto
  from card_mono[OF busy_finite this] have r1: "buf_room s n \<longrightarrow> buf_room ?t n" by (simp add: buf_room_def)
  have r2: "buf_room ?t (Suc n)" if "b_blockno (bufs s i) \<notin> dirty_blocks s" "buf_room s n"
  proof -
    have "i \<notin> dirty s" using that(1) by (auto simp: dirty_blocks_def)
    then have eq: "held ?t \<union> dirty ?t = (held s \<union> dirty s) - {i}" using sp(4) d by auto
    have "i \<in> held s \<union> dirty s" using own_held[of s] i by auto
    from card_Suc_Diff1[OF busy_finite this] that(2) show ?thesis unfolding buf_room_def eq by simp
  qed
  show ?thesis
    using brelse_Ok[OF inv i] sp r1 r2 by (intro exI[of _ ?t]) (auto simp: settled_def bio_rest_def released_woken)
qed

interpretation bc: block_cache bio_inv bview memdisk dwrites own held dirty_blocks buf_room disksize
  "\<lambda>s i. b_blockno (bufs s i)" "\<lambda>s i. b_data (bufs s i)" settled bio_rest "bread 1" upd_data bwrite brelse
proof
  show "bio_rest s s" for s :: "'a bio_scheme" by (simp add: bio_rest_def)
  show "bio_rest s t \<Longrightarrow> bio_rest t u \<Longrightarrow> bio_rest s u" for s t u :: "'a bio_scheme"
    by (auto simp: bio_rest_def intro: woken_trans)
  show "bio_rest s t \<Longrightarrow> disksize t = disksize s" for s t :: "'a bio_scheme" by (simp add: bio_rest_def)
  show "own s \<subseteq> held s" for s :: "'a bio_scheme" by (rule own_held)
  show "\<exists>i t. bread 1 b s = Ok i t" if "bio_inv s" "b < disksize s"
    "b \<notin> (\<lambda>i. b_blockno (bufs s i)) ` held s" "b \<in> dirty_blocks s \<or> buf_room s 1" for s :: "'a bio_scheme" and b
    using bread_total[OF that(1-3)] that(4) buf_roomE[of s 0] by auto
qed (fact own_blockno_inj bread_law upd_data_law bwrite_law brelse_law)+

end
