(* ===== verification/Log.thy ===== *)
theory Log
  imports Bio
begin

text \<open>
  The write-ahead log (\<^verbatim>\<open>kernel/log.c\<close>) and the superblock (\<^verbatim>\<open>readsb\<close> of \<^verbatim>\<open>kernel/fs.c\<close>).

  The record \<open>klog\<close> adds the variable \<^verbatim>\<open>log\<close> to the buffer cache's state: \<open>lh_n\<close> and
  \<open>lh_block\<close> are the in-memory header. Its spin-lock makes the short sections of
  \<^verbatim>\<open>begin_op\<close>, \<^verbatim>\<open>end_op\<close> and \<^verbatim>\<open>log_write\<close> atomic. The main result is crash
  atomicity: whatever prefix of the disk writes of \<^verbatim>\<open>commit\<close> reaches the disk, the next boot
  finds either none or all of the transaction's blocks.
\<close>

section \<open>The superblock\<close>

record superblock =
  sb_size :: nat
  sb_nblocks :: nat
  sb_ninodes :: nat
  sb_nlog :: nat
  sb_logstart :: nat
  sb_inodestart :: nat
  sb_bmapstart :: nat

definition decode_sb :: "bytes \<Rightarrow> superblock" where
  "decode_sb d = \<lparr>sb_size = unat (le32 d 0), sb_nblocks = unat (le32 d 4), sb_ninodes = unat (le32 d 8),
     sb_nlog = unat (le32 d 12), sb_logstart = unat (le32 d 16), sb_inodestart = unat (le32 d 20),
     sb_bmapstart = unat (le32 d 24)\<rparr>"

definition readsb :: "nat \<Rightarrow> ('a bio_scheme, superblock) km" where
  "readsb dev =
     kbind (bread dev 1) (\<lambda>bp.
     kbind (kget (\<lambda>s. decode_sb (b_data (bufs s bp)))) (\<lambda>sb.
     kthen (brelse bp) (kret sb)))"

section \<open>The log\<close>

record klog = bio +
  lg_start :: nat
  lg_size :: nat
  lg_outstanding :: int
  lg_committing :: bool
  lg_dev :: nat
  lh_n :: nat
  lh_block :: "nat \<Rightarrow> nat"

text \<open>
  \<^verbatim>\<open>struct logheader\<close> in the header block: the count, then the block numbers. A negative
  count makes no iteration of a loop, as 0 does.
\<close>

definition head_n :: "bytes \<Rightarrow> nat" where
  "head_n d = nat (sint (le32 d 0))"

definition head_block :: "bytes \<Rightarrow> nat \<Rightarrow> nat" where
  "head_block d i = unat (le32 d (4 + 4 * i))"

definition put_head :: "nat \<Rightarrow> (nat \<Rightarrow> nat) \<Rightarrow> bytes \<Rightarrow> bytes" where
  "put_head n blk d = fold (\<lambda>i d. put32 d (4 + 4 * i) (of_nat (blk i))) [0..<n] (put32 d 0 (of_nat n))"

definition install_one :: "nat \<Rightarrow> ('a klog_scheme, unit) km" where
  "install_one tail = (\<lambda>s.
     kbind (bread (lg_dev s) (lg_start s + tail + 1)) (\<lambda>lbuf.
     kbind (bread (lg_dev s) (lh_block s tail)) (\<lambda>dbuf.
     kthen (kmod (\<lambda>s. upd_data dbuf (\<lambda>_. b_data (bufs s lbuf)) s))
    (kthen (bwrite dbuf)
    (kthen (brelse lbuf)
     (brelse dbuf))))) s)"

definition install_trans :: "('a klog_scheme, unit) km" where
  "install_trans = (\<lambda>s. kfor install_one [0..<lh_n s] s)"

definition read_head :: "('a klog_scheme, unit) km" where
  "read_head = (\<lambda>s.
     kbind (bread (lg_dev s) (lg_start s)) (\<lambda>b.
     kbind (kget (\<lambda>s. b_data (bufs s b))) (\<lambda>lh.
     kthen (kmod (\<lambda>s. s\<lparr>lh_n := head_n lh,
         lh_block := (\<lambda>i. if i < head_n lh then head_block lh i else lh_block s i)\<rparr>))
     (brelse b))) s)"

definition write_head :: "('a klog_scheme, unit) km" where
  "write_head = (\<lambda>s.
     kbind (bread (lg_dev s) (lg_start s)) (\<lambda>b.
     kthen (kmod (upd_data b (put_head (lh_n s) (lh_block s))))
    (kthen (bwrite b)
     (brelse b))) s)"

definition recover_from_log :: "('a klog_scheme, unit) km" where
  "recover_from_log =
     kthen read_head
    (kthen install_trans
    (kthen (kmod (\<lambda>s. s\<lparr>lh_n := 0\<rparr>))
     write_head))"

definition initlog :: "nat \<Rightarrow> ('a klog_scheme, unit) km" where
  "initlog dev =
     kthen (kassert ''initlog: too big logheader'' (\<lambda>_. \<not> 4 + 4 * LOGSIZE \<ge> BSIZE))
    (kbind (readsb dev) (\<lambda>sb.
     kthen (kmod (\<lambda>s. s\<lparr>lg_start := sb_logstart sb, lg_size := sb_nlog sb, lg_dev := dev\<rparr>))
     recover_from_log))"

definition begin_op :: "('a klog_scheme, unit) km" where
  "begin_op = (\<lambda>s.
     if lg_committing s then sleep ChLog s
     else if int (lh_n s) + (lg_outstanding s + 1) * int MAXOPBLOCKS > int LOGSIZE then sleep ChLog s
     else Ok () (s\<lparr>lg_outstanding := lg_outstanding s + 1\<rparr>))"

definition write_log_one :: "nat \<Rightarrow> ('a klog_scheme, unit) km" where
  "write_log_one tail = (\<lambda>s.
     kbind (bread (lg_dev s) (lg_start s + tail + 1)) (\<lambda>to.
     kbind (bread (lg_dev s) (lh_block s tail)) (\<lambda>from.
     kthen (kmod (\<lambda>s. upd_data to (\<lambda>_. b_data (bufs s from)) s))
    (kthen (bwrite to)
    (kthen (brelse from)
     (brelse to))))) s)"

definition write_log :: "('a klog_scheme, unit) km" where
  "write_log = (\<lambda>s. kfor write_log_one [0..<lh_n s] s)"

definition commit :: "('a klog_scheme, unit) km" where
  "commit = kif (\<lambda>s. lh_n s > 0)
     (kthen write_log
     (kthen write_head
     (kthen install_trans
     (kthen (kmod (\<lambda>s. s\<lparr>lh_n := 0\<rparr>))
      write_head))))
     (kret ())"

definition end_op :: "('a klog_scheme, unit) km" where
  "end_op =
     kthen (kmod (\<lambda>s. s\<lparr>lg_outstanding := lg_outstanding s - 1\<rparr>))
    (kthen (kassert ''log.committing'' (\<lambda>s. \<not> lg_committing s))
     (kif (\<lambda>s. lg_outstanding s = 0)
       (kthen (kmod (\<lambda>s. s\<lparr>lg_committing := True\<rparr>))
       (kthen commit
       (kthen (kmod (\<lambda>s. s\<lparr>lg_committing := False\<rparr>))
        (wakeup ChLog))))
       (wakeup ChLog)))"

definition log_index :: "'a klog_scheme \<Rightarrow> nat \<Rightarrow> nat" where
  "log_index s b = (case findi (\<lambda>i. lh_block s i = b) (lh_n s) of Some i \<Rightarrow> i | None \<Rightarrow> lh_n s)"

definition log_write :: "nat \<Rightarrow> ('a klog_scheme, unit) km" where
  "log_write b =
     kthen (kassert ''too big a transaction'' (\<lambda>s. \<not> (lh_n s \<ge> LOGSIZE \<or> lh_n s \<ge> lg_size s - 1)))
    (kthen (kassert ''log_write outside of trans'' (\<lambda>s. \<not> lg_outstanding s < 1))
     (kmod (\<lambda>s. let bno = b_blockno (bufs s b); i = log_index s bno in
        upd_buf b (\<lambda>x. x\<lparr>b_dirty := True\<rparr>)
          (s\<lparr>lh_block := (lh_block s)(i := bno),
             lh_n := (if i = lh_n s then lh_n s + 1 else lh_n s)\<rparr>))))"

section \<open>The header block\<close>

lemma put_head_Suc:
  "put_head n blk d j = (if j < 4 then put32 d 0 (of_nat n) j
     else if j < 4 + 4 * n then byte32 (of_nat (blk ((j - 4) div 4))) ((j - 4) mod 4) else d j)"
proof -
  have "fold (\<lambda>i d. put32 d (4 + 4 * i) (of_nat (blk i))) [0..<m] e j =
     (if j < 4 then e j else if j < 4 + 4 * m then byte32 (of_nat (blk ((j - 4) div 4))) ((j - 4) mod 4) else e j)" for m e
  proof (induction m)
    case (Suc m)
    have new: "(j - 4) div 4 = m \<and> (j - 4) mod 4 = j - (4 + 4 * m)" if "4 + 4 * m \<le> j" "j < 4 + 4 * m + 4"
    proof -
      from that obtain r where r: "j = 4 + 4 * m + r" "r < 4" using le_Suc_ex by force
      then show ?thesis by simp
    qed
    consider "j < 4 + 4 * m" | "4 + 4 * m \<le> j" "j < 4 + 4 * m + 4" | "4 + 4 * m + 4 \<le> j" by linarith
    then show ?case
    proof cases
      case 2
      then show ?thesis using new by (simp add: put32_def)
    qed (use Suc in \<open>simp_all add: put32_def\<close>)
  qed simp
  then show ?thesis by (simp add: put_head_def put32_def)
qed

lemma sint_of_nat_small: "n < 2 ^ 31 \<Longrightarrow> sint (of_nat n :: u32) = int n"
  by (simp add: sint_uint uint_nat unat_of_nat signed_take_bit_int_eq_self)

lemma head_put_head:
  assumes "n < 2 ^ 31"
  shows "head_n (put_head n blk d) = n"
    and "i < n \<Longrightarrow> blk i < 2 ^ 32 \<Longrightarrow> head_block (put_head n blk d) i = blk i"
proof -
  have "le32 (put_head n blk d) 0 = of_nat n"
    by (rule le32_bytes) (simp add: put_head_Suc put32_def)
  then show "head_n (put_head n blk d) = n"
    using assms by (simp add: head_n_def sint_of_nat_small)
  assume i: "i < n" "blk i < 2 ^ 32"
  have "le32 (put_head n blk d) (4 + 4 * i) = of_nat (blk i)"
  proof (rule le32_bytes)
    fix k :: nat
    assume "k < 4"
    moreover from this have "(4 * i + k) div 4 = i" "(4 * i + k) mod 4 = k" by simp_all
    ultimately show "put_head n blk d (4 + 4 * i + k) = byte32 (of_nat (blk i)) k"
      using i by (simp add: put_head_Suc)
  qed
  then show "head_block (put_head n blk d) i = blk i"
    using i by (simp add: head_block_def unat_of_nat)
qed

section \<open>Effects of the log's steps\<close>

subsection \<open>Frames\<close>

text \<open>The cache does not see the log's variables, and leaves them alone.\<close>

lemma klog_more:
  "bio.more t = bio.more s \<Longrightarrow> lg_start t = lg_start s \<and> lg_size t = lg_size s \<and>
     lg_outstanding t = lg_outstanding s \<and> lg_committing t = lg_committing s \<and> lg_dev t = lg_dev s \<and>
     lh_n t = lh_n s \<and> lh_block t = lh_block s \<and> klog.more t = klog.more s"
  by (cases s; cases t) simp

lemma bio_rest_klog:
  assumes "bio_rest s t"
  shows "lg_start t = lg_start s" "lg_size t = lg_size s" "lg_outstanding t = lg_outstanding s"
    "lg_committing t = lg_committing s" "lg_dev t = lg_dev s" "lh_n t = lh_n s" "lh_block t = lh_block s"
    "klog.more t = klog.more s" "disksize t = disksize s" "woken s t"
  using assms klog_more[of t s] by (simp_all add: bio_rest_def)

lemma cache_cong:
  assumes "bufs t = bufs s" "memdisk t = memdisk s" "disksize t = disksize s" "mru t = mru s"
    "ptable t = ptable s" "cur t = cur s"
  shows "bio_inv t = bio_inv s" "bview t = bview s" "own t = own s" "held t = held s"
    "dirty t = dirty s" "dirty_blocks t = dirty_blocks s" "buf_room t = buf_room s" "settled t = settled s"
proof -
  show d: "held t = held s" "dirty t = dirty s" "bview t = bview s"
    using held_cong[of t s] dirty_cong[of t s] bview_cong[of t s] assms by simp_all
  show "bio_inv t = bio_inv s" using assms by (simp add: bio_inv_def buf_ok_def)
  show "own t = own s" using assms by (simp add: own_def holdingsleep_def)
  show "dirty_blocks t = dirty_blocks s" using d assms by (simp add: dirty_blocks_def)
  show "buf_room t = buf_room s" "settled t = settled s"
    using d assms by (simp_all add: fun_eq_iff buf_room_def settled_def)
qed

lemmas cache_lh_n [simp] = cache_cong[of "s\<lparr>lh_n := x\<rparr>" s for s x, simplified]
lemmas cache_lh_block [simp] = cache_cong[of "s\<lparr>lh_block := x\<rparr>" s for s x, simplified]
lemmas cache_lh [simp] = cache_cong[of "s\<lparr>lh_n := x, lh_block := y\<rparr>" s for s x y, simplified]
lemmas cache_outstanding [simp] = cache_cong[of "s\<lparr>lg_outstanding := x\<rparr>" s for s x, simplified]
lemmas cache_committing [simp] = cache_cong[of "s\<lparr>lg_committing := x\<rparr>" s for s x, simplified]
lemmas cache_geometry [simp] =
  cache_cong[of "s\<lparr>lg_start := x, lg_size := y, lg_dev := z\<rparr>" s for s x y z, simplified]

subsection \<open>The invariant\<close>

definition log_area :: "'a klog_scheme \<Rightarrow> nat set" where
  "log_area s = {lg_start s..<lg_start s + lg_size s}"

definition logged :: "'a klog_scheme \<Rightarrow> nat set" where
  "logged s = lh_block s ` {..<lh_n s}"

definition log_geometry :: "'a klog_scheme \<Rightarrow> bool" where
  "log_geometry s \<longleftrightarrow> lg_dev s = 1 \<and> 1 < lg_start s \<and> 0 < lg_size s \<and>
     lg_start s + lg_size s \<le> disksize s \<and> disksize s < 2 ^ 31"

definition log_inv :: "'a klog_scheme \<Rightarrow> bool" where
  "log_inv s \<longleftrightarrow> bio_inv s \<and> log_geometry s \<and> lh_n s < lg_size s \<and> lh_n s \<le> LOGSIZE \<and>
     inj_on (lh_block s) {..<lh_n s} \<and> dirty_blocks s = logged s \<and> logged s \<inter> log_area s = {} \<and>
     head_n (memdisk s (lg_start s)) = 0"

lemma log_slot:
  assumes "log_geometry s" "lh_n s < lg_size s" "i < lh_n s"
  shows "lg_start s + i + 1 \<in> log_area s" "lg_start s + i + 1 < disksize s"
  using assms by (auto simp: log_area_def log_geometry_def)

lemma dirty_blocks_lt: "bio_inv s \<Longrightarrow> b \<in> dirty_blocks s \<Longrightarrow> b < disksize s"
  using bio_inv_bufD[of s] by (auto simp: dirty_blocks_def dirty_def buf_ok_def)

lemma bview_not_dirty:
  assumes inv: "bio_inv s" and b: "b \<notin> dirty_blocks s" and nl: "own s = held s" "\<And>i. i \<in> own s \<Longrightarrow> settled s i"
  shows "bview s b = memdisk s b"
proof (cases "\<exists>i<NBUF. b_valid (bufs s i) \<and> b_dev (bufs s i) = 1 \<and> b_blockno (bufs s i) = b")
  case True
  then obtain i where i: "i < NBUF" "b_valid (bufs s i)" "b_blockno (bufs s i) = b" by blast
  then have nd: "\<not> b_dirty (bufs s i)" using b by (auto simp: dirty_blocks_def dirty_def)
  have "b_data (bufs s i) = memdisk s b"
    using bio_inv_bufD[OF inv i(1)] i nd nl by (cases "i \<in> held s") (auto simp: buf_ok_def held_def settled_def)
  then show ?thesis using bview_buf[OF inv i(1,2)] i(3) by simp
next
  case False
  then show ?thesis by (intro bview_uncached) auto
qed

lemma bview_idle: "bio_inv s \<Longrightarrow> held s = {} \<Longrightarrow> b \<notin> dirty_blocks s \<Longrightarrow> bview s b = memdisk s b"
  using bview_not_dirty[of s b] own_held[of s] by auto

subsection \<open>Copying blocks to and from the log\<close>

lemma write_log_effect:
  assumes inv: "bio_inv s" and g: "log_geometry s" "lh_n s < lg_size s" and ap: "logged s \<inter> log_area s = {}"
    and r: "write_log s = Ok x t"
  defines "ws \<equiv> map (\<lambda>i. (lg_start s + i + 1, bview s (lh_block s i))) [0..<lh_n s]"
  shows "bio_inv t \<and> bview t = apply_writes ws (bview s) \<and> memdisk t = apply_writes ws (memdisk s) \<and>
    dwrites t = dwrites s @ ws \<and> own t = own s \<and> held t = held s \<and>
    dirty_blocks t = dirty_blocks s - (\<lambda>i. lg_start s + i + 1) ` {..<lh_n s} \<and> bio_rest s t"
  unfolding ws_def
proof (rule bc.copy_loop[OF inv])
  show "kfor write_log_one [0..<lh_n s] s = Ok x t" using r by (simp add: write_log_def)
  show "lh_block s i \<noteq> lg_start s + j + 1" if "i < lh_n s" "j < lh_n s" for i j
    using log_slot(1)[OF g that(2)] ap that(1) by (auto simp: logged_def)
  fix i u x t
  assume i: "i < lh_n s" and u: "bio_inv u" "bio_rest s u" and b: "write_log_one i u = Ok x t"
  have "lg_dev u = 1" using g bio_rest_klog[OF u(2)] by (simp add: log_geometry_def)
  then show "bio_inv t \<and> bview t = (bview u)(lg_start s + i + 1 := bview u (lh_block s i)) \<and>
    memdisk t = (memdisk u)(lg_start s + i + 1 := bview u (lh_block s i)) \<and>
    dwrites t = dwrites u @ [(lg_start s + i + 1, bview u (lh_block s i))] \<and> own t = own u \<and> held t = held u \<and>
    dirty_blocks t = dirty_blocks u - {lg_start s + i + 1} \<and> bio_rest u t"
    using bc.copy_dst_first[OF u(1), of "lg_start s + i + 1" "lh_block s i" x t] b bio_rest_klog[OF u(2)]
    by (simp add: write_log_one_def)
qed

lemma install_trans_effect:
  assumes inv: "bio_inv s" and g: "log_geometry s" "lh_n s < lg_size s" and ap: "logged s \<inter> log_area s = {}"
    and r: "install_trans s = Ok x t"
  defines "ws \<equiv> map (\<lambda>i. (lh_block s i, bview s (lg_start s + i + 1))) [0..<lh_n s]"
  shows "bio_inv t \<and> bview t = apply_writes ws (bview s) \<and> memdisk t = apply_writes ws (memdisk s) \<and>
    dwrites t = dwrites s @ ws \<and> own t = own s \<and> held t = held s \<and>
    dirty_blocks t = dirty_blocks s - lh_block s ` {..<lh_n s} \<and> bio_rest s t"
  unfolding ws_def
proof (rule bc.copy_loop[OF inv])
  show "kfor install_one [0..<lh_n s] s = Ok x t" using r by (simp add: install_trans_def)
  show "lg_start s + i + 1 \<noteq> lh_block s j" if "i < lh_n s" "j < lh_n s" for i j
    using log_slot(1)[OF g that(1)] ap that(2) by (auto simp: logged_def)
  fix i u x t
  assume i: "i < lh_n s" and u: "bio_inv u" "bio_rest s u" and b: "install_one i u = Ok x t"
  have "lg_dev u = 1" using g bio_rest_klog[OF u(2)] by (simp add: log_geometry_def)
  then show "bio_inv t \<and> bview t = (bview u)(lh_block s i := bview u (lg_start s + i + 1)) \<and>
    memdisk t = (memdisk u)(lh_block s i := bview u (lg_start s + i + 1)) \<and>
    dwrites t = dwrites u @ [(lh_block s i, bview u (lg_start s + i + 1))] \<and> own t = own u \<and> held t = held u \<and>
    dirty_blocks t = dirty_blocks u - {lh_block s i} \<and> bio_rest u t"
    using bc.copy_src_first[OF u(1), of "lg_start s + i + 1" "lh_block s i" x t] b bio_rest_klog[OF u(2)]
    by (simp add: install_one_def)
qed

lemma write_head_effect:
  assumes inv: "bio_inv s" and dev: "lg_dev s = 1" and r: "write_head s = Ok x t"
  defines "h \<equiv> put_head (lh_n s) (lh_block s) (bview s (lg_start s))"
  shows "bio_inv t" and "bview t = (bview s)(lg_start s := h)" and "memdisk t = (memdisk s)(lg_start s := h)"
    and "dwrites t = dwrites s @ [(lg_start s, h)]" and "own t = own s" and "held t = held s"
    and "dirty_blocks t = dirty_blocks s - {lg_start s}" and "bio_rest s t"
    and "buf_room s (Suc n) \<Longrightarrow> buf_room t (Suc n)"
  using bc.rewrite[OF inv, of "lg_start s" "put_head (lh_n s) (lh_block s)" x t] r
  by (simp_all add: write_head_def dev h_def)

section \<open>Commit\<close>

text \<open>
  The disk writes of a commit, in order: the log slots, the header with the transaction,
  the home locations, the cleared header.
\<close>

definition slot_writes :: "'a klog_scheme \<Rightarrow> (nat \<times> bytes) list" where
  "slot_writes s = map (\<lambda>i. (lg_start s + i + 1, bview s (lh_block s i))) [0..<lh_n s]"

definition home_writes :: "'a klog_scheme \<Rightarrow> (nat \<times> bytes) list" where
  "home_writes s = map (\<lambda>i. (lh_block s i, bview s (lh_block s i))) [0..<lh_n s]"

definition commit_head :: "'a klog_scheme \<Rightarrow> bytes" where
  "commit_head s = put_head (lh_n s) (lh_block s) (memdisk s (lg_start s))"

definition commit_writes :: "'a klog_scheme \<Rightarrow> (nat \<times> bytes) list" where
  "commit_writes s = slot_writes s @ (lg_start s, commit_head s) # home_writes s
     @ [(lg_start s, put_head 0 (lh_block s) (commit_head s))]"

lemma slot_writes_at:
  assumes "i < lh_n s"
  shows "apply_writes (slot_writes s) d (lg_start s + i + 1) = bview s (lh_block s i)"
  by (rule apply_writes_same) (use assms in \<open>auto simp: slot_writes_def image_def\<close>)

lemma home_writes_view:
  assumes "\<And>b. b \<notin> logged s \<Longrightarrow> b \<in> A \<Longrightarrow> d b = bview s b" and "b \<in> A"
  shows "apply_writes (home_writes s) d b = bview s b"
proof (cases "b \<in> logged s")
  case True
  then show ?thesis by (intro apply_writes_same) (force simp: home_writes_def logged_def)+
next
  case False
  then show ?thesis using assms by (subst apply_writes_other) (auto simp: home_writes_def logged_def)
qed

lemma slot_writes_other:
  assumes "b \<notin> log_area s" "lh_n s < lg_size s"
  shows "apply_writes (slot_writes s) d b = d b" "apply_writes (take k (slot_writes s)) d b = d b"
proof -
  have "b \<notin> fst ` set (slot_writes s)" using assms by (auto simp: slot_writes_def log_area_def)
  moreover have "set (take k (slot_writes s)) \<subseteq> set (slot_writes s)" by (rule set_take_subset)
  ultimately show "apply_writes (slot_writes s) d b = d b" "apply_writes (take k (slot_writes s)) d b = d b"
    by (auto intro!: apply_writes_other)
qed

lemma slot_writes_head:
  "apply_writes (take k (slot_writes s)) d (lg_start s) = d (lg_start s)"
  "apply_writes (slot_writes s) d (lg_start s) = d (lg_start s)"
  by (auto intro!: apply_writes_other dest!: in_set_takeD simp: slot_writes_def)

lemma log_invD:
  assumes "log_inv s"
  shows "bio_inv s" "log_geometry s" "lh_n s < lg_size s" "lh_n s \<le> LOGSIZE" "inj_on (lh_block s) {..<lh_n s}"
    "dirty_blocks s = logged s" "logged s \<inter> log_area s = {}" "head_n (memdisk s (lg_start s)) = 0"
    "lg_dev s = 1" "lg_start s \<in> log_area s" "lg_start s < disksize s"
  using assms by (auto simp: log_inv_def log_geometry_def log_area_def)

lemma geometry_rest:
  assumes "bio_rest s t"
  shows "log_geometry t = log_geometry s" "logged t = logged s" "log_area t = log_area s"
  using bio_rest_klog[OF assms] by (simp_all add: log_geometry_def logged_def log_area_def)

lemma commit_effect:
  assumes inv: "log_inv s" and idle: "held s = {}" and n: "0 < lh_n s" and r: "commit s = Ok x t"
  shows "log_inv t" and "held t = {}" and "dwrites t = dwrites s @ commit_writes s"
    and "memdisk t = apply_writes (commit_writes s) (memdisk s)"
    and "\<And>b. b \<notin> log_area s \<Longrightarrow> bview t b = bview s b" and "lh_n t = 0"
    and "\<exists>u. bio_rest s u \<and> bio_rest (u\<lparr>lh_n := 0\<rparr>) t"
proof -
  note I = log_invD[OF inv]
  from r n obtain s1 s2 s3 where r1: "write_log s = Ok () s1" and r2: "write_head s1 = Ok () s2"
    and r3: "install_trans s2 = Ok () s3" and r4: "write_head (s3\<lparr>lh_n := 0\<rparr>) = Ok () t"
    by (auto simp: commit_def kif_apply kthen_Ok_iff kmod_apply)
  have e1: "bio_inv s1" "bview s1 = apply_writes (slot_writes s) (bview s)"
    "memdisk s1 = apply_writes (slot_writes s) (memdisk s)" "dwrites s1 = dwrites s @ slot_writes s"
    "held s1 = {}" "dirty_blocks s1 = logged s" "bio_rest s s1"
    using write_log_effect[OF I(1,2,3,7) r1] idle log_slot(1)[OF I(2,3)] I(6,7) by (auto simp: slot_writes_def)
  note k1 = bio_rest_klog[OF e1(7)]
  have h: "bview s (lg_start s) = memdisk s (lg_start s)" by (rule bview_idle) (use I idle in auto)
  have e2: "bio_inv s2" "bview s2 = (bview s1)(lg_start s := commit_head s)"
    "memdisk s2 = (memdisk s1)(lg_start s := commit_head s)"
    "dwrites s2 = dwrites s1 @ [(lg_start s, commit_head s)]" "held s2 = {}" "dirty_blocks s2 = logged s" "bio_rest s s2"
    using write_head_effect[OF e1(1) _ r2] k1 I e1 h slot_writes_head(2)[of s "bview s"] bc.rest_trans[OF e1(7), of s2]
    by (auto simp: commit_head_def)
  note k2 = bio_rest_klog[OF e2(7)] geometry_rest[OF e2(7)]
  have src: "bview s2 (lg_start s + i + 1) = bview s (lh_block s i)" if "i < lh_n s" for i
    using e2(2) e1(2) slot_writes_at[OF that, of "bview s"] by simp
  have hw: "map (\<lambda>i. (lh_block s2 i, bview s2 (lg_start s2 + i + 1))) [0..<lh_n s2] = home_writes s"
    unfolding home_writes_def k2 using src by auto
  have e3: "bio_inv s3" "bview s3 = apply_writes (home_writes s) (bview s2)"
    "memdisk s3 = apply_writes (home_writes s) (memdisk s2)"
    "dwrites s3 = dwrites s2 @ home_writes s" "held s3 = {}" "dirty_blocks s3 = {}" "bio_rest s s3"
    using install_trans_effect[OF e2(1) _ _ _ r3] I(2,3,7) bc.rest_trans[OF e2(7), of s3] e2
    unfolding hw by (auto simp: k2 logged_def)
  note k3 = bio_rest_klog[OF e3(7)]
  have hs: "bview s3 (lg_start s) = commit_head s"
    unfolding e3(2) using I(7,10) e2(2) by (subst apply_writes_other) (force simp: home_writes_def logged_def)+
  have b3: "bio_inv (s3\<lparr>lh_n := 0\<rparr>)" "lg_dev (s3\<lparr>lh_n := 0\<rparr>) = 1" using e3(1) k3 I(9) by simp_all
  note e4 = write_head_effect[OF b3 r4, simplified, unfolded k3 hs]
  show "held t = {}" using e4 e3 by simp
  show "dwrites t = dwrites s @ commit_writes s" using e4(4) e3(4) e2(4) e1(4) by (simp add: commit_writes_def)
  show m: "memdisk t = apply_writes (commit_writes s) (memdisk s)"
    using e4(3) e3(3) e2(3) e1(3) by (simp add: commit_writes_def)
  show "bview t b = bview s b" if "b \<notin> log_area s" for b
  proof -
    have "bview s3 b = bview s b"
      unfolding e3(2) by (rule home_writes_view[of s "- log_area s"])
        (use that I(10) in \<open>auto simp: e2(2) e1(2) slot_writes_other(1)[OF _ I(3)]\<close>)
    then show ?thesis using e4(2) that I(10) by auto
  qed
  note k4 = bio_rest_klog[OF e4(8)]
  show "lh_n t = 0" using k4 by simp
  show "\<exists>u. bio_rest s u \<and> bio_rest (u\<lparr>lh_n := 0\<rparr>) t" using e3(7) e4(8) by blast
  show "log_inv t"
    using e4 e3(6) I(2,3) k3
    by (simp add: log_inv_def k4 log_geometry_def logged_def head_put_head(1))
qed

subsection \<open>Commit does not fail\<close>

lemma idle_room:
  assumes inv: "bio_inv s" and idle: "held s = {}" and n: "n + card (dirty_blocks s) \<le> NBUF"
  shows "buf_room s n"
proof -
  have "inj_on (\<lambda>i. b_blockno (bufs s i)) (dirty s)"
  proof (rule inj_onI)
    fix i j
    assume "i \<in> dirty s" "j \<in> dirty s" "b_blockno (bufs s i) = b_blockno (bufs s j)"
    moreover from this have "i < NBUF" "j < NBUF" "b_dev (bufs s i) = 1" "b_dev (bufs s j) = 1"
      using bio_inv_bufD[OF inv] by (auto simp: dirty_def buf_ok_def)
    ultimately show "i = j" using bio_inv_uniqueD[OF inv, of i j] by simp
  qed
  then have "card (dirty s) = card (dirty_blocks s)" by (simp add: dirty_blocks_def card_image)
  then show ?thesis using n idle by (simp add: buf_room_def)
qed

lemma card_logged: "card (logged s) \<le> lh_n s"
  unfolding logged_def using card_image_le[of "{..<lh_n s}" "lh_block s"] by simp

lemma finite_logged [simp]: "finite (logged s)"
  by (simp add: logged_def)

lemma write_log_succeeds:
  assumes inv: "log_inv s" and idle: "held s = {}" and n: "lh_n s < NBUF"
  shows "\<exists>t. write_log s = Ok () t"
proof -
  note I = log_invD[OF inv]
  let ?Q = "\<lambda>(i::nat) u. bio_inv u \<and> bio_rest s u \<and> held u = {} \<and> dirty_blocks u = logged s"
  have "\<exists>t. kfor write_log_one [0..<lh_n s] s = Ok () t \<and> ?Q (lh_n s) t"
  proof (rule kfor_upt_succeeds)
    show "?Q 0 s" using I idle bc.rest_refl by auto
    fix i u
    assume i: "i < lh_n s" and Q: "?Q i u"
    note k = bio_rest_klog[of s u]
    let ?a = "lh_block s i" and ?b = "lg_start s + i + 1"
    have ab: "?a \<in> logged s" "?b \<in> log_area s" "?b < disksize s" "?a < disksize s"
      using log_slot[OF I(2,3) i] i I(6) dirty_blocks_lt[OF I(1), of ?a] by (auto simp: logged_def)
    have ne: "?b \<noteq> ?a" using ab(1,2) I(7) by auto
    have "buf_room u 1"
      using idle_room[of u 1] Q card_logged[of s] n by simp
    then obtain t where t: "write_log_one i u = Ok () t"
      using bc.copy_dst_first_succeeds[of u ?b ?a] Q k I(9) ab ne by (auto simp: write_log_one_def)
    moreover have "?Q (Suc i) t"
      using bc.copy_dst_first[of u ?b ?a "()" t] t Q k I(7,9) ab bc.rest_trans[of s u t]
      by (auto simp: write_log_one_def)
    ultimately show "\<exists>t. write_log_one i u = Ok () t \<and> ?Q (Suc i) t" by blast
  qed simp
  then show ?thesis by (auto simp: write_log_def)
qed

lemma install_trans_succeeds:
  assumes inv: "bio_inv s" and g: "log_geometry s" "lh_n s < lg_size s" and ap: "logged s \<inter> log_area s = {}"
    and lt: "\<And>i. i < lh_n s \<Longrightarrow> lh_block s i < disksize s" and idle: "held s = {}"
    and d: "dirty_blocks s = {} \<or> dirty_blocks s = logged s \<and> inj_on (lh_block s) {..<lh_n s} \<and> lh_n s < NBUF"
  shows "\<exists>t. install_trans s = Ok () t"
proof -
  let ?Q = "\<lambda>(i::nat) u. bio_inv u \<and> bio_rest s u \<and> held u = {} \<and> dirty_blocks u = dirty_blocks s - lh_block s ` {..<i}"
  have "\<exists>t. kfor install_one [0..<lh_n s] s = Ok () t \<and> ?Q (lh_n s) t"
  proof (rule kfor_upt_succeeds)
    show "?Q 0 s" using inv idle bc.rest_refl by auto
    fix i u
    assume i: "i < lh_n s" and Q: "?Q i u"
    note k = bio_rest_klog[of s u]
    let ?b = "lh_block s i" and ?a = "lg_start s + i + 1"
    have ab: "?b \<in> logged s" "?a \<in> log_area s" "?a < disksize s" "?b < disksize s" "lg_dev s = 1"
      using log_slot[OF g i] i lt[OF i] g(1) by (auto simp: logged_def log_geometry_def)
    have "card (dirty_blocks u) \<le> card (dirty_blocks s)"
      using Q d by (auto intro!: card_mono)
    moreover have "card (dirty_blocks s) < NBUF" using d card_logged[of s] by auto
    moreover have "?b \<in> dirty_blocks u \<or> dirty_blocks u = {}"
    proof (cases "dirty_blocks s = {}")
      case False
      with d have "dirty_blocks s = logged s" "inj_on (lh_block s) {..<lh_n s}" by auto
      moreover from this(2) i have "?b \<notin> lh_block s ` {..<i}"
        by (subst inj_on_image_mem_iff[where B = "{..<lh_n s}"]) auto
      ultimately show ?thesis using Q ab(1) by auto
    qed (use Q in auto)
    moreover have bu: "bio_inv u" "held u = {}" using Q by simp_all
    moreover have "dirty_blocks u = {} \<Longrightarrow> buf_room u 2" using idle_room[OF bu, of 2] by simp
    ultimately have room: "buf_room u 1" "?b \<in> dirty_blocks u \<or> buf_room u 2"
      using idle_room[OF bu, of 1] by (simp, blast)
    have ne: "?a \<noteq> ?b" using ab(1,2) ap by auto
    from room obtain t where t: "install_one i u = Ok () t"
      using bc.copy_src_first_succeeds[of u ?a ?b] Q k ab ne by (auto simp: install_one_def)
    moreover have "?Q (Suc i) t"
      using bc.copy_src_first[of u ?a ?b "()" t] t Q k ab bc.rest_trans[of s u t]
      by (auto simp: install_one_def lessThan_Suc)
    ultimately show "\<exists>t. install_one i u = Ok () t \<and> ?Q (Suc i) t" by blast
  qed simp
  then show ?thesis by (auto simp: install_trans_def)
qed

lemma write_head_succeeds:
  assumes "bio_inv s" "log_geometry s" "held s = {}" "card (dirty_blocks s) < NBUF"
  shows "\<exists>t. write_head s = Ok () t"
  using bc.rewrite_succeeds[of s "lg_start s" "put_head (lh_n s) (lh_block s)"] idle_room[of s 1] assms
  by (auto simp: write_head_def log_geometry_def)

lemma commit_succeeds:
  assumes inv: "log_inv s" and idle: "held s = {}" and n: "lh_n s < NBUF"
  shows "\<exists>t. commit s = Ok () t"
proof (cases "0 < lh_n s")
  case True
  note I = log_invD[OF inv]
  obtain s1 where r1: "write_log s = Ok () s1" using write_log_succeeds[OF assms] by blast
  have e1: "bio_inv s1" "held s1 = {}" "dirty_blocks s1 = logged s" "bio_rest s s1"
    using write_log_effect[OF I(1,2,3,7) r1] idle log_slot(1)[OF I(2,3)] I(6,7) by auto
  note k1 = bio_rest_klog[OF e1(4)] geometry_rest[OF e1(4)]
  obtain s2 where r2: "write_head s1 = Ok () s2"
    using write_head_succeeds[of s1] e1 k1 I(2) card_logged[of s] n by auto
  have e2: "bio_inv s2" "held s2 = {}" "dirty_blocks s2 = logged s" "bio_rest s s2"
    using write_head_effect[OF e1(1) _ r2] e1 k1 I(7,9,10) bc.rest_trans[OF e1(4), of s2] by auto
  note k2 = bio_rest_klog[OF e2(4)] geometry_rest[OF e2(4)]
  have lt: "lh_block s2 i < disksize s2" if "i < lh_n s2" for i
    using that k2 dirty_blocks_lt[OF I(1), of "lh_block s i"] I(6) by (auto simp: logged_def)
  obtain s3 where r3: "install_trans s2 = Ok () s3"
    using install_trans_succeeds[OF e2(1) _ _ _ lt e2(2)] k2 e2 I n by auto
  have e3: "bio_inv s3" "held s3 = {}" "dirty_blocks s3 = {}" "bio_rest s2 s3"
    using install_trans_effect[OF e2(1) _ _ _ r3] e2 k2 I(2,3,7) by (auto simp: logged_def)
  have "log_geometry (s3\<lparr>lh_n := 0\<rparr>)"
    using geometry_rest(1)[OF e3(4)] k2 I(2) by (simp add: log_geometry_def)
  then obtain t where "write_head (s3\<lparr>lh_n := 0\<rparr>) = Ok () t"
    using write_head_succeeds[of "s3\<lparr>lh_n := 0\<rparr>"] e3 by auto
  then show ?thesis using True r1 r2 r3 by (auto simp: commit_def kif_apply kthen_Ok_iff kmod_apply)
qed (simp add: commit_def kdefs)

section \<open>Recovery\<close>

definition head_ok :: "nat \<Rightarrow> nat \<Rightarrow> nat \<Rightarrow> bytes \<Rightarrow> bool" where
  "head_ok st sz blocks h \<longleftrightarrow> head_n h < sz \<and> head_n h \<le> LOGSIZE \<and>
     (\<forall>i<head_n h. head_block h i < blocks \<and> head_block h i \<notin> {st..<st + sz})"

definition recovered :: "nat \<Rightarrow> (nat \<Rightarrow> bytes) \<Rightarrow> nat \<Rightarrow> bytes" where
  "recovered start d = apply_writes
     (map (\<lambda>i. (head_block (d start) i, d (start + i + 1))) [0..<head_n (d start)]) d"

lemma settled_idle_view:
  "bio_inv s \<Longrightarrow> held s = {} \<Longrightarrow> dirty_blocks s = {} \<Longrightarrow> bview s = memdisk s"
  by (rule ext) (simp add: bview_idle)

lemma read_head_effect:
  assumes inv: "bio_inv s" and g: "log_geometry s" and idle: "held s = {}" and cl: "dirty_blocks s = {}"
  shows "\<exists>t. read_head s = Ok () t \<and> bio_inv t \<and> held t = {} \<and> dirty_blocks t = {} \<and>
    memdisk t = memdisk s \<and> lh_n t = head_n (memdisk s (lg_start s)) \<and>
    (\<forall>i<lh_n t. lh_block t i = head_block (memdisk s (lg_start s)) i) \<and>
    lg_start t = lg_start s \<and> lg_size t = lg_size s \<and> lg_dev t = lg_dev s \<and> disksize t = disksize s"
proof -
  have dev: "lg_dev s = 1" "lg_start s < disksize s" using g by (auto simp: log_geometry_def)
  have "buf_room s 1" using idle_room[OF inv idle, of 1] cl by simp
  then obtain b u where u: "bread 1 (lg_start s) s = Ok b u"
    using bc.rd_succeeds[OF inv dev(2)] idle by auto
  note R = bc.rd_law[OF inv u, of 0]
  let ?h = "b_data (bufs u b)"
  let ?v = "u\<lparr>lh_n := head_n ?h, lh_block := (\<lambda>i. if i < head_n ?h then head_block ?h i else lh_block u i)\<rparr>"
  have "bio_inv ?v" "b \<in> own ?v" "settled ?v b" using R by auto
  from bc.rel_law[OF this, of 0] obtain t where t: "brelse b ?v = Ok () t" "bio_inv t" "memdisk t = memdisk ?v"
    "held t = held ?v - {b}" "dirty_blocks t = dirty_blocks ?v" "bio_rest ?v t" by auto
  note k = bio_rest_klog[OF t(6)] and ku = bio_rest_klog[of s u]
  have h: "?h = memdisk s (lg_start s)" using R settled_idle_view[OF inv idle cl] by simp
  have "read_head s = Ok () t"
    using u t(1) by (simp add: read_head_def dev kbind_apply kget_apply kthen_apply kmod_apply)
  then show ?thesis using t(2-5) k ku R idle cl h by (intro exI[of _ t]) auto
qed

lemma recover_effect:
  assumes inv: "bio_inv s" and g: "log_geometry s" and idle: "held s = {}" and cl: "dirty_blocks s = {}"
    and ok: "head_ok (lg_start s) (lg_size s) (disksize s) (memdisk s (lg_start s))"
  shows "\<exists>t. recover_from_log s = Ok () t \<and> log_inv t \<and> held t = {} \<and> lh_n t = 0 \<and>
    lg_start t = lg_start s \<and> lg_size t = lg_size s \<and> bview t = memdisk t \<and>
    (\<forall>b. b \<notin> log_area s \<longrightarrow> bview t b = recovered (lg_start s) (memdisk s) b)"
proof -
  let ?h = "memdisk s (lg_start s)"
  obtain s1 where s1: "read_head s = Ok () s1" "bio_inv s1" "held s1 = {}" "dirty_blocks s1 = {}"
    "memdisk s1 = memdisk s" "lh_n s1 = head_n ?h" "\<forall>i<lh_n s1. lh_block s1 i = head_block ?h i"
    and f1: "lg_start s1 = lg_start s" "lg_size s1 = lg_size s" "lg_dev s1 = lg_dev s" "disksize s1 = disksize s"
    using read_head_effect[OF inv g idle cl] by auto
  have g1: "log_geometry s1" "lh_n s1 < lg_size s1" using g ok f1 s1(6) by (auto simp: log_geometry_def head_ok_def)
  have ap: "logged s1 \<inter> log_area s1 = {}" using ok s1(6,7) f1 by (auto simp: logged_def log_area_def head_ok_def)
  have lt: "lh_block s1 i < disksize s1" if "i < lh_n s1" for i
    using ok s1(6,7) f1 that by (auto simp: head_ok_def)
  obtain s2 where s2: "install_trans s1 = Ok () s2"
    using install_trans_succeeds[OF s1(2) g1 ap lt s1(3)] s1(4) by auto
  have v1: "bview s1 = memdisk s" using settled_idle_view[OF s1(2,3,4)] s1(5) by simp
  have ws: "map (\<lambda>i. (lh_block s1 i, bview s1 (lg_start s1 + i + 1))) [0..<lh_n s1] =
      map (\<lambda>i. (head_block ?h i, memdisk s (lg_start s + i + 1))) [0..<head_n ?h]"
    using s1(6,7) f1 v1 by auto
  have e2: "bio_inv s2" "memdisk s2 = recovered (lg_start s) (memdisk s)" "held s2 = {}" "dirty_blocks s2 = {}" "bio_rest s1 s2"
    using install_trans_effect[OF s1(2) g1 ap s2] s1(3,4,5) unfolding ws recovered_def by auto
  note k2 = bio_rest_klog[OF e2(5)]
  let ?u = "s2\<lparr>lh_n := 0\<rparr>"
  have gu: "log_geometry ?u" using g1 k2 by (simp add: log_geometry_def)
  obtain t where t: "write_head ?u = Ok () t" using write_head_succeeds[of ?u] e2 gu by auto
  have bu: "bio_inv ?u" "lg_dev ?u = 1" using e2(1) gu by (simp_all add: log_geometry_def)
  note e3 = write_head_effect[OF bu t, simplified] and k3 = bio_rest_klog[OF write_head_effect(8)[OF bu t]]
  have v: "bview t = memdisk t"
    by (rule settled_idle_view) (use e3 e2 in auto)
  have "log_inv t"
    using e3 e2 k2 k3 gu by (simp add: log_inv_def log_geometry_def logged_def head_put_head(1))
  moreover have "bview t b = recovered (lg_start s) (memdisk s) b" if "b \<notin> log_area s" for b
  proof -
    have "b \<noteq> lg_start s" using that g by (auto simp: log_area_def log_geometry_def)
    then show ?thesis using v e3(3) e2(2) k2 f1 by simp
  qed
  moreover have "recover_from_log s = Ok () t"
    using s1(1) s2 t by (simp add: recover_from_log_def kthen_apply kmod_apply)
  ultimately show ?thesis using e3 e2 k2 k3 f1 v by auto
qed

text \<open>Booting from a disk: \<^verbatim>\<open>binit\<close>, then \<^verbatim>\<open>initlog\<close>.\<close>

definition boot_log :: "('a klog_scheme, unit) km" where
  "boot_log = kthen binit (initlog ROOTDEV)"

definition bootable :: "(nat \<Rightarrow> bytes) \<Rightarrow> nat \<Rightarrow> bool" where
  "bootable d blocks \<longleftrightarrow> (let sb = decode_sb (d 1) in
     1 < sb_logstart sb \<and> 0 < sb_nlog sb \<and> sb_logstart sb + sb_nlog sb \<le> blocks \<and> blocks < 2 ^ 31 \<and>
     head_ok (sb_logstart sb) (sb_nlog sb) blocks (d (sb_logstart sb)))"

lemma boot_log_effect:
  assumes ok: "bootable (memdisk s) (disksize s)"
  defines "sb \<equiv> decode_sb (memdisk s 1)"
  shows "\<exists>t. boot_log s = Ok () t \<and> log_inv t \<and> held t = {} \<and> lh_n t = 0 \<and>
    lg_start t = sb_logstart sb \<and> lg_size t = sb_nlog sb \<and> bview t = memdisk t \<and>
    (\<forall>b. b \<notin> {sb_logstart sb..<sb_logstart sb + sb_nlog sb} \<longrightarrow>
       bview t b = recovered (sb_logstart sb) (memdisk s) b)"
proof -
  obtain s1 where s1: "binit s = Ok () s1" using binit_Ok by blast
  note e1 = binit_spec[OF s1]
  have d1: "dirty_blocks s1 = {}" using e1(5) by (simp add: dirty_blocks_def)
  have "1 < disksize s1" using ok e1(6) by (auto simp: bootable_def Let_def)
  then obtain s2 where s2: "readsb 1 s1 = Ok (decode_sb (bview s1 1)) s2"
    using bc.peek_succeeds[of s1 1 decode_sb] idle_room[of s1 1] e1(1,4) d1 by (auto simp: readsb_def)
  note e2 = bc.peek[OF e1(1) s2[unfolded readsb_def]]
  let ?u = "s2\<lparr>lg_start := sb_logstart sb, lg_size := sb_nlog sb, lg_dev := 1\<rparr>"
  have sb: "decode_sb (bview s1 1) = sb" using e1(2) by (simp add: sb_def)
  have f: "bio_inv ?u" "held ?u = {}" "dirty_blocks ?u = {}" "memdisk ?u = memdisk s" "disksize ?u = disksize s"
    using e2 e1 d1 bio_rest_klog(9)[OF e2(9)] by simp_all
  have g: "log_geometry ?u" "head_ok (lg_start ?u) (lg_size ?u) (disksize ?u) (memdisk ?u (lg_start ?u))"
    using ok f by (simp_all add: bootable_def sb_def Let_def log_geometry_def)
  have "boot_log s = recover_from_log ?u"
    using s1 s2 by (simp add: boot_log_def initlog_def kthen_apply kbind_apply kmod_apply kassert_apply flip: sb)
  then show ?thesis
    using recover_effect[OF f(1) g(1) f(2,3) g(2)] f(4) by (simp add: log_area_def)
qed

section \<open>Crash atomicity\<close>

text \<open>The superblock on the disk describes the log the kernel runs with.\<close>

definition sb_matches :: "'a klog_scheme \<Rightarrow> bool" where
  "sb_matches s \<longleftrightarrow> sb_logstart (decode_sb (memdisk s 1)) = lg_start s \<and>
     sb_nlog (decode_sb (memdisk s 1)) = lg_size s \<and> 1 \<notin> logged s"

lemma boot_after_crash:
  assumes inv: "log_inv s" and sb: "sb_matches s" and d1: "d 1 = memdisk s 1"
    and h: "head_ok (lg_start s) (lg_size s) (disksize s) (d (lg_start s))"
    and s0: "memdisk s0 = d" "disksize s0 = disksize s"
    and rc: "\<And>b. b \<notin> log_area s \<Longrightarrow> recovered (lg_start s) d b = v b"
  shows "\<exists>u. boot_log s0 = Ok () u \<and> log_inv u \<and> held u = {} \<and> (\<forall>b. b \<notin> log_area s \<longrightarrow> bview u b = v b)"
proof -
  have "bootable (memdisk s0) (disksize s0)"
    using log_invD(2,3)[OF inv] sb h s0 d1 by (auto simp: bootable_def sb_matches_def log_geometry_def Let_def)
  from boot_log_effect[OF this] show ?thesis
    using sb s0 d1 rc by (auto simp: sb_matches_def log_area_def)
qed

lemma home_writes_other:
  "b \<notin> logged s \<Longrightarrow> apply_writes (take m (home_writes s)) d b = d b"
  by (rule apply_writes_other) (auto simp: home_writes_def logged_def dest!: in_set_takeD)

lemma home_writes_part:
  assumes "b \<in> logged s" and "d b = bview s b"
  shows "apply_writes (take m (home_writes s)) d b = bview s b"
proof (cases "b \<in> fst ` set (take m (home_writes s))")
  case True
  then show ?thesis
    by (intro apply_writes_same) (auto simp: home_writes_def dest!: in_set_takeD)
qed (use assms in \<open>simp add: apply_writes_other\<close>)

text \<open>Once the header is written, recovery copies the slots over the logged blocks.\<close>

lemma recovered_committed:
  assumes inv: "log_inv s" and h: "d (lg_start s) = commit_head s"
    and slots: "\<And>i. i < lh_n s \<Longrightarrow> d (lg_start s + i + 1) = bview s (lh_block s i)"
    and rest: "\<And>b. b \<notin> logged s \<Longrightarrow> b \<notin> log_area s \<Longrightarrow> d b = bview s b"
  shows "head_ok (lg_start s) (lg_size s) (disksize s) (d (lg_start s))"
    and "b \<notin> log_area s \<Longrightarrow> recovered (lg_start s) d b = bview s b"
proof -
  note I = log_invD[OF inv]
  have blt: "lh_block s i < disksize s" "lh_block s i \<notin> log_area s" if "i < lh_n s" for i
    using dirty_blocks_lt[OF I(1), of "lh_block s i"] I(6,7) that by (auto simp: logged_def)
  have small: "lh_n s < 2 ^ 31" using I(4) by simp
  have hn: "head_n (d (lg_start s)) = lh_n s" unfolding h commit_head_def by (rule head_put_head(1)[OF small])
  have hb: "head_block (d (lg_start s)) i = lh_block s i" if "i < lh_n s" for i
    unfolding h commit_head_def
    by (rule head_put_head(2)[OF small that]) (use blt(1)[OF that] I(2) in \<open>auto simp: log_geometry_def\<close>)
  show "head_ok (lg_start s) (lg_size s) (disksize s) (d (lg_start s))"
    unfolding head_ok_def hn using hb blt I(3,4) by (auto simp: log_area_def)
  assume b: "b \<notin> log_area s"
  have eq: "map (\<lambda>i. (head_block (d (lg_start s)) i, d (lg_start s + i + 1))) [0..<head_n (d (lg_start s))] = home_writes s"
    unfolding hn home_writes_def using hb slots by auto
  show "recovered (lg_start s) d b = bview s b"
    unfolding recovered_def eq by (rule home_writes_view[of s "- log_area s"]) (use b rest in auto)
qed

lemma crash_before_head:
  assumes inv: "log_inv s" and k: "k \<le> lh_n s"
  defines "d \<equiv> apply_writes (take k (commit_writes s)) (memdisk s)"
  shows "d (lg_start s) = memdisk s (lg_start s)" and "b \<notin> log_area s \<Longrightarrow> d b = memdisk s b"
proof -
  have "take k (commit_writes s) = take k (slot_writes s)"
    using k by (simp add: commit_writes_def slot_writes_def)
  then show "d (lg_start s) = memdisk s (lg_start s)" "b \<notin> log_area s \<Longrightarrow> d b = memdisk s b"
    using slot_writes_head(1)[of k s] slot_writes_other(2)[OF _ log_invD(3)[OF inv]] by (simp_all add: d_def)
qed

lemma crash_after_head:
  assumes inv: "log_inv s" and idle: "held s = {}" and k: "lh_n s < k" "k \<le> 2 * lh_n s + 1"
  defines "d \<equiv> apply_writes (take k (commit_writes s)) (memdisk s)"
  shows "d (lg_start s) = commit_head s"
    and "i < lh_n s \<Longrightarrow> d (lg_start s + i + 1) = bview s (lh_block s i)"
    and "b \<notin> logged s \<Longrightarrow> b \<notin> log_area s \<Longrightarrow> d b = memdisk s b"
proof -
  note I = log_invD[OF inv]
  have "length (slot_writes s) = lh_n s" "length (home_writes s) = lh_n s"
    by (simp_all add: slot_writes_def home_writes_def)
  then have "take k (commit_writes s) = slot_writes s @ (lg_start s, commit_head s) # take (k - lh_n s - 1) (home_writes s)"
    using k by (simp add: commit_writes_def take_Cons')
  then have d: "d = apply_writes (take (k - lh_n s - 1) (home_writes s))
      ((apply_writes (slot_writes s) (memdisk s))(lg_start s := commit_head s))"
    by (simp add: d_def)
  have nl: "c \<in> log_area s \<Longrightarrow> c \<notin> logged s" for c using I(7) by auto
  show "d (lg_start s) = commit_head s" unfolding d by (simp add: home_writes_other nl I(10))
  show "i < lh_n s \<Longrightarrow> d (lg_start s + i + 1) = bview s (lh_block s i)"
    unfolding d using log_slot(1)[OF I(2,3)] slot_writes_at[of i s "memdisk s"] by (simp add: home_writes_other nl)
  assume b: "b \<notin> logged s" "b \<notin> log_area s"
  then have "b \<noteq> lg_start s" using I(10) by auto
  then show "d b = memdisk s b"
    unfolding d using b by (simp add: home_writes_other slot_writes_other(1)[OF _ I(3)])
qed

lemma crash_done:
  assumes inv: "log_inv s" and idle: "held s = {}" and k: "2 * lh_n s + 1 < k"
  defines "d \<equiv> apply_writes (take k (commit_writes s)) (memdisk s)"
  shows "head_n (d (lg_start s)) = 0" and "b \<notin> log_area s \<Longrightarrow> d b = bview s b"
proof -
  note I = log_invD[OF inv]
  have "take k (commit_writes s) = commit_writes s"
    using k by (intro take_all) (simp add: commit_writes_def slot_writes_def home_writes_def)
  then have d: "d = (apply_writes (home_writes s) ((apply_writes (slot_writes s) (memdisk s))(lg_start s := commit_head s)))
      (lg_start s := put_head 0 (lh_block s) (commit_head s))"
    by (simp add: d_def commit_writes_def)
  show "head_n (d (lg_start s)) = 0" by (simp add: d head_put_head(1))
  assume b: "b \<notin> log_area s"
  have "apply_writes (home_writes s) ((apply_writes (slot_writes s) (memdisk s))(lg_start s := commit_head s)) b = bview s b"
  proof (rule home_writes_view[of s "- log_area s"])
    fix c
    assume c: "c \<notin> logged s" "c \<in> - log_area s"
    then have "c \<noteq> lg_start s" using I(10) by auto
    then show "((apply_writes (slot_writes s) (memdisk s))(lg_start s := commit_head s)) c = bview s c"
      using c slot_writes_other(1)[OF _ I(3), of c "memdisk s"] bview_idle[OF I(1) idle, of c] I(6) by simp
  qed (use b in simp)
  then show "d b = bview s b" using b I(10) by (auto simp: d)
qed

lemma recovered_empty: "head_n (d st) = 0 \<Longrightarrow> recovered st d = d"
  by (simp add: recovered_def)

lemma head_ok_empty: "head_n h = 0 \<Longrightarrow> 0 < sz \<Longrightarrow> head_ok st sz bl h"
  by (simp add: head_ok_def)

section \<open>Operations of a transaction\<close>

lemma log_index_cases:
  assumes "inj_on (lh_block s) {..<lh_n s}"
  obtains (absorbed) "b \<in> logged s" "log_index s b < lh_n s" "lh_block s (log_index s b) = b"
  | (new) "b \<notin> logged s" "log_index s b = lh_n s"
proof (cases "findi (\<lambda>i. lh_block s i = b) (lh_n s)")
  case None
  then have "log_index s b = lh_n s" by (simp only: log_index_def option.case)
  then show ?thesis using None by (intro new) (auto simp: logged_def)
next
  case (Some i)
  note f = findi_SomeD[OF Some]
  then show ?thesis by (intro absorbed) (auto simp: logged_def log_index_def Some)
qed

lemma log_write_logged:
  assumes inj: "inj_on (lh_block s) {..<lh_n s}" and r: "log_write i s = Ok x t"
  defines "b \<equiv> b_blockno (bufs s i)"
  shows "logged t = insert b (logged s)" and "inj_on (lh_block t) {..<lh_n t}"
    and "lh_n t = (if b \<in> logged s then lh_n s else lh_n s + 1)"
    and "\<And>j. j < lh_n s \<Longrightarrow> lh_block t j = lh_block s j"
    and "t = upd_buf i (\<lambda>x. x\<lparr>b_dirty := True\<rparr>) (s\<lparr>lh_block := lh_block t, lh_n := lh_n t\<rparr>)"
    and "lh_n s < LOGSIZE" "lh_n s < lg_size s - 1" "1 \<le> lg_outstanding s"
proof -
  let ?k = "log_index s b"
  have t: "t = upd_buf i (\<lambda>x. x\<lparr>b_dirty := True\<rparr>) (s\<lparr>lh_block := (lh_block s)(?k := b),
      lh_n := (if ?k = lh_n s then lh_n s + 1 else lh_n s)\<rparr>)"
    and g: "lh_n s < LOGSIZE" "lh_n s < lg_size s - 1" "1 \<le> lg_outstanding s"
    using r by (auto simp: log_write_def kthen_Ok_iff kassert_Ok_iff kmod_apply Let_def b_def)
  have f: "lh_block t = (lh_block s)(?k := b)" "lh_n t = (if ?k = lh_n s then lh_n s + 1 else lh_n s)"
    unfolding t by (simp_all add: upd_buf_def)
  show "lh_n s < LOGSIZE" "lh_n s < lg_size s - 1" "1 \<le> lg_outstanding s" by (fact g)+
  show "t = upd_buf i (\<lambda>x. x\<lparr>b_dirty := True\<rparr>) (s\<lparr>lh_block := lh_block t, lh_n := lh_n t\<rparr>)"
    unfolding f by (fact t)
  have "logged t = insert b (logged s) \<and> inj_on (lh_block t) {..<lh_n t} \<and>
     lh_n t = (if b \<in> logged s then lh_n s else lh_n s + 1) \<and> (\<forall>j<lh_n s. lh_block t j = lh_block s j)"
    using inj
  proof (cases rule: log_index_cases[where b = b])
    case absorbed
    then have "lh_block t = lh_block s" "lh_n t = lh_n s" using f by (auto simp: fun_upd_idem)
    then show ?thesis using absorbed(1) inj by (auto simp: logged_def)
  next
    case new
    then have u: "lh_block t = (lh_block s)(lh_n s := b)" "lh_n t = Suc (lh_n s)" using f by auto
    have "inj_on (lh_block t) {..<lh_n t}"
      unfolding u lessThan_Suc using inj new(1) by (auto simp: inj_on_def logged_def)
    moreover have "logged t = insert b (logged s)" unfolding logged_def u lessThan_Suc by (auto simp: image_def)
    ultimately show ?thesis using u new(1) by auto
  qed
  then show "logged t = insert b (logged s)" "inj_on (lh_block t) {..<lh_n t}"
    "lh_n t = (if b \<in> logged s then lh_n s else lh_n s + 1)"
    "\<And>j. j < lh_n s \<Longrightarrow> lh_block t j = lh_block s j" by auto
qed

lemma upd_buf_klog [simp]:
  "lg_start (upd_buf i f s) = lg_start s" "lg_size (upd_buf i f s) = lg_size s" "lg_dev (upd_buf i f s) = lg_dev s"
  "lg_outstanding (upd_buf i f s) = lg_outstanding s" "lg_committing (upd_buf i f s) = lg_committing s"
  "lh_n (upd_buf i f s) = lh_n s" "lh_block (upd_buf i f s) = lh_block s" "klog.more (upd_buf i f s) = klog.more s"
  by (simp_all add: upd_buf_def)

lemma set_dirty_effect:
  assumes inv: "bio_inv s" and i: "i \<in> own s" and t: "t = upd_buf i (\<lambda>x. x\<lparr>b_dirty := True\<rparr>) s"
  shows "bio_inv t" and "bview t = bview s" and "own t = own s" and "held t = held s"
    and "dirty_blocks t = insert (b_blockno (bufs s i)) (dirty_blocks s)" and "settled t i"
    and "j \<noteq> i \<Longrightarrow> settled t j = settled s j"
proof -
  note o = ownD[OF inv i]
  show "bio_inv t" "bview t = bview s"
    using held_update[OF inv i, of t "(bufs s i)\<lparr>b_dirty := True\<rparr>"] o by (simp_all add: t fun_upd_idem)
  show "own t = own s" "held t = held s"
    by (auto simp: own_def held_def holdingsleep_def t)
  have "dirty t = insert i (dirty s)" using o(1) by (auto simp: dirty_def t)
  then show "dirty_blocks t = insert (b_blockno (bufs s i)) (dirty_blocks s)"
    by (auto simp: dirty_blocks_def t)
  show "settled t i" "j \<noteq> i \<Longrightarrow> settled t j = settled s j" by (auto simp: settled_def t)
qed

lemma log_write_effect:
  assumes inv: "log_inv s" and i: "i \<in> own s" and na: "b_blockno (bufs s i) \<notin> log_area s"
    and r: "log_write i s = Ok x t"
  shows "log_inv t" and "bview t = bview s" and "memdisk t = memdisk s" and "dwrites t = dwrites s"
    and "own t = own s" and "held t = held s" and "settled t i"
    and "j \<noteq> i \<Longrightarrow> settled t j = settled s j"
    and "logged t = insert (b_blockno (bufs s i)) (logged s)"
    and "lg_outstanding t = lg_outstanding s" "lg_start t = lg_start s" "lg_size t = lg_size s"
    "lg_committing t = lg_committing s" "lg_dev t = lg_dev s" "disksize t = disksize s"
    "klog.more t = klog.more s" "ptable t = ptable s" "cur t = cur s" "same_memory s t"
    "lh_n s \<le> lh_n t" "bufs t = (bufs s)(i := (bufs s i)\<lparr>b_dirty := True\<rparr>)"
proof -
  note I = log_invD[OF inv] and L = log_write_logged[OF log_invD(5)[OF inv] r]
  let ?u = "s\<lparr>lh_block := lh_block t, lh_n := lh_n t\<rparr>"
  have u: "bio_inv ?u" "i \<in> own ?u" "bview ?u = bview s" "own ?u = own s" "held ?u = held s"
    "dirty_blocks ?u = dirty_blocks s" "settled ?u = settled s"
    using I(1) i by simp_all
  note E = set_dirty_effect[OF u(1,2) L(5)]
  have f: "memdisk t = memdisk s" "dwrites t = dwrites s" "lg_outstanding t = lg_outstanding s"
    "lg_start t = lg_start s" "lg_size t = lg_size s" "lg_committing t = lg_committing s" "lg_dev t = lg_dev s"
    "disksize t = disksize s" "klog.more t = klog.more s" "ptable t = ptable s" "cur t = cur s"
    "bufs t = (bufs s)(i := (bufs s i)\<lparr>b_dirty := True\<rparr>)"
    by (subst L(5); simp)+
  have "km_end t = km_end s" "km_data t = km_data s" "km_mem t = km_mem s" "km_use_lock t = km_use_lock s" "km_freelist t = km_freelist s"
    by (subst L(5); simp)+
  then show "same_memory s t" by (simp add: same_memory_def)
  show "lh_n s \<le> lh_n t" using L(3) by simp
  show "logged t = insert (b_blockno (bufs s i)) (logged s)" by (fact L(1))
  have "lh_n t < lg_size t" "lh_n t \<le> LOGSIZE" using L(3,6,7) f(5) by auto
  then show "log_inv t"
    using E(1) I L(1,2) f E(5) u na by (auto simp: log_inv_def log_geometry_def log_area_def)
  show "bview t = bview s" "own t = own s" "held t = held s" "settled t i" "j \<noteq> i \<Longrightarrow> settled t j = settled s j"
    using E u by auto
  show "memdisk t = memdisk s" "dwrites t = dwrites s" "lg_outstanding t = lg_outstanding s"
    "lg_start t = lg_start s" "lg_size t = lg_size s" "lg_committing t = lg_committing s" "lg_dev t = lg_dev s"
    "disksize t = disksize s" "klog.more t = klog.more s" "ptable t = ptable s" "cur t = cur s"
    "bufs t = (bufs s)(i := (bufs s i)\<lparr>b_dirty := True\<rparr>)"
    by (fact f)+
qed

section \<open>Properties\<close>

text \<open>
  A machine with one block in the current transaction: block 50 is changed in the cache, the
  log occupies the blocks 2 to 31.
\<close>

definition ex_sb_block :: bytes where
  "ex_sb_block = put32 (put32 (\<lambda>_. 0) 12 30) 16 2"

definition ex_log :: klog where
  "ex_log = \<lparr>km_end = 0x80100000, km_data = 0x80108000, km_mem = (\<lambda>_. 0), km_use_lock = True, km_freelist = 0, ptable = (\<lambda>_. zero_proc), cur = 0,
     memdisk = (\<lambda>b. if b = 1 then ex_sb_block else (\<lambda>_. 0)), disksize = 100, dwrites = [],
     bufs = (\<lambda>i. if i = 0 then init_buf\<lparr>b_valid := True, b_dirty := True, b_dev := 1, b_blockno := 50,
       b_data := (\<lambda>_. 7)\<rparr> else init_buf), mru = [0..<NBUF],
     lg_start = 2, lg_size = 30, lg_outstanding = 1, lg_committing = False, lg_dev = 1, lh_n = 1, lh_block = (\<lambda>_. 50)\<rparr>"

lemma ex_log_dirty: "dirty_blocks ex_log = {50}"
proof -
  have "dirty ex_log = {0}" by (auto simp: dirty_def ex_log_def init_buf_def)
  then show ?thesis by (simp add: dirty_blocks_def ex_log_def)
qed

lemma ex_log_inv: "log_inv ex_log" "held ex_log = {}" "sb_matches ex_log" "lh_n ex_log = 1"
proof -
  have "bio_inv ex_log"
    by (auto simp: bio_inv_def buf_ok_def ex_log_def init_buf_def initsleeplock_def atLeast0LessThan simp del: upt.simps)
  moreover have "logged ex_log = {50}" by (auto simp: logged_def ex_log_def)
  moreover have "lg_start ex_log = 2" "lg_size ex_log = 30" "lg_dev ex_log = 1" "lh_n ex_log = 1" "disksize ex_log = 100"
    "memdisk ex_log 2 = (\<lambda>_. 0)"
    by (simp_all add: ex_log_def)
  ultimately show "log_inv ex_log"
    using ex_log_dirty by (simp add: log_inv_def log_geometry_def log_area_def head_n_def inj_on_def)
  show "held ex_log = {}" by (auto simp: held_def ex_log_def init_buf_def initsleeplock_def)
  show "sb_matches ex_log" "lh_n ex_log = 1"
    by (auto simp: sb_matches_def decode_sb_def ex_log_def ex_sb_block_def logged_def)
qed

text \<open>
  C1. Crash atomicity. Let a transaction be committed from a consistent state and let the machine
  stop after any number \<open>k\<close> of the disk writes that \<^verbatim>\<open>commit\<close> makes. Booting from that
  disk (\<^verbatim>\<open>binit\<close>, \<^verbatim>\<open>initlog\<close>) succeeds, and outside the log every block has its old contents
  when the header write is not among the \<open>k\<close>, and its new contents when it is: all blocks of
  the transaction or none.
\<close>

theorem commit_crash_atomic:
  assumes inv: "log_inv s" and idle: "held s = {}" and sb: "sb_matches s" and r: "commit s = Ok () t"
    and crash: "memdisk s0 = apply_writes (take k (drop (length (dwrites s)) (dwrites t))) (memdisk s)"
      "disksize s0 = disksize s"
  shows "\<exists>u. boot_log s0 = Ok () u \<and> log_inv u \<and> held u = {} \<and>
    (\<forall>b. b \<notin> log_area s \<longrightarrow> bview u b = (if k \<le> lh_n s then memdisk s b else bview s b))"
proof (cases "0 < lh_n s")
  case False
  then have t: "t = s" using r by (simp add: commit_def kif_apply kret_apply)
  have "\<And>b. bview s b = memdisk s b"
    using bview_idle[OF log_invD(1)[OF inv] idle] log_invD(6)[OF inv] False by (simp add: logged_def)
  then show ?thesis
    using crash log_invD(3)[OF inv] False t
    by (intro boot_after_crash[OF inv sb, where d = "memdisk s"])
      (auto simp: recovered_empty head_ok_empty log_invD(8)[OF inv])
next
  case True
  let ?d = "apply_writes (take k (commit_writes s)) (memdisk s)"
  have d: "memdisk s0 = ?d" using crash(1) commit_effect(3)[OF inv idle True r] by simp
  note I = log_invD[OF inv]
  have one: "1 \<notin> log_area s" "1 \<notin> logged s" "1 \<notin> dirty_blocks s"
    using I(2,6) sb by (auto simp: log_geometry_def log_area_def sb_matches_def)
  have v1: "bview s 1 = memdisk s 1" by (rule bview_idle[OF I(1) idle one(3)])
  have nd: "bview s b = memdisk s b" if "b \<notin> logged s" for b
    by (rule bview_idle[OF I(1) idle]) (simp add: I(6) that)
  show ?thesis
  proof (rule boot_after_crash[OF inv sb _ _ d crash(2)])
    consider "k \<le> lh_n s" | "lh_n s < k" "k \<le> 2 * lh_n s + 1" | "2 * lh_n s + 1 < k" by linarith
    then have "?d 1 = memdisk s 1 \<and> head_ok (lg_start s) (lg_size s) (disksize s) (?d (lg_start s)) \<and>
      (\<forall>b. b \<notin> log_area s \<longrightarrow> recovered (lg_start s) ?d b = (if k \<le> lh_n s then memdisk s b else bview s b))"
    proof cases
      case 1
      note C = crash_before_head[OF inv 1]
      have "head_n (?d (lg_start s)) = 0" using C(1) I(8) by simp
      then show ?thesis using C(2) one(1) I(3) 1 by (simp add: recovered_empty head_ok_empty)
    next
      case 2
      note C = crash_after_head[OF inv idle 2]
      have r: "b \<notin> logged s \<Longrightarrow> b \<notin> log_area s \<Longrightarrow> ?d b = bview s b" for b using C(3)[of b] nd[of b] by simp
      show ?thesis using recovered_committed[OF inv C(1,2) r] C(3)[OF one(2,1)] 2 by auto
    next
      case 3
      note C = crash_done[OF inv idle 3]
      show ?thesis using C(2) C(2)[OF one(1)] v1 3 I(3) by (simp add: recovered_empty head_ok_empty C(1))
    qed
    then show "?d 1 = memdisk s 1" "head_ok (lg_start s) (lg_size s) (disksize s) (?d (lg_start s))"
      "\<And>b. b \<notin> log_area s \<Longrightarrow> recovered (lg_start s) ?d b = (if k \<le> lh_n s then memdisk s b else bview s b)"
      by blast+
  qed
qed

lemma ex_log_view: "bview ex_log 50 = (\<lambda>_. 7)"
proof -
  have "findi (\<lambda>i. b_valid (bufs ex_log i) \<and> b_dev (bufs ex_log i) = 1 \<and> b_blockno (bufs ex_log i) = 50) NBUF = Some 0"
    by (simp add: findi_Some_iff ex_log_def init_buf_def)
  then show ?thesis by (simp only: bview_def option.case) (simp add: ex_log_def)
qed

theorem commit_crash_atomic_witness:
  "\<exists>t u v. commit ex_log = Ok () t \<and>
     boot_log (ex_log\<lparr>memdisk := apply_writes (take 1 (dwrites t)) (memdisk ex_log)\<rparr>) = Ok () u \<and> bview u 50 = (\<lambda>_. 0) \<and>
     boot_log (ex_log\<lparr>memdisk := apply_writes (take 2 (dwrites t)) (memdisk ex_log)\<rparr>) = Ok () v \<and> bview v 50 = (\<lambda>_. 7)"
proof -
  obtain t where t: "commit ex_log = Ok () t" using commit_succeeds[of ex_log] ex_log_inv by auto
  have b: "50 \<notin> log_area ex_log" "memdisk ex_log 50 = (\<lambda>_. 0)" "dwrites ex_log = []"
    by (simp_all add: log_area_def ex_log_def)
  note T = commit_crash_atomic[OF ex_log_inv(1,2,3) t, of "ex_log\<lparr>memdisk := apply_writes (take k (dwrites t)) (memdisk ex_log)\<rparr>" k for k]
  show ?thesis using t T[of 1] T[of 2] b ex_log_inv(4) ex_log_view by fastforce
qed

text \<open>
  C18. Durability. From a consistent state with no buffer locked, \<^verbatim>\<open>commit\<close> returns (it needs one
  buffer besides those it pins), and afterwards the disk holds the contents every block
  outside the log had, nothing is left to write, and the state is consistent again.
\<close>

theorem commit_durable:
  assumes inv: "log_inv s" and idle: "held s = {}" and n: "lh_n s < NBUF"
  shows "\<exists>t. commit s = Ok () t \<and> log_inv t \<and> held t = {} \<and> lh_n t = 0 \<and> dirty_blocks t = {} \<and>
    (\<forall>b. b \<notin> log_area s \<longrightarrow> memdisk t b = bview s b \<and> bview t b = bview s b)"
proof (cases "0 < lh_n s")
  case True
  obtain t where t: "commit s = Ok () t" using commit_succeeds[OF assms] by blast
  note E = commit_effect[OF inv idle True t]
  have d: "dirty_blocks t = {}" using log_invD(6)[OF E(1)] E(6) by (simp add: logged_def)
  have "bview t = memdisk t" using settled_idle_view[OF log_invD(1)[OF E(1)] E(2) d] .
  then show ?thesis using t E d by (intro exI[of _ t]) auto
next
  case False
  then have "dirty_blocks s = {}" using log_invD(6)[OF inv] by (simp add: logged_def)
  then show ?thesis using False inv idle settled_idle_view[OF log_invD(1)[OF inv] idle]
    by (simp add: commit_def kif_apply kret_apply)
qed

theorem commit_durable_witness:
  "\<exists>t. commit ex_log = Ok () t \<and> lh_n t = 0 \<and> memdisk t 50 = (\<lambda>_. 7)"
proof -
  have "50 \<notin> log_area ex_log" by (simp add: log_area_def ex_log_def)
  then show ?thesis using commit_durable[OF ex_log_inv(1,2)] ex_log_inv(4) ex_log_view by auto
qed

text \<open>
  C34. \<^verbatim>\<open>log_write\<close> of a locked buffer outside the log area keeps the log consistent, does not touch
  the disk or what any block holds, and adds exactly that block to the transaction, once:
  a block already in it is absorbed. It stops the machine when the log is full or no
  operation is outstanding, and in no other case.
\<close>

theorem log_write_correct:
  assumes inv: "log_inv s" and i: "i \<in> own s" and na: "b_blockno (bufs s i) \<notin> log_area s"
  shows "if lh_n s \<ge> LOGSIZE \<or> lh_n s \<ge> lg_size s - 1 then log_write i s = Panic ''too big a transaction''
    else if lg_outstanding s < 1 then log_write i s = Panic ''log_write outside of trans''
    else \<exists>t. log_write i s = Ok () t \<and> log_inv t \<and> bview t = bview s \<and> memdisk t = memdisk s \<and>
      logged t = insert (b_blockno (bufs s i)) (logged s) \<and>
      lh_n t = (if b_blockno (bufs s i) \<in> logged s then lh_n s else lh_n s + 1) \<and>
      dirty_blocks t = insert (b_blockno (bufs s i)) (dirty_blocks s)"
proof -
  have p: "lh_n s \<ge> LOGSIZE \<or> lh_n s \<ge> lg_size s - 1 \<Longrightarrow> log_write i s = Panic ''too big a transaction''"
    "\<not> (lh_n s \<ge> LOGSIZE \<or> lh_n s \<ge> lg_size s - 1) \<Longrightarrow> lg_outstanding s < 1 \<Longrightarrow>
      log_write i s = Panic ''log_write outside of trans''"
    by (auto simp: log_write_def kthen_apply kassert_apply)
  {
    assume "\<not> (lh_n s \<ge> LOGSIZE \<or> lh_n s \<ge> lg_size s - 1)" "\<not> lg_outstanding s < 1"
    then obtain t where t: "log_write i s = Ok () t"
      by (auto simp: log_write_def kthen_apply kassert_apply kmod_apply)
    note E = log_write_effect[OF inv i na t]
    have "dirty_blocks t = insert (b_blockno (bufs s i)) (dirty_blocks s)"
      using E(9) log_invD(6)[OF E(1)] log_invD(6)[OF inv] by simp
    with t E log_write_logged(3)[OF log_invD(5)[OF inv] t]
    have "\<exists>t. log_write i s = Ok () t \<and> log_inv t \<and> bview t = bview s \<and> memdisk t = memdisk s \<and>
      logged t = insert (b_blockno (bufs s i)) (logged s) \<and>
      lh_n t = (if b_blockno (bufs s i) \<in> logged s then lh_n s else lh_n s + 1) \<and>
      dirty_blocks t = insert (b_blockno (bufs s i)) (dirty_blocks s)" by blast
  }
  then show ?thesis using p by simp
qed

text \<open>The state in which block 60 has just been read and changed in \<open>ex_log\<close>.\<close>

theorem log_write_correct_witness:
  "\<exists>i u t. bread 1 60 ex_log = Ok i u \<and> log_write i u = Ok () t \<and> logged t = {50, 60}"
proof -
  note X = ex_log_inv
  have "buf_room ex_log 1" using idle_room[OF log_invD(1)[OF X(1)] X(2)] ex_log_dirty by simp
  moreover have "60 < disksize ex_log" by (simp add: ex_log_def)
  ultimately obtain i u where u: "bread 1 60 ex_log = Ok i u"
    using bc.rd_succeeds[of ex_log 60] log_invD(1)[OF X(1)] X(2) by auto
  note R = bc.rd_law[OF log_invD(1)[OF X(1)] u, of 0]
  have k: "bio_rest ex_log u" using R by simp
  note kk = bio_rest_klog[OF k] geometry_rest[OF k]
  have l: "logged ex_log = {50}" using ex_log_dirty log_invD(6)[OF X(1)] by simp
  have u1: "log_inv u" using X(1) R kk unfolding log_inv_def by (auto simp: log_geometry_def)
  have u2: "i \<in> own u" "b_blockno (bufs u i) = 60" using R by auto
  have "b_blockno (bufs u i) \<notin> log_area u" using u2 kk by (simp add: log_area_def ex_log_def)
  from log_write_correct[OF u1 u2(1) this] u2(2) kk l u show ?thesis by (auto simp: ex_log_def)
qed

end
