(* ===== verification/Fs_Inode.thy ===== *)
theory Fs_Inode
  imports Log Kstring
begin

text \<open>
  The inode layer of the file system (\<^verbatim>\<open>kernel/fs.c\<close>, \<^verbatim>\<open>kernel/fs.h\<close>, \<^verbatim>\<open>kernel/file.h\<close>): the free
  block map, inodes on the disk and in the inode cache, the blocks of a file, and reading and
  writing a file.

  \<open>struct inode\<close> pointers are indices into \<^verbatim>\<open>icache\<close>. The spin-lock of the cache makes
  \<^verbatim>\<open>iget\<close> and the reference counts atomic; the sleep-lock of an inode is part of the state.
  The device switch \<^verbatim>\<open>devsw\<close> is a parameter \<open>dv\<close> of the functions that call through it.
  The message \<^verbatim>\<open>iinit\<close> prints about the superblock is left out.
\<close>

abbreviation (input) ROOTINO :: nat where "ROOTINO \<equiv> 1"
abbreviation (input) NDIRECT :: nat where "NDIRECT \<equiv> 57"
abbreviation (input) NINDIRECT :: nat where "NINDIRECT \<equiv> 128"
abbreviation (input) MAXFILE :: nat where "MAXFILE \<equiv> 185"
abbreviation (input) DINODE :: nat where "DINODE \<equiv> 256"
abbreviation (input) IPB :: nat where "IPB \<equiv> 2"
abbreviation (input) BPB :: nat where "BPB \<equiv> 4096"
abbreviation (input) T_DIR :: u16 where "T_DIR \<equiv> 1"
abbreviation (input) T_FILE :: u16 where "T_FILE \<equiv> 2"
abbreviation (input) T_DEV :: u16 where "T_DEV \<equiv> 3"

section \<open>State\<close>

record dinode =
  d_type :: u16
  d_major :: u16
  d_minor :: u16
  d_nlink :: u16
  d_size :: u32
  d_addrs :: "nat \<Rightarrow> u32"
  d_uid :: u32
  d_gid :: u32
  d_mode :: u16

record inode =
  i_dev :: nat
  i_inum :: nat
  i_ref :: int
  i_lock :: sleeplock
  i_valid :: bool
  i_type :: u16
  i_major :: u16
  i_minor :: u16
  i_nlink :: u16
  i_size :: u32
  i_addrs :: "nat \<Rightarrow> u32"
  i_uid :: u32
  i_gid :: u32
  i_mode :: u16

record kfs = klog +
  fs_sb :: superblock
  icache :: "nat \<Rightarrow> inode"

definition upd_inode :: "nat \<Rightarrow> (inode \<Rightarrow> inode) \<Rightarrow> 'a kfs_scheme \<Rightarrow> 'a kfs_scheme" where
  "upd_inode i f s = s\<lparr>icache := (icache s)(i := f (icache s i))\<rparr>"

text \<open>The static variables of the kernel are zero when it starts.\<close>

definition zero_sb :: superblock where
  "zero_sb = \<lparr>sb_size = 0, sb_nblocks = 0, sb_ninodes = 0, sb_nlog = 0, sb_logstart = 0, sb_inodestart = 0, sb_bmapstart = 0\<rparr>"

definition zero_inode :: inode where
  "zero_inode = \<lparr>i_dev = 0, i_inum = 0, i_ref = 0, i_lock = initsleeplock, i_valid = False, i_type = 0, i_major = 0,
     i_minor = 0, i_nlink = 0, i_size = 0, i_addrs = (\<lambda>_. 0), i_uid = 0, i_gid = 0, i_mode = 0\<rparr>"

text \<open>The functions of \<^verbatim>\<open>struct devsw\<close>: a missing one is \<open>None\<close>.\<close>

type_synonym 's devread = "nat \<Rightarrow> bytes \<Rightarrow> u32 \<Rightarrow> ('s, int \<times> bytes) km"
type_synonym 's devwrite = "nat \<Rightarrow> bytes \<Rightarrow> u32 \<Rightarrow> ('s, int) km"
type_synonym 's devsw = "nat \<Rightarrow> 's devread option \<times> 's devwrite option"

section \<open>Layout\<close>

definition IBLOCK :: "nat \<Rightarrow> superblock \<Rightarrow> nat" where
  "IBLOCK i sb = i div IPB + sb_inodestart sb"

definition BBLOCK :: "nat \<Rightarrow> superblock \<Rightarrow> nat" where
  "BBLOCK b sb = b div BPB + sb_bmapstart sb"

text \<open>
  \<^verbatim>\<open>struct dinode\<close> at the offset \<open>o\<close> of a block: four 16-bit fields, the size, 58 block
  addresses, the owner, the group and the mode.
\<close>

definition get_dinode :: "bytes \<Rightarrow> nat \<Rightarrow> dinode" where
  "get_dinode b p = \<lparr>d_type = le16 b p, d_major = le16 b (p + 2), d_minor = le16 b (p + 4),
     d_nlink = le16 b (p + 6), d_size = le32 b (p + 8),
     d_addrs = (\<lambda>k. if k \<le> NDIRECT then le32 b (p + 12 + 4 * k) else 0),
     d_uid = le32 b (p + 244), d_gid = le32 b (p + 248), d_mode = le16 b (p + 252)\<rparr>"

definition put_addrs :: "(nat \<Rightarrow> u32) \<Rightarrow> nat \<Rightarrow> bytes \<Rightarrow> bytes" where
  "put_addrs a p b = fold (\<lambda>k b. put32 b (p + 4 * k) (a k)) [0..<NDIRECT + 1] b"

definition put_dinode :: "dinode \<Rightarrow> nat \<Rightarrow> bytes \<Rightarrow> bytes" where
  "put_dinode d p b =
     put_addrs (d_addrs d) (p + 12)
      (put16 (put32 (put32 (put32 (put16 (put16 (put16 (put16 b p (d_type d))
        (p + 2) (d_major d)) (p + 4) (d_minor d)) (p + 6) (d_nlink d)) (p + 8) (d_size d))
        (p + 244) (d_uid d)) (p + 248) (d_gid d)) (p + 252) (d_mode d))"

definition bmap_free :: "bytes \<Rightarrow> nat \<Rightarrow> bool" where
  "bmap_free d bi \<longleftrightarrow> d (bi div 8) AND push_bit (bi mod 8) 1 = 0"

definition bmap_mark :: "nat \<Rightarrow> bytes \<Rightarrow> bytes" where
  "bmap_mark bi d = d(bi div 8 := d (bi div 8) OR push_bit (bi mod 8) 1)"

definition bmap_clear :: "nat \<Rightarrow> bytes \<Rightarrow> bytes" where
  "bmap_clear bi d = d(bi div 8 := d (bi div 8) AND NOT (push_bit (bi mod 8) 1))"

section \<open>Blocks\<close>

definition bzero :: "nat \<Rightarrow> nat \<Rightarrow> ('a kfs_scheme, unit) km" where
  "bzero dev bno =
     kbind (bread dev bno) (\<lambda>bp.
     kthen (kmod (upd_data bp (\<lambda>d k. if k < BSIZE then 0 else d k)))
    (kthen (log_write bp)
     (brelse bp)))"

fun balloc_scan :: "nat \<Rightarrow> nat \<Rightarrow> nat list \<Rightarrow> ('a kfs_scheme, nat) km" where
  "balloc_scan dev n [] = kpanic ''balloc: out of blocks''"
| "balloc_scan dev n (b # bs) =
     kbind (kget (\<lambda>s. BBLOCK b (fs_sb s))) (\<lambda>bb.
     kbind (bread dev bb) (\<lambda>bp.
     kbind (kget (\<lambda>s. findi (\<lambda>bi. b + bi < n \<and> bmap_free (b_data (bufs s bp)) bi) BPB)) (\<lambda>r.
     case r of
       Some bi \<Rightarrow>
         kthen (kmod (upd_data bp (bmap_mark bi)))
        (kthen (log_write bp)
        (kthen (brelse bp)
        (kthen (bzero dev (b + bi))
         (kret (b + bi)))))
     | None \<Rightarrow> kthen (brelse bp) (balloc_scan dev n bs))))"

definition balloc :: "nat \<Rightarrow> ('a kfs_scheme, nat) km" where
  "balloc dev = (\<lambda>s. let n = sb_size (fs_sb s) in
     balloc_scan dev n (map (\<lambda>k. k * BPB) [0..<(n + BPB - 1) div BPB]) s)"

definition bfree :: "nat \<Rightarrow> nat \<Rightarrow> ('a kfs_scheme, unit) km" where
  "bfree dev b =
     kbind (kget (\<lambda>s. BBLOCK b (fs_sb s))) (\<lambda>bb.
     kbind (bread dev bb) (\<lambda>bp.
     kthen (kassert ''freeing free block'' (\<lambda>s. \<not> bmap_free (b_data (bufs s bp)) (b mod BPB)))
    (kthen (kmod (upd_data bp (bmap_clear (b mod BPB))))
    (kthen (log_write bp)
     (brelse bp)))))"

section \<open>Inodes\<close>

definition iinit :: "nat \<Rightarrow> ('a kfs_scheme, unit) km" where
  "iinit dev =
     kthen (kfor (\<lambda>i. kmod (upd_inode i (\<lambda>p. p\<lparr>i_lock := initsleeplock\<rparr>))) [0..<NINODE])
     (kbind (readsb dev) (\<lambda>sb. kmod (\<lambda>s. s\<lparr>fs_sb := sb\<rparr>)))"

definition iget :: "nat \<Rightarrow> nat \<Rightarrow> ('a kfs_scheme, nat) km" where
  "iget dev inum = (\<lambda>s.
     case findi (\<lambda>i. i_ref (icache s i) > 0 \<and> i_dev (icache s i) = dev \<and> i_inum (icache s i) = inum) NINODE of
       Some i \<Rightarrow> Ok i (upd_inode i (\<lambda>p. p\<lparr>i_ref := i_ref p + 1\<rparr>) s)
     | None \<Rightarrow>
        (case findi (\<lambda>i. i_ref (icache s i) = 0) NINODE of
           None \<Rightarrow> Panic ''iget: no inodes''
         | Some i \<Rightarrow> Ok i (upd_inode i (\<lambda>p. p\<lparr>i_dev := dev, i_inum := inum, i_ref := 1, i_valid := False\<rparr>) s)))"

fun ialloc_scan :: "nat \<Rightarrow> u16 \<Rightarrow> nat list \<Rightarrow> ('a kfs_scheme, nat) km" where
  "ialloc_scan dev ty [] = kpanic ''ialloc: no inodes''"
| "ialloc_scan dev ty (inum # is) =
     kbind (kget (\<lambda>s. IBLOCK inum (fs_sb s))) (\<lambda>ib.
     kbind (bread dev ib) (\<lambda>bp.
     kif (\<lambda>s. d_type (get_dinode (b_data (bufs s bp)) (DINODE * (inum mod IPB))) = 0)
       (kthen (kmod (upd_data bp (\<lambda>d.
            put16 (\<lambda>k. if DINODE * (inum mod IPB) \<le> k \<and> k < DINODE * (inum mod IPB) + DINODE then 0 else d k)
              (DINODE * (inum mod IPB)) ty)))
       (kthen (log_write bp)
       (kthen (brelse bp)
        (iget dev inum))))
       (kthen (brelse bp) (ialloc_scan dev ty is))))"

definition ialloc :: "nat \<Rightarrow> u16 \<Rightarrow> ('a kfs_scheme, nat) km" where
  "ialloc dev ty = (\<lambda>s. ialloc_scan dev ty [1..<sb_ninodes (fs_sb s)] s)"

definition dinode_of :: "inode \<Rightarrow> dinode" where
  "dinode_of p = \<lparr>d_type = i_type p, d_major = i_major p, d_minor = i_minor p, d_nlink = i_nlink p,
     d_size = i_size p, d_addrs = i_addrs p, d_uid = i_uid p, d_gid = i_gid p, d_mode = i_mode p\<rparr>"

definition load_dinode :: "dinode \<Rightarrow> inode \<Rightarrow> inode" where
  "load_dinode d p = p\<lparr>i_type := d_type d, i_major := d_major d, i_minor := d_minor d, i_nlink := d_nlink d,
     i_size := d_size d, i_uid := d_uid d, i_gid := d_gid d, i_mode := d_mode d, i_addrs := d_addrs d\<rparr>"

definition iupdate :: "nat \<Rightarrow> ('a kfs_scheme, unit) km" where
  "iupdate ip = (\<lambda>s.
     kbind (bread (i_dev (icache s ip)) (IBLOCK (i_inum (icache s ip)) (fs_sb s))) (\<lambda>bp.
     kthen (kmod (\<lambda>s. upd_data bp (put_dinode (dinode_of (icache s ip)) (DINODE * (i_inum (icache s ip) mod IPB))) s))
    (kthen (log_write bp)
     (brelse bp))) s)"

definition idup :: "nat \<Rightarrow> ('a kfs_scheme, nat) km" where
  "idup ip = kthen (kmod (upd_inode ip (\<lambda>p. p\<lparr>i_ref := i_ref p + 1\<rparr>))) (kret ip)"

definition inode_acquire :: "nat \<Rightarrow> ('a kfs_scheme, unit) km" where
  "inode_acquire ip = acquiresleep (ChInodeLock ip) (\<lambda>s. i_lock (icache s ip))
     (\<lambda>lk. upd_inode ip (\<lambda>p. p\<lparr>i_lock := lk\<rparr>))"

definition inode_release :: "nat \<Rightarrow> ('a kfs_scheme, unit) km" where
  "inode_release ip = releasesleep (ChInodeLock ip) (\<lambda>lk. upd_inode ip (\<lambda>p. p\<lparr>i_lock := lk\<rparr>))"

definition ilock :: "nat \<Rightarrow> ('a kfs_scheme, unit) km" where
  "ilock ip =
     kthen (kassert ''ilock'' (\<lambda>s. \<not> i_ref (icache s ip) < 1))
    (kthen (inode_acquire ip)
     (kif (\<lambda>s. \<not> i_valid (icache s ip))
       (\<lambda>s. kbind (bread (i_dev (icache s ip)) (IBLOCK (i_inum (icache s ip)) (fs_sb s))) (\<lambda>bp.
          kthen (kmod (\<lambda>s. upd_inode ip (load_dinode
              (get_dinode (b_data (bufs s bp)) (DINODE * (i_inum (icache s ip) mod IPB)))) s))
         (kthen (brelse bp)
         (kthen (kmod (upd_inode ip (\<lambda>p. p\<lparr>i_valid := True\<rparr>)))
          (kassert ''ilock: no type'' (\<lambda>s. i_type (icache s ip) \<noteq> 0))))) s)
       (kret ())))"

definition iunlock :: "nat \<Rightarrow> ('a kfs_scheme, unit) km" where
  "iunlock ip =
     kthen (kassert ''iunlock'' (\<lambda>s. holdingsleep s (i_lock (icache s ip)) \<and> \<not> i_ref (icache s ip) < 1))
     (inode_release ip)"

section \<open>Inode content\<close>

definition bmap :: "nat \<Rightarrow> nat \<Rightarrow> ('a kfs_scheme, nat) km" where
  "bmap ip bn =
     (if bn < NDIRECT then
        kbind (kget (\<lambda>s. unat (i_addrs (icache s ip) bn))) (\<lambda>addr.
        if addr = 0 then
          kbind (kget (\<lambda>s. i_dev (icache s ip))) (\<lambda>dev.
          kbind (balloc dev) (\<lambda>addr.
          kthen (kmod (upd_inode ip (\<lambda>p. p\<lparr>i_addrs := (i_addrs p)(bn := of_nat addr)\<rparr>)))
          (kret addr)))
        else kret addr)
      else if bn - NDIRECT < NINDIRECT then
        kbind (kget (\<lambda>s. i_dev (icache s ip))) (\<lambda>dev.
        kbind (kget (\<lambda>s. unat (i_addrs (icache s ip) NDIRECT))) (\<lambda>addr0.
        kbind (if addr0 = 0 then
                 kbind (balloc dev) (\<lambda>addr.
                 kthen (kmod (upd_inode ip (\<lambda>p. p\<lparr>i_addrs := (i_addrs p)(NDIRECT := of_nat addr)\<rparr>)))
                 (kret addr))
               else kret addr0) (\<lambda>addr.
        kbind (bread dev addr) (\<lambda>bp.
        kbind (kget (\<lambda>s. unat (le32 (b_data (bufs s bp)) (4 * (bn - NDIRECT))))) (\<lambda>addr1.
        kbind (if addr1 = 0 then
                 kbind (balloc dev) (\<lambda>addr.
                 kthen (kmod (upd_data bp (\<lambda>d. put32 d (4 * (bn - NDIRECT)) (of_nat addr))))
                (kthen (log_write bp)
                 (kret addr)))
               else kret addr1) (\<lambda>addr.
        kthen (brelse bp)
        (kret addr)))))))
      else kpanic ''bmap: out of range'')"

definition itrunc :: "nat \<Rightarrow> ('a kfs_scheme, unit) km" where
  "itrunc ip =
     kthen (kfor (\<lambda>i. kif (\<lambda>s. i_addrs (icache s ip) i \<noteq> 0)
         (\<lambda>s. kthen (bfree (i_dev (icache s ip)) (unat (i_addrs (icache s ip) i)))
            (kmod (upd_inode ip (\<lambda>p. p\<lparr>i_addrs := (i_addrs p)(i := 0)\<rparr>))) s)
         (kret ())) [0..<NDIRECT])
    (kthen (kif (\<lambda>s. i_addrs (icache s ip) NDIRECT \<noteq> 0)
         (\<lambda>s. let dev = i_dev (icache s ip); ind = unat (i_addrs (icache s ip) NDIRECT) in
            kbind (bread dev ind) (\<lambda>bp.
            kthen (kfor (\<lambda>j. \<lambda>s. if le32 (b_data (bufs s bp)) (4 * j) \<noteq> 0
                then bfree dev (unat (le32 (b_data (bufs s bp)) (4 * j))) s else Ok () s) [0..<NINDIRECT])
           (kthen (brelse bp)
           (kthen (bfree dev ind)
            (kmod (upd_inode ip (\<lambda>p. p\<lparr>i_addrs := (i_addrs p)(NDIRECT := 0)\<rparr>)))))) s)
         (kret ()))
    (kthen (kmod (upd_inode ip (\<lambda>p. p\<lparr>i_size := 0\<rparr>)))
     (iupdate ip)))"

definition iput :: "nat \<Rightarrow> ('a kfs_scheme, unit) km" where
  "iput ip =
     kthen (inode_acquire ip)
    (kthen (kif (\<lambda>s. i_valid (icache s ip) \<and> i_nlink (icache s ip) = 0 \<and> i_ref (icache s ip) = 1)
        (kthen (itrunc ip)
        (kthen (kmod (upd_inode ip (\<lambda>p. p\<lparr>i_type := 0\<rparr>)))
        (kthen (iupdate ip)
         (kmod (upd_inode ip (\<lambda>p. p\<lparr>i_valid := False\<rparr>))))))
        (kret ()))
    (kthen (inode_release ip)
     (kmod (upd_inode ip (\<lambda>p. p\<lparr>i_ref := i_ref p - 1\<rparr>)))))"

definition iunlockput :: "nat \<Rightarrow> ('a kfs_scheme, unit) km" where
  "iunlockput ip = kthen (iunlock ip) (iput ip)"

text \<open>
  \<^verbatim>\<open>struct stat\<close>; \<open>st_mode\<close> is the memory from \<^verbatim>\<open>mode\<close> on: the array has 10 elements and
  the code also writes element 10.
\<close>

record stat =
  st_type :: u16
  st_dev :: nat
  st_ino :: nat
  st_nlink :: u16
  st_size :: u32
  st_uid :: u32
  st_gid :: u32
  st_mode :: bytes

definition mode_map :: "nat \<Rightarrow> u8" where
  "mode_map k = (if k = 0 then 114 else if k = 1 then 119 else 120)"

definition mode_string :: "u16 \<Rightarrow> u16 \<Rightarrow> bytes \<Rightarrow> bytes" where
  "mode_string ty mode m0 =
     (let m1 = fold (\<lambda>i m. m(i := 45)) [0..<10] m0;
          m2 = (if ty = T_DIR then m1(0 := 100) else m1);
          m3 = fold (\<lambda>i m. if mode AND push_bit (9 - i) 1 \<noteq> 0 then m(i := mode_map ((i - 1) mod 3)) else m) [1..<10] m2
      in m3(10 := 0))"

definition stati :: "inode \<Rightarrow> stat \<Rightarrow> stat" where
  "stati ip st = st\<lparr>st_dev := i_dev ip, st_ino := i_inum ip, st_type := i_type ip, st_nlink := i_nlink ip,
     st_size := i_size ip, st_uid := i_uid ip, st_gid := i_gid ip,
     st_mode := mode_string (i_type ip) (i_mode ip) (st_mode st)\<rparr>"

text \<open>
  The copy loops of \<^verbatim>\<open>readi\<close> and \<^verbatim>\<open>writei\<close>. The pointers \<^verbatim>\<open>dst\<close> and \<^verbatim>\<open>src\<close> advance with \<open>tot\<close>:
  here they stay and \<open>tot\<close> is the position in them.
\<close>

function readi_loop :: "nat \<Rightarrow> bytes \<Rightarrow> nat \<Rightarrow> nat \<Rightarrow> nat \<Rightarrow> ('a kfs_scheme, bytes) km" where
  "readi_loop ip dst off n tot =
     (if tot < n then
        let m = min (n - tot) (BSIZE - off mod BSIZE) in
        kbind (bmap ip (off div BSIZE)) (\<lambda>addr.
        kbind (kget (\<lambda>s. i_dev (icache s ip))) (\<lambda>dev.
        kbind (bread dev addr) (\<lambda>bp.
        kbind (kget (\<lambda>s. blit dst tot (b_data (bufs s bp)) (off mod BSIZE) m)) (\<lambda>dst.
        kthen (brelse bp)
        (readi_loop ip dst (off + m) n (tot + m))))))
      else kret dst)"
  by pat_completeness auto
termination
  by (relation "measure (\<lambda>(ip, dst, off, n, tot). n - tot)") (auto simp: min_def)

function writei_loop :: "nat \<Rightarrow> bytes \<Rightarrow> nat \<Rightarrow> nat \<Rightarrow> nat \<Rightarrow> ('a kfs_scheme, nat) km" where
  "writei_loop ip src off n tot =
     (if tot < n then
        let m = min (n - tot) (BSIZE - off mod BSIZE) in
        kbind (bmap ip (off div BSIZE)) (\<lambda>addr.
        kbind (kget (\<lambda>s. i_dev (icache s ip))) (\<lambda>dev.
        kbind (bread dev addr) (\<lambda>bp.
        kthen (kmod (upd_data bp (\<lambda>d. blit d (off mod BSIZE) src tot m)))
       (kthen (log_write bp)
       (kthen (brelse bp)
        (writei_loop ip src (off + m) n (tot + m)))))))
      else kret off)"
  by pat_completeness auto
termination
  by (relation "measure (\<lambda>(ip, src, off, n, tot). n - tot)") (auto simp: min_def)

declare readi_loop.simps [simp del] writei_loop.simps [simp del]

definition readi :: "'a kfs_scheme devsw \<Rightarrow> nat \<Rightarrow> bytes \<Rightarrow> u32 \<Rightarrow> u32 \<Rightarrow> ('a kfs_scheme, int \<times> bytes) km" where
  "readi dv ip dst off n = (\<lambda>s.
     let p = icache s ip; major = sint (i_major p) in
     if i_type p = T_DEV then
       (if major < 0 \<or> major \<ge> int NDEV then Ok (-1, dst) s
        else case fst (dv (nat major)) of None \<Rightarrow> Ok (-1, dst) s | Some rd \<Rightarrow> rd ip dst n s)
     else if off > i_size p \<or> off + n < off then Ok (-1, dst) s
     else let n = (if off + n > i_size p then i_size p - off else n) in
       kbind (readi_loop ip dst (unat off) (unat n) 0) (\<lambda>dst. kret (sint n, dst)) s)"

definition writei :: "'a kfs_scheme devsw \<Rightarrow> nat \<Rightarrow> bytes \<Rightarrow> u32 \<Rightarrow> u32 \<Rightarrow> ('a kfs_scheme, int) km" where
  "writei dv ip src off n = (\<lambda>s.
     let p = icache s ip; major = sint (i_major p) in
     if i_type p = T_DEV then
       (if major < 0 \<or> major \<ge> int NDEV then Ok (-1) s
        else case snd (dv (nat major)) of None \<Rightarrow> Ok (-1) s | Some wr \<Rightarrow> wr ip src n s)
     else if off > i_size p \<or> off + n < off then Ok (-1) s
     else if off + n > of_nat (MAXFILE * BSIZE) then Ok (-1) s
     else
       kbind (writei_loop ip src (unat off) (unat n) 0) (\<lambda>off.
       kthen (kif (\<lambda>s. n > 0 \<and> of_nat off > i_size (icache s ip))
          (kthen (kmod (upd_inode ip (\<lambda>p. p\<lparr>i_size := of_nat off\<rparr>))) (iupdate ip))
          (kret ()))
       (kret (sint n))) s)"

end
