(* ===== verification/Fs_Dir.thy ===== *)
theory Fs_Dir
  imports Fs_Inode
begin

text \<open>
  Directories and path names (\<^verbatim>\<open>kernel/fs.c\<close>). A directory is a file of 16-byte entries, a
  16-bit inode number and a name of at most 14 characters. A path is a C string: the list of its characters
  before the NUL. A name is an array of \<^verbatim>\<open>DIRSIZ\<close> characters, NUL-terminated when shorter.
\<close>

abbreviation (input) DIRSIZ :: nat where "DIRSIZ \<equiv> 14"
abbreviation (input) DIRENT :: nat where "DIRENT \<equiv> 16"

type_synonym cstring = "u8 list"

text \<open>A string literal, and a string in memory.\<close>

definition cstr :: "string \<Rightarrow> cstring" where
  "cstr = map of_char"

definition cbytes :: "cstring \<Rightarrow> bytes" where
  "cbytes cs = (\<lambda>k. if k < length cs then cs ! k else 0)"

definition de_inum :: "bytes \<Rightarrow> u16" where
  "de_inum de = le16 de 0"

definition de_name :: "bytes \<Rightarrow> bytes" where
  "de_name de = (\<lambda>k. de (2 + k))"

section \<open>Directories\<close>

definition namecmp :: "bytes \<Rightarrow> bytes \<Rightarrow> int" where
  "namecmp s t = strncmp s t DIRSIZ"

text \<open>May the process look up names in the directory: others, owner, or one of its groups.\<close>

definition dir_search_ok :: "proc \<Rightarrow> inode \<Rightarrow> bool" where
  "dir_search_ok p dp \<longleftrightarrow>
     \<not> (\<not> bit (i_mode dp) 0 \<and> (p_euid p \<noteq> i_uid dp \<or> \<not> bit (i_mode dp) 6)) \<or>
     (\<exists>i < nat (p_ngroups p). p_gids p i = i_gid dp \<and> bit (i_mode dp) 3)"

function dirlookup_loop ::
  "'a kfs_scheme devsw \<Rightarrow> nat \<Rightarrow> bytes \<Rightarrow> nat \<Rightarrow> nat \<Rightarrow> ('a kfs_scheme, (nat \<times> nat) option) km" where
  "dirlookup_loop dv dp name n off =
     (if off < n then
        kbind (readi dv dp (\<lambda>_. 0) (of_nat off) (of_nat DIRENT)) (\<lambda>(r, de).
        kthen (kassert ''dirlookup read'' (\<lambda>_. r = int DIRENT))
       (if de_inum de = 0 then dirlookup_loop dv dp name n (off + DIRENT)
        else if namecmp name (de_name de) = 0 then
          kbind (kget (\<lambda>s. i_dev (icache s dp))) (\<lambda>dev.
          kbind (iget dev (unat (de_inum de))) (\<lambda>ip.
          kret (Some (ip, off))))
        else dirlookup_loop dv dp name n (off + DIRENT)))
      else kret None)"
  by pat_completeness auto
termination
  by (relation "measure (\<lambda>(dv, dp, name, n, off). n - off)") auto

definition dirlookup ::
  "'a kfs_scheme devsw \<Rightarrow> nat \<Rightarrow> bytes \<Rightarrow> ('a kfs_scheme, (nat \<times> nat) option) km" where
  "dirlookup dv dp name =
     kthen (kassert ''dirlookup not DIR'' (\<lambda>s. i_type (icache s dp) = T_DIR))
     (\<lambda>s. if \<not> dir_search_ok (myproc s) (icache s dp) then Ok None s
          else dirlookup_loop dv dp name (unat (i_size (icache s dp))) 0 s)"

function dirlink_slot :: "'a kfs_scheme devsw \<Rightarrow> nat \<Rightarrow> nat \<Rightarrow> nat \<Rightarrow> ('a kfs_scheme, nat) km" where
  "dirlink_slot dv dp n off =
     (if off < n then
        kbind (readi dv dp (\<lambda>_. 0) (of_nat off) (of_nat DIRENT)) (\<lambda>(r, de).
        kthen (kassert ''dirlink read'' (\<lambda>_. r = int DIRENT))
       (if de_inum de = 0 then kret off else dirlink_slot dv dp n (off + DIRENT)))
      else kret off)"
  by pat_completeness auto
termination
  by (relation "measure (\<lambda>(dv, dp, n, off). n - off)") auto

declare dirlookup_loop.simps [simp del] dirlink_slot.simps [simp del]

definition make_dirent :: "bytes \<Rightarrow> nat \<Rightarrow> bytes" where
  "make_dirent name inum = put16 (\<lambda>k. strncpy (\<lambda>_. 0) name (int DIRSIZ) (k - 2)) 0 (of_nat inum)"

definition dirlink :: "'a kfs_scheme devsw \<Rightarrow> nat \<Rightarrow> bytes \<Rightarrow> nat \<Rightarrow> ('a kfs_scheme, int) km" where
  "dirlink dv dp name inum =
     kbind (dirlookup dv dp name) (\<lambda>r.
     case r of
       Some (ip, _) \<Rightarrow> kthen (iput ip) (kret (-1))
     | None \<Rightarrow>
         kbind (\<lambda>s. dirlink_slot dv dp (unat (i_size (icache s dp))) 0 s) (\<lambda>off.
         kbind (writei dv dp (make_dirent name inum) (of_nat off) (of_nat DIRENT)) (\<lambda>w.
         kthen (kassert ''dirlink'' (\<lambda>_. w = int DIRENT))
         (kret 0))))"

section \<open>Paths\<close>

abbreviation (input) SLASH :: u8 where "SLASH \<equiv> 47"

definition skipelem :: "cstring \<Rightarrow> bytes \<Rightarrow> (cstring \<times> bytes) option" where
  "skipelem path name =
     (let path = dropWhile (\<lambda>c. c = SLASH) path in
      if path = [] then None
      else
        let s = takeWhile (\<lambda>c. c \<noteq> SLASH) path;
            path = dropWhile (\<lambda>c. c \<noteq> SLASH) path;
            len = length s;
            name = (if len \<ge> DIRSIZ then (\<lambda>k. if k < DIRSIZ then s ! k else name k)
                    else (\<lambda>k. if k < len then s ! k else if k = len then 0 else name k))
        in Some (dropWhile (\<lambda>c. c = SLASH) path, name))"

lemma skipelem_shorter:
  assumes "skipelem path name = Some (p, nm)"
  shows "length p < length path"
proof -
  let ?q = "dropWhile (\<lambda>c. c = SLASH) path"
  have q: "?q \<noteq> []" "p = dropWhile (\<lambda>c. c = SLASH) (dropWhile (\<lambda>c. c \<noteq> SLASH) ?q)"
    using assms by (auto simp: skipelem_def Let_def split: if_splits)
  then have "length (dropWhile (\<lambda>c. c \<noteq> SLASH) ?q) < length ?q"
    by (metis (mono_tags, lifting) hd_dropWhile dropWhile.simps(2) length_dropWhile_le le_imp_less_Suc length_Cons list.exhaust_sel)
  moreover have "length p \<le> length (dropWhile (\<lambda>c. c \<noteq> SLASH) ?q)" unfolding q(2) by (rule length_dropWhile_le)
  moreover have "length ?q \<le> length path" by (rule length_dropWhile_le)
  ultimately show ?thesis by linarith
qed

function namex_loop ::
  "'a kfs_scheme devsw \<Rightarrow> bool \<Rightarrow> nat \<Rightarrow> cstring \<Rightarrow> bytes \<Rightarrow> ('a kfs_scheme, (nat option \<times> bytes)) km" where
  "namex_loop dv parent ip path name =
     (case skipelem path name of
        None \<Rightarrow> if parent then kthen (iput ip) (kret (None, name)) else kret (Some ip, name)
      | Some (path', name') \<Rightarrow>
         kthen (ilock ip)
        (kif (\<lambda>s. i_type (icache s ip) \<noteq> T_DIR)
          (kthen (iunlockput ip) (kret (None, name')))
          (if parent \<and> path' = [] then kthen (iunlock ip) (kret (Some ip, name'))
           else kbind (dirlookup dv ip name') (\<lambda>next.
             case next of
               None \<Rightarrow> kthen (iunlockput ip) (kret (None, name'))
             | Some (ip', _) \<Rightarrow> kthen (iunlockput ip) (namex_loop dv parent ip' path' name')))))"
  by pat_completeness auto
termination
  by (relation "measure (\<lambda>(dv, parent, ip, path, name). length path)") (auto dest: skipelem_shorter)

declare namex_loop.simps [simp del]

definition namex :: "'a kfs_scheme devsw \<Rightarrow> cstring \<Rightarrow> bool \<Rightarrow> bytes \<Rightarrow> ('a kfs_scheme, (nat option \<times> bytes)) km" where
  "namex dv path parent name =
     kbind (if path \<noteq> [] \<and> hd path = SLASH then iget ROOTDEV ROOTINO
            else (\<lambda>s. case p_cwd (myproc s) of Some i \<Rightarrow> idup i s | None \<Rightarrow> Panic ''null cwd'')) (\<lambda>ip.
     namex_loop dv parent ip path name)"

definition namei :: "'a kfs_scheme devsw \<Rightarrow> cstring \<Rightarrow> ('a kfs_scheme, nat option) km" where
  "namei dv path = kbind (namex dv path False (\<lambda>_. 0)) (\<lambda>(ip, _). kret ip)"

definition nameiparent :: "'a kfs_scheme devsw \<Rightarrow> cstring \<Rightarrow> bytes \<Rightarrow> ('a kfs_scheme, (nat option \<times> bytes)) km" where
  "nameiparent dv path name = namex dv path True name"

end
