(* ===== verification/Pipe.thy ===== *)
theory Pipe
  imports Ring Fs_Dir
begin

text \<open>
  Pipes (\<^verbatim>\<open>kernel/pipe.c\<close>): a ring of 512 bytes with free-running counters. This theory also
  declares the state of the file layer above the file system: the file table and the
  pipes, by the address of the page they live in.

  A call that must wait ends in the outcome \<open>Sleep\<close>; \<^verbatim>\<open>piperead\<close> starts over when the
  process runs again, \<^verbatim>\<open>pipewrite\<close> goes on at the byte \<open>i\<close> it had reached (\<open>pipewrite_from\<close>).
\<close>

abbreviation (input) PIPESIZE :: nat where "PIPESIZE \<equiv> 512"

record pipe =
  pp_data :: bytes
  pp_nread :: u32
  pp_nwrite :: u32
  pp_readopen :: bool
  pp_writeopen :: bool

datatype fdtype = FD_NONE | FD_PIPE | FD_INODE

record kfd =
  f_type :: fdtype
  f_ref :: int
  f_readable :: bool
  f_writable :: bool
  f_pipe :: u32
  f_ip :: "nat option"
  f_off :: u32

record kfile = kfs +
  pipes :: "u32 \<Rightarrow> pipe"
  ftable :: "nat \<Rightarrow> kfd"

definition upd_pipe :: "u32 \<Rightarrow> (pipe \<Rightarrow> pipe) \<Rightarrow> 'a kfile_scheme \<Rightarrow> 'a kfile_scheme" where
  "upd_pipe p f s = s\<lparr>pipes := (pipes s)(p := f (pipes s p))\<rparr>"

definition upd_file :: "nat \<Rightarrow> (kfd \<Rightarrow> kfd) \<Rightarrow> 'a kfile_scheme \<Rightarrow> 'a kfile_scheme" where
  "upd_file i f s = s\<lparr>ftable := (ftable s)(i := f (ftable s i))\<rparr>"

section \<open>Operations\<close>

definition pipe_put :: "u8 \<Rightarrow> pipe \<Rightarrow> pipe" where
  "pipe_put c p = p\<lparr>pp_data := (pp_data p)(unat (pp_nwrite p) mod PIPESIZE := c), pp_nwrite := pp_nwrite p + 1\<rparr>"

definition pipe_get :: "pipe \<Rightarrow> u8 \<times> pipe" where
  "pipe_get p = (pp_data p (unat (pp_nread p) mod PIPESIZE), p\<lparr>pp_nread := pp_nread p + 1\<rparr>)"

definition pipeclose :: "u32 \<Rightarrow> bool \<Rightarrow> ('a kfile_scheme, unit) km" where
  "pipeclose p writable =
     kthen (if writable
        then kthen (kmod (upd_pipe p (\<lambda>x. x\<lparr>pp_writeopen := False\<rparr>))) (wakeup (ChPipeRead (unat p)))
        else kthen (kmod (upd_pipe p (\<lambda>x. x\<lparr>pp_readopen := False\<rparr>))) (wakeup (ChPipeWrite (unat p))))
     (kif (\<lambda>s. \<not> pp_readopen (pipes s p) \<and> \<not> pp_writeopen (pipes s p))
        (kfree p)
        (kret ()))"

definition pipe_full :: "pipe \<Rightarrow> bool" where
  "pipe_full p \<longleftrightarrow> pp_nwrite p = pp_nread p + of_nat PIPESIZE"

function pipewrite_from :: "u32 \<Rightarrow> bytes \<Rightarrow> int \<Rightarrow> nat \<Rightarrow> ('a kfile_scheme, int) km" where
  "pipewrite_from p addr n i = (\<lambda>s.
     if int i < n then
       (if pipe_full (pipes s p) then
          (if \<not> pp_readopen (pipes s p) \<or> p_killed (myproc s) then Ok (-1) s
           else kthen (wakeup (ChPipeRead (unat p))) (sleep (ChPipeWrite (unat p))) s)
        else pipewrite_from p addr n (i + 1) (upd_pipe p (pipe_put (addr i)) s))
     else kthen (wakeup (ChPipeRead (unat p))) (kret n) s)"
  by pat_completeness auto
termination
  by (relation "measure (\<lambda>(p, addr, n, i). nat (n - int i))") auto

declare pipewrite_from.simps [simp del]

definition pipewrite :: "u32 \<Rightarrow> bytes \<Rightarrow> int \<Rightarrow> ('a kfile_scheme, int) km" where
  "pipewrite p addr n = pipewrite_from p addr n 0"

fun pipe_copy :: "nat \<Rightarrow> nat \<Rightarrow> bytes \<Rightarrow> pipe \<Rightarrow> nat \<times> bytes \<times> pipe" where
  "pipe_copy 0 i addr p = (i, addr, p)"
| "pipe_copy (Suc n) i addr p =
     (if pp_nread p = pp_nwrite p then (i, addr, p)
      else case pipe_get p of (c, p') \<Rightarrow> pipe_copy n (i + 1) (addr(i := c)) p')"

definition piperead :: "u32 \<Rightarrow> bytes \<Rightarrow> int \<Rightarrow> ('a kfile_scheme, int \<times> bytes) km" where
  "piperead p addr n = (\<lambda>s.
     if pp_nread (pipes s p) = pp_nwrite (pipes s p) \<and> pp_writeopen (pipes s p) then
       (if p_killed (myproc s) then Ok (-1, addr) s else sleep (ChPipeRead (unat p)) s)
     else
       (case pipe_copy (nat n) 0 addr (pipes s p) of (i, addr', q) \<Rightarrow>
          kthen (kmod (upd_pipe p (\<lambda>_. q)))
         (kthen (wakeup (ChPipeWrite (unat p)))
          (kret (int i, addr'))) s))"

section \<open>The queue of a pipe\<close>

interpretation pr: ring_buffer PIPESIZE
  by unfold_locales simp_all

definition pipe_bytes :: "pipe \<Rightarrow> u8 list" where
  "pipe_bytes p = ring_list PIPESIZE (pp_data p) (pp_nread p) (pp_nwrite p)"

definition pipe_inv :: "pipe \<Rightarrow> bool" where
  "pipe_inv p \<longleftrightarrow> unat (pp_nwrite p - pp_nread p) \<le> PIPESIZE"

lemma pipe_inv_iff: "pipe_inv p \<longleftrightarrow> length (pipe_bytes p) \<le> PIPESIZE"
  by (simp add: pipe_inv_def pipe_bytes_def)

lemma pipe_full_iff: "pipe_inv p \<Longrightarrow> pipe_full p \<longleftrightarrow> length (pipe_bytes p) = PIPESIZE"
proof -
  have "pipe_full p \<longleftrightarrow> pp_nwrite p - pp_nread p = 512" by (auto simp: pipe_full_def algebra_simps)
  also have "\<dots> \<longleftrightarrow> unat (pp_nwrite p - pp_nread p) = unat (512 :: u32)" by (simp only: word_unat_eq_iff)
  finally show ?thesis by (simp add: pipe_bytes_def)
qed

lemma pipe_empty_iff: "pp_nread p = pp_nwrite p \<longleftrightarrow> pipe_bytes p = []"
proof -
  have "pipe_bytes p = [] \<longleftrightarrow> unat (pp_nwrite p - pp_nread p) = 0"
    unfolding pipe_bytes_def by (metis length_0_conv ring_list_length)
  then show ?thesis by (auto simp: unat_eq_0)
qed

lemma pipe_put_law:
  assumes "pipe_inv p" "\<not> pipe_full p"
  shows "pipe_inv (pipe_put c p)" and "pipe_bytes (pipe_put c p) = pipe_bytes p @ [c]"
    and "pp_readopen (pipe_put c p) = pp_readopen p" "pp_writeopen (pipe_put c p) = pp_writeopen p"
proof -
  have lt: "unat (pp_nwrite p - pp_nread p) < PIPESIZE"
    using assms pipe_full_iff[OF assms(1)] by (simp add: pipe_inv_def pipe_bytes_def)
  show "pipe_bytes (pipe_put c p) = pipe_bytes p @ [c]"
    using pr.ring_put[OF lt] by (simp add: pipe_bytes_def pipe_put_def)
  show "pipe_inv (pipe_put c p)"
    using pr.count_Suc[OF lt] lt by (simp add: pipe_inv_def pipe_put_def)
qed (simp_all add: pipe_put_def)

lemma pipe_get_law:
  assumes "pipe_inv p" "pipe_bytes p = c # cs"
  shows "fst (pipe_get p) = c" and "pipe_bytes (snd (pipe_get p)) = cs" and "pipe_inv (snd (pipe_get p))"
proof -
  have ne: "pp_nread p \<noteq> pp_nwrite p" using assms(2) pipe_empty_iff[of p] by auto
  note g = pr.ring_get[OF ne, of "pp_data p"]
  show "fst (pipe_get p) = c" and b: "pipe_bytes (snd (pipe_get p)) = cs"
    using g assms(2) by (simp_all add: pipe_bytes_def pipe_get_def)
  show "pipe_inv (snd (pipe_get p))"
    using assms by (simp add: pipe_inv_iff b)
qed

lemma pipe_copy_law:
  assumes "pipe_inv p"
  shows "\<exists>q. pipe_copy n i addr p = (i + min n (length (pipe_bytes p)),
      (\<lambda>j. if i \<le> j \<and> j < i + min n (length (pipe_bytes p)) then pipe_bytes p ! (j - i) else addr j), q) \<and>
    pipe_inv q \<and> pipe_bytes q = drop n (pipe_bytes p)"
  using assms
proof (induction n arbitrary: i addr p)
  case 0
  then show ?case by (auto simp: fun_eq_iff)
next
  case (Suc n)
  show ?case
  proof (cases "pipe_bytes p")
    case Nil
    then have "pp_nread p = pp_nwrite p" using pipe_empty_iff by blast
    then show ?thesis using Suc.prems Nil by (auto simp: fun_eq_iff)
  next
    case (Cons c cs)
    note g = pipe_get_law[OF Suc.prems Cons]
    have ne: "pp_nread p \<noteq> pp_nwrite p" using Cons pipe_empty_iff[of p] by auto
    obtain q where q: "pipe_copy n (i + 1) (addr(i := c)) (snd (pipe_get p)) = (i + 1 + min n (length cs),
        (\<lambda>j. if i + 1 \<le> j \<and> j < i + 1 + min n (length cs) then cs ! (j - (i + 1)) else (addr(i := c)) j), q)"
      "pipe_inv q" "pipe_bytes q = drop n cs"
      using Suc.IH[OF g(3), of "i + 1" "addr(i := c)"] unfolding g(2) by blast
    have e: "pipe_copy (Suc n) i addr p = pipe_copy n (i + 1) (addr(i := c)) (snd (pipe_get p))"
      using ne g(1) by (cases "pipe_get p") simp
    have "(if i + 1 \<le> j \<and> j < i + 1 + min n (length cs) then cs ! (j - (i + 1)) else (addr(i := c)) j) =
      (if i \<le> j \<and> j < i + min (Suc n) (length (c # cs)) then (c # cs) ! (j - i) else addr j)" for j
      by (cases "j = i") (auto simp: nth_Cons' not_less_eq_eq)
    then show ?thesis unfolding e q(1) Cons using q(2,3) by (auto simp: fun_eq_iff)
  qed
qed

lemma upd_pipe_simps [simp]:
  "pipes (upd_pipe p f s) = (pipes s)(p := f (pipes s p))" "ptable (upd_pipe p f s) = ptable s"
  "cur (upd_pipe p f s) = cur s" "ftable (upd_pipe p f s) = ftable s"
  "kfile.more (upd_pipe p f s) = kfile.more s"
  by (simp_all add: upd_pipe_def)

lemma wakeup1_kfile [simp]:
  "pipes (wakeup1 c s) = pipes s" "ftable (wakeup1 c s) = ftable s"
  "icache (wakeup1 c s) = icache s" "fs_sb (wakeup1 c s) = fs_sb s" "kfile.more (wakeup1 c s) = kfile.more s"
  by (simp_all add: wakeup1_def)

lemma upd_proc_kfile [simp]:
  "pipes (upd_proc i f s) = pipes s" "ftable (upd_proc i f s) = ftable s"
  by (simp_all add: upd_proc_def)

text \<open>What a writer has put into the pipe when it returns or goes to sleep.\<close>

definition wrote :: "u32 \<Rightarrow> bytes \<Rightarrow> nat \<Rightarrow> nat \<Rightarrow> 'a kfile_scheme \<Rightarrow> 'a kfile_scheme \<Rightarrow> bool" where
  "wrote p addr i j s t \<longleftrightarrow> pipe_inv (pipes t p) \<and>
     pipe_bytes (pipes t p) = pipe_bytes (pipes s p) @ map addr [i..<j] \<and>
     pp_readopen (pipes t p) = pp_readopen (pipes s p) \<and> pp_writeopen (pipes t p) = pp_writeopen (pipes s p)"

lemma pipewrite_from_cases:
  assumes "pipe_inv (pipes s p)" "int i \<le> n"
  shows "case pipewrite_from p addr n i s of
      Ok r t \<Rightarrow> (\<exists>j. i \<le> j \<and> wrote p addr i j s t \<and>
        (r = n \<and> int j = n \<or> r = -1 \<and> int j < n \<and> pipe_full (pipes t p) \<and>
          (\<not> pp_readopen (pipes s p) \<or> p_killed (myproc s))))
    | Sleep c t \<Rightarrow> c = ChPipeWrite (unat p) \<and> (\<exists>j. i \<le> j \<and> int j < n \<and> wrote p addr i j s t \<and> pipe_full (pipes t p) \<and>
        pp_readopen (pipes s p) \<and> \<not> p_killed (myproc s))
    | Panic m \<Rightarrow> False"
  using assms
proof (induction "nat (n - int i)" arbitrary: i s)
  case 0
  then have "\<not> int i < n" by simp
  then have e: "pipewrite_from p addr n i s = Ok n (wakeup1 (Some (ChPipeRead (unat p))) s)"
    by (subst pipewrite_from.simps) (simp add: kthen_apply wakeup_apply kret_apply)
  have "int i = n" using 0 by simp
  then show ?case unfolding e using "0.prems" by (auto simp: wrote_def)
next
  case (Suc k)
  then have i: "int i < n" by simp
  show ?case
  proof (cases "pipe_full (pipes s p)")
    case True
    have e: "pipewrite_from p addr n i s = (if \<not> pp_readopen (pipes s p) \<or> p_killed (myproc s) then Ok (-1) s
        else sleep (ChPipeWrite (unat p)) (wakeup1 (Some (ChPipeRead (unat p))) s))"
      by (subst pipewrite_from.simps) (simp add: i True kthen_apply wakeup_apply)
    show ?thesis using Suc.prems i True by (auto simp: e wrote_def sleep_def)
  next
    case False
    let ?u = "upd_pipe p (pipe_put (addr i)) s"
    have e: "pipewrite_from p addr n i s = pipewrite_from p addr n (i + 1) ?u"
      by (subst pipewrite_from.simps) (simp add: i False)
    note P = pipe_put_law[OF Suc.prems(1) False, of "addr i"]
    have w: "wrote p addr i j s t" if "wrote p addr (i + 1) j ?u t" "i + 1 \<le> j" for j t
      using that P by (simp add: wrote_def upt_conv_Cons)
    have pre: "k = nat (n - int (i + 1))" "pipe_inv (pipes ?u p)" "int (i + 1) \<le> n" using Suc.hyps(2) P(1) i by auto
    from Suc.hyps(1)[OF pre] show ?thesis
      unfolding e using w P(3) by (auto split: outcome.splits) (metis Suc_leD Suc_eq_plus1)+
  qed
qed

section \<open>Properties\<close>

definition zero_pipe :: pipe where
  "zero_pipe = \<lparr>pp_data = (\<lambda>_. 0), pp_nread = 0, pp_nwrite = 0, pp_readopen = False, pp_writeopen = False\<rparr>"

definition zero_file :: kfd where
  "zero_file = \<lparr>f_type = FD_NONE, f_ref = 0, f_readable = False, f_writable = False, f_pipe = 0, f_ip = None, f_off = 0\<rparr>"

definition zero_kfile :: kfile where
  "zero_kfile = \<lparr>km_end = 0x80100000, km_data = 0x80108000, km_mem = (\<lambda>_. 0), km_use_lock = True, km_freelist = 0, ptable = (\<lambda>_. zero_proc), cur = 0, memdisk = (\<lambda>_ _. 0), disksize = 0, dwrites = [],
     bufs = (\<lambda>_. init_buf), mru = [], lg_start = 0, lg_size = 0, lg_outstanding = 0, lg_committing = False, lg_dev = 0,
     lh_n = 0, lh_block = (\<lambda>_. 0), fs_sb = zero_sb, icache = (\<lambda>_. zero_inode),
     pipes = (\<lambda>_. zero_pipe), ftable = (\<lambda>_. zero_file)\<rparr>"

text \<open>A pipe open at both ends whose counters are about to wrap around.\<close>

definition ex_pipe :: kfile where
  "ex_pipe = zero_kfile\<lparr>pipes := (\<lambda>_. zero_pipe\<lparr>pp_nread := 0xFFFFFFFF, pp_nwrite := 0xFFFFFFFF,
     pp_readopen := True, pp_writeopen := True\<rparr>)\<rparr>"

text \<open>
  C35. \<^verbatim>\<open>pipewrite\<close> (from any byte \<open>i\<close> on) appends the bytes of the buffer to the pipe's queue in
  order, never more than fit. It returns \<open>n\<close> only when all are in; it fails only on a full pipe
  whose read end is closed or when the process is killed; it sleeps only on a full pipe, with
  everything that fitted delivered, and never panics.
\<close>

theorem pipewrite_correct:
  assumes "pipe_inv (pipes s p)" "int i \<le> n"
  shows "case pipewrite_from p addr n i s of
      Ok r t \<Rightarrow> (\<exists>j. i \<le> j \<and> wrote p addr i j s t \<and>
        (r = n \<and> int j = n \<or> r = -1 \<and> int j < n \<and> pipe_full (pipes t p) \<and>
          (\<not> pp_readopen (pipes s p) \<or> p_killed (myproc s))))
    | Sleep c t \<Rightarrow> c = ChPipeWrite (unat p) \<and> (\<exists>j. i \<le> j \<and> int j < n \<and> wrote p addr i j s t \<and> pipe_full (pipes t p) \<and>
        pp_readopen (pipes s p) \<and> \<not> p_killed (myproc s))
    | Panic m \<Rightarrow> False"
  using assms by (rule pipewrite_from_cases)

lemma ex_pipe_facts:
  "pipe_inv (pipes ex_pipe p)" "pipe_bytes (pipes ex_pipe p) = []" "pp_readopen (pipes ex_pipe p)"
  "\<not> p_killed (myproc ex_pipe)"
  by (simp_all add: ex_pipe_def zero_kfile_def zero_pipe_def pipe_inv_def pipe_bytes_def zero_proc_def)

theorem pipewrite_correct_witness:
  "\<exists>t. pipewrite_from 4096 (\<lambda>i. of_nat i) 3 0 ex_pipe = Ok 3 t \<and> pipe_bytes (pipes t 4096) = [0, 1, 2]"
proof -
  note T = pipewrite_correct[of ex_pipe 4096 0 3 "\<lambda>i. of_nat i"]
  have full: "length xs \<noteq> 512" if "xs = map f [0..<j]" "int j < 3" for xs :: "u8 list" and f j using that by simp
  show ?thesis
  proof (cases "pipewrite_from 4096 (\<lambda>i. of_nat i) 3 0 ex_pipe")
    case (Ok r t)
    with T ex_pipe_facts obtain j where j: "wrote 4096 (\<lambda>i. of_nat i) 0 j ex_pipe t"
      "r = 3 \<and> int j = 3 \<or> int j < 3 \<and> pipe_full (pipes t 4096)" by auto
    have b: "pipe_bytes (pipes t 4096) = map of_nat [0..<j]" "pipe_inv (pipes t 4096)"
      using j(1) ex_pipe_facts by (auto simp: wrote_def)
    have "r = 3 \<and> j = 3" using j(2) full[OF b(1)] pipe_full_iff[OF b(2)] by auto
    then show ?thesis using Ok b(1) by (simp add: upt_rec)
  next
    case (Panic m)
    with T ex_pipe_facts show ?thesis by simp
  next
    case (Sleep c t)
    with T ex_pipe_facts obtain j where j: "wrote 4096 (\<lambda>i. of_nat i) 0 j ex_pipe t" "int j < 3" "pipe_full (pipes t 4096)"
      by auto
    have b: "pipe_bytes (pipes t 4096) = map of_nat [0..<j]" "pipe_inv (pipes t 4096)"
      using j(1) ex_pipe_facts by (auto simp: wrote_def)
    then show ?thesis using full[OF b(1) j(2)] pipe_full_iff[OF b(2)] j(3) by simp
  qed
qed

text \<open>
  C36. \<^verbatim>\<open>piperead\<close> delivers the oldest bytes of the queue, in order, as many as are there and asked
  for, and removes exactly those. On an empty pipe it sleeps while the write end is open, fails
  when the process is killed, and reports end of file (0) once the write end is closed.
\<close>

theorem piperead_correct:
  assumes "pipe_inv (pipes s p)" "0 \<le> n"
  defines "q \<equiv> pipe_bytes (pipes s p)"
  shows "if q = [] \<and> pp_writeopen (pipes s p) then
      (if p_killed (myproc s) then piperead p addr n s = Ok (-1, addr) s
       else \<exists>t. piperead p addr n s = Sleep (ChPipeRead (unat p)) t \<and> pipes t = pipes s)
    else \<exists>t. piperead p addr n s = Ok (int (min (nat n) (length q)),
        \<lambda>j. if j < min (nat n) (length q) then q ! j else addr j) t \<and>
      pipe_inv (pipes t p) \<and> pipe_bytes (pipes t p) = drop (nat n) q"
proof (cases "q = [] \<and> pp_writeopen (pipes s p)")
  case True
  then have "pp_nread (pipes s p) = pp_nwrite (pipes s p)" using pipe_empty_iff by (auto simp: q_def)
  then show ?thesis using True by (simp add: piperead_def sleep_def)
next
  case False
  obtain r where r: "pipe_copy (nat n) 0 addr (pipes s p) = (0 + min (nat n) (length q),
      (\<lambda>j. if 0 \<le> j \<and> j < 0 + min (nat n) (length q) then q ! (j - 0) else addr j), r)"
    "pipe_inv r" "pipe_bytes r = drop (nat n) q"
    using pipe_copy_law[OF assms(1), of "nat n" 0 addr] unfolding q_def by blast
  have "\<not> (pp_nread (pipes s p) = pp_nwrite (pipes s p) \<and> pp_writeopen (pipes s p))"
    using False pipe_empty_iff by (auto simp: q_def)
  then show ?thesis
    using False r by (simp add: piperead_def kthen_apply kmod_apply kret_apply wakeup_apply cong: if_cong)
qed

theorem piperead_correct_witness:
  "\<exists>t. piperead 4096 (\<lambda>_. 9) 5 (upd_pipe 4096 (\<lambda>p. pipe_put 8 (pipe_put 7 p)) ex_pipe)
      = Ok (2, \<lambda>j. if j < 2 then [7, 8] ! j else 9) t \<and> pipe_bytes (pipes t 4096) = []"
proof -
  let ?s = "upd_pipe 4096 (\<lambda>p. pipe_put 8 (pipe_put 7 p)) ex_pipe"
  have nf: "\<not> pipe_full (pipes ex_pipe 4096)" using pipe_full_iff ex_pipe_facts by simp
  note p1 = pipe_put_law[OF ex_pipe_facts(1) nf, of 7]
  have nf2: "\<not> pipe_full (pipe_put 7 (pipes ex_pipe 4096))" using pipe_full_iff[OF p1(1)] p1(2) ex_pipe_facts(2) by simp
  note p2 = pipe_put_law[OF p1(1) nf2, of 8]
  have b: "pipe_inv (pipes ?s 4096)" "pipe_bytes (pipes ?s 4096) = [7, 8]" using p1 p2 ex_pipe_facts(2) by simp_all
  show ?thesis using piperead_correct[OF b(1), of 5 "\<lambda>_. 9"] unfolding b(2) by (simp add: numeral_2_eq_2) blast
qed

end
