(* ===== verification/File.thy ===== *)
theory File
  imports Pipe
begin

text \<open>
  The file layer (\<^verbatim>\<open>kernel/file.c\<close>) and \<^verbatim>\<open>pipealloc\<close> (\<^verbatim>\<open>kernel/pipe.c\<close>). A \<^verbatim>\<open>struct file\<close>
  pointer is an index into \<^verbatim>\<open>ftable\<close>. A file counts its references; the last \<^verbatim>\<open>fileclose\<close>
  gives its pipe end or its inode back.
\<close>

section \<open>Operations\<close>

definition filealloc :: "('a kfile_scheme, nat option) km" where
  "filealloc = (\<lambda>s. case findi (\<lambda>i. f_ref (ftable s i) = 0) NFILE of
       Some i \<Rightarrow> Ok (Some i) (upd_file i (\<lambda>f. f\<lparr>f_ref := 1\<rparr>) s)
     | None \<Rightarrow> Ok None s)"

definition filedup :: "nat \<Rightarrow> ('a kfile_scheme, nat) km" where
  "filedup f =
     kthen (kassert ''filedup'' (\<lambda>s. \<not> f_ref (ftable s f) < 1))
    (kthen (kmod (upd_file f (\<lambda>x. x\<lparr>f_ref := f_ref x + 1\<rparr>)))
     (kret f))"

text \<open>A null inode pointer stops the kernel with a page fault, reported as \<^verbatim>\<open>panic("trap")\<close>.\<close>

definition deref :: "'b option \<Rightarrow> ('b \<Rightarrow> ('s, 'a) km) \<Rightarrow> ('s, 'a) km" where
  "deref p k = (case p of Some x \<Rightarrow> k x | None \<Rightarrow> kpanic ''trap'')"

definition fileclose :: "nat \<Rightarrow> ('a kfile_scheme, unit) km" where
  "fileclose f =
     kthen (kassert ''fileclose'' (\<lambda>s. \<not> f_ref (ftable s f) < 1))
    (kthen (kmod (upd_file f (\<lambda>x. x\<lparr>f_ref := f_ref x - 1\<rparr>)))
     (kif (\<lambda>s. f_ref (ftable s f) > 0)
       (kret ())
       (kbind (kget (\<lambda>s. ftable s f)) (\<lambda>ff.
        kthen (kmod (upd_file f (\<lambda>x. x\<lparr>f_ref := 0, f_type := FD_NONE\<rparr>)))
        (case f_type ff of
           FD_PIPE \<Rightarrow> pipeclose (f_pipe ff) (f_writable ff)
         | FD_INODE \<Rightarrow>
             kthen begin_op
            (kthen (deref (f_ip ff) iput)
             end_op)
         | FD_NONE \<Rightarrow> kret ())))))"

definition filestat :: "nat \<Rightarrow> stat \<Rightarrow> ('a kfile_scheme, int \<times> stat) km" where
  "filestat f st = (\<lambda>s.
     if f_type (ftable s f) = FD_INODE then
       deref (f_ip (ftable s f)) (\<lambda>ip.
         kthen (ilock ip)
        (kbind (kget (\<lambda>s. stati (icache s ip) st)) (\<lambda>st.
         kthen (iunlock ip)
         (kret (0, st))))) s
     else Ok (-1, st) s)"

definition fileread :: "'a kfile_scheme devsw \<Rightarrow> nat \<Rightarrow> bytes \<Rightarrow> int \<Rightarrow> ('a kfile_scheme, int \<times> bytes) km" where
  "fileread dv f addr n = (\<lambda>s.
     if \<not> f_readable (ftable s f) then Ok (-1, addr) s
     else case f_type (ftable s f) of
       FD_PIPE \<Rightarrow> piperead (f_pipe (ftable s f)) addr n s
     | FD_INODE \<Rightarrow>
         deref (f_ip (ftable s f)) (\<lambda>ip.
           kthen (ilock ip)
          (kbind (\<lambda>s. readi dv ip addr (f_off (ftable s f)) (of_int n) s) (\<lambda>(r, addr).
           kthen (kif (\<lambda>_. r > 0) (kmod (upd_file f (\<lambda>x. x\<lparr>f_off := f_off x + of_int r\<rparr>))) (kret ()))
          (kthen (iunlock ip)
           (kret (r, addr)))))) s
     | FD_NONE \<Rightarrow> Panic ''fileread'')"

text \<open>
  \<^verbatim>\<open>max = ((MAXOPBLOCKS-1-1-2) / 2) * 512\<close>; each round writes at most that much in its own
  transaction.
\<close>

abbreviation (input) WRITE_MAX :: int where "WRITE_MAX \<equiv> 1536"

function filewrite_loop :: "'a kfile_scheme devsw \<Rightarrow> nat \<Rightarrow> nat \<Rightarrow> bytes \<Rightarrow> int \<Rightarrow> int \<Rightarrow> ('a kfile_scheme, int) km" where
  "filewrite_loop dv f ip addr n i =
     (if i < n then
        let n1 = (if n - i > WRITE_MAX then WRITE_MAX else n - i) in
        kthen begin_op
       (kthen (ilock ip)
       (kbind (\<lambda>s. writei dv ip (\<lambda>k. addr (nat i + k)) (f_off (ftable s f)) (of_int n1) s) (\<lambda>r.
        kthen (kif (\<lambda>_. r > 0) (kmod (upd_file f (\<lambda>x. x\<lparr>f_off := f_off x + of_int r\<rparr>))) (kret ()))
       (kthen (iunlock ip)
       (kthen end_op
       (if r < 0 then kret (if i = n then n else -1)
        else if r \<noteq> n1 then kpanic ''short filewrite''
        else filewrite_loop dv f ip addr n (i + n1)))))))
      else kret (if i = n then n else -1))"
  by pat_completeness auto
termination
  by (relation "measure (\<lambda>(dv, f, ip, addr, n, i). nat (n - i))") (auto split: if_splits)

declare filewrite_loop.simps [simp del]

definition filewrite :: "'a kfile_scheme devsw \<Rightarrow> nat \<Rightarrow> bytes \<Rightarrow> int \<Rightarrow> ('a kfile_scheme, int) km" where
  "filewrite dv f addr n = (\<lambda>s.
     if \<not> f_writable (ftable s f) then Ok (-1) s
     else case f_type (ftable s f) of
       FD_PIPE \<Rightarrow> pipewrite (f_pipe (ftable s f)) addr n s
     | FD_INODE \<Rightarrow> deref (f_ip (ftable s f)) (\<lambda>ip. filewrite_loop dv f ip addr n 0) s
     | FD_NONE \<Rightarrow> Panic ''filewrite'')"

definition pipealloc :: "('a kfile_scheme, (nat \<times> nat) option) km" where
  "pipealloc =
     kbind filealloc (\<lambda>f0.
     case f0 of
       None \<Rightarrow> kret None
     | Some f0 \<Rightarrow>
        kbind filealloc (\<lambda>f1.
        case f1 of
          None \<Rightarrow> kthen (fileclose f0) (kret None)
        | Some f1 \<Rightarrow>
           kbind kalloc (\<lambda>p.
           if p = 0 then kthen (fileclose f0) (kthen (fileclose f1) (kret None))
           else
             kthen (kmod (upd_pipe p (\<lambda>x. x\<lparr>pp_readopen := True, pp_writeopen := True, pp_nwrite := 0, pp_nread := 0\<rparr>)))
            (kthen (kmod (upd_file f0 (\<lambda>x. x\<lparr>f_type := FD_PIPE, f_readable := True, f_writable := False, f_pipe := p\<rparr>)))
            (kthen (kmod (upd_file f1 (\<lambda>x. x\<lparr>f_type := FD_PIPE, f_readable := False, f_writable := True, f_pipe := p\<rparr>)))
             (kret (Some (f0, f1))))))))"

lemma upd_file_simps [simp]:
  "ftable (upd_file i f s) = (ftable s)(i := f (ftable s i))" "pipes (upd_file i f s) = pipes s"
  "ptable (upd_file i f s) = ptable s" "cur (upd_file i f s) = cur s"
  "icache (upd_file i f s) = icache s" "kfile.more (upd_file i f s) = kfile.more s"
  by (simp_all add: upd_file_def)

end
