(* ===== verification/Vm.thy ===== *)
theory Vm
  imports Kalloc
begin

text \<open>
  Page tables and process memory (\<^verbatim>\<open>kernel/vm.c\<close>, \<^verbatim>\<open>kernel/mmu.h\<close>). Page directories and page
  tables are words in the memory of the allocator's state, reached through the kernel's direct
  map; a pointer is its address and the null pointer is 0. Loading segment and control registers
  (\<^verbatim>\<open>seginit\<close>, \<^verbatim>\<open>switchuvm\<close>, \<^verbatim>\<open>switchkvm\<close>) is not represented; \<open>translate\<close> is the
  page walk of the hardware. The two messages of \<^verbatim>\<open>allocuvm\<close> on the console are left out.

  Loops over addresses count in natural numbers: the sizes they run to are at most
  \<^verbatim>\<open>KERNBASE\<close>, so the 32-bit counters of the code do not wrap around.
\<close>

abbreviation (input) EXTMEM :: u32 where "EXTMEM \<equiv> 0x100000"
abbreviation (input) DEVSPACE :: u32 where "DEVSPACE \<equiv> 0xFE000000"
abbreviation (input) KERNLINK :: u32 where "KERNLINK \<equiv> 0x80100000"
abbreviation (input) PTE_P :: u32 where "PTE_P \<equiv> 1"
abbreviation (input) PTE_W :: u32 where "PTE_W \<equiv> 2"
abbreviation (input) PTE_U :: u32 where "PTE_U \<equiv> 4"
abbreviation (input) NPDENTRIES :: nat where "NPDENTRIES \<equiv> 1024"

definition PDX :: "u32 \<Rightarrow> u32" where
  "PDX va = drop_bit 22 va AND 0x3FF"

definition PTX :: "u32 \<Rightarrow> u32" where
  "PTX va = drop_bit 12 va AND 0x3FF"

definition PTE_ADDR :: "u32 \<Rightarrow> u32" where
  "PTE_ADDR pte = pte AND NOT 0xFFF"

definition PTE_FLAGS :: "u32 \<Rightarrow> u32" where
  "PTE_FLAGS pte = pte AND 0xFFF"

definition present :: "u32 \<Rightarrow> bool" where
  "present e \<longleftrightarrow> e AND PTE_P \<noteq> 0"

text \<open>Reading and writing a word of memory, \<^verbatim>\<open>*p\<close> and \<^verbatim>\<open>*p = w\<close>.\<close>

definition kload :: "u32 \<Rightarrow> ('a kmem_scheme, u32) km" where
  "kload p = kget (\<lambda>s. load32 (km_mem s) p)"

definition kstore :: "u32 \<Rightarrow> u32 \<Rightarrow> ('a kmem_scheme, unit) km" where
  "kstore p w = kmod (\<lambda>s. s\<lparr>km_mem := store32 (km_mem s) p w\<rparr>)"

definition kmemset :: "u32 \<Rightarrow> u32 \<Rightarrow> u32 \<Rightarrow> ('a kmem_scheme, unit) km" where
  "kmemset dst c n = kmod (\<lambda>s. s\<lparr>km_mem := memset (km_mem s) dst c n\<rparr>)"

section \<open>Page tables\<close>

definition walkpgdir :: "u32 \<Rightarrow> u32 \<Rightarrow> bool \<Rightarrow> ('a kmem_scheme, u32) km" where
  "walkpgdir pgdir va alloc =
     kbind (kload (pgdir + 4 * PDX va)) (\<lambda>e.
     if present e then kret (P2V (PTE_ADDR e) + 4 * PTX va)
     else if \<not> alloc then kret 0
     else kbind kalloc (\<lambda>pgtab.
       if pgtab = 0 then kret 0
       else kthen (kmemset pgtab 0 PGSIZE)
           (kthen (kstore (pgdir + 4 * PDX va) (V2P pgtab OR PTE_P OR PTE_W OR PTE_U))
            (kret (pgtab + 4 * PTX va)))))"

text \<open>\<open>n\<close> is the number of pages after the current one up to \<^verbatim>\<open>last\<close>.\<close>

fun mappages_loop :: "u32 \<Rightarrow> u32 \<Rightarrow> u32 \<Rightarrow> u32 \<Rightarrow> nat \<Rightarrow> ('a kmem_scheme, int) km" where
  "mappages_loop pgdir a pa perm n =
     kbind (walkpgdir pgdir a True) (\<lambda>pte.
     if pte = 0 then kret (-1)
     else kbind (kload pte) (\<lambda>e.
       if present e then kpanic ''remap''
       else kthen (kstore pte (pa OR perm OR PTE_P))
        (case n of 0 \<Rightarrow> kret 0 | Suc m \<Rightarrow> mappages_loop pgdir (a + PGSIZE) (pa + PGSIZE) perm m)))"

declare mappages_loop.simps [simp del]

definition mappages :: "u32 \<Rightarrow> u32 \<Rightarrow> u32 \<Rightarrow> u32 \<Rightarrow> u32 \<Rightarrow> ('a kmem_scheme, int) km" where
  "mappages pgdir va sz pa perm =
     (let a = PGROUNDDOWN va; last = PGROUNDDOWN (va + sz - 1) in
      mappages_loop pgdir a pa perm (unat (last - a) div 4096))"

function deallocuvm_loop :: "u32 \<Rightarrow> nat \<Rightarrow> nat \<Rightarrow> ('a kmem_scheme, unit) km" where
  "deallocuvm_loop pgdir oldsz a =
     (if a < oldsz then
        kbind (walkpgdir pgdir (of_nat a) False) (\<lambda>pte.
        if pte = 0 then deallocuvm_loop pgdir oldsz ((a div 4194304 + 1) * 4194304)
        else kbind (kload pte) (\<lambda>e.
          if present e then
            (if PTE_ADDR e = 0 then kpanic ''kfree''
             else kthen (kfree (P2V (PTE_ADDR e)))
                 (kthen (kstore pte 0)
                  (deallocuvm_loop pgdir oldsz (a + 4096))))
          else deallocuvm_loop pgdir oldsz (a + 4096)))
      else kret ())"
  by pat_completeness auto
termination
proof (relation "measure (\<lambda>(pgdir, oldsz, a). oldsz - a)", goal_cases)
  case (2 pgdir oldsz a pte)
  have "a < (a div 4194304 + 1) * 4194304" 
    using div_mult_mod_eq[of a 4194304] mod_less_divisor[of 4194304 a] by simp
  with 2 show ?case by simp
qed auto

declare deallocuvm_loop.simps [simp del]

definition deallocuvm :: "u32 \<Rightarrow> u32 \<Rightarrow> u32 \<Rightarrow> ('a kmem_scheme, u32) km" where
  "deallocuvm pgdir oldsz newsz =
     (if newsz \<ge> oldsz then kret oldsz
      else kthen (deallocuvm_loop pgdir (unat oldsz) (unat (PGROUNDUP newsz))) (kret newsz))"

definition freevm :: "u32 \<Rightarrow> ('a kmem_scheme, unit) km" where
  "freevm pgdir =
     kthen (kassert ''freevm: no pgdir'' (\<lambda>_. pgdir \<noteq> 0))
    (kthen (deallocuvm pgdir KERNBASE 0)
    (kthen (kfor (\<lambda>i. kbind (kload (pgdir + 4 * of_nat i)) (\<lambda>e.
         if present e then kfree (P2V (PTE_ADDR e)) else kret ())) [0..<NPDENTRIES])
     (kfree pgdir)))"

text \<open>The table \<^verbatim>\<open>kmap\<close>: virtual address, physical start, physical end, permissions.\<close>

definition kmap :: "'a kmem_scheme \<Rightarrow> (u32 \<times> u32 \<times> u32 \<times> u32) list" where
  "kmap s = [(KERNBASE, 0, EXTMEM, PTE_W), (KERNLINK, V2P KERNLINK, V2P (km_data s), 0),
     (km_data s, V2P (km_data s), PHYSTOP, PTE_W), (DEVSPACE, DEVSPACE, 0, PTE_W)]"

fun setupkvm_loop :: "u32 \<Rightarrow> (u32 \<times> u32 \<times> u32 \<times> u32) list \<Rightarrow> ('a kmem_scheme, u32) km" where
  "setupkvm_loop pgdir [] = kret pgdir"
| "setupkvm_loop pgdir ((virt, ps, pe, perm) # ks) =
     kbind (mappages pgdir virt (pe - ps) ps perm) (\<lambda>r.
     if r < 0 then kthen (freevm pgdir) (kret 0)
     else setupkvm_loop pgdir ks)"

definition setupkvm :: "('a kmem_scheme, u32) km" where
  "setupkvm =
     kbind kalloc (\<lambda>pgdir.
     if pgdir = 0 then kret 0
     else kthen (kmemset pgdir 0 PGSIZE)
         (kthen (kassert ''PHYSTOP too high'' (\<lambda>_. \<not> P2V PHYSTOP > DEVSPACE))
          (\<lambda>s. setupkvm_loop pgdir (kmap s) s)))"

section \<open>Process memory\<close>

definition write_mem :: "u32 \<Rightarrow> bytes \<Rightarrow> nat \<Rightarrow> nat \<Rightarrow> mem \<Rightarrow> mem" where
  "write_mem dst src i n m = (\<lambda>a. if unat (a - dst) < n then src (i + unat (a - dst)) else m a)"

definition inituvm :: "u32 \<Rightarrow> bytes \<Rightarrow> u32 \<Rightarrow> ('a kmem_scheme, unit) km" where
  "inituvm pgdir init sz =
     kthen (kassert ''inituvm: more than a page'' (\<lambda>_. \<not> sz \<ge> PGSIZE))
    (kbind kalloc (\<lambda>mem.
     kthen (kmemset mem 0 PGSIZE)
    (kthen (mappages pgdir 0 PGSIZE (V2P mem) (PTE_W OR PTE_U))
     (kmod (\<lambda>s. s\<lparr>km_mem := write_mem mem init 0 (unat sz) (km_mem s)\<rparr>)))))"

function allocuvm_loop :: "u32 \<Rightarrow> nat \<Rightarrow> nat \<Rightarrow> nat \<Rightarrow> ('a kmem_scheme, u32) km" where
  "allocuvm_loop pgdir oldsz newsz a =
     (if a < newsz then
        kbind kalloc (\<lambda>mem.
        if mem = 0 then kthen (deallocuvm pgdir (of_nat newsz) (of_nat oldsz)) (kret 0)
        else kthen (kmemset mem 0 PGSIZE)
            (kbind (mappages pgdir (of_nat a) PGSIZE (V2P mem) (PTE_W OR PTE_U)) (\<lambda>r.
             if r < 0 then kthen (deallocuvm pgdir (of_nat newsz) (of_nat oldsz)) (kthen (kfree mem) (kret 0))
             else allocuvm_loop pgdir oldsz newsz (a + 4096))))
      else kret (of_nat newsz))"
  by pat_completeness auto
termination
  by (relation "measure (\<lambda>(pgdir, oldsz, newsz, a). newsz - a)") auto

declare allocuvm_loop.simps [simp del]

definition allocuvm :: "u32 \<Rightarrow> u32 \<Rightarrow> u32 \<Rightarrow> ('a kmem_scheme, u32) km" where
  "allocuvm pgdir oldsz newsz =
     (if newsz \<ge> KERNBASE then kret 0
      else if newsz < oldsz then kret oldsz
      else allocuvm_loop pgdir (unat oldsz) (unat newsz) (unat (PGROUNDUP oldsz)))"

definition clearpteu :: "u32 \<Rightarrow> u32 \<Rightarrow> ('a kmem_scheme, unit) km" where
  "clearpteu pgdir uva =
     kbind (walkpgdir pgdir uva False) (\<lambda>pte.
     if pte = 0 then kpanic ''clearpteu''
     else kbind (kload pte) (\<lambda>e. kstore pte (e AND NOT PTE_U)))"

function copyuvm_loop :: "u32 \<Rightarrow> u32 \<Rightarrow> nat \<Rightarrow> nat \<Rightarrow> ('a kmem_scheme, u32) km" where
  "copyuvm_loop pgdir d sz i =
     (if i < sz then
        kbind (walkpgdir pgdir (of_nat i) False) (\<lambda>pte.
        if pte = 0 then kpanic ''copyuvm: pte should exist''
        else kbind (kload pte) (\<lambda>e.
          if \<not> present e then kpanic ''copyuvm: page not present''
          else kbind kalloc (\<lambda>mem.
            if mem = 0 then kthen (freevm d) (kret 0)
            else kthen (kmod (\<lambda>s. s\<lparr>km_mem := memmove (km_mem s) mem (P2V (PTE_ADDR e)) PGSIZE\<rparr>))
                (kbind (mappages d (of_nat i) PGSIZE (V2P mem) (PTE_FLAGS e)) (\<lambda>r.
                 if r < 0 then kthen (kfree mem) (kthen (freevm d) (kret 0))
                 else copyuvm_loop pgdir d sz (i + 4096))))))
      else kret d)"
  by pat_completeness auto
termination
  by (relation "measure (\<lambda>(pgdir, d, sz, i). sz - i)") auto

declare copyuvm_loop.simps [simp del]

definition copyuvm :: "u32 \<Rightarrow> u32 \<Rightarrow> ('a kmem_scheme, u32) km" where
  "copyuvm pgdir sz =
     kbind setupkvm (\<lambda>d. if d = 0 then kret 0 else copyuvm_loop pgdir d (unat sz) 0)"

text \<open>The code does not test the pointer it gets from \<^verbatim>\<open>walkpgdir\<close>.\<close>

definition uva2ka :: "u32 \<Rightarrow> u32 \<Rightarrow> ('a kmem_scheme, u32) km" where
  "uva2ka pgdir uva =
     kbind (walkpgdir pgdir uva False) (\<lambda>pte.
     if pte = 0 then kpanic ''undefined: null page table entry''
     else kbind (kload pte) (\<lambda>e.
       if \<not> present e then kret 0
       else if e AND PTE_U = 0 then kret 0
       else kret (P2V (PTE_ADDR e))))"

lemma page_offset: "unat (va - PGROUNDDOWN va) < 4096"
proof -
  have m: "(4096 - 1 :: u32) = mask 12" by (simp add: mask_eq_exp_minus_1)
  have "PGROUNDDOWN va + (va AND mask 12) = va"
    unfolding PGROUNDDOWN_def m
    by (subst disjunctive_add) (auto simp: bit_simps intro!: bit_eqI)
  then have "va - PGROUNDDOWN va = va AND mask 12" by (simp add: algebra_simps)
  then have "va - PGROUNDDOWN va = take_bit 12 va" by (simp add: take_bit_eq_mask)
  then show ?thesis by (simp add: take_bit_eq_mod unat_mod)
qed

function copyout_loop :: "u32 \<Rightarrow> u32 \<Rightarrow> bytes \<Rightarrow> nat \<Rightarrow> nat \<Rightarrow> ('a kmem_scheme, int) km" where
  "copyout_loop pgdir va p i len =
     (if len > 0 then
        let va0 = PGROUNDDOWN va; n = min (4096 - unat (va - va0)) len in
        kbind (uva2ka pgdir va0) (\<lambda>pa0.
        if pa0 = 0 then kret (-1)
        else kthen (kmod (\<lambda>s. s\<lparr>km_mem := write_mem (pa0 + (va - va0)) p i n (km_mem s)\<rparr>))
          (copyout_loop pgdir (va0 + PGSIZE) p (i + n) (len - n)))
      else kret 0)"
  by pat_completeness auto
termination
  by (relation "measure (\<lambda>(pgdir, va, p, i, len). len)") (auto simp: page_offset)

declare copyout_loop.simps [simp del]

definition copyout :: "u32 \<Rightarrow> u32 \<Rightarrow> bytes \<Rightarrow> u32 \<Rightarrow> ('a kmem_scheme, int) km" where
  "copyout pgdir va p len = copyout_loop pgdir va p 0 (unat len)"

section \<open>The hardware's page walk\<close>

definition translate :: "mem \<Rightarrow> u32 \<Rightarrow> u32 \<Rightarrow> u32 option" where
  "translate m pgdir va =
     (let pde = load32 m (pgdir + 4 * PDX va) in
      if \<not> present pde then None
      else let pte = load32 m (P2V (PTE_ADDR pde) + 4 * PTX va) in
        if \<not> present pte then None else Some (PTE_ADDR pte OR (va AND 0xFFF)))"

end
