(* ===== verification/Syscall.thy ===== *)
theory Syscall
  imports File Vm
begin

text \<open>
  Fetching system call arguments (\<^verbatim>\<open>kernel/syscall.c\<close>) and the system calls on processes that
  need no memory management (\<^verbatim>\<open>kernel/sysproc.c\<close>).

  The kernel reads user memory through the page table of the running process: \<open>umap\<close> is the
  kernel address a user address is mapped to, \<open>umem\<close> the byte there. Touching an address that
  is not mapped is a page fault in the kernel, which ends in \<^verbatim>\<open>panic("trap")\<close>. \<open>ticks\<close> counts
  clock interrupts. An argument that cannot be fetched is \<open>None\<close>, where the code returns -1.
\<close>

record ksys = kfile +
  ticks :: u32

definition umap :: "'a kbase_scheme \<Rightarrow> u32 \<Rightarrow> u32 option" where
  "umap s a = (case p_pgdir (myproc s) of
       None \<Rightarrow> None
     | Some pgdir \<Rightarrow> map_option P2V (translate (km_mem s) pgdir a))"

definition umem :: "'a kbase_scheme \<Rightarrow> mem" where
  "umem s a = (case umap s a of Some k \<Rightarrow> km_mem s k | None \<Rightarrow> 0)"

definition umapped :: "'a kbase_scheme \<Rightarrow> u32 \<Rightarrow> nat \<Rightarrow> bool" where
  "umapped s a n \<longleftrightarrow> (\<forall>k<n. umap s (a + of_nat k) \<noteq> None)"

text \<open>The test \<^verbatim>\<open>if(... < 0) return -1\<close> around a call that may fail.\<close>

definition ktry :: "('s, 'a option) km \<Rightarrow> 'b \<Rightarrow> ('a \<Rightarrow> ('s, 'b) km) \<Rightarrow> ('s, 'b) km" where
  "ktry m e k = kbind m (\<lambda>r. case r of None \<Rightarrow> kret e | Some x \<Rightarrow> k x)"

section \<open>Arguments\<close>

definition fetchint :: "u32 \<Rightarrow> ('a ksys_scheme, u32 option) km" where
  "fetchint addr = (\<lambda>s. let sz = p_sz (myproc s) in
     if addr \<ge> sz \<or> addr + 4 > sz then Ok None s
     else if \<not> umapped s addr 4 then Panic ''trap''
     else Ok (Some (load32 (umem s) addr)) s)"

definition fetchstr :: "u32 \<Rightarrow> ('a ksys_scheme, cstring option) km" where
  "fetchstr addr = (\<lambda>s. let sz = p_sz (myproc s) in
     if addr \<ge> sz then Ok None s
     else case findi (\<lambda>k. umap s (addr + of_nat k) = None \<or> umem s (addr + of_nat k) = 0) (unat sz - unat addr) of
       Some len \<Rightarrow>
         if umap s (addr + of_nat len) = None then Panic ''trap''
         else Ok (Some (map (\<lambda>k. umem s (addr + of_nat k)) [0..<len])) s
     | None \<Rightarrow> Ok None s)"

definition argint :: "nat \<Rightarrow> ('a ksys_scheme, u32 option) km" where
  "argint n = (\<lambda>s. fetchint (tf_esp (p_tf (myproc s)) + 4 + 4 * of_nat n) s)"

definition argptr :: "nat \<Rightarrow> int \<Rightarrow> ('a ksys_scheme, u32 option) km" where
  "argptr n sz =
     ktry (argint n) None (\<lambda>i s.
       if sz < 0 \<or> i \<ge> p_sz (myproc s) \<or> i + of_int sz > p_sz (myproc s) then Ok None s
       else Ok (Some i) s)"

definition argstr :: "nat \<Rightarrow> ('a ksys_scheme, cstring option) km" where
  "argstr n = ktry (argint n) None fetchstr"

section \<open>System calls on processes\<close>

definition sys_kill :: "('a ksys_scheme, int) km" where
  "sys_kill = ktry (argint 0) (-1) (\<lambda>pid. kill (sint pid))"

definition sys_getpid :: "('a ksys_scheme, int) km" where
  "sys_getpid = kget (\<lambda>s. p_pid (myproc s))"

definition sys_sleep_loop :: "u32 \<Rightarrow> u32 \<Rightarrow> ('a ksys_scheme, int) km" where
  "sys_sleep_loop n ticks0 = (\<lambda>s.
     if ticks s - ticks0 < n then
       (if p_killed (myproc s) then Ok (-1) s else sleep ChTicks s)
     else Ok 0 s)"

definition sys_sleep :: "('a ksys_scheme, int) km" where
  "sys_sleep = ktry (argint 0) (-1) (\<lambda>n. kbind (kget ticks) (\<lambda>ticks0. sys_sleep_loop n ticks0))"

definition sys_uptime :: "('a ksys_scheme, int) km" where
  "sys_uptime = kget (\<lambda>s. sint (ticks s))"

definition sys_getuid :: "('a ksys_scheme, int) km" where
  "sys_getuid = kget (\<lambda>s. sint (p_uid (myproc s)))"

definition sys_geteuid :: "('a ksys_scheme, int) km" where
  "sys_geteuid = kget (\<lambda>s. sint (p_euid (myproc s)))"

definition sys_setuid :: "('a ksys_scheme, int) km" where
  "sys_setuid = kif (\<lambda>s. p_euid (myproc s) = 0)
     (ktry (argint 0) (-1) (\<lambda>newid.
       kthen (kmod (\<lambda>s. upd_proc (cur s) (\<lambda>p. p\<lparr>p_uid := newid, p_euid := newid\<rparr>) s))
       (kret 0)))
     (kret (-1))"

text \<open>
  A negative \<^verbatim>\<open>ngroups\<close> passes the test of \<^verbatim>\<open>argptr\<close> when \<^verbatim>\<open>ngroups * 4\<close> wraps around to a
  small number; the second loop then stores in front of the array, which C leaves undefined.
\<close>

definition sys_setgrps :: "('a ksys_scheme, int) km" where
  "sys_setgrps = kif (\<lambda>s. p_euid (myproc s) = 0)
     (ktry (argint 0) (-1) (\<lambda>ngroups.
      ktry (argptr 1 (sint (ngroups * 4))) (-1) (\<lambda>gids.
      let n = (if sint ngroups > int MAXGROUPS then int MAXGROUPS else sint ngroups) in
      if n < 0 then kpanic ''undefined: store to gids[-1]''
      else
        kthen (kassert ''trap'' (\<lambda>s. umapped s gids (4 * nat n)))
       (kthen (kmod (\<lambda>s. upd_proc (cur s) (\<lambda>p. p\<lparr>p_ngroups := n,
            p_gids := (\<lambda>i. if int i < n then load32 (umem s) (gids + 4 * of_nat i)
                           else if i < MAXGROUPS then 0 else p_gids p i)\<rparr>) s))
        (kret 0)))))
     (kret (-1))"

section \<open>Bounds of fetched arguments\<close>

text \<open>Process memory ends below the kernel.\<close>

definition sz_ok :: "'a kbase_scheme \<Rightarrow> bool" where
  "sz_ok s \<longleftrightarrow> p_sz (myproc s) \<le> KERNBASE"

lemma fetchint_unchanged: "fetchint a s = Ok r t \<Longrightarrow> t = s"
  by (auto simp: fetchint_def Let_def split: if_splits)

lemma argint_unchanged: "argint n s = Ok r t \<Longrightarrow> t = s"
  by (simp add: argint_def fetchint_unchanged)

lemma fetchint_bounds:
  assumes "sz_ok s" "fetchint a s = Ok (Some w) t"
  shows "unat a + 4 \<le> unat (p_sz (myproc s))" "w = load32 (umem s) a"
proof -
  have a: "a < p_sz (myproc s)" "a + 4 \<le> p_sz (myproc s)" and "w = load32 (umem s) a"
    using assms(2) by (auto simp: fetchint_def Let_def not_le not_less split: if_splits)
  then show "w = load32 (umem s) a" by simp
  have "unat a + 4 < 2 ^ 32" using a(1) assms(1) by (simp add: sz_ok_def word_less_nat_alt word_le_nat_alt)
  then have "unat (a + 4) = unat a + 4" by (simp add: unat_word_ariths(1))
  then show "unat a + 4 \<le> unat (p_sz (myproc s))" using a(2) by (simp add: word_le_nat_alt)
qed

lemma argptr_bounds:
  assumes "sz_ok s" "sz < 2 ^ 31" "argptr n sz s = Ok (Some p) t"
  shows "t = s" "0 \<le> sz" "p < p_sz (myproc s)" "int (unat p) + sz \<le> int (unat (p_sz (myproc s)))"
proof -
  from assms(3) obtain a u where a: "argint n s = Ok a u" and k: "(case a of None \<Rightarrow> kret None | Some i \<Rightarrow> \<lambda>s.
      if sz < 0 \<or> i \<ge> p_sz (myproc s) \<or> i + of_int sz > p_sz (myproc s) then Ok None s else Ok (Some i) s) u = Ok (Some p) t"
    by (auto simp: argptr_def ktry_def kbind_Ok_iff)
  have us: "u = s" using argint_unchanged[OF a] .
  then have h: "t = s" "0 \<le> sz" "p < p_sz (myproc s)" "p + of_int sz \<le> p_sz (myproc s)"
    using k by (auto simp: kret_apply not_le not_less split: option.splits if_splits)
  then show "t = s" "0 \<le> sz" "p < p_sz (myproc s)" by simp_all
  have "unat p < 2 ^ 31" using h(3) assms(1) by (simp add: sz_ok_def word_less_nat_alt word_le_nat_alt)
  moreover have "unat (of_int sz :: u32) = nat sz"
    using h(2) assms(2) unat_of_nat32[of "nat sz"] by (simp add: nat_less_iff)
  ultimately have "unat (p + of_int sz) = unat p + nat sz"
    using assms(2) h(2) by (simp add: unat_word_ariths(1))
  then have "unat p + nat sz \<le> unat (p_sz (myproc s))" using h(4) by (simp add: word_le_nat_alt)
  then show "int (unat p) + sz \<le> int (unat (p_sz (myproc s)))" using h(2) by linarith
qed

section \<open>Properties\<close>

text \<open>
  A process of two pages: its page directory is at \<open>0x80400000\<close>, its page table in the next
  page, its memory in the two pages after that.
\<close>

definition ex_pages :: mem where
  "ex_pages = store32 (store32 (store32 (\<lambda>_. 0) 0x80400000 0x401007) 0x80401000 0x402007) 0x80401004 0x403007"

definition ex_proc :: "u32 \<Rightarrow> proc" where
  "ex_proc u = zero_proc\<lparr>p_sz := 8192, p_pgdir := Some 0x80400000, p_uid := u, p_euid := u\<rparr>"

definition ex_ksys :: ksys where
  "ex_ksys = kfile.extend (zero_kfile\<lparr>km_mem := ex_pages, ptable := (\<lambda>_. ex_proc 5)\<rparr>) (ksys.fields 0)"

text \<open>
  C8. A buffer that \<^verbatim>\<open>argptr\<close> accepts lies inside the memory of the process: no pointer and no
  length, however chosen, makes the kernel read or write outside it, and the test itself
  cannot be fooled by wrap-around. The process memory must end below the kernel.
\<close>

theorem argptr_safe:
  assumes "sz_ok s" "sz < 2 ^ 31" "argptr n sz s = Ok (Some p) t"
  shows "t = s \<and> 0 \<le> sz \<and> p < p_sz (myproc s) \<and>
    (\<forall>k. int k < sz \<longrightarrow> p + of_nat k < p_sz (myproc s) \<and> unat (p + of_nat k) = unat p + k)"
proof -
  note h = argptr_bounds[OF assms]
  have "p + of_nat k < p_sz (myproc s) \<and> unat (p + of_nat k) = unat p + k" if k: "int k < sz" for k
  proof -
    have lt: "unat p + nat sz \<le> unat (p_sz (myproc s))" using h(2,4) by linarith
    then have "unat p + nat sz \<le> 2 ^ 32" using unat_bounds(3)[of "p_sz (myproc s)"] by linarith
    from addr_nat[OF this, of k] k have u: "unat (p + of_nat k) = unat p + k" by linarith
    moreover have "unat p + k < unat (p_sz (myproc s))" using lt k by linarith
    ultimately show ?thesis by (simp add: word_less_nat_alt)
  qed
  with h show ?thesis by blast
qed

lemma ex_ksys_simps [simp]:
  "ptable ex_ksys = (\<lambda>_. ex_proc 5)" "cur ex_ksys = 0" "km_mem ex_ksys = ex_pages"
  by (simp_all add: ex_ksys_def kfile.defs ksys.defs zero_kfile_def)

lemma ex_translate:
  assumes "load32 m 0x80400000 = 0x401007" "load32 m 0x80401000 = 0x402007" "va < 4096"
  shows "translate m 0x80400000 va = Some (0x402000 OR (va AND 0xFFF))"
proof -
  have "drop_bit 12 va = 0" "drop_bit 22 va = 0"
    using assms(3) by (simp_all add: drop_bit_eq_div word_less_nat_alt word_unat_eq_iff unat_div)
  then have "PDX va = 0" "PTX va = 0" by (simp_all add: PDX_def PTX_def)
  then show ?thesis
    using assms(1,2) by (simp add: translate_def Let_def present_def P2V_def PTE_ADDR_def)
qed

lemma ex_pages_load: "load32 ex_pages 0x80400000 = 0x401007" "load32 ex_pages 0x80401000 = 0x402007"
  by (simp_all add: ex_pages_def load32_def store32_def byte32_def)

lemma ex_ksys_umem: "a < 4096 \<Longrightarrow> umap ex_ksys a = Some (P2V (0x402000 OR (a AND 0xFFF)))"
  by (simp add: umap_def ex_proc_def ex_translate ex_pages_load)

theorem argptr_safe_witness:
  "argptr 0 16 ex_ksys = Ok (Some 0) ex_ksys \<and> unat (0 + of_nat 15 :: u32) = unat (0 :: u32) + 15"
proof -
  have a: "argptr 0 16 ex_ksys = Ok (Some 0) ex_ksys"
  proof -
    have m: "umapped ex_ksys 4 4"
      unfolding umapped_def
    proof (intro allI impI)
      fix k :: nat
      assume "k < 4"
      then have "k \<in> {0, 1, 2, 3}" by auto
      then show "umap ex_ksys (4 + of_nat k) \<noteq> None" by (auto simp: ex_ksys_umem)
    qed
    have "umem ex_ksys a = 0" if "a \<in> {4, 5, 6, 7}" for a
      using that by (auto simp: umem_def ex_ksys_umem P2V_def ex_pages_def store32_def byte32_def)
    then have "load32 (umem ex_ksys) 4 = 0" by (simp add: load32_def)
    then show ?thesis using m
      by (simp add: argptr_def argint_def fetchint_def ktry_def kbind_apply Let_def ex_proc_def zero_proc_def zero_tf_def)
  qed
  moreover have "sz_ok ex_ksys" by (simp add: sz_ok_def ex_proc_def)
  ultimately show ?thesis using argptr_safe[of ex_ksys 16 0 0 ex_ksys] by (auto simp del: of_nat_numeral)
qed

text \<open>
  Only the superuser changes identity: for any other process \<^verbatim>\<open>setuid\<close> and \<^verbatim>\<open>setgrps\<close> return -1
  and change nothing; for the superuser a successful \<^verbatim>\<open>setuid\<close> sets both the real and the effective
  user of the calling process to the argument, and no other process or field changes.
\<close>

theorem setuid_setgrps_privileged:
  "(p_euid (myproc s) \<noteq> 0 \<longrightarrow> sys_setuid s = Ok (-1) s \<and> sys_setgrps s = Ok (-1) s) \<and>
   (\<forall>t. p_euid (myproc s) = 0 \<and> sys_setuid s = Ok 0 t \<longrightarrow>
     (\<exists>u. argint 0 s = Ok (Some u) s \<and> t = upd_proc (cur s) (\<lambda>p. p\<lparr>p_uid := u, p_euid := u\<rparr>) s))"
proof (intro conjI allI impI)
  assume "p_euid (myproc s) \<noteq> 0"
  then show "sys_setuid s = Ok (-1) s" "sys_setgrps s = Ok (-1) s"
    by (simp_all add: sys_setuid_def sys_setgrps_def kif_apply kret_apply)
next
  fix t
  assume h: "p_euid (myproc s) = 0 \<and> sys_setuid s = Ok 0 t"
  then obtain r u where r: "argint 0 s = Ok r u" and k: "(case r of None \<Rightarrow> kret (-1 :: int) | Some x \<Rightarrow>
      kthen (kmod (\<lambda>s. upd_proc (cur s) (\<lambda>p. p\<lparr>p_uid := x, p_euid := x\<rparr>) s)) (kret 0)) u = Ok 0 t"
    by (auto simp: sys_setuid_def kif_apply ktry_def kbind_Ok_iff)
  have "u = s" using argint_unchanged[OF r] .
  then show "\<exists>u. argint 0 s = Ok (Some u) s \<and> t = upd_proc (cur s) (\<lambda>p. p\<lparr>p_uid := u, p_euid := u\<rparr>) s"
    using r k by (auto simp: kret_apply kthen_apply kmod_apply split: option.splits)
qed

theorem setuid_setgrps_privileged_witness: "sys_setuid ex_ksys = Ok (-1) ex_ksys"
  using setuid_setgrps_privileged[of ex_ksys] by (simp add: ex_proc_def)

text \<open>
  \<^verbatim>\<open>setgrps\<close> does not validate its count: with \<^verbatim>\<open>ngroups = 0x80000001\<close> the size passed to
  \<^verbatim>\<open>argptr\<close> wraps around to 4, the test passes for any valid pointer, and the loop that clears the
  remaining groups starts in front of the array.
\<close>

theorem setgrps_negative_count:
  assumes "p_euid (myproc s) = 0" "sz_ok s" "argint 0 s = Ok (Some 0x80000001) s"
    and "argint 1 s = Ok (Some p) s" "unat p + 4 \<le> unat (p_sz (myproc s))"
  shows "sys_setgrps s = Panic ''undefined: store to gids[-1]''"
proof -
  have lt: "p < p_sz (myproc s)" using assms(5) by (simp add: word_less_nat_alt)
  have "unat p + 4 < 2 ^ 32" using assms(2,5) by (simp add: sz_ok_def word_le_nat_alt)
  then have "unat (p + 4) = unat p + 4" by (simp add: unat_word_ariths(1))
  then have le: "p + 4 \<le> p_sz (myproc s)" using assms(5) by (simp add: word_le_nat_alt)
  have "argptr 1 4 s = Ok (Some p) s"
    using assms(4) lt le by (simp add: argptr_def ktry_def kbind_apply not_le not_less)
  then show ?thesis
    using assms(1,3) by (simp add: sys_setgrps_def kif_apply ktry_def kbind_apply kpanic_apply Let_def)
qed

definition ex_root :: ksys where
  "ex_root = kfile.extend (zero_kfile\<lparr>km_mem := ex_pages(0x80402004 := 1, 0x80402007 := 0x80),
     ptable := (\<lambda>_. ex_proc 0)\<rparr>) (ksys.fields 0)"

theorem setgrps_negative_count_witness: "sys_setgrps ex_root = Panic ''undefined: store to gids[-1]''"
proof (rule setgrps_negative_count[where p = 0])
  have f: "ptable ex_root = (\<lambda>_. ex_proc 0)" "cur ex_root = 0" "km_mem ex_root = ex_pages(0x80402004 := 1, 0x80402007 := 0x80)"
    by (simp_all add: ex_root_def kfile.defs ksys.defs zero_kfile_def)
  show "p_euid (myproc ex_root) = 0" "sz_ok ex_root" "unat (0 :: u32) + 4 \<le> unat (p_sz (myproc ex_root))"
    by (simp_all add: f ex_proc_def sz_ok_def)
  have l: "load32 (km_mem ex_root) 0x80400000 = 0x401007" "load32 (km_mem ex_root) 0x80401000 = 0x402007"
    by (simp_all add: f ex_pages_def load32_def store32_def byte32_def)
  have um: "umap ex_root a = Some (P2V (0x402000 OR (a AND 0xFFF)))" if "a < 4096" for a
    using that by (simp add: umap_def f(1,2) ex_proc_def ex_translate l)
  have m: "umapped ex_root a 4" if "a \<in> {4, 8}" for a
    unfolding umapped_def
  proof (intro allI impI)
    fix k :: nat
    assume "k < 4"
    then have "k \<in> {0, 1, 2, 3}" by auto
    then show "umap ex_root (a + of_nat k) \<noteq> None" using that by (auto simp: um)
  qed
  have "umem ex_root 4 = 1" "umem ex_root 5 = 0" "umem ex_root 6 = 0" "umem ex_root 7 = 0x80"
    "umem ex_root 8 = 0" "umem ex_root 9 = 0" "umem ex_root 10 = 0" "umem ex_root 11 = 0"
    by (simp_all add: umem_def um P2V_def f ex_pages_def store32_def byte32_def)
  then have "load32 (umem ex_root) 4 = 0x80000001" "load32 (umem ex_root) 8 = 0" by (simp_all add: load32_def)
  then show "argint 0 ex_root = Ok (Some 0x80000001) ex_root" "argint 1 ex_root = Ok (Some 0) ex_root"
    using m by (simp_all add: argint_def fetchint_def Let_def f ex_proc_def zero_proc_def zero_tf_def)
qed

end
