(* ===== verification/Sysfile.thy ===== *)
theory Sysfile
  imports Syscall
begin

text \<open>
  The file-system system calls (\<^verbatim>\<open>kernel/sysfile.c\<close>). Each is the whole handler, with its
  argument checks, its transaction and every error path; \<open>dv\<close> is the device switch.
  Buffers are read from and written to the memory of the calling process.
\<close>

section \<open>Descriptors\<close>

definition argfd :: "nat \<Rightarrow> ('a ksys_scheme, (nat \<times> nat) option) km" where
  "argfd n = ktry (argint n) None (\<lambda>w s.
     let fd = sint w in
     if fd < 0 \<or> fd \<ge> int NOFILE then Ok None s
     else case p_ofile (myproc s) (nat fd) of
       None \<Rightarrow> Ok None s
     | Some f \<Rightarrow> Ok (Some (nat fd, f)) s)"

definition fdalloc :: "nat \<Rightarrow> ('a ksys_scheme, nat option) km" where
  "fdalloc f = (\<lambda>s. case findi (\<lambda>fd. p_ofile (myproc s) fd = None) NOFILE of
       Some fd \<Rightarrow> Ok (Some fd) (upd_proc (cur s) (\<lambda>p. p\<lparr>p_ofile := (p_ofile p)(fd := Some f)\<rparr>) s)
     | None \<Rightarrow> Ok None s)"

text \<open>A buffer in user memory, and storing \<open>n\<close> bytes back.\<close>

definition ubuf :: "u32 \<Rightarrow> 'a kbase_scheme \<Rightarrow> bytes" where
  "ubuf p s = (\<lambda>k. umem s (p + of_nat k))"

definition store_ubuf :: "u32 \<Rightarrow> int \<Rightarrow> bytes \<Rightarrow> ('a kbase_scheme, unit) km" where
  "store_ubuf p n b =
     kthen (kassert ''trap'' (\<lambda>s. umapped s p (nat n)))
     (kmod (\<lambda>s. s\<lparr>km_mem := fold (\<lambda>k m. m(the (umap s (p + of_nat k)) := b k)) [0..<nat n] (km_mem s)\<rparr>))"

section \<open>Reading, writing, closing\<close>

definition sys_dup :: "('a ksys_scheme, int) km" where
  "sys_dup = ktry (argfd 0) (-1) (\<lambda>(_, f).
     ktry (fdalloc f) (-1) (\<lambda>fd.
     kthen (filedup f)
     (kret (int fd))))"

definition sys_read :: "'a ksys_scheme devsw \<Rightarrow> ('a ksys_scheme, int) km" where
  "sys_read dv = ktry (argfd 0) (-1) (\<lambda>(_, f).
     ktry (argint 2) (-1) (\<lambda>n.
     ktry (argptr 1 (sint n)) (-1) (\<lambda>p.
     kbind (\<lambda>s. fileread dv f (ubuf p s) (sint n) s) (\<lambda>(r, b).
     kthen (store_ubuf p r b)
     (kret r)))))"

definition sys_write :: "'a ksys_scheme devsw \<Rightarrow> ('a ksys_scheme, int) km" where
  "sys_write dv = ktry (argfd 0) (-1) (\<lambda>(_, f).
     ktry (argint 2) (-1) (\<lambda>n.
     ktry (argptr 1 (sint n)) (-1) (\<lambda>p.
     kthen (kassert ''trap'' (\<lambda>s. umapped s p (nat (sint n))))
     (\<lambda>s. filewrite dv f (ubuf p s) (sint n) s))))"

definition sys_close :: "('a ksys_scheme, int) km" where
  "sys_close = ktry (argfd 0) (-1) (\<lambda>(fd, f).
     kthen (kmod (\<lambda>s. upd_proc (cur s) (\<lambda>p. p\<lparr>p_ofile := (p_ofile p)(fd := None)\<rparr>) s))
    (kthen (fileclose f)
     (kret 0)))"

text \<open>\<^verbatim>\<open>struct stat\<close> in user memory: 40 bytes, the last one padding.\<close>

abbreviation (input) STAT :: int where "STAT \<equiv> 40"

definition get_stat :: "bytes \<Rightarrow> stat" where
  "get_stat b = \<lparr>st_type = le16 b 0, st_dev = unat (le32 b 4), st_ino = unat (le32 b 8), st_nlink = le16 b 12,
     st_size = le32 b 16, st_uid = le32 b 20, st_gid = le32 b 24, st_mode = (\<lambda>k. b (28 + k))\<rparr>"

definition put_stat :: "stat \<Rightarrow> bytes \<Rightarrow> bytes" where
  "put_stat st b = blit (put32 (put32 (put32 (put16 (put32 (put32 (put16 b 0 (st_type st)) 4 (of_nat (st_dev st)))
     8 (of_nat (st_ino st))) 12 (st_nlink st)) 16 (st_size st)) 20 (st_uid st)) 24 (st_gid st)) 28 (st_mode st) 0 11"

definition sys_fstat :: "('a ksys_scheme, int) km" where
  "sys_fstat = ktry (argfd 0) (-1) (\<lambda>(_, f).
     ktry (argptr 1 STAT) (-1) (\<lambda>p.
     kbind (\<lambda>s. filestat f (get_stat (ubuf p s)) s) (\<lambda>(r, st).
     kthen (kif (\<lambda>_. r = 0) (\<lambda>s. store_ubuf p STAT (put_stat st (ubuf p s)) s) (kret ()))
     (kret r))))"

section \<open>Links\<close>

text \<open>\<^verbatim>\<open>end_op(); return -1\<close>, \<^verbatim>\<open>iunlockput(ip); end_op(); return -1\<close>.\<close>

definition fail_op :: "('a kfs_scheme, int) km" where
  "fail_op = kthen end_op (kret (-1))"

definition fail_put :: "nat \<Rightarrow> ('a kfs_scheme, int) km" where
  "fail_put ip = kthen (iunlockput ip) fail_op"

definition sys_link_bad :: "nat \<Rightarrow> ('a kfs_scheme, int) km" where
  "sys_link_bad ip =
     kthen (ilock ip)
    (kthen (kmod (upd_inode ip (\<lambda>p. p\<lparr>i_nlink := i_nlink p - 1\<rparr>)))
    (kthen (iupdate ip)
     (fail_put ip)))"

definition sys_link :: "'a ksys_scheme devsw \<Rightarrow> ('a ksys_scheme, int) km" where
  "sys_link dv = ktry (argstr 0) (-1) (\<lambda>old. ktry (argstr 1) (-1) (\<lambda>new.
     kthen begin_op
    (kbind (namei dv old) (\<lambda>r. case r of None \<Rightarrow> fail_op | Some ip \<Rightarrow>
     kthen (ilock ip)
    (kif (\<lambda>s. i_type (icache s ip) = T_DIR) (fail_put ip)
    (kthen (kmod (upd_inode ip (\<lambda>p. p\<lparr>i_nlink := i_nlink p + 1\<rparr>)))
    (kthen (iupdate ip)
    (kthen (iunlock ip)
    (kbind (nameiparent dv new (\<lambda>_. 0)) (\<lambda>(r, name). case r of None \<Rightarrow> sys_link_bad ip | Some dp \<Rightarrow>
     kthen (ilock dp)
    (kbind (\<lambda>s. if i_dev (icache s dp) \<noteq> i_dev (icache s ip) then Ok (-1) s
                else dirlink dv dp name (i_inum (icache s ip)) s) (\<lambda>r.
     if r < 0 then kthen (iunlockput dp) (sys_link_bad ip)
     else kthen (iunlockput dp)
         (kthen (iput ip)
         (kthen end_op
          (kret 0)))))))))))))))"

function isdirempty_loop :: "'a kfs_scheme devsw \<Rightarrow> nat \<Rightarrow> nat \<Rightarrow> nat \<Rightarrow> ('a kfs_scheme, bool) km" where
  "isdirempty_loop dv dp n off =
     (if off < n then
        kbind (readi dv dp (\<lambda>_. 0) (of_nat off) (of_nat DIRENT)) (\<lambda>(r, de).
        kthen (kassert ''isdirempty: readi'' (\<lambda>_. r = int DIRENT))
       (if de_inum de \<noteq> 0 then kret False else isdirempty_loop dv dp n (off + DIRENT)))
      else kret True)"
  by pat_completeness auto
termination
  by (relation "measure (\<lambda>(dv, dp, n, off). n - off)") auto

declare isdirempty_loop.simps [simp del]

definition isdirempty :: "'a kfs_scheme devsw \<Rightarrow> nat \<Rightarrow> ('a kfs_scheme, bool) km" where
  "isdirempty dv dp = (\<lambda>s. isdirempty_loop dv dp (unat (i_size (icache s dp))) (2 * DIRENT) s)"

definition dot :: bytes where
  "dot = (\<lambda>k. if k = 0 then 46 else 0)"

definition dotdot :: bytes where
  "dotdot = (\<lambda>k. if k < 2 then 46 else 0)"

definition sys_unlink :: "'a ksys_scheme devsw \<Rightarrow> ('a ksys_scheme, int) km" where
  "sys_unlink dv = ktry (argstr 0) (-1) (\<lambda>path.
     kthen begin_op
    (kbind (nameiparent dv path (\<lambda>_. 0)) (\<lambda>(r, name). case r of None \<Rightarrow> fail_op | Some dp \<Rightarrow>
     kthen (ilock dp)
    (if namecmp name dot = 0 \<or> namecmp name dotdot = 0 then fail_put dp
     else kbind (dirlookup dv dp name) (\<lambda>r. case r of None \<Rightarrow> fail_put dp | Some (ip, off) \<Rightarrow>
     kthen (ilock ip)
    (kthen (kassert ''unlink: nlink < 1'' (\<lambda>s. \<not> sint (i_nlink (icache s ip)) < 1))
    (kbind (\<lambda>s. if i_type (icache s ip) = T_DIR then isdirempty dv ip s else Ok True s) (\<lambda>e.
     if \<not> e then kthen (iunlockput ip) (fail_put dp)
     else
      kbind (writei dv dp (\<lambda>_. 0) (of_nat off) (of_nat DIRENT)) (\<lambda>w.
      kthen (kassert ''unlink: writei'' (\<lambda>_. w = int DIRENT))
     (kthen (kif (\<lambda>s. i_type (icache s ip) = T_DIR)
         (kthen (kmod (upd_inode dp (\<lambda>p. p\<lparr>i_nlink := i_nlink p - 1\<rparr>))) (iupdate dp))
         (kret ()))
     (kthen (iunlockput dp)
     (kthen (kmod (upd_inode ip (\<lambda>p. p\<lparr>i_nlink := i_nlink p - 1\<rparr>)))
     (kthen (iupdate ip)
     (kthen (iunlockput ip)
     (kthen end_op
      (kret 0))))))))))))))))"

section \<open>Creating and opening\<close>

definition create :: "'a kfs_scheme devsw \<Rightarrow> cstring \<Rightarrow> u16 \<Rightarrow> u16 \<Rightarrow> u16 \<Rightarrow> ('a kfs_scheme, nat option) km" where
  "create dv path ty major minor =
     kbind (nameiparent dv path (\<lambda>_. 0)) (\<lambda>(r, name). case r of None \<Rightarrow> kret None | Some dp \<Rightarrow>
     kthen (ilock dp)
    (kbind (dirlookup dv dp name) (\<lambda>r. case r of
       Some (ip, _) \<Rightarrow>
         kthen (iunlockput dp)
        (kthen (ilock ip)
        (kif (\<lambda>s. ty = T_FILE \<and> i_type (icache s ip) = T_FILE \<or> i_type (icache s ip) = T_DEV)
           (kret (Some ip))
           (kthen (iunlockput ip) (kret None))))
     | None \<Rightarrow>
         kbind (\<lambda>s. ialloc (i_dev (icache s dp)) ty s) (\<lambda>ip.
         kthen (ilock ip)
        (kthen (kmod (\<lambda>s. upd_inode ip (\<lambda>p. p\<lparr>i_major := major, i_minor := minor, i_nlink := 1,
             i_uid := p_uid (myproc s), i_gid := p_uid (myproc s), i_mode := 420\<rparr>) s))
        (kthen (iupdate ip)
        (kthen (if ty = T_DIR then
             kthen (kmod (upd_inode dp (\<lambda>p. p\<lparr>i_nlink := i_nlink p + 1\<rparr>)))
            (kthen (kmod (upd_inode ip (\<lambda>p. p\<lparr>i_mode := 493\<rparr>)))
            (kthen (iupdate dp)
            (kbind (\<lambda>s. dirlink dv ip dot (i_inum (icache s ip)) s) (\<lambda>r1.
             if r1 < 0 then kpanic ''create dots''
             else kbind (\<lambda>s. dirlink dv ip dotdot (i_inum (icache s dp)) s) (\<lambda>r2.
               if r2 < 0 then kpanic ''create dots'' else kret ())))))
           else kret ())
        (kbind (\<lambda>s. dirlink dv dp name (i_inum (icache s ip)) s) (\<lambda>r.
         if r < 0 then kpanic ''create: dirlink''
         else kthen (iunlockput dp) (kret (Some ip)))))))))))"

text \<open>
  The permission test of \<^verbatim>\<open>open\<close>: the superuser, the mode bits for others, for the owner, or
  for one of the process's groups.
\<close>

definition open_ok :: "proc \<Rightarrow> inode \<Rightarrow> u32 \<Rightarrow> bool" where
  "open_ok p ip omode \<longleftrightarrow>
     \<not> (p_euid p \<noteq> 0 \<and> scast (i_mode ip) AND omode \<noteq> omode) \<or>
     \<not> (p_euid p \<noteq> i_uid ip \<or> scast (i_mode ip) AND push_bit 6 omode \<noteq> push_bit 6 omode) \<or>
     (\<exists>i < nat (p_ngroups p). p_gids p i = i_gid ip \<and> scast (i_mode ip) AND push_bit 3 omode = push_bit 3 omode)"

abbreviation (input) O_RDONLY :: u32 where "O_RDONLY \<equiv> 4"
abbreviation (input) O_WRONLY :: u32 where "O_WRONLY \<equiv> 2"
abbreviation (input) O_CREATE :: u32 where "O_CREATE \<equiv> 56"

definition open_inode :: "'a ksys_scheme devsw \<Rightarrow> cstring \<Rightarrow> u32 \<Rightarrow> ('a ksys_scheme, nat option) km" where
  "open_inode dv path omode =
     (if omode AND O_CREATE \<noteq> 0 then create dv path T_FILE 0 0
      else kbind (namei dv path) (\<lambda>r. case r of None \<Rightarrow> kret None | Some ip \<Rightarrow>
        kthen (ilock ip)
       (kif (\<lambda>s. \<not> open_ok (myproc s) (icache s ip) omode)
         (kthen (iunlockput ip) (kret None))
         (kif (\<lambda>s. i_type (icache s ip) = T_DIR \<and> omode \<noteq> O_RDONLY)
           (kthen (iunlockput ip) (kret None))
           (kret (Some ip))))))"

definition sys_open :: "'a ksys_scheme devsw \<Rightarrow> ('a ksys_scheme, int) km" where
  "sys_open dv = ktry (argstr 0) (-1) (\<lambda>path. ktry (argint 1) (-1) (\<lambda>omode.
     kthen begin_op
    (kbind (open_inode dv path omode) (\<lambda>r. case r of None \<Rightarrow> fail_op | Some ip \<Rightarrow>
     kbind filealloc (\<lambda>r. case r of None \<Rightarrow> fail_put ip | Some f \<Rightarrow>
     kbind (fdalloc f) (\<lambda>r. case r of None \<Rightarrow> kthen (fileclose f) (fail_put ip) | Some fd \<Rightarrow>
     kthen (iunlock ip)
    (kthen end_op
    (kthen (kmod (upd_file f (\<lambda>x. x\<lparr>f_type := FD_INODE, f_ip := Some ip, f_off := 0,
         f_readable := (omode AND O_RDONLY \<noteq> 0), f_writable := (omode AND O_WRONLY \<noteq> 0)\<rparr>)))
     (kret (int fd))))))))))"

definition sys_mkdir :: "'a ksys_scheme devsw \<Rightarrow> ('a ksys_scheme, int) km" where
  "sys_mkdir dv = kthen begin_op
    (kbind (ktry (argstr 0) None (\<lambda>path. create dv path T_DIR 0 0)) (\<lambda>r. case r of None \<Rightarrow> fail_op | Some ip \<Rightarrow>
     kthen (iunlockput ip)
    (kthen end_op
     (kret 0))))"

definition sys_mknod :: "'a ksys_scheme devsw \<Rightarrow> ('a ksys_scheme, int) km" where
  "sys_mknod dv = kthen begin_op
    (kbind (ktry (argstr 0) None (\<lambda>path. ktry (argint 1) None (\<lambda>major. ktry (argint 2) None (\<lambda>minor.
       create dv path T_DEV (ucast major) (ucast minor))))) (\<lambda>r. case r of None \<Rightarrow> fail_op | Some ip \<Rightarrow>
     kthen (iunlockput ip)
    (kthen end_op
     (kret 0))))"

definition sys_chdir :: "'a ksys_scheme devsw \<Rightarrow> ('a ksys_scheme, int) km" where
  "sys_chdir dv = kthen begin_op
    (kbind (ktry (argstr 0) None (namei dv)) (\<lambda>r. case r of None \<Rightarrow> fail_op | Some ip \<Rightarrow>
     kthen (ilock ip)
    (kif (\<lambda>s. i_type (icache s ip) \<noteq> T_DIR) (fail_put ip)
    (kif (\<lambda>s. \<not> dir_search_ok (myproc s) (icache s ip)) (fail_put ip)
    (kthen (iunlock ip)
    (kthen (\<lambda>s. deref (p_cwd (myproc s)) iput s)
    (kthen end_op
    (kthen (kmod (\<lambda>s. upd_proc (cur s) (\<lambda>p. p\<lparr>p_cwd := Some ip\<rparr>) s))
     (kret 0)))))))))"

definition sys_pipe :: "('a ksys_scheme, int) km" where
  "sys_pipe = ktry (argptr 0 8) (-1) (\<lambda>fd.
     ktry pipealloc (-1) (\<lambda>(rf, wf).
     kbind (fdalloc rf) (\<lambda>r. case r of
       None \<Rightarrow> kthen (fileclose rf) (kthen (fileclose wf) (kret (-1)))
     | Some fd0 \<Rightarrow>
       kbind (fdalloc wf) (\<lambda>r. case r of
         None \<Rightarrow>
           kthen (kmod (\<lambda>s. upd_proc (cur s) (\<lambda>p. p\<lparr>p_ofile := (p_ofile p)(fd0 := None)\<rparr>) s))
          (kthen (fileclose rf) (kthen (fileclose wf) (kret (-1))))
       | Some fd1 \<Rightarrow>
           kthen (\<lambda>s. store_ubuf fd 8 (put32 (put32 (ubuf fd s) 0 (of_nat fd0)) 4 (of_nat fd1)) s)
           (kret 0)))))"

section \<open>Attributes and offsets\<close>

definition sys_chmod :: "'a ksys_scheme devsw \<Rightarrow> ('a ksys_scheme, int) km" where
  "sys_chmod dv = ktry (argstr 0) (-1) (\<lambda>path. ktry (argint 1) (-1) (\<lambda>mode.
     kthen begin_op
    (kbind (namei dv path) (\<lambda>r. case r of None \<Rightarrow> fail_op | Some ip \<Rightarrow>
     kif (\<lambda>s. p_euid (myproc s) \<noteq> 0 \<and> i_uid (icache s ip) \<noteq> p_uid (myproc s)) fail_op
    (kthen (ilock ip)
    (kthen (kmod (upd_inode ip (\<lambda>p. p\<lparr>i_mode := ucast mode\<rparr>)))
    (kthen (iupdate ip)
    (kthen (iunlock ip)
    (kthen end_op
     (kret 0))))))))))"

definition sys_chown :: "'a ksys_scheme devsw \<Rightarrow> ('a ksys_scheme, int) km" where
  "sys_chown dv = ktry (argstr 0) (-1) (\<lambda>path. ktry (argint 1) (-1) (\<lambda>owner. ktry (argint 2) (-1) (\<lambda>group.
     kif (\<lambda>s. p_euid (myproc s) \<noteq> 0) (kret (-1))
    (kthen begin_op
    (kbind (namei dv path) (\<lambda>r. case r of None \<Rightarrow> fail_op | Some ip \<Rightarrow>
     kthen (ilock ip)
    (kthen (kmod (upd_inode ip (\<lambda>p. p\<lparr>i_uid := owner, i_gid := group\<rparr>)))
    (kthen (iupdate ip)
    (kthen (iunlock ip)
    (kthen end_op
     (kret 0)))))))))))"

abbreviation (input) SEEK_SET :: u32 where "SEEK_SET \<equiv> 0"
abbreviation (input) SEEK_CUR :: u32 where "SEEK_CUR \<equiv> 1"
abbreviation (input) SEEK_END :: u32 where "SEEK_END \<equiv> 2"

definition sys_lseek :: "('a ksys_scheme, int) km" where
  "sys_lseek = ktry (argfd 0) (-1) (\<lambda>(_, f). ktry (argint 1) (-1) (\<lambda>offset. ktry (argint 2) (-1) (\<lambda>whence.
     kthen (if whence = SEEK_SET then kmod (upd_file f (\<lambda>x. x\<lparr>f_off := offset\<rparr>))
            else if whence = SEEK_CUR then kmod (upd_file f (\<lambda>x. x\<lparr>f_off := f_off x + offset\<rparr>))
            else if whence = SEEK_END then
              (\<lambda>s. deref (f_ip (ftable s f)) (\<lambda>ip.
                 kmod (\<lambda>s. upd_file f (\<lambda>x. x\<lparr>f_off := i_size (icache s ip) + offset\<rparr>) s)) s)
            else kret ())
     (kret 0))))"

definition sys_trim :: "('a ksys_scheme, int) km" where
  "sys_trim = ktry (argfd 0) (-1) (\<lambda>(_, f).
     kthen begin_op
     (\<lambda>s. deref (f_ip (ftable s f)) (\<lambda>ip.
        kthen (ilock ip)
       (kthen (kmod (\<lambda>s. upd_inode ip (\<lambda>p. p\<lparr>i_size := f_off (ftable s f)\<rparr>) s))
       (kthen (iupdate ip)
       (kthen (iunlock ip)
       (kthen end_op
        (kret 0)))))) s))"

end
