(* ===== verification/Proc.thy ===== *)
theory Proc
  imports Sysfile
begin

text \<open>
  The life cycle of processes (\<^verbatim>\<open>kernel/proc.c\<close>) and the system calls on it.

  \<open>nextpid\<close> and \<open>initproc\<close> are the static variables of that file. The trap frame is a field of
  the process here; in the code it lies on the kernel stack, which this model allocates but
  does not fill. \<^verbatim>\<open>exit\<close> ends in the scheduler: its result is the state at the context switch.
\<close>

record kproc = ksys +
  nextpid :: int
  initproc :: "nat option"
  forkret_first :: bool

text \<open>A pointer held in a field, as an address.\<close>

definition addr_of :: "u32 option \<Rightarrow> u32" where
  "addr_of p = (case p of None \<Rightarrow> 0 | Some a \<Rightarrow> a)"

section \<open>Creation\<close>

definition allocproc :: "('a kproc_scheme, nat option) km" where
  "allocproc = (\<lambda>s.
     case findi (\<lambda>i. p_state (ptable s i) = UNUSED) NPROC of
       None \<Rightarrow> Ok None s
     | Some p \<Rightarrow>
         kthen (kmod (\<lambda>s. (upd_proc p (\<lambda>x. x\<lparr>p_state := EMBRYO, p_pid := nextpid s\<rparr>) s)\<lparr>nextpid := nextpid s + 1\<rparr>))
        (kbind kalloc (\<lambda>k.
         if k = 0 then
           kthen (kmod (upd_proc p (\<lambda>x. x\<lparr>p_kstack := None, p_state := UNUSED\<rparr>))) (kret None)
         else
           kthen (kmod (upd_proc p (\<lambda>x. x\<lparr>p_kstack := Some k\<rparr>))) (kret (Some p)))) s)"

text \<open>\<^verbatim>\<open>(SEG_UCODE << 3) | DPL_USER\<close>, \<^verbatim>\<open>(SEG_UDATA << 3) | DPL_USER\<close>, \<^verbatim>\<open>FL_IF\<close>.\<close>

definition user_tf :: trapframe where
  "user_tf = zero_tf\<lparr>tf_cs := 27, tf_ds := 35, tf_es := 35, tf_ss := 35, tf_eflags := 0x200,
     tf_esp := PGSIZE, tf_eip := 0\<rparr>"

definition initcode_name :: bytes where
  "initcode_name = (\<lambda>k. if k < 8 then [105, 110, 105, 116, 99, 111, 100, 101] ! k else 0)"

definition userinit :: "'a kproc_scheme devsw \<Rightarrow> bytes \<Rightarrow> u32 \<Rightarrow> ('a kproc_scheme, unit) km" where
  "userinit dv code codesize =
     kbind allocproc (\<lambda>r. deref r (\<lambda>p.
     kthen (kmod (\<lambda>s. s\<lparr>initproc := Some p\<rparr>))
    (kbind setupkvm (\<lambda>d.
     if d = 0 then kpanic ''userinit: out of memory?''
     else
       kthen (kmod (upd_proc p (\<lambda>x. x\<lparr>p_pgdir := Some d\<rparr>)))
      (kthen (inituvm d code codesize)
      (kthen (kmod (upd_proc p (\<lambda>x. x\<lparr>p_sz := PGSIZE, p_uid := 0, p_euid := 0, p_tf := user_tf,
           p_name := safestrcpy (p_name x) initcode_name 16\<rparr>)))
      (kbind (namei dv [SLASH]) (\<lambda>ip.
       kthen (kmod (upd_proc p (\<lambda>x. x\<lparr>p_cwd := ip\<rparr>)))
       (kmod (upd_proc p (\<lambda>x. x\<lparr>p_state := RUNNABLE\<rparr>)))))))))))"

text \<open>\<^verbatim>\<open>switchuvm\<close> loads registers; it panics on a process without stack or page directory.\<close>

definition switchuvm :: "nat \<Rightarrow> ('a kbase_scheme, unit) km" where
  "switchuvm p =
     kthen (kassert ''switchuvm: no kstack'' (\<lambda>s. p_kstack (ptable s p) \<noteq> None))
     (kassert ''switchuvm: no pgdir'' (\<lambda>s. p_pgdir (ptable s p) \<noteq> None))"

definition growproc :: "u32 \<Rightarrow> ('a kbase_scheme, int) km" where
  "growproc n = (\<lambda>s.
     let sz = p_sz (myproc s); pgdir = addr_of (p_pgdir (myproc s)) in
     kbind (if sint n > 0 then
              kbind (allocuvm pgdir sz (sz + n)) (\<lambda>r. kret (if r = 0 then None else Some r))
            else if sint n < 0 then
              kbind (deallocuvm pgdir sz (sz + n)) (\<lambda>r. kret (if r = 0 then None else Some r))
            else kret (Some sz)) (\<lambda>r. case r of
       None \<Rightarrow> kret (-1)
     | Some sz \<Rightarrow>
         kthen (kmod (\<lambda>s. upd_proc (cur s) (\<lambda>p. p\<lparr>p_sz := sz\<rparr>) s))
        (kthen (\<lambda>s. switchuvm (cur s) s)
         (kret 0))) s)"

definition fork_file :: "nat \<Rightarrow> nat \<Rightarrow> ('a kproc_scheme, unit) km" where
  "fork_file np i = (\<lambda>s. case p_ofile (myproc s) i of
       None \<Rightarrow> Ok () s
     | Some f \<Rightarrow> kbind (filedup f) (\<lambda>f. kmod (upd_proc np (\<lambda>x. x\<lparr>p_ofile := (p_ofile x)(i := Some f)\<rparr>))) s)"

definition fork_copy :: "nat \<Rightarrow> u32 \<Rightarrow> 'a kproc_scheme \<Rightarrow> 'a kproc_scheme" where
  "fork_copy np d s = (let c = myproc s in
     upd_proc np (\<lambda>x. x\<lparr>p_pgdir := Some d, p_sz := p_sz c, p_parent := Some (cur s), p_uid := p_uid c, p_euid := p_euid c,
       p_ngroups := p_ngroups c, p_tf := (p_tf c)\<lparr>tf_eax := 0\<rparr>,
       p_gids := (\<lambda>i. if i < MAXGROUPS then p_gids c i else p_gids x i)\<rparr>) s)"

definition fork :: "('a kproc_scheme, int) km" where
  "fork =
     kbind allocproc (\<lambda>r. case r of None \<Rightarrow> kret (-1) | Some np \<Rightarrow>
     kbind (\<lambda>s. copyuvm (addr_of (p_pgdir (myproc s))) (p_sz (myproc s)) s) (\<lambda>d.
     if d = 0 then
       kthen (\<lambda>s. kfree (addr_of (p_kstack (ptable s np))) s)
      (kthen (kmod (upd_proc np (\<lambda>x. x\<lparr>p_pgdir := None, p_kstack := None, p_state := UNUSED\<rparr>)))
       (kret (-1)))
     else
       kthen (kmod (fork_copy np d))
      (kthen (kfor (fork_file np) [0..<NOFILE])
      (kbind (\<lambda>s. deref (p_cwd (myproc s)) idup s) (\<lambda>c.
       kthen (kmod (upd_proc np (\<lambda>x. x\<lparr>p_cwd := Some c\<rparr>)))
      (kthen (kmod (\<lambda>s. upd_proc np (\<lambda>x. x\<lparr>p_name := safestrcpy (p_name x) (p_name (myproc s)) 16\<rparr>) s))
      (kthen (kmod (upd_proc np (\<lambda>x. x\<lparr>p_state := RUNNABLE\<rparr>)))
       (kget (\<lambda>s. p_pid (ptable s np))))))))))"

section \<open>Termination\<close>

definition exit_close :: "nat \<Rightarrow> ('a kproc_scheme, unit) km" where
  "exit_close fd = (\<lambda>s. case p_ofile (myproc s) fd of
       None \<Rightarrow> Ok () s
     | Some f \<Rightarrow> kthen (fileclose f)
         (kmod (\<lambda>s. upd_proc (cur s) (\<lambda>p. p\<lparr>p_ofile := (p_ofile p)(fd := None)\<rparr>) s)) s)"

definition reparent :: "nat \<Rightarrow> 'a kproc_scheme \<Rightarrow> 'a kproc_scheme" where
  "reparent i s =
     (if p_parent (ptable s i) = Some (cur s) then
        let t = upd_proc i (\<lambda>p. p\<lparr>p_parent := initproc s\<rparr>) s in
        if p_state (ptable t i) = ZOMBIE then wakeup1 (map_option ChProc (initproc s)) t else t
      else s)"

definition kexit :: "('a kproc_scheme, unit) km" where
  "kexit =
     kthen (kassert ''init exiting'' (\<lambda>s. initproc s \<noteq> Some (cur s)))
    (kthen (kfor exit_close [0..<NOFILE])
    (kthen begin_op
    (kthen (\<lambda>s. deref (p_cwd (myproc s)) iput s)
    (kthen end_op
    (kthen (kmod (\<lambda>s. upd_proc (cur s) (\<lambda>p. p\<lparr>p_cwd := None\<rparr>) s))
    (kthen (kmod (\<lambda>s. wakeup1 (map_option ChProc (p_parent (myproc s))) s))
    (kthen (kfor (\<lambda>i. kmod (reparent i)) [0..<NPROC])
     (kmod (\<lambda>s. upd_proc (cur s) (\<lambda>p. p\<lparr>p_state := ZOMBIE\<rparr>) s)))))))))"

definition kwait :: "('a kproc_scheme, int) km" where
  "kwait = (\<lambda>s.
     case findi (\<lambda>i. p_parent (ptable s i) = Some (cur s) \<and> p_state (ptable s i) = ZOMBIE) NPROC of
       Some p \<Rightarrow>
         kthen (kfree (addr_of (p_kstack (ptable s p))))
        (kthen (kmod (upd_proc p (\<lambda>x. x\<lparr>p_kstack := None\<rparr>)))
        (kthen (freevm (addr_of (p_pgdir (ptable s p))))
        (kthen (kmod (upd_proc p (\<lambda>x. x\<lparr>p_pid := 0, p_parent := None, p_name := (p_name x)(0 := 0),
             p_killed := False, p_state := UNUSED\<rparr>)))
         (kret (p_pid (ptable s p)))))) s
     | None \<Rightarrow>
        if findi (\<lambda>i. p_parent (ptable s i) = Some (cur s)) NPROC = None \<or> p_killed (myproc s) then Ok (-1) s
        else sleep (ChProc (cur s)) s)"

section \<open>Scheduling\<close>

text \<open>
  The body of the scheduler's loop over the table, from slot \<open>i\<close> on: the next process that can
  run, and the state in which it runs. \<open>None\<close> ends the pass.
\<close>

definition schedule_from :: "nat \<Rightarrow> ('a kproc_scheme, nat option) km" where
  "schedule_from i = (\<lambda>s.
     case find (\<lambda>p. p_state (ptable s p) = RUNNABLE) [i..<NPROC] of
       None \<Rightarrow> Ok None s
     | Some p \<Rightarrow>
         kthen (kmod (\<lambda>s. s\<lparr>cur := p\<rparr>))
        (kthen (switchuvm p)
        (kthen (kmod (upd_proc p (\<lambda>x. x\<lparr>p_state := RUNNING\<rparr>)))
         (kret (Some p)))) s)"

definition yield :: "('a kproc_scheme, unit) km" where
  "yield = kmod (\<lambda>s. upd_proc (cur s) (\<lambda>p. p\<lparr>p_state := RUNNABLE\<rparr>) s)"

text \<open>The first process to be scheduled initialises the inode cache and recovers the log.\<close>

definition forkret :: "('a kproc_scheme, unit) km" where
  "forkret = (\<lambda>s.
     if forkret_first s then
       kthen (kmod (\<lambda>s. s\<lparr>forkret_first := False\<rparr>)) (kthen (iinit ROOTDEV) (initlog ROOTDEV)) s
     else Ok () s)"

section \<open>System calls\<close>

definition sys_fork :: "('a kproc_scheme, int) km" where
  "sys_fork = fork"

definition sys_exit :: "('a kproc_scheme, int) km" where
  "sys_exit = kthen kexit (kret 0)"

definition sys_wait :: "('a kproc_scheme, int) km" where
  "sys_wait = kwait"

definition sys_sbrk :: "('a kproc_scheme, int) km" where
  "sys_sbrk = ktry (argint 0) (-1) (\<lambda>n.
     kbind (kget (\<lambda>s. sint (p_sz (myproc s)))) (\<lambda>addr.
     kbind (growproc n) (\<lambda>r. if r < 0 then kret (-1) else kret addr)))"

end
