(* ===== verification/Console.thy ===== *)
theory Console
  imports Proc
begin

text \<open>
  The console (\<^verbatim>\<open>kernel/console.c\<close>) and the serial port it copies its output to
  (\<^verbatim>\<open>kernel/uart.c\<close>). The screen is the CGA memory \<open>crt\<close> with the cursor register; the serial
  line is the list of bytes sent. Input is a ring of 128 characters with three counters: read,
  write (the end of the lines that may be read) and edit (the end of the line being typed).

  \<^verbatim>\<open>consoleintr\<close> takes the characters its argument \<^verbatim>\<open>getc\<close> returns before the negative one;
  it says whether a process listing was asked for. Freezing the other CPUs after a panic
  is not represented: a panic ends the run. A store past the end of an array, which C leaves
  undefined, is a panic here.
\<close>

record kcons = kproc +
  uart :: bool
  uart_out :: "u8 list"
  crt :: "nat \<Rightarrow> u16"
  crt_pos :: u16
  visible :: bool
  in_buf :: bytes
  in_r :: u32
  in_w :: u32
  in_e :: u32

abbreviation (input) BACKSPACE :: int where "BACKSPACE \<equiv> 0x100"
abbreviation (input) INPUT_BUF :: nat where "INPUT_BUF \<equiv> 128"
abbreviation (input) CONSOLE :: nat where "CONSOLE \<equiv> 1"

section \<open>Output\<close>

definition uartputc :: "int \<Rightarrow> ('a kcons_scheme, unit) km" where
  "uartputc c = kmod (\<lambda>s. if \<not> uart s then s else s\<lparr>uart_out := uart_out s @ [of_int c]\<rparr>)"

definition cga_scroll :: "(nat \<Rightarrow> u16) \<Rightarrow> nat \<Rightarrow> nat \<Rightarrow> u16" where
  "cga_scroll m pos =
     (let m1 = (\<lambda>i. if i < 23 * 80 then m (i + 80) else m i)
      in (\<lambda>i. if pos \<le> i \<and> i < pos + (24 * 80 - pos) then 0 else m1 i))"

definition cgaputc :: "int \<Rightarrow> ('a kcons_scheme, unit) km" where
  "cgaputc c = (\<lambda>s.
     let pos = unat (crt_pos s);
         (m, pos) = (if c = 10 then (crt s, pos + (80 - pos mod 80))
                     else if c = BACKSPACE then (crt s, if pos > 0 then pos - 1 else pos)
                     else ((crt s)(pos := ucast (of_int c :: u8) OR 0x0700), pos + 1)) in
     if pos > 25 * 80 then Panic ''pos under/overflow''
     else let (m, pos) = (if pos div 80 \<ge> 24 then (cga_scroll m (pos - 80), pos - 80) else (m, pos)) in
       Ok () (s\<lparr>crt := m(pos := 0x0720), crt_pos := of_nat pos\<rparr>))"

definition sys_clrscr :: "('a kcons_scheme, int) km" where
  "sys_clrscr =
     kthen (kmod (\<lambda>s. s\<lparr>crt := (\<lambda>i. if i < 24 * 80 then 0 else crt s i), crt_pos := 0\<rparr>)) (kret 0)"

definition sys_hideinp :: "('a kcons_scheme, int) km" where
  "sys_hideinp = kthen (kmod (\<lambda>s. s\<lparr>visible := False\<rparr>)) (kret 0)"

definition sys_showinp :: "('a kcons_scheme, int) km" where
  "sys_showinp = kthen (kmod (\<lambda>s. s\<lparr>visible := True\<rparr>)) (kret 0)"

definition consputc :: "int \<Rightarrow> bool \<Rightarrow> ('a kcons_scheme, unit) km" where
  "consputc c show =
     kthen (if c = BACKSPACE then kthen (uartputc 8) (kthen (uartputc 32) (uartputc 8)) else uartputc c)
     (if show then cgaputc c else kret ())"

section \<open>Formatted output\<close>

text \<open>The loop of \<^verbatim>\<open>printint\<close>: the digits, the last one first. Every call has base 2 or 10.\<close>

function digits_rev :: "nat \<Rightarrow> nat \<Rightarrow> nat list" where
  "digits_rev base x = x mod base # (if x div base \<noteq> 0 \<and> 1 < base then digits_rev base (x div base) else [])"
  by pat_completeness auto
termination
  by (relation "measure snd") (auto simp: div_greater_zero_iff intro!: div_less_dividend)

declare digits_rev.simps [simp del]

definition digit_char :: "nat \<Rightarrow> int" where
  "digit_char d = [48, 49, 50, 51, 52, 53, 54, 55, 56, 57, 97, 98, 99, 100, 101, 102] ! d"

definition printint_chars :: "u32 \<Rightarrow> nat \<Rightarrow> bool \<Rightarrow> int list" where
  "printint_chars xx base sign =
     (let neg = (sign \<and> sint xx < 0); x = (if neg then - xx else xx)
      in map digit_char (digits_rev base (unat x)) @ (if neg then [45] else []))"

definition printint :: "u32 \<Rightarrow> nat \<Rightarrow> bool \<Rightarrow> ('a kcons_scheme, unit) km" where
  "printint xx base sign =
     (let buf = printint_chars xx base sign in
      if length buf > 16 then kpanic ''undefined: store past buf''
      else kfor (\<lambda>c. consputc c True) (rev buf))"

text \<open>An argument of \<^verbatim>\<open>cprintf\<close>: a word, or a pointer to a string.\<close>

datatype carg = CInt u32 | CStr "cstring option"

definition cputs :: "u8 list \<Rightarrow> ('a kcons_scheme, unit) km" where
  "cputs cs = kfor (\<lambda>c. consputc (sint c) True) cs"

fun cprintf :: "cstring \<Rightarrow> carg list \<Rightarrow> ('a kcons_scheme, unit) km" where
  "cprintf [] args = kret ()"
| "cprintf [c] args = (if c \<noteq> 37 then consputc (uint c) True else kret ())"
| "cprintf (c # d # cs) args =
     (if c \<noteq> 37 then kthen (consputc (uint c) True) (cprintf (d # cs) args)
      else if d = 100 then
        (case args of CInt x # as \<Rightarrow> kthen (printint x 10 True) (cprintf cs as)
         | _ \<Rightarrow> kpanic ''undefined: argument'')
      else if d = 120 \<or> d = 112 then
        (case args of CInt x # as \<Rightarrow> kthen (printint x 2 False) (cprintf cs as)
         | _ \<Rightarrow> kpanic ''undefined: argument'')
      else if d = 115 then
        (case args of CStr x # as \<Rightarrow>
           kthen (cputs (case x of None \<Rightarrow> [40, 110, 117, 108, 108, 41] | Some s \<Rightarrow> s)) (cprintf cs as)
         | _ \<Rightarrow> kpanic ''undefined: argument'')
      else if d = 37 then kthen (consputc 37 True) (cprintf cs args)
      else kthen (consputc 37 True) (kthen (consputc (uint d) True) (cprintf cs args)))"

section \<open>Input\<close>

text \<open>Killing the line being typed; \<open>n\<close> is the number of characters between write and edit index.\<close>

fun kill_line :: "nat \<Rightarrow> ('a kcons_scheme, unit) km" where
  "kill_line 0 = kret ()"
| "kill_line (Suc n) = (\<lambda>s.
     if in_e s \<noteq> in_w s \<and> in_buf s (unat (in_e s - 1) mod INPUT_BUF) \<noteq> 10 then
       kthen (kmod (\<lambda>s. s\<lparr>in_e := in_e s - 1\<rparr>))
      (kthen (\<lambda>s. consputc BACKSPACE (visible s) s)
       (kill_line n)) s
     else Ok () s)"

definition cons_put :: "int \<Rightarrow> ('a kcons_scheme, unit) km" where
  "cons_put c = (\<lambda>s.
     if c \<noteq> 0 \<and> in_e s - in_r s < of_nat INPUT_BUF then
       let c = (if c = 13 then 10 else c) in
       kthen (kmod (\<lambda>s. s\<lparr>in_buf := (in_buf s)(unat (in_e s) mod INPUT_BUF := of_int c), in_e := in_e s + 1\<rparr>))
      (kthen (\<lambda>s. consputc c (visible s) s)
       (kif (\<lambda>s. c = 10 \<or> c = 4 \<or> in_e s = in_r s + of_nat INPUT_BUF)
         (kthen (kmod (\<lambda>s. s\<lparr>in_w := in_e s\<rparr>)) (wakeup ChConsole))
         (kret ()))) s
     else Ok () s)"

definition consoleintr1 :: "int \<Rightarrow> ('a kcons_scheme, unit) km" where
  "consoleintr1 c =
     (if c = 16 then kret ()
      else if c = 21 then (\<lambda>s. kill_line (unat (in_e s - in_w s)) s)
      else if c = 8 \<or> c = 127 then
        kif (\<lambda>s. in_e s \<noteq> in_w s)
          (kthen (kmod (\<lambda>s. s\<lparr>in_e := in_e s - 1\<rparr>)) (\<lambda>s. consputc BACKSPACE (visible s) s))
          (kret ())
      else cons_put c)"

definition consoleintr :: "int list \<Rightarrow> ('a kcons_scheme, bool) km" where
  "consoleintr cs = kthen (kfor consoleintr1 cs) (kret (16 \<in> set cs))"

text \<open>
  The loop of \<^verbatim>\<open>consoleread\<close> with \<open>n\<close> characters to go: how many are left at the end, or
  \<open>None\<close> when the process was killed. A call that must wait goes on here when it runs again.
\<close>

fun consoleread_loop :: "nat \<Rightarrow> bytes \<Rightarrow> nat \<Rightarrow> ('a kcons_scheme, nat option \<times> bytes) km" where
  "consoleread_loop target dst 0 = kret (Some 0, dst)"
| "consoleread_loop target dst (Suc n) = (\<lambda>s.
     if in_r s = in_w s then
       (if p_killed (myproc s) then Ok (None, dst) s else sleep ChConsole s)
     else let c = in_buf s (unat (in_r s) mod INPUT_BUF); t = s\<lparr>in_r := in_r s + 1\<rparr> in
       if c = 4 then Ok (Some (Suc n), dst) (if Suc n < target then t\<lparr>in_r := in_r t - 1\<rparr> else t)
       else let dst = dst(target - Suc n := c) in
         if c = 10 then Ok (Some n, dst) t
         else consoleread_loop target dst n t)"

definition consoleread :: "'a kcons_scheme devread" where
  "consoleread ip dst n =
     kthen (iunlock ip)
    (kbind (consoleread_loop (nat (sint n)) dst (nat (sint n))) (\<lambda>(r, dst).
     kthen (ilock ip)
     (kret (case r of None \<Rightarrow> -1 | Some k \<Rightarrow> sint n - (if sint n > 0 then int k else sint n), dst))))"

definition consolewrite :: "'a kcons_scheme devwrite" where
  "consolewrite ip buf n =
     kthen (iunlock ip)
    (kthen (kfor (\<lambda>i. consputc (uint (buf i)) True) [0..<nat (sint n)])
    (kthen (ilock ip)
     (kret (sint n))))"

text \<open>\<^verbatim>\<open>consoleinit\<close> enters the console in the device switch; no other device has an entry.\<close>

definition consoleinit :: "'a kcons_scheme devsw" where
  "consoleinit = (\<lambda>d. if d = CONSOLE then (Some consoleread, Some consolewrite) else (None, None))"

section \<open>The screen\<close>

text \<open>The cursor stays on the first 24 rows, so output never panics.\<close>

definition screen_ok :: "'a kcons_scheme \<Rightarrow> bool" where
  "screen_ok s \<longleftrightarrow> unat (crt_pos s) < 24 * 80"

definition only_screen :: "'a kcons_scheme \<Rightarrow> 'a kcons_scheme \<Rightarrow> bool" where
  "only_screen s t \<longleftrightarrow> (\<exists>u m p. t = s\<lparr>uart_out := u, crt := m, crt_pos := p\<rparr>)"

lemma only_screen_refl [simp]: "only_screen s s"
proof -
  have "s = s\<lparr>uart_out := uart_out s, crt := crt s, crt_pos := crt_pos s\<rparr>" by simp
  then show ?thesis unfolding only_screen_def by blast
qed

lemma only_screen_trans: "only_screen s t \<Longrightarrow> only_screen t u \<Longrightarrow> only_screen s u"
  unfolding only_screen_def by (auto; blast)

lemma cursor_step:
  fixes pos :: nat
  assumes "pos < 24 * 80"
  shows "pos + (80 - pos mod 80) \<le> 24 * 80"
proof -
  have "pos mod 80 \<le> pos" "pos div 80 * 80 + pos mod 80 = pos" "pos mod 80 < 80" "pos div 80 < 24"
    using assms by auto
  then show ?thesis by linarith
qed

lemma cgaputc_ok:
  assumes "screen_ok s"
  shows "\<exists>t. cgaputc c s = Ok () t \<and> screen_ok t \<and> only_screen s t \<and> uart_out t = uart_out s"
proof -
  define p where "p = unat (crt_pos s)"
  have p: "p < 24 * 80" using assms by (simp add: screen_ok_def p_def)
  define r where "r = (if c = 10 then (crt s, p + (80 - p mod 80))
      else if c = BACKSPACE then (crt s, if p > 0 then p - 1 else p)
      else ((crt s)(p := ucast (of_int c :: u8) OR 0x0700), p + 1))"
  obtain m q where mq: "r = (m, q)" by (cases r)
  have q: "q \<le> 24 * 80"
    using mq cursor_step[OF p] p by (auto simp: r_def split: if_splits)
  define r' where "r' = (if q div 80 \<ge> 24 then (cga_scroll m (q - 80), q - 80) else (m, q))"
  obtain m' q' where mq': "r' = (m', q')" by (cases r')
  have "q' < 24 * 80"
  proof (cases "q div 80 \<ge> 24")
    case True
    then show ?thesis using mq' q by (auto simp: r'_def)
  next
    case False
    then have "q < 24 * 80" using div_less_iff_less_mult[of 80 q 24] by simp
    then show ?thesis using mq' False by (simp add: r'_def)
  qed
  then have "unat (of_nat q' :: u16) < 24 * 80" by (simp add: unat_of_nat)
  moreover have "cgaputc c s = Ok () (s\<lparr>crt := m'(q' := 0x0720), crt_pos := of_nat q'\<rparr>)"
    unfolding cgaputc_def Let_def p_def[symmetric] r_def[symmetric] mq prod.case using q
    by (simp add: r'_def[symmetric] mq' not_le[symmetric])
  moreover have "only_screen s (s\<lparr>crt := m'(q' := 0x0720), crt_pos := of_nat q'\<rparr>)"
    unfolding only_screen_def by (rule exI[of _ "uart_out s"]) auto
  ultimately show ?thesis unfolding screen_ok_def by simp
qed

definition sent :: "'a kcons_scheme \<Rightarrow> u8 list \<Rightarrow> 'a kcons_scheme \<Rightarrow> bool" where
  "sent s cs t \<longleftrightarrow> uart_out t = (if uart s then uart_out s @ cs else uart_out s)"

lemma only_screen_keeps:
  assumes "only_screen s t"
  shows "uart t = uart s" "visible t = visible s" "in_buf t = in_buf s" "in_r t = in_r s" "in_w t = in_w s"
    "in_e t = in_e s" "ptable t = ptable s" "cur t = cur s" "icache t = icache s"
  using assms by (auto simp: only_screen_def)

lemma sent_trans: "only_screen s t \<Longrightarrow> sent s xs t \<Longrightarrow> sent t ys u \<Longrightarrow> sent s (xs @ ys) u"
  using only_screen_keeps(1)[of s t] by (simp add: sent_def)

lemma uartputc_ok: "\<exists>t. uartputc c s = Ok () t \<and> only_screen s t \<and> crt_pos t = crt_pos s \<and> sent s [of_int c] t"
proof (cases "uart s")
  case True
  then have "uartputc c s = Ok () (s\<lparr>uart_out := uart_out s @ [of_int c]\<rparr>)" by (simp add: uartputc_def kmod_apply)
  moreover have "only_screen s (s\<lparr>uart_out := uart_out s @ [of_int c]\<rparr>)"
    unfolding only_screen_def by (rule exI[of _ "uart_out s @ [of_int c]"], rule exI[of _ "crt s"], rule exI[of _ "crt_pos s"]) simp
  ultimately show ?thesis using True by (simp add: sent_def)
next
  case False
  then show ?thesis by (simp add: uartputc_def kmod_apply sent_def)
qed

definition serial_chars :: "int \<Rightarrow> u8 list" where
  "serial_chars c = (if c = BACKSPACE then [8, 32, 8] else [of_int c])"

lemma consputc_ok:
  assumes "screen_ok s"
  shows "\<exists>t. consputc c v s = Ok () t \<and> screen_ok t \<and> only_screen s t \<and> sent s (serial_chars c) t"
proof -
  let ?m = "if c = BACKSPACE then kthen (uartputc 8) (kthen (uartputc 32) (uartputc 8)) else uartputc c"
  have "\<exists>t. ?m s = Ok () t \<and> only_screen s t \<and> crt_pos t = crt_pos s \<and> sent s (serial_chars c) t"
  proof (cases "c = BACKSPACE")
    case True
    obtain t1 where 1: "uartputc 8 s = Ok () t1" "only_screen s t1" "crt_pos t1 = crt_pos s" "sent s [8] t1"
      using uartputc_ok[of 8 s] by auto
    obtain t2 where 2: "uartputc 32 t1 = Ok () t2" "only_screen t1 t2" "crt_pos t2 = crt_pos t1" "sent t1 [32] t2"
      using uartputc_ok[of 32 t1] by auto
    obtain t3 where 3: "uartputc 8 t2 = Ok () t3" "only_screen t2 t3" "crt_pos t3 = crt_pos t2" "sent t2 [8] t3"
      using uartputc_ok[of 8 t2] by auto
    have "only_screen s t2" using 1(2) 2(2) by (rule only_screen_trans)
    moreover have "sent s [8, 32, 8] t3"
      using sent_trans[OF \<open>only_screen s t2\<close> _ 3(4), of "[8, 32]"] sent_trans[OF 1(2,4) 2(4)] by simp
    ultimately show ?thesis using True 1 2 3 only_screen_trans[of s t2 t3] by (simp add: kthen_apply serial_chars_def)
  qed (simp add: uartputc_ok serial_chars_def)
  then obtain t where t: "?m s = Ok () t" "only_screen s t" "screen_ok t" "sent s (serial_chars c) t"
    using assms by (auto simp: screen_ok_def)
  obtain u where u: "(if v then cgaputc c else kret ()) t = Ok () u" "screen_ok u" "only_screen t u" "uart_out u = uart_out t"
    using cgaputc_ok[OF t(3), of c] t(3) by (cases v) (auto simp: kret_apply)
  then show ?thesis using t only_screen_trans[of s t u] by (simp add: consputc_def kthen_apply sent_def)
qed

lemma cputs_ok:
  assumes "screen_ok s"
  shows "\<exists>t. kfor (\<lambda>c. consputc (f c) v) cs s = Ok () t \<and> screen_ok t \<and> only_screen s t \<and>
    sent s (concat (map (\<lambda>c. serial_chars (f c)) cs)) t"
  using assms
proof (induction cs arbitrary: s)
  case (Cons c cs)
  obtain t where t: "consputc (f c) v s = Ok () t" "screen_ok t" "only_screen s t" "sent s (serial_chars (f c)) t"
    using consputc_ok[OF Cons.prems] by blast
  obtain u where "kfor (\<lambda>c. consputc (f c) v) cs t = Ok () u" "screen_ok u" "only_screen t u"
    "sent t (concat (map (\<lambda>c. serial_chars (f c)) cs)) u" using Cons.IH[OF t(2)] by blast
  then show ?case using t only_screen_trans[of s t u] sent_trans[OF t(3,4)] by (simp add: kthen_apply)
qed (simp add: kret_apply sent_def)

section \<open>Decimal output\<close>

fun value_rev :: "nat \<Rightarrow> nat list \<Rightarrow> nat" where
  "value_rev base [] = 0"
| "value_rev base (d # ds) = d + base * value_rev base ds"

lemma digits_rev_value: "1 < base \<Longrightarrow> value_rev base (digits_rev base x) = x"
proof (induction base x rule: digits_rev.induct)
  case (1 base x)
  show ?case
  proof (cases "x div base \<noteq> 0")
    case True
    with 1 show ?thesis by (simp add: digits_rev.simps[of base x])
  next
    case False
    then show ?thesis using \<open>1 < base\<close> by (simp add: digits_rev.simps[of base x] div_eq_0_iff)
  qed
qed

lemma digits_rev_less: "1 < base \<Longrightarrow> list_all (\<lambda>d. d < base) (digits_rev base x)"
proof (induction base x rule: digits_rev.induct)
  case (1 base x)
  then show ?case by (simp add: digits_rev.simps[of base x])
qed

lemma digits_rev_length:
  assumes "1 < base" "0 < k"
  shows "length (digits_rev base x) \<le> k \<longleftrightarrow> x < base ^ k"
  using assms
proof (induction base x arbitrary: k rule: digits_rev.induct)
  case (1 base x)
  obtain j where k: "k = Suc j" using 1(3) by (cases k) auto
  show ?case
  proof (cases "x div base = 0")
    case True
    then have "x < base" using 1(2) by (simp add: div_eq_0_iff)
    moreover have "base * 1 \<le> base * base ^ j" using 1(2) by (intro mult_le_mono2) simp
    ultimately have "x < base * base ^ j" by linarith
    then have "x < base ^ k" using k by simp
    then show ?thesis using True k by (simp add: digits_rev.simps[of base x])
  next
    case False
    then have IH: "0 < i \<Longrightarrow> length (digits_rev base (x div base)) \<le> i \<longleftrightarrow> x div base < base ^ i" for i
      using 1(1)[of i] 1(2) by simp
    have len: "length (digits_rev base x) = Suc (length (digits_rev base (x div base)))"
      using False 1(2) by (simp add: digits_rev.simps[of base x])
    show ?thesis
    proof (cases "j = 0")
      case True
      moreover have "length (digits_rev base (x div base)) \<noteq> 0" by (simp add: digits_rev.simps)
      moreover have "\<not> x < base" using False by auto
      ultimately show ?thesis using len k by auto
    next
      case False
      then have "length (digits_rev base x) \<le> k \<longleftrightarrow> x div base < base ^ j" using len k IH[of j] by simp
      also have "\<dots> \<longleftrightarrow> x < base ^ j * base" using 1(2) by (simp add: less_mult_imp_div_less div_less_iff_less_mult)
      finally show ?thesis using k by (simp add: mult.commute)
    qed
  qed
qed

lemma printint_chars_length:
  "length (printint_chars xx 10 True) \<le> 11" "length (printint_chars xx 2 False) \<le> 16 \<longleftrightarrow> unat xx < 2 ^ 16"
proof -
  have "unat x < (10 :: nat) ^ 10" for x :: u32 using unat_bounds(3)[of x] by simp
  then have "length (digits_rev 10 (unat x)) \<le> 10" for x :: u32 using digits_rev_length[of 10 10] by simp
  from this[of xx] this[of "- xx"] show "length (printint_chars xx 10 True) \<le> 11" by (auto simp: printint_chars_def Let_def)
  show "length (printint_chars xx 2 False) \<le> 16 \<longleftrightarrow> unat xx < 2 ^ 16"
    using digits_rev_length[of 2 16 "unat xx"] by (simp add: printint_chars_def)
qed

lemma unat_abs_sint:
  fixes x :: u32
  shows "unat (if sint x < 0 then - x else x) = nat \<bar>sint x\<bar>"
proof -
  have b: "- (2 ^ 31) \<le> sint x" "sint x < 2 ^ 31" using sint_ge[of x] sint_lt[of x] by simp_all
  have u: "uint x = sint x mod 2 ^ 32" by (simp add: uint_sint take_bit_eq_mod)
  have "uint (if sint x < 0 then - x else x) = \<bar>sint x\<bar>"
  proof (cases "sint x < 0")
    case True
    have "uint (- x) = (- uint x) mod 2 ^ 32" by (simp add: uint_word_ariths(4))
    also have "\<dots> = (- sint x) mod 2 ^ 32" unfolding u by (simp only: mod_minus_eq)
    also have "\<dots> = - sint x" using True b by (intro mod_pos_pos_trivial) auto
    finally show ?thesis using True by simp
  next
    case False
    then show ?thesis using u b by (simp add: mod_pos_pos_trivial)
  qed
  then show ?thesis by (metis nat_uint_eq)
qed

lemma serial_digits:
  "list_all (\<lambda>d. d < 10) ds \<Longrightarrow>
    concat (map serial_chars (map digit_char ds)) = map (\<lambda>d. of_int (digit_char d)) ds"
proof (induction ds)
  case (Cons d ds)
  then have "d \<in> {0, 1, 2, 3, 4, 5, 6, 7, 8, 9}" by auto
  then have "serial_chars (digit_char d) = [of_int (digit_char d)]" by (auto simp: serial_chars_def digit_char_def)
  with Cons show ?case by simp
qed simp

section \<open>Properties of the output\<close>

text \<open>The console of a machine that has just started.\<close>

definition zero_kcons :: kcons where
  "zero_kcons = kproc.extend (ksys.extend (kfile.extend zero_kfile (ksys.fields 0)) (kproc.fields 1 None True))
     (kcons.fields True [] (\<lambda>_. 0) 0 True (\<lambda>_. 0) 0 0 0)"

lemma zero_kcons_sel [simp]:
  "uart zero_kcons" "uart_out zero_kcons = []" "crt_pos zero_kcons = 0" "visible zero_kcons"
  "in_r zero_kcons = 0" "in_w zero_kcons = 0" "in_e zero_kcons = 0" "screen_ok zero_kcons"
  by (simp_all add: zero_kcons_def kproc.defs kcons.defs ksys.defs kfile.defs screen_ok_def)

text \<open>
  Decimal output is right: \<^verbatim>\<open>printint(xx, 10, 1)\<close> returns for every word, its buffer suffices,
  and it sends a minus sign for a negative number and then decimal digits whose value is the
  absolute value of the number, the smallest number included.
\<close>

theorem printint_decimal:
  assumes "screen_ok s"
  shows "\<exists>t ds. printint xx 10 True s = Ok () t \<and> screen_ok t \<and> only_screen s t \<and>
    sent s ((if sint xx < 0 then [45] else []) @ map (\<lambda>d. of_int (digit_char d)) ds) t \<and>
    ds \<noteq> [] \<and> list_all (\<lambda>d. d < 10) ds \<and> value_rev 10 (rev ds) = nat \<bar>sint xx\<bar>"
proof -
  let ?rs = "digits_rev 10 (nat \<bar>sint xx\<bar>)"
  let ?cs = "rev (printint_chars xx 10 True)"
  have cs: "?cs = (if sint xx < 0 then [45] else []) @ map digit_char (rev ?rs)"
    using unat_abs_sint[of xx] by (simp add: printint_chars_def Let_def rev_map split: if_splits)
  obtain t where t: "kfor (\<lambda>c. consputc c True) ?cs s = Ok () t" "screen_ok t" "only_screen s t"
    "sent s (concat (map serial_chars ?cs)) t"
    using cputs_ok[OF assms, of "\<lambda>c. c" True ?cs] by auto
  have "list_all (\<lambda>d. d < 10) (rev ?rs)" using digits_rev_less[of 10] by (simp add: list_all_iff)
  from serial_digits[OF this]
  have "concat (map serial_chars ?cs) =
      (if sint xx < 0 then [45] else []) @ map (\<lambda>d. of_int (digit_char d)) (rev ?rs)"
    unfolding cs map_append concat_append by (simp add: serial_chars_def[of 45])
  moreover have "printint xx 10 True s = Ok () t"
    using t(1) printint_chars_length(1)[of xx] by (simp add: printint_def Let_def)
  moreover have "rev ?rs \<noteq> []" by (simp add: digits_rev.simps)
  moreover have "list_all (\<lambda>d. d < 10) (rev ?rs)" using digits_rev_less[of 10] by (simp add: list_all_iff)
  moreover have "value_rev 10 (rev (rev ?rs)) = nat \<bar>sint xx\<bar>" by (simp add: digits_rev_value)
  ultimately show ?thesis using t(2-4) by metis
qed

theorem printint_decimal_witness:
  "\<exists>t ds. printint 0x80000000 10 True zero_kcons = Ok () t \<and> screen_ok t \<and>
    uart_out t = 45 # map (\<lambda>d. of_int (digit_char d)) ds \<and> value_rev 10 (rev ds) = 2147483648"
  using printint_decimal[of zero_kcons "0x80000000"] by (auto simp: sent_def)

text \<open>
  \<^verbatim>\<open>%x\<close> and \<^verbatim>\<open>%p\<close> print in base 2 into a buffer of 16 characters: every word from \<open>2 ^ 16\<close> on
  overruns it. Kernel addresses are such words, so \<^verbatim>\<open>panic\<close>, which prints its call stack with \<^verbatim>\<open>%p\<close>,
  runs into this.
\<close>

theorem printint_binary_overrun:
  assumes "2 ^ 16 \<le> unat xx" "f = 120 \<or> f = 112"
  shows "cprintf (37 # f # cs) (CInt xx # args) s = Panic ''undefined: store past buf''"
proof -
  have "printint xx 2 False s = Panic ''undefined: store past buf''"
    using assms(1) printint_chars_length(2)[of xx] by (simp add: printint_def Let_def kpanic_apply)
  then show ?thesis using assms(2) by (auto simp: kthen_apply)
qed

theorem printint_binary_overrun_witness:
  "cprintf [37, 112] [CInt 0x80104000] zero_kcons = Panic ''undefined: store past buf''"
  using printint_binary_overrun[of "0x80104000" 112 "[]" "[]" zero_kcons] by simp

end
