(* ===== verification/Exec.thy ===== *)
theory Exec
  imports Console
begin

text \<open>
  Replacing the image of a process (\<^verbatim>\<open>kernel/exec.c\<close>, \<^verbatim>\<open>loaduvm\<close> of \<^verbatim>\<open>kernel/vm.c\<close>,
  \<^verbatim>\<open>sys_exec\<close> of \<^verbatim>\<open>kernel/sysfile.c\<close>). An argument is the list of its characters before the NUL.
\<close>

section \<open>The executable file\<close>

abbreviation (input) ELF_MAGIC :: u32 where "ELF_MAGIC \<equiv> 0x464C457F"
abbreviation (input) ELF_PROG_LOAD :: u32 where "ELF_PROG_LOAD \<equiv> 1"

record elfhdr =
  e_magic :: u32
  e_entry :: u32
  e_phoff :: u32
  e_phnum :: u16

definition get_elfhdr :: "bytes \<Rightarrow> elfhdr" where
  "get_elfhdr b = \<lparr>e_magic = le32 b 0, e_entry = le32 b 24, e_phoff = le32 b 28, e_phnum = le16 b 44\<rparr>"

record proghdr =
  ph_type :: u32
  ph_off :: u32
  ph_vaddr :: u32
  ph_filesz :: u32
  ph_memsz :: u32

definition get_proghdr :: "bytes \<Rightarrow> proghdr" where
  "get_proghdr b = \<lparr>ph_type = le32 b 0, ph_off = le32 b 4, ph_vaddr = le32 b 8, ph_filesz = le32 b 16,
     ph_memsz = le32 b 20\<rparr>"

section \<open>Loading\<close>

function loaduvm_loop ::
  "'a kfs_scheme devsw \<Rightarrow> u32 \<Rightarrow> u32 \<Rightarrow> nat \<Rightarrow> u32 \<Rightarrow> nat \<Rightarrow> nat \<Rightarrow> ('a kfs_scheme, int) km" where
  "loaduvm_loop dv pgdir addr ip offset sz i =
     (if i < sz then
        kbind (walkpgdir pgdir (addr + of_nat i) False) (\<lambda>pte.
        if pte = 0 then kpanic ''loaduvm: address should exist''
        else kbind (kload pte) (\<lambda>e.
          let pa = P2V (PTE_ADDR e); n = min (sz - i) 4096 in
          kbind (\<lambda>s. readi dv ip (\<lambda>k. km_mem s (pa + of_nat k)) (offset + of_nat i) (of_nat n) s) (\<lambda>(r, dst).
          kthen (kmod (\<lambda>s. s\<lparr>km_mem := write_mem pa dst 0 n (km_mem s)\<rparr>))
          (if r \<noteq> int n then kret (-1)
           else loaduvm_loop dv pgdir addr ip offset sz (i + 4096)))))
      else kret 0)"
  by pat_completeness auto
termination
  by (relation "measure (\<lambda>(dv, pgdir, addr, ip, offset, sz, i). sz - i)") auto

declare loaduvm_loop.simps [simp del]

definition loaduvm ::
  "'a kfs_scheme devsw \<Rightarrow> u32 \<Rightarrow> u32 \<Rightarrow> nat \<Rightarrow> u32 \<Rightarrow> u32 \<Rightarrow> ('a kfs_scheme, int) km" where
  "loaduvm dv pgdir addr ip offset sz =
     kthen (kassert ''loaduvm: addr must be page aligned'' (\<lambda>_. \<not> addr mod PGSIZE \<noteq> 0))
     (loaduvm_loop dv pgdir addr ip offset (unat sz) 0)"

text \<open>The loop over the program headers; \<open>None\<close> is \<^verbatim>\<open>goto bad\<close>.\<close>

fun exec_load ::
  "'a kfs_scheme devsw \<Rightarrow> u32 \<Rightarrow> nat \<Rightarrow> u32 \<Rightarrow> nat \<Rightarrow> u32 \<Rightarrow> ('a kfs_scheme, u32 option) km" where
  "exec_load dv pgdir ip off 0 sz = kret (Some sz)"
| "exec_load dv pgdir ip off (Suc k) sz =
     kbind (readi dv ip (\<lambda>_. 0) off 32) (\<lambda>(r, b). let ph = get_proghdr b in
     if r \<noteq> 32 then kret None
     else if ph_type ph \<noteq> ELF_PROG_LOAD then exec_load dv pgdir ip (off + 32) k sz
     else if ph_memsz ph < ph_filesz ph then kret None
     else if ph_vaddr ph + ph_memsz ph < ph_vaddr ph then kret None
     else kbind (allocuvm pgdir sz (ph_vaddr ph + ph_memsz ph)) (\<lambda>sz.
       if sz = 0 then kret None
       else if ph_vaddr ph mod PGSIZE \<noteq> 0 then kret None
       else kbind (loaduvm dv pgdir (ph_vaddr ph) ip (ph_off ph) (ph_filesz ph)) (\<lambda>r.
         if r < 0 then kret None else exec_load dv pgdir ip (off + 32) k sz)))"

section \<open>The new stack\<close>

text \<open>Pushes the arguments; the result is the stack pointer and the addresses of the copies.\<close>

fun exec_args :: "u32 \<Rightarrow> cstring list \<Rightarrow> u32 \<Rightarrow> u32 list \<Rightarrow> ('a kmem_scheme, (u32 \<times> u32 list) option) km" where
  "exec_args pgdir [] sp us = kret (Some (sp, us))"
| "exec_args pgdir (a # as) sp us =
     (if length us \<ge> MAXARG then kret None
      else let sp = (sp - (of_nat (length a) + 1)) AND NOT 3 in
        kbind (copyout pgdir sp (cbytes a) (of_nat (length a) + 1)) (\<lambda>r.
        if r < 0 then kret None else exec_args pgdir as sp (us @ [sp])))"

definition word_bytes :: "u32 list \<Rightarrow> bytes" where
  "word_bytes ws = (\<lambda>k. if k < 4 * length ws then byte32 (ws ! (k div 4)) (k mod 4) else 0)"

definition exec_stack :: "u32 \<Rightarrow> cstring list \<Rightarrow> u32 \<Rightarrow> ('a kmem_scheme, u32 option) km" where
  "exec_stack pgdir argv sz =
     ktry (exec_args pgdir argv sz []) None (\<lambda>(sp, us).
       let argc = of_nat (length us);
           ustack = [0xFFFFFFFF, argc, sp - (argc + 1) * 4] @ us @ [0];
           sp = sp - (3 + argc + 1) * 4 in
       kbind (copyout pgdir sp (word_bytes ustack) ((3 + argc + 1) * 4)) (\<lambda>r.
       if r < 0 then kret None else kret (Some sp)))"

section \<open>exec\<close>

definition exec_bad :: "u32 \<Rightarrow> nat option \<Rightarrow> ('a ksys_scheme, int) km" where
  "exec_bad pgdir ip =
     kthen (if pgdir \<noteq> 0 then freevm pgdir else kret ())
    (kthen (case ip of None \<Rightarrow> kret () | Some ip \<Rightarrow> kthen (iunlockput ip) end_op)
     (kret (-1)))"

text \<open>May the process execute the file: others, owner, or one of its groups.\<close>

definition exec_ok :: "proc \<Rightarrow> inode \<Rightarrow> bool" where
  "exec_ok p ip \<longleftrightarrow>
     \<not> (\<not> bit (i_mode ip) 0 \<and> (p_euid p \<noteq> i_uid ip \<or> \<not> bit (i_mode ip) 6)) \<or>
     (\<exists>i < nat (p_ngroups p). p_gids p i = i_gid ip \<and> bit (i_mode ip) 3)"

definition path_last :: "cstring \<Rightarrow> cstring" where
  "path_last path = rev (takeWhile (\<lambda>c. c \<noteq> SLASH) (rev path))"

definition exec_commit :: "cstring \<Rightarrow> u32 \<Rightarrow> u32 \<Rightarrow> u32 \<Rightarrow> u32 \<Rightarrow> bool \<Rightarrow> ('a ksys_scheme, int) km" where
  "exec_commit path pgdir sz entry sp setuid = (\<lambda>s. let oldpgdir = addr_of (p_pgdir (myproc s)) in
     kthen (kmod (\<lambda>s. upd_proc (cur s) (\<lambda>p. p\<lparr>p_name := safestrcpy (p_name p) (cbytes (path_last path)) 16,
         p_pgdir := Some pgdir, p_sz := sz, p_tf := (p_tf p)\<lparr>tf_eip := entry, tf_esp := sp\<rparr>,
         p_euid := (if setuid then 0 else p_uid p)\<rparr>) s))
    (kthen (\<lambda>s. switchuvm (cur s) s)
    (kthen (freevm oldpgdir)
     (kret 0))) s)"

definition exec :: "'a kcons_scheme devsw \<Rightarrow> cstring \<Rightarrow> cstring list \<Rightarrow> ('a kcons_scheme, int) km" where
  "exec dv path argv =
     kthen begin_op
    (kbind (namei dv path) (\<lambda>r. case r of
       None \<Rightarrow> kthen end_op (kthen (cprintf (cstr ''exec: fail\<newline>'') []) (kret (-1)))
     | Some ip \<Rightarrow>
       kthen (ilock ip)
      (kif (\<lambda>s. \<not> exec_ok (myproc s) (icache s ip)) (exec_bad 0 (Some ip))
      (kbind (readi dv ip (\<lambda>_. 0) 0 52) (\<lambda>(r, b). let elf = get_elfhdr b in
       if r \<noteq> 52 then exec_bad 0 (Some ip)
       else if e_magic elf \<noteq> ELF_MAGIC then exec_bad 0 (Some ip)
       else kbind setupkvm (\<lambda>pgdir.
         if pgdir = 0 then exec_bad 0 (Some ip)
         else kbind (exec_load dv pgdir ip (e_phoff elf) (unat (e_phnum elf)) 0) (\<lambda>r. case r of
           None \<Rightarrow> exec_bad pgdir (Some ip)
         | Some sz \<Rightarrow>
           kbind (kget (\<lambda>s. bit (i_mode (icache s ip)) 9)) (\<lambda>setuid.
           kthen (iunlockput ip)
          (kthen end_op
          (kbind (allocuvm pgdir (PGROUNDUP sz) (PGROUNDUP sz + 2 * PGSIZE)) (\<lambda>sz.
           if sz = 0 then exec_bad pgdir None
           else kthen (clearpteu pgdir (sz - 2 * PGSIZE))
             (kbind (exec_stack pgdir argv sz) (\<lambda>r. case r of
                None \<Rightarrow> exec_bad pgdir None
              | Some sp \<Rightarrow> exec_commit path pgdir sz (e_entry elf) sp setuid)))))))))))))"

text \<open>\<open>n\<close> is the number of slots of \<^verbatim>\<open>argv\<close> left.\<close>

fun sys_exec_args :: "u32 \<Rightarrow> nat \<Rightarrow> ('a ksys_scheme, cstring list option) km" where
  "sys_exec_args uargv 0 = kret None"
| "sys_exec_args uargv (Suc n) = ktry (fetchint uargv) None (\<lambda>uarg.
     if uarg = 0 then kret (Some [])
     else ktry (fetchstr uarg) None (\<lambda>a.
       ktry (sys_exec_args (uargv + 4) n) None (\<lambda>as. kret (Some (a # as)))))"

definition sys_exec :: "'a kcons_scheme devsw \<Rightarrow> ('a kcons_scheme, int) km" where
  "sys_exec dv = ktry (argstr 0) (-1) (\<lambda>path. ktry (argint 1) (-1) (\<lambda>uargv.
     ktry (sys_exec_args uargv MAXARG) (-1) (\<lambda>argv. exec dv path argv)))"

end
