(* ===== verification/Frame.thy ===== *)
theory Frame
  imports Exec
begin

text \<open>
  What kernel code leaves alone. \<open>kept f r\<close> says that the state of the outcome \<open>r\<close>, whether the code
  returned or went to sleep, satisfies \<open>f\<close>; the rules \<open>kept_intros\<close> take it through the combinators. The locale \<open>kframe\<close> is the interface between the file system and
  the layers above: it states which stores the file system makes.
\<close>

section \<open>Rules\<close>

definition kept :: "('s \<Rightarrow> bool) \<Rightarrow> ('s, 'a) outcome \<Rightarrow> bool" where
  "kept f r = (case r of Ok x t \<Rightarrow> f t | Sleep ch t \<Rightarrow> f t | Panic m \<Rightarrow> True)"

named_theorems kept_intros \<open>introduction rules that take an observation through kernel code\<close>

lemma kept_Ok [simp]: "kept f (Ok x t) = (f t)"
  by (simp add: kept_def)

lemma kept_Sleep [simp]: "kept f (Sleep ch t) = (f t)"
  by (simp add: kept_def)

lemma kept_Panic [simp]: "kept f (Panic m)"
  by (simp add: kept_def)

lemma keptD: "kept f r \<Longrightarrow> r = Ok x t \<Longrightarrow> f t"
  by simp

lemma kept_ret [simp]: "kept f (kret x s) = (f s)"
  by (simp add: kret_def)

lemma kept_get [simp]: "kept f (kget g s) = (f s)"
  by (simp add: kget_def)

lemma kept_panic [simp]: "kept f (kpanic m s)"
  by (simp add: kpanic_def)

lemma kept_mod [simp]: "kept f (kmod g s) = (f (g s))"
  by (simp add: kmod_def)

lemma kept_assert [simp]: "f s \<Longrightarrow> kept f (kassert m p s)"
  by (simp add: kassert_def)

lemma kept_bind [kept_intros]:
  assumes "kept f (m s)" "\<And>x t. f t \<Longrightarrow> kept f (g x t)"
  shows "kept f (kbind m g s)"
  using assms by (cases "m s") (auto simp: kbind_def)

lemma kept_weaken: "kept g r \<Longrightarrow> (\<And>t. g t \<Longrightarrow> f t) \<Longrightarrow> kept f r"
  by (cases r) auto

text \<open>A first step for which a finer observation is known.\<close>

lemma kept_bind_from:
  assumes "kept g (m s)" "\<And>t. g t \<Longrightarrow> f t" "\<And>x t. m s = Ok x t \<Longrightarrow> g t \<Longrightarrow> kept f (k x t)"
  shows "kept f (kbind m k s)"
  using assms by (cases "m s") (auto simp: kbind_def)

lemma kept_then_from:
  assumes "kept g (m s)" "\<And>t. g t \<Longrightarrow> f t" "\<And>t. g t \<Longrightarrow> kept f (n t)"
  shows "kept f (kthen m n s)"
  unfolding kthen_def using assms by (intro kept_bind_from[of g]) auto

lemma kept_then [kept_intros]:
  assumes "kept f (m s)" "\<And>t. f t \<Longrightarrow> kept f (n t)"
  shows "kept f (kthen m n s)"
  using assms by (simp add: kthen_def kept_bind)

lemma kept_kif [kept_intros]:
  assumes "p s \<Longrightarrow> kept f (m s)" "\<not> p s \<Longrightarrow> kept f (n s)"
  shows "kept f (kif p m n s)"
  using assms by (simp add: kif_def)

lemma kept_if [kept_intros]:
  assumes "b \<Longrightarrow> kept f (m s)" "\<not> b \<Longrightarrow> kept f (n s)"
  shows "kept f ((if b then m else n) s)"
  using assms by simp

lemma kept_if_outcome [kept_intros]:
  assumes "b \<Longrightarrow> kept f r" "\<not> b \<Longrightarrow> kept f q"
  shows "kept f (if b then r else q)"
  using assms by simp

lemma kept_option [kept_intros]:
  assumes "z = None \<Longrightarrow> kept f (m s)" "\<And>x. z = Some x \<Longrightarrow> kept f (n x s)"
  shows "kept f ((case z of None \<Rightarrow> m | Some x \<Rightarrow> n x) s)"
  using assms by (cases z) simp_all

lemma kept_option_outcome [kept_intros]:
  assumes "z = None \<Longrightarrow> kept f r" "\<And>x. z = Some x \<Longrightarrow> kept f (q x)"
  shows "kept f (case z of None \<Rightarrow> r | Some x \<Rightarrow> q x)"
  using assms by (cases z) simp_all

lemma kept_prod [kept_intros]:
  assumes "\<And>x y. z = (x, y) \<Longrightarrow> kept f (m x y s)"
  shows "kept f ((case z of (x, y) \<Rightarrow> m x y) s)"
  using assms by (cases z) simp

lemma kept_prod_outcome [kept_intros]:
  assumes "\<And>x y. z = (x, y) \<Longrightarrow> kept f (r x y)"
  shows "kept f (case z of (x, y) \<Rightarrow> r x y)"
  using assms by (cases z) simp

lemma kept_kfor [kept_intros]:
  assumes "f s" "\<And>x t. f t \<Longrightarrow> kept f (m x t)"
  shows "kept f (kfor m xs s)"
  using assms(1)
proof (induction xs arbitrary: s)
  case (Cons x xs)
  then show ?case using assms(2) by (simp add: kept_then)
qed simp

lemma kept_deref [kept_intros]:
  assumes "\<And>x. p = Some x \<Longrightarrow> kept f (k x s)"
  shows "kept f (deref p k s)"
  using assms by (cases p) (simp_all add: deref_def)

lemma kept_ktry [kept_intros]:
  assumes "kept f (m s)" "f s" "\<And>x t. f t \<Longrightarrow> kept f (k x t)"
  shows "kept f (ktry m e k s)"
  unfolding ktry_def using assms by (auto intro!: kept_intros)

section \<open>How a run ends\<close>

text \<open>
  \<open>ends f P r\<close>: a run that returns satisfies \<open>P\<close>, one that sleeps still has the value \<open>c\<close> of \<open>f\<close>. The rules
  follow the code and collect the equations of its steps.
\<close>

definition ends :: "('s \<Rightarrow> bool) \<Rightarrow> ('a \<Rightarrow> 's \<Rightarrow> bool) \<Rightarrow> ('s, 'a) outcome \<Rightarrow> bool" where
  "ends f P r = (case r of Ok x t \<Rightarrow> P x t | Sleep ch t \<Rightarrow> f t | Panic m \<Rightarrow> True)"

named_theorems ends_intros \<open>rules that follow a run to its end\<close>

lemma ends_simps [simp]:
  "ends f P (kret x s) = P x s" "ends f Q (kpanic m s)" "ends f R (kget g s) = R (g s) s"
  "ends f U (kmod h s) = U () (h s)"
  by (simp_all add: ends_def kret_apply kpanic_apply kget_apply kmod_apply)

lemma ends_mono: "ends f P r \<Longrightarrow> (\<And>x t. P x t \<Longrightarrow> Q x t) \<Longrightarrow> ends f Q r"
  by (cases r) (auto simp: ends_def)

lemma ends_bind [ends_intros]:
  assumes "kept f (m s)" "\<And>x t. m s = Ok x t \<Longrightarrow> f t \<Longrightarrow> ends f P (k x t)"
  shows "ends f P (kbind m k s)"
  using assms by (cases "m s") (auto simp: kbind_def ends_def)

lemma ends_then [ends_intros]:
  assumes "kept f (m s)" "\<And>x t. m s = Ok x t \<Longrightarrow> f t \<Longrightarrow> ends f P (n t)"
  shows "ends f P (kthen m n s)"
  using assms by (simp add: kthen_def ends_bind)

lemma ends_kif [ends_intros]:
  assumes "p s \<Longrightarrow> ends f P (m s)" "\<not> p s \<Longrightarrow> ends f P (n s)"
  shows "ends f P (kif p m n s)"
  using assms by (simp add: kif_def)

lemma ends_if [ends_intros]:
  assumes "b \<Longrightarrow> ends f P (m s)" "\<not> b \<Longrightarrow> ends f P (n s)"
  shows "ends f P ((if b then m else n) s)"
  using assms by simp

lemma ends_option [ends_intros]:
  assumes "z = None \<Longrightarrow> ends f P (m s)" "\<And>x. z = Some x \<Longrightarrow> ends f P (n x s)"
  shows "ends f P ((case z of None \<Rightarrow> m | Some x \<Rightarrow> n x) s)"
  using assms by (cases z) simp_all

lemma ends_prod [ends_intros]:
  assumes "\<And>a b. z = (a, b) \<Longrightarrow> ends f P (n a b s)"
  shows "ends f P ((case z of (a, b) \<Rightarrow> n a b) s)"
  using assms by (cases z) simp

lemma kept_True: "kept (\<lambda>_. True) r"
  by (cases r) simp_all

text \<open>Memory management never sleeps.\<close>

definition awake :: "('s, 'a) outcome \<Rightarrow> bool" where
  "awake r \<longleftrightarrow> (\<forall>ch t. r \<noteq> Sleep ch t)"

lemma awakeD: "awake r \<Longrightarrow> r \<noteq> Sleep ch t"
  by (simp add: awake_def)

named_theorems awake_intros \<open>rules for code that does not sleep\<close>

lemma awake_basic [simp]:
  "awake (Ok x s)" "awake (Panic e)" "awake (kret x s)" "awake (kpanic e s)" "awake (kget g s)" "awake (kmod h s)" "awake (kassert e p s)"
  by (simp_all add: awake_def kret_apply kpanic_apply kget_apply kmod_apply kassert_def)

lemma awake_bind [awake_intros]: "awake (m s) \<Longrightarrow> (\<And>x t. awake (k x t)) \<Longrightarrow> awake (kbind m k s)"
  unfolding awake_def kbind_def by (auto split: outcome.splits)

lemma awake_then [awake_intros]: "awake (m s) \<Longrightarrow> (\<And>t. awake (n t)) \<Longrightarrow> awake (kthen m n s)"
  unfolding kthen_def by (rule awake_bind)

lemma awake_if [awake_intros]: "(b \<Longrightarrow> awake (m s)) \<Longrightarrow> (\<not> b \<Longrightarrow> awake (n s)) \<Longrightarrow> awake ((if b then m else n) s)"
  by simp

lemma awake_option [awake_intros]:
  "(z = None \<Longrightarrow> awake (m s)) \<Longrightarrow> (\<And>x. z = Some x \<Longrightarrow> awake (n x s)) \<Longrightarrow> awake ((case z of None \<Rightarrow> m | Some x \<Rightarrow> n x) s)"
  by (cases z) simp_all

lemma awake_option_outcome [awake_intros]:
  "(z = None \<Longrightarrow> awake r) \<Longrightarrow> (\<And>x. z = Some x \<Longrightarrow> awake (n x)) \<Longrightarrow> awake (case z of None \<Rightarrow> r | Some x \<Rightarrow> n x)"
  by (cases z) simp_all

lemma awake_kfor [awake_intros]: "(\<And>x s. awake (m x s)) \<Longrightarrow> awake (kfor m xs s)"
  by (induction xs arbitrary: s) (auto intro!: awake_intros)

lemma awake_kfree [awake_intros]: "awake (kfree v s)"
  unfolding kfree_def by (auto intro!: awake_intros)

lemma awake_kalloc [awake_intros]: "awake (kalloc s)"
  by (simp add: kalloc_def Let_def)

lemma awake_words [awake_intros]: "awake (kload p s)" "awake (kstore p w s)" "awake (kmemset p w n s)"
  by (simp_all add: kload_def kstore_def kmemset_def)

lemma awake_walkpgdir [awake_intros]: "awake (walkpgdir d va al s)"
  unfolding walkpgdir_def by (auto intro!: awake_intros)

lemma awake_mappages_loop [awake_intros]: "awake (mappages_loop d a pa perm n s)"
proof (induction n arbitrary: a pa s)
  case 0
  then show ?case unfolding mappages_loop.simps[of d a pa perm 0] by (auto intro!: awake_intros)
next
  case (Suc n)
  then show ?case unfolding mappages_loop.simps[of d a pa perm "Suc n"] by (auto intro!: awake_intros)
qed

lemma awake_mappages [awake_intros]: "awake (mappages d va n pa perm s)"
  unfolding mappages_def Let_def by (auto intro!: awake_intros)

lemma awake_deallocuvm_loop [awake_intros]: "awake (deallocuvm_loop d n a s)"
proof (induction d n a arbitrary: s rule: deallocuvm_loop.induct)
  case (1 d n a)
  then show ?case unfolding deallocuvm_loop.simps[of d n a] by (auto intro!: awake_intros)
qed

lemma awake_freevm [awake_intros]: "awake (freevm d s)"
  unfolding freevm_def deallocuvm_def by (auto intro!: awake_intros)

lemma awake_setupkvm_loop [awake_intros]: "awake (setupkvm_loop d ks s)"
  by (induction d ks arbitrary: s rule: setupkvm_loop.induct) (auto intro!: awake_intros)

lemma awake_setupkvm [awake_intros]: "awake (setupkvm s)"
  unfolding setupkvm_def by (auto intro!: awake_intros)

lemma awake_copyuvm_loop [awake_intros]: "awake (copyuvm_loop d e n i s)"
proof (induction d e n i arbitrary: s rule: copyuvm_loop.induct)
  case (1 d e n i)
  then show ?case unfolding copyuvm_loop.simps[of d e n i] by (auto intro!: awake_intros)
qed

lemma awake_copyuvm [awake_intros]: "awake (copyuvm d n s)"
  unfolding copyuvm_def by (auto intro!: awake_intros)

section \<open>Memory management\<close>

text \<open>An observation that does not depend on memory is kept by all of memory management.\<close>

locale memframe =
  fixes f :: "'a kmem_scheme \<Rightarrow> bool"
  assumes upd_mem: "f s \<Longrightarrow> f (s\<lparr>km_mem := m\<rparr>)" "f s \<Longrightarrow> f (s\<lparr>km_freelist := v\<rparr>)"
begin

lemma kept_kalloc [kept_intros]: "f s \<Longrightarrow> kept f (kalloc s)"
  unfolding kalloc_def Let_def by (auto simp: upd_mem intro!: kept_intros)

lemma kept_kfree [kept_intros]: "f s \<Longrightarrow> kept f (kfree v s)"
  unfolding kfree_def by (auto simp: upd_mem intro!: kept_intros)

lemma kept_kload [kept_intros]: "f s \<Longrightarrow> kept f (kload p s)"
  by (simp add: kload_def upd_mem)

lemma kept_kstore [kept_intros]: "f s \<Longrightarrow> kept f (kstore p w s)"
  by (simp add: kstore_def upd_mem)

lemma kept_kmemset [kept_intros]: "f s \<Longrightarrow> kept f (kmemset p w n s)"
  by (simp add: kmemset_def upd_mem)

lemma kept_walkpgdir [kept_intros]: "f s \<Longrightarrow> kept f (walkpgdir d va al s)"
  unfolding walkpgdir_def by (auto simp: upd_mem intro!: kept_intros)

lemma kept_mappages_loop [kept_intros]: "f s \<Longrightarrow> kept f (mappages_loop d a pa perm n s)"
proof (induction n arbitrary: a pa s)
  case 0
  then show ?case unfolding mappages_loop.simps[of d a pa perm 0] by (auto simp: upd_mem intro!: kept_intros)
next
  case (Suc n)
  then show ?case unfolding mappages_loop.simps[of d a pa perm "Suc n"] by (auto simp: upd_mem intro!: kept_intros)
qed

lemma kept_mappages [kept_intros]: "f s \<Longrightarrow> kept f (mappages d va n pa perm s)"
  unfolding mappages_def Let_def by (auto simp: upd_mem intro!: kept_intros)

lemma kept_deallocuvm_loop [kept_intros]: "f s \<Longrightarrow> kept f (deallocuvm_loop d n a s)"
proof (induction d n a arbitrary: s rule: deallocuvm_loop.induct)
  case (1 d n a)
  then show ?case unfolding deallocuvm_loop.simps[of d n a] by (auto simp: upd_mem intro!: kept_intros)
qed

lemma kept_deallocuvm [kept_intros]: "f s \<Longrightarrow> kept f (deallocuvm d m n s)"
  unfolding deallocuvm_def by (auto simp: upd_mem intro!: kept_intros)

lemma kept_freevm [kept_intros]: "f s \<Longrightarrow> kept f (freevm d s)"
  unfolding freevm_def by (auto simp: upd_mem intro!: kept_intros)

lemma kept_setupkvm_loop [kept_intros]: "f s \<Longrightarrow> kept f (setupkvm_loop d ks s)"
  by (induction d ks arbitrary: s rule: setupkvm_loop.induct) (auto simp: upd_mem intro!: kept_intros)

lemma kept_setupkvm [kept_intros]: "f s \<Longrightarrow> kept f (setupkvm s)"
  unfolding setupkvm_def by (auto simp: upd_mem intro!: kept_intros)

lemma kept_inituvm [kept_intros]: "f s \<Longrightarrow> kept f (inituvm d b n s)"
  unfolding inituvm_def by (auto simp: upd_mem intro!: kept_intros)

lemma kept_allocuvm_loop [kept_intros]: "f s \<Longrightarrow> kept f (allocuvm_loop d m n a s)"
proof (induction d m n a arbitrary: s rule: allocuvm_loop.induct)
  case (1 d m n a)
  then show ?case unfolding allocuvm_loop.simps[of d m n a] by (auto simp: upd_mem intro!: kept_intros)
qed

lemma kept_allocuvm [kept_intros]: "f s \<Longrightarrow> kept f (allocuvm d m n s)"
  unfolding allocuvm_def by (auto simp: upd_mem intro!: kept_intros)

lemma kept_clearpteu [kept_intros]: "f s \<Longrightarrow> kept f (clearpteu d va s)"
  unfolding clearpteu_def by (auto simp: upd_mem intro!: kept_intros)

lemma kept_copyuvm_loop [kept_intros]: "f s \<Longrightarrow> kept f (copyuvm_loop d e n i s)"
proof (induction d e n i arbitrary: s rule: copyuvm_loop.induct)
  case (1 d e n i)
  then show ?case unfolding copyuvm_loop.simps[of d e n i] by (auto simp: upd_mem intro!: kept_intros)
qed

lemma kept_copyuvm [kept_intros]: "f s \<Longrightarrow> kept f (copyuvm d n s)"
  unfolding copyuvm_def by (auto simp: upd_mem intro!: kept_intros)

lemma kept_uva2ka [kept_intros]: "f s \<Longrightarrow> kept f (uva2ka d va s)"
  unfolding uva2ka_def by (auto simp: upd_mem intro!: kept_intros)

lemma kept_copyout_loop [kept_intros]: "f s \<Longrightarrow> kept f (copyout_loop d va p i n s)"
proof (induction d va p i n arbitrary: s rule: copyout_loop.induct)
  case (1 d va p i n)
  then show ?case unfolding copyout_loop.simps[of d va p i n] Let_def by (auto simp: upd_mem intro!: kept_intros)
qed

lemma kept_copyout [kept_intros]: "f s \<Longrightarrow> kept f (copyout d va p n s)"
  unfolding copyout_def by (auto simp: upd_mem intro!: kept_intros)

lemma kept_exec_args [kept_intros]: "f s \<Longrightarrow> kept f (exec_args d as sp us s)"
  by (induction d as sp us arbitrary: s rule: exec_args.induct) (auto simp: Let_def upd_mem intro!: kept_intros)

lemma kept_exec_stack [kept_intros]: "f s \<Longrightarrow> kept f (exec_stack d argv n s)"
  unfolding exec_stack_def Let_def ktry_def by (auto simp: upd_mem intro!: kept_intros)

end

section \<open>The file system keeps whatever it does not store\<close>

text \<open>
  An observation of the state that no store of the file system and below changes. Every function
  from the buffer cache to the file table then keeps it. Devices are a parameter:
  every entry of the switch must keep the observation.
\<close>

definition dev_kept :: "('s \<Rightarrow> bool) \<Rightarrow> 's devsw \<Rightarrow> bool" where
  "dev_kept f dv \<longleftrightarrow>
     (\<forall>d rd ip dst n s. fst (dv d) = Some rd \<longrightarrow> f s \<longrightarrow> kept f (rd ip dst n s)) \<and>
     (\<forall>d wr ip src n s. snd (dv d) = Some wr \<longrightarrow> f s \<longrightarrow> kept f (wr ip src n s))"

lemma dev_kept_readD: "dev_kept f dv \<Longrightarrow> fst (dv d) = Some rd \<Longrightarrow> f s \<Longrightarrow> kept f (rd ip dst n s)"
  unfolding dev_kept_def by blast

lemma dev_kept_writeD: "dev_kept f dv \<Longrightarrow> snd (dv d) = Some wr \<Longrightarrow> f s \<Longrightarrow> kept f (wr ip src n s)"
  unfolding dev_kept_def by blast

lemma upd_frame [simp]:
  "cur (upd_inode i j s) = cur s" "ptable (upd_inode i j s) = ptable s"
  "cur (upd_pipe p k s) = cur s" "ptable (upd_pipe p k s) = ptable s"
  "cur (upd_file q l s) = cur s" "ptable (upd_file q l s) = ptable s"
  by (simp_all add: upd_inode_def upd_pipe_def upd_file_def)

locale kframe = memframe f for f :: "'a kfile_scheme \<Rightarrow> bool" +
  assumes upd_buf: "f s \<Longrightarrow> f (upd_buf i g s)"
    and upd_inode: "f s \<Longrightarrow> f (upd_inode i j s)"
    and upd_pipe: "f s \<Longrightarrow> f (upd_pipe p k s)"
    and upd_file: "f s \<Longrightarrow> f (upd_file i l s)"
    and upd_disk: "f s \<Longrightarrow> f (s\<lparr>memdisk := md\<rparr>)" "f s \<Longrightarrow> f (s\<lparr>dwrites := dw\<rparr>)"
      "f s \<Longrightarrow> f (s\<lparr>mru := ml\<rparr>)" "f s \<Longrightarrow> f (s\<lparr>fs_sb := sb\<rparr>)"
    and upd_log: "f s \<Longrightarrow> f (s\<lparr>lg_outstanding := lo\<rparr>)" "f s \<Longrightarrow> f (s\<lparr>lg_committing := lc\<rparr>)"
      "f s \<Longrightarrow> f (s\<lparr>lg_start := n1\<rparr>)" "f s \<Longrightarrow> f (s\<lparr>lg_size := n2\<rparr>)" "f s \<Longrightarrow> f (s\<lparr>lg_dev := n3\<rparr>)"
      "f s \<Longrightarrow> f (s\<lparr>lh_n := n4\<rparr>)" "f s \<Longrightarrow> f (s\<lparr>lh_block := b\<rparr>)"
    and wake: "f s \<Longrightarrow> f (wakeup1 ch s)"
    and doze: "f s \<Longrightarrow> (\<And>q. w \<noteq> ChProc q) \<Longrightarrow> f (upd_proc (cur s) (\<lambda>p. p\<lparr>p_chan := Some w, p_state := SLEEPING\<rparr>) s)"
begin

lemma upd_data: "f s \<Longrightarrow> f (upd_data i h s)"
  by (simp add: upd_data_def upd_buf)

lemmas stores = upd_mem upd_buf upd_data upd_inode upd_pipe upd_file upd_disk upd_log wake doze

lemma kept_sleep [kept_intros]: "f s \<Longrightarrow> (\<And>q. ch \<noteq> ChProc q) \<Longrightarrow> kept f (sleep ch s)"
  by (simp add: sleep_def stores)

lemma kept_wakeup [kept_intros]: "f s \<Longrightarrow> kept f (wakeup ch s)"
  by (simp add: wakeup_def stores)

lemma kept_acquiresleep [kept_intros]:
  "f s \<Longrightarrow> (\<And>k. f (put k s)) \<Longrightarrow> (\<And>q. ch \<noteq> ChProc q) \<Longrightarrow> kept f (acquiresleep ch get put s)"
  unfolding acquiresleep_def by (auto simp: stores intro!: kept_intros)

lemma kept_releasesleep [kept_intros]:
  "(\<And>k. f (put k s)) \<Longrightarrow> kept f (releasesleep ch put s)"
  unfolding releasesleep_def by (auto simp: stores intro!: kept_intros)

lemma kept_iderw [kept_intros]: "f s \<Longrightarrow> kept f (iderw i s)"
  unfolding iderw_def by (auto simp: stores intro!: kept_intros)

lemma kept_bget [kept_intros]: "f s \<Longrightarrow> kept f (bget d b s)"
  unfolding bget_def block_lock_def by (auto simp: stores intro!: kept_intros)

lemma kept_bread [kept_intros]: "f s \<Longrightarrow> kept f (bread d b s)"
  unfolding bread_def by (auto simp: stores intro!: kept_intros)

lemma kept_bwrite [kept_intros]: "f s \<Longrightarrow> kept f (bwrite b s)"
  unfolding bwrite_def by (auto simp: stores intro!: kept_intros)

lemma kept_brelse [kept_intros]: "f s \<Longrightarrow> kept f (brelse b s)"
  unfolding brelse_def by (auto simp: stores intro!: kept_intros)

subsection \<open>Log\<close>

lemma kept_readsb [kept_intros]: "f s \<Longrightarrow> kept f (readsb d s)"
  unfolding readsb_def by (auto simp: stores intro!: kept_intros)

lemma kept_install_one [kept_intros]: "f s \<Longrightarrow> kept f (install_one i s)"
  unfolding install_one_def by (auto simp: stores intro!: kept_intros)

lemma kept_install_trans [kept_intros]: "f s \<Longrightarrow> kept f (install_trans s)"
  unfolding install_trans_def by (auto simp: stores intro!: kept_intros)

lemma kept_read_head [kept_intros]: "f s \<Longrightarrow> kept f (read_head s)"
  unfolding read_head_def by (auto simp: stores intro!: kept_intros)

lemma kept_write_head [kept_intros]: "f s \<Longrightarrow> kept f (write_head s)"
  unfolding write_head_def by (auto simp: stores intro!: kept_intros)

lemma kept_recover_from_log [kept_intros]: "f s \<Longrightarrow> kept f (recover_from_log s)"
  unfolding recover_from_log_def by (auto simp: stores intro!: kept_intros)

lemma kept_initlog [kept_intros]: "f s \<Longrightarrow> kept f (initlog d s)"
  unfolding initlog_def by (auto simp: stores intro!: kept_intros)

lemma kept_begin_op [kept_intros]: "f s \<Longrightarrow> kept f (begin_op s)"
  unfolding begin_op_def by (auto simp: stores intro!: kept_intros)

lemma kept_write_log_one [kept_intros]: "f s \<Longrightarrow> kept f (write_log_one i s)"
  unfolding write_log_one_def by (auto simp: stores intro!: kept_intros)

lemma kept_write_log [kept_intros]: "f s \<Longrightarrow> kept f (write_log s)"
  unfolding write_log_def by (auto simp: stores intro!: kept_intros)

lemma kept_commit [kept_intros]: "f s \<Longrightarrow> kept f (commit s)"
  unfolding commit_def by (auto simp: stores intro!: kept_intros)

lemma kept_end_op [kept_intros]: "f s \<Longrightarrow> kept f (end_op s)"
  unfolding end_op_def by (auto simp: stores intro!: kept_intros)

lemma kept_log_write [kept_intros]: "f s \<Longrightarrow> kept f (log_write b s)"
  unfolding log_write_def Let_def by (auto simp: stores intro!: kept_intros)

subsection \<open>Inodes\<close>

lemma kept_bzero [kept_intros]: "f s \<Longrightarrow> kept f (bzero d b s)"
  unfolding bzero_def by (auto simp: stores intro!: kept_intros)

lemma kept_balloc_scan [kept_intros]: "f s \<Longrightarrow> kept f (balloc_scan d n bs s)"
proof (induction bs arbitrary: s)
  case (Cons b bs)
  then show ?case by (auto simp: stores intro!: kept_intros)
qed simp

lemma kept_balloc [kept_intros]: "f s \<Longrightarrow> kept f (balloc d s)"
  unfolding balloc_def Let_def by (auto simp: stores intro!: kept_intros)

lemma kept_bfree [kept_intros]: "f s \<Longrightarrow> kept f (bfree d b s)"
  unfolding bfree_def by (auto simp: stores intro!: kept_intros)

lemma kept_iinit [kept_intros]: "f s \<Longrightarrow> kept f (iinit d s)"
  unfolding iinit_def by (auto simp: stores intro!: kept_intros)

lemma kept_iget [kept_intros]: "f s \<Longrightarrow> kept f (iget d i s)"
  unfolding iget_def by (auto simp: stores intro!: kept_intros)

lemma kept_ialloc_scan [kept_intros]: "f s \<Longrightarrow> kept f (ialloc_scan d ty is s)"
proof (induction "is" arbitrary: s)
  case (Cons i "is")
  then show ?case by (auto simp: stores intro!: kept_intros)
qed simp

lemma kept_ialloc [kept_intros]: "f s \<Longrightarrow> kept f (ialloc d ty s)"
  unfolding ialloc_def by (auto simp: stores intro!: kept_intros)

lemma kept_iupdate [kept_intros]: "f s \<Longrightarrow> kept f (iupdate ip s)"
  unfolding iupdate_def by (auto simp: stores intro!: kept_intros)

lemma kept_idup [kept_intros]: "f s \<Longrightarrow> kept f (idup ip s)"
  unfolding idup_def by (auto simp: stores intro!: kept_intros)

lemma kept_inode_acquire [kept_intros]: "f s \<Longrightarrow> kept f (inode_acquire ip s)"
  unfolding inode_acquire_def by (auto simp: stores intro!: kept_intros)

lemma kept_inode_release [kept_intros]: "f s \<Longrightarrow> kept f (inode_release ip s)"
  unfolding inode_release_def by (auto simp: stores intro!: kept_intros)

lemma kept_ilock [kept_intros]: "f s \<Longrightarrow> kept f (ilock ip s)"
  unfolding ilock_def by (auto simp: stores intro!: kept_intros)

lemma kept_iunlock [kept_intros]: "f s \<Longrightarrow> kept f (iunlock ip s)"
  unfolding iunlock_def by (auto simp: stores intro!: kept_intros)

lemma kept_bmap [kept_intros]: "f s \<Longrightarrow> kept f (bmap ip b s)"
  unfolding bmap_def by (auto simp: stores intro!: kept_intros)

lemma kept_itrunc [kept_intros]: "f s \<Longrightarrow> kept f (itrunc ip s)"
  unfolding itrunc_def Let_def by (auto simp: stores intro!: kept_intros)

lemma kept_iput [kept_intros]: "f s \<Longrightarrow> kept f (iput ip s)"
  unfolding iput_def by (auto simp: stores intro!: kept_intros)

lemma kept_iunlockput [kept_intros]: "f s \<Longrightarrow> kept f (iunlockput ip s)"
  unfolding iunlockput_def by (auto simp: stores intro!: kept_intros)

lemma kept_readi_loop [kept_intros]: "f s \<Longrightarrow> kept f (readi_loop ip dst off n tot s)"
proof (induction ip dst off n tot arbitrary: s rule: readi_loop.induct)
  case (1 ip dst off n tot)
  then show ?case unfolding readi_loop.simps[of ip dst off n tot] Let_def by (auto simp: stores intro!: kept_intros)
qed

lemma kept_writei_loop [kept_intros]: "f s \<Longrightarrow> kept f (writei_loop ip src off n tot s)"
proof (induction ip src off n tot arbitrary: s rule: writei_loop.induct)
  case (1 ip src off n tot)
  then show ?case unfolding writei_loop.simps[of ip src off n tot] Let_def by (auto simp: stores intro!: kept_intros)
qed

lemma kept_readi [kept_intros]: "dev_kept f dv \<Longrightarrow> f s \<Longrightarrow> kept f (readi dv ip dst off n s)"
  unfolding readi_def Let_def by (auto simp: stores intro!: kept_intros dest: dev_kept_readD)

lemma kept_writei [kept_intros]: "dev_kept f dv \<Longrightarrow> f s \<Longrightarrow> kept f (writei dv ip src off n s)"
  unfolding writei_def Let_def by (auto simp: stores intro!: kept_intros dest: dev_kept_writeD)

subsection \<open>Directories and paths\<close>

lemma kept_dirlookup_loop [kept_intros]:
  "dev_kept f dv \<Longrightarrow> f s \<Longrightarrow> kept f (dirlookup_loop dv dp name n off s)"
proof (induction dv dp name n off arbitrary: s rule: dirlookup_loop.induct)
  case (1 dv dp name n off)
  then show ?case unfolding dirlookup_loop.simps[of dv dp name n off] by (auto simp: stores intro!: kept_intros)
qed

lemma kept_dirlink_slot [kept_intros]:
  "dev_kept f dv \<Longrightarrow> f s \<Longrightarrow> kept f (dirlink_slot dv dp n off s)"
proof (induction dv dp n off arbitrary: s rule: dirlink_slot.induct)
  case (1 dv dp n off)
  then show ?case unfolding dirlink_slot.simps[of dv dp n off] by (auto simp: stores intro!: kept_intros)
qed

lemma kept_dirlookup [kept_intros]: "dev_kept f dv \<Longrightarrow> f s \<Longrightarrow> kept f (dirlookup dv dp name s)"
  unfolding dirlookup_def by (auto simp: stores intro!: kept_intros)

lemma kept_dirlink [kept_intros]: "dev_kept f dv \<Longrightarrow> f s \<Longrightarrow> kept f (dirlink dv dp name i s)"
  unfolding dirlink_def by (auto simp: stores intro!: kept_intros)

lemma kept_namex_loop [kept_intros]:
  "dev_kept f dv \<Longrightarrow> f s \<Longrightarrow> kept f (namex_loop dv parent ip path name s)"
proof (induction dv parent ip path name arbitrary: s rule: namex_loop.induct)
  case (1 dv parent ip path name)
  show ?case
  proof (cases "skipelem path name")
    case None
    then show ?thesis using 1(2,3) unfolding namex_loop.simps[of dv parent ip path name] by (auto simp: stores intro!: kept_intros)
  next
    case (Some r)
    obtain path' name' where r: "r = (path', name')" by (cases r)
    have IH: "kept f (namex_loop dv parent ip' path' name' t)"
      if "\<not> (parent \<and> path' = [])" "f t" for ip' t
      using 1(1)[OF Some r[symmetric] that(1) 1(2)] 1(3) that(2) by simp
    show ?thesis using 1(2,3) IH unfolding namex_loop.simps[of dv parent ip path name] Some r option.case prod.case
      by (cases parent) (auto simp: stores intro!: kept_intros)
  qed
qed

lemma kept_namex [kept_intros]: "dev_kept f dv \<Longrightarrow> f s \<Longrightarrow> kept f (namex dv path p name s)"
  unfolding namex_def by (auto simp: stores intro!: kept_intros)

lemma kept_namei [kept_intros]: "dev_kept f dv \<Longrightarrow> f s \<Longrightarrow> kept f (namei dv path s)"
  unfolding namei_def by (auto simp: stores intro!: kept_intros)

lemma kept_nameiparent [kept_intros]: "dev_kept f dv \<Longrightarrow> f s \<Longrightarrow> kept f (nameiparent dv path name s)"
  unfolding nameiparent_def by (auto simp: stores intro!: kept_intros)

subsection \<open>Pipes and files\<close>

lemma kept_pipeclose [kept_intros]: "f s \<Longrightarrow> kept f (pipeclose p w s)"
  unfolding pipeclose_def by (auto simp: stores intro!: kept_intros)

lemma kept_pipewrite_from [kept_intros]: "f s \<Longrightarrow> kept f (pipewrite_from p addr n i s)"
proof (induction "nat (n - int i)" arbitrary: i s)
  case 0
  then show ?case unfolding pipewrite_from.simps[of p addr n i] by (auto simp: stores intro!: kept_intros)
next
  case (Suc m)
  then have "m = nat (n - int (i + 1))" by simp
  from Suc(1)[OF this] Suc(3) show ?case unfolding pipewrite_from.simps[of p addr n i] by (auto simp: stores intro!: kept_intros)
qed

lemma kept_pipewrite [kept_intros]: "f s \<Longrightarrow> kept f (pipewrite p addr n s)"
  unfolding pipewrite_def by (auto simp: stores intro!: kept_intros)

lemma kept_piperead [kept_intros]: "f s \<Longrightarrow> kept f (piperead p addr n s)"
  unfolding piperead_def by (auto simp: stores intro!: kept_intros)

lemma kept_filealloc [kept_intros]: "f s \<Longrightarrow> kept f (filealloc s)"
  unfolding filealloc_def by (auto simp: stores intro!: kept_intros)

lemma kept_filedup [kept_intros]: "f s \<Longrightarrow> kept f (filedup fd s)"
  unfolding filedup_def by (auto simp: stores intro!: kept_intros)

lemma kept_fileclose [kept_intros]: "f s \<Longrightarrow> kept f (fileclose fd s)"
  unfolding fileclose_def by (auto simp: stores intro!: kept_intros split: fdtype.split)

lemma kept_filestat [kept_intros]: "f s \<Longrightarrow> kept f (filestat fd st s)"
  unfolding filestat_def by (auto simp: stores intro!: kept_intros)

lemma kept_fileread [kept_intros]: "dev_kept f dv \<Longrightarrow> f s \<Longrightarrow> kept f (fileread dv fd addr n s)"
  unfolding fileread_def by (auto simp: stores intro!: kept_intros split: fdtype.split)

lemma kept_filewrite_loop [kept_intros]:
  "dev_kept f dv \<Longrightarrow> f s \<Longrightarrow> kept f (filewrite_loop dv fd ip addr n i s)"
proof (induction dv fd ip addr n i arbitrary: s rule: filewrite_loop.induct)
  case (1 dv fd ip addr n i)
  then show ?case unfolding filewrite_loop.simps[of dv fd ip addr n i] Let_def by (auto simp: stores intro!: kept_intros)
qed

lemma kept_filewrite [kept_intros]: "dev_kept f dv \<Longrightarrow> f s \<Longrightarrow> kept f (filewrite dv fd addr n s)"
  unfolding filewrite_def by (auto simp: stores intro!: kept_intros split: fdtype.split)

lemma kept_pipealloc [kept_intros]: "f s \<Longrightarrow> kept f (pipealloc s)"
  unfolding pipealloc_def by (auto simp: stores intro!: kept_intros)

lemma kept_switchuvm [kept_intros]: "f s \<Longrightarrow> kept f (switchuvm p s)"
  unfolding switchuvm_def by (auto simp: stores intro!: kept_intros)

subsection \<open>Loading a program\<close>

lemma kept_loaduvm_loop [kept_intros]:
  "dev_kept f dv \<Longrightarrow> f s \<Longrightarrow> kept f (loaduvm_loop dv d a ip off n i s)"
proof (induction dv d a ip off n i arbitrary: s rule: loaduvm_loop.induct)
  case (1 dv d a ip off n i)
  then show ?case unfolding loaduvm_loop.simps[of dv d a ip off n i] Let_def by (auto simp: stores intro!: kept_intros)
qed

lemma kept_loaduvm [kept_intros]: "dev_kept f dv \<Longrightarrow> f s \<Longrightarrow> kept f (loaduvm dv d a ip off n s)"
  unfolding loaduvm_def by (auto simp: stores intro!: kept_intros)

lemma kept_exec_load [kept_intros]: "dev_kept f dv \<Longrightarrow> f s \<Longrightarrow> kept f (exec_load dv d ip off k n s)"
  by (induction k arbitrary: off n s) (auto simp: Let_def stores intro!: kept_intros)

end

end
