(* ===== verification/Console_Edit.thy ===== *)
theory Console_Edit
  imports Console
begin

text \<open>
  Console input refines a line editor on two lists (\<^verbatim>\<open>consoleintr\<close>, \<^verbatim>\<open>consoleread\<close> of
  \<^verbatim>\<open>kernel/console.c\<close>).
\<close>

section \<open>Line editing\<close>

text \<open>
  What the input buffer means: the characters that may be read, and the line being typed.
  The reference editor works on these two lists.
\<close>

interpretation cr: ring_buffer INPUT_BUF
  by unfold_locales simp_all

definition cons_all :: "'a kcons_scheme \<Rightarrow> u8 list" where
  "cons_all s = ring_list INPUT_BUF (in_buf s) (in_r s) (in_e s)"

definition cons_ready :: "'a kcons_scheme \<Rightarrow> u8 list" where
  "cons_ready s = ring_list INPUT_BUF (in_buf s) (in_r s) (in_w s)"

definition cons_line :: "'a kcons_scheme \<Rightarrow> u8 list" where
  "cons_line s = drop (unat (in_w s - in_r s)) (cons_all s)"

definition cons_inv :: "'a kcons_scheme \<Rightarrow> bool" where
  "cons_inv s \<longleftrightarrow> screen_ok s \<and> unat (in_w s - in_r s) \<le> unat (in_e s - in_r s) \<and>
     unat (in_e s - in_r s) \<le> INPUT_BUF \<and> 10 \<notin> set (cons_line s)"

definition edit :: "int \<Rightarrow> u8 list \<times> u8 list \<Rightarrow> u8 list \<times> u8 list" where
  "edit c = (\<lambda>(ready, line).
     if c = 16 \<or> c = 0 then (ready, line)
     else if c = 21 then (ready, [])
     else if c = 8 \<or> c = 127 then (ready, butlast line)
     else if length ready + length line < INPUT_BUF then
       let line = line @ [of_int (if c = 13 then 10 else c)] in
       if c = 10 \<or> c = 13 \<or> c = 4 \<or> length ready + length line = INPUT_BUF then (ready @ line, [])
       else (ready, line)
     else (ready, line))"

lemma cons_parts:
  assumes "cons_inv s"
  shows "cons_all s = cons_ready s @ cons_line s" "length (cons_ready s) = unat (in_w s - in_r s)"
    "length (cons_all s) = unat (in_e s - in_r s)" "in_e s = in_w s \<longleftrightarrow> cons_line s = []"
proof -
  have le: "unat (in_w s - in_r s) \<le> unat (in_e s - in_r s)" using assms by (simp add: cons_inv_def)
  show "cons_all s = cons_ready s @ cons_line s"
    using ring_list_take[OF le, of INPUT_BUF "in_buf s"] by (simp add: cons_ready_def cons_line_def cons_all_def)
  show "length (cons_ready s) = unat (in_w s - in_r s)" "length (cons_all s) = unat (in_e s - in_r s)"
    by (simp_all add: cons_ready_def cons_all_def)
  have "in_e s = in_w s \<longleftrightarrow> in_e s - in_r s = in_w s - in_r s" by simp
  also have "\<dots> \<longleftrightarrow> unat (in_e s - in_r s) = unat (in_w s - in_r s)" by (simp only: word_unat_eq_iff)
  also have "\<dots> \<longleftrightarrow> cons_line s = []" using le by (auto simp: cons_line_def cons_all_def)
  finally show "in_e s = in_w s \<longleftrightarrow> cons_line s = []" .
qed

lemma only_screen_cons:
  assumes "only_screen s t"
  shows "cons_ready t = cons_ready s" "cons_line t = cons_line s" "screen_ok t \<Longrightarrow> cons_inv s \<Longrightarrow> cons_inv t"
  by (simp_all add: only_screen_keeps[OF assms] cons_ready_def cons_line_def cons_all_def cons_inv_def)

lemma cons_inv_screen: "cons_inv s \<Longrightarrow> screen_ok s"
  by (simp add: cons_inv_def)

text \<open>Erasing the last character of the line.\<close>

lemma erase_ok:
  assumes "cons_inv s" "in_e s \<noteq> in_w s"
  shows "cons_inv (s\<lparr>in_e := in_e s - 1\<rparr>)" "cons_ready (s\<lparr>in_e := in_e s - 1\<rparr>) = cons_ready s"
    "cons_line (s\<lparr>in_e := in_e s - 1\<rparr>) = butlast (cons_line s)"
proof -
  let ?t = "s\<lparr>in_e := in_e s - 1\<rparr>"
  note p = cons_parts[OF assms(1)]
  have lt: "unat (in_w s - in_r s) < unat (in_e s - in_r s)"
  proof -
    have "cons_line s \<noteq> []" using p(4) assms(2) by simp
    then show ?thesis by (simp add: cons_line_def cons_all_def)
  qed
  then have ne: "in_r s \<noteq> in_e s" by auto
  have c: "unat (in_e s - 1 - in_r s) = unat (in_e s - in_r s) - 1" by (rule ring_count_pred(1)[OF ne])
  have a: "cons_all ?t = butlast (cons_all s)" using ring_unput[OF ne] by (simp add: cons_all_def)
  show r: "cons_ready ?t = cons_ready s" by (simp add: cons_ready_def)
  show l: "cons_line ?t = butlast (cons_line s)" using a by (simp add: cons_line_def drop_butlast)
  have "10 \<notin> set (butlast (cons_line s))" using assms(1) by (auto simp: cons_inv_def dest: in_set_butlastD)
  moreover have "unat (in_w s - in_r s) \<le> unat (in_e s - 1 - in_r s)" "unat (in_e s - 1 - in_r s) \<le> INPUT_BUF"
    using assms(1) c lt by (auto simp: cons_inv_def)
  ultimately show "cons_inv ?t" using assms(1) by (simp add: cons_inv_def l screen_ok_def)
qed

lemma erase_echo_ok:
  assumes "cons_inv s" "in_e s \<noteq> in_w s"
  shows "\<exists>t. kthen (kmod (\<lambda>s. s\<lparr>in_e := in_e s - 1\<rparr>)) (\<lambda>s. consputc BACKSPACE (visible s) s) s = Ok () t \<and>
    cons_inv t \<and> cons_ready t = cons_ready s \<and> cons_line t = butlast (cons_line s)"
proof -
  let ?u = "s\<lparr>in_e := in_e s - 1\<rparr>"
  note e = erase_ok[OF assms]
  obtain t where "consputc BACKSPACE (visible ?u) ?u = Ok () t" "screen_ok t" "only_screen ?u t"
    using consputc_ok[OF cons_inv_screen[OF e(1)]] by blast
  then show ?thesis using e only_screen_cons[of ?u t] by (simp add: kthen_apply kmod_apply)
qed

lemma kill_line_ok:
  assumes "cons_inv s" "length (cons_line s) = n"
  shows "\<exists>t. kill_line n s = Ok () t \<and> cons_inv t \<and> cons_ready t = cons_ready s \<and> cons_line t = []"
  using assms
proof (induction n arbitrary: s)
  case 0
  then show ?case by (simp add: kret_apply)
next
  case (Suc n)
  note p = cons_parts[OF Suc.prems(1)]
  have ne: "cons_line s \<noteq> []" using Suc.prems(2) by auto
  then have ew: "in_e s \<noteq> in_w s" using p(4) by simp
  have "cons_all s \<noteq> []" "last (cons_all s) = last (cons_line s)" using p(1) ne by simp_all
  moreover from this have "in_r s \<noteq> in_e s" by (auto simp: cons_all_def)
  ultimately have "in_buf s (unat (in_e s - 1) mod INPUT_BUF) = last (cons_line s)"
    using ring_last[of "in_r s" "in_e s" "in_buf s" INPUT_BUF] by (simp add: cons_all_def)
  moreover have "last (cons_line s) \<noteq> 10" by (metis Suc.prems(1) cons_inv_def last_in_set ne)
  moreover obtain t where t: "kthen (kmod (\<lambda>s. s\<lparr>in_e := in_e s - 1\<rparr>)) (\<lambda>s. consputc BACKSPACE (visible s) s) s = Ok () t"
    "cons_inv t" "cons_ready t = cons_ready s" "cons_line t = butlast (cons_line s)"
    using erase_echo_ok[OF Suc.prems(1) ew] by blast
  moreover obtain u where "kill_line n t = Ok () u" "cons_inv u" "cons_ready u = cons_ready t" "cons_line u = []"
    using Suc.IH[OF t(2)] t(4) Suc.prems(2) by auto
  ultimately show ?case using ew by (auto simp: kthen_apply kmod_apply split: outcome.splits)
qed

lemma char_eq:
  assumes "0 \<le> c" "c < 256" "0 \<le> d" "d < 256"
  shows "(of_int c :: u8) = of_int d \<longleftrightarrow> c = d"
proof -
  have "(of_int c :: u8) = of_int d \<longleftrightarrow> uint (of_int c :: u8) = uint (of_int d :: u8)" by (simp only: word_uint_eq_iff)
  also have "\<dots> \<longleftrightarrow> c = d" using assms by (simp add: uint_word_of_int)
  finally show ?thesis .
qed

text \<open>Adding a character to the line; and making the line available to readers.\<close>

lemma put_ok:
  assumes "cons_inv s" "unat (in_e s - in_r s) < INPUT_BUF" "c \<noteq> 10 \<or> w = in_e s + 1" "w = in_w s \<or> w = in_e s + 1"
  defines "t \<equiv> s\<lparr>in_buf := (in_buf s)(unat (in_e s) mod INPUT_BUF := c), in_e := in_e s + 1, in_w := w\<rparr>"
  shows "cons_inv t" "w = in_w s \<Longrightarrow> cons_ready t = cons_ready s \<and> cons_line t = cons_line s @ [c]"
    "w = in_e s + 1 \<Longrightarrow> cons_ready t = cons_ready s @ cons_line s @ [c] \<and> cons_line t = []"
proof -
  note p = cons_parts[OF assms(1)]
  have le: "unat (in_w s - in_r s) \<le> unat (in_e s - in_r s)" and nl: "10 \<notin> set (cons_line s)" and sc: "screen_ok s"
    using assms(1) by (simp_all add: cons_inv_def)
  have all: "cons_all t = cons_all s @ [c]"
    using cr.ring_put[OF assms(2)] by (simp add: cons_all_def t_def)
  have cnt: "unat (in_e t - in_r t) = Suc (unat (in_e s - in_r s))"
    using cr.count_Suc[OF assms(2)] by (simp add: t_def)
  have ready: "cons_ready t = take (unat (w - in_r s)) (cons_all t)" if "unat (w - in_r s) \<le> unat (in_e t - in_r t)"
    using ring_list_take[OF that[unfolded t_def, simplified], of INPUT_BUF]
    by (simp add: cons_ready_def cons_all_def t_def)
  have line: "cons_line t = drop (unat (w - in_r s)) (cons_all t)" by (simp add: cons_line_def t_def)
  show 1: "cons_ready t = cons_ready s \<and> cons_line t = cons_line s @ [c]" if "w = in_w s"
    using ready line all p(1-3) that le cnt by simp
  have e: "unat (in_e s + 1 - in_r s) = length (cons_all s @ [c])" using cnt p(3) by (simp add: t_def)
  show 2: "cons_ready t = cons_ready s @ cons_line s @ [c] \<and> cons_line t = []" if "w = in_e s + 1"
    using ready line all p(1) that e cnt p(3) by simp
  have "unat (w - in_r s) \<le> unat (in_e t - in_r t)" using assms(4) cnt le by (auto simp: t_def)
  moreover have "10 \<notin> set (cons_line t)" using 1 2 nl assms(3,4) by auto
  moreover have "screen_ok t" using sc by (simp add: screen_ok_def t_def)
  ultimately show "cons_inv t" using cnt assms(2) by (simp add: cons_inv_def) (simp add: t_def)
qed

lemma wakeup1_cons [simp]:
  "cons_ready (wakeup1 c s) = cons_ready s" "cons_line (wakeup1 c s) = cons_line s" "cons_inv (wakeup1 c s) = cons_inv s"
  by (simp_all add: wakeup1_def cons_ready_def cons_line_def cons_all_def cons_inv_def screen_ok_def)

lemma cons_put_ok:
  assumes "cons_inv s" "0 \<le> c" "c < 256" "c \<notin> {16, 21, 8, 127}"
  shows "\<exists>t. cons_put c s = Ok () t \<and> cons_inv t \<and> (cons_ready t, cons_line t) = edit c (cons_ready s, cons_line s)"
proof -
  note p = cons_parts[OF assms(1)]
  have len: "length (cons_ready s) + length (cons_line s) = unat (in_e s - in_r s)" using p(1,3) by (metis length_append)
  have room: "in_e s - in_r s < of_nat INPUT_BUF \<longleftrightarrow> unat (in_e s - in_r s) < INPUT_BUF" by (simp add: word_less_nat_alt)
  show ?thesis
  proof (cases "c \<noteq> 0 \<and> unat (in_e s - in_r s) < INPUT_BUF")
    case False
    then have "(c \<noteq> 0 \<and> in_e s - in_r s < of_nat INPUT_BUF) = False" using room by blast
    then have "cons_put c s = Ok () s" by (simp only: cons_put_def if_False)
    moreover have "edit c (cons_ready s, cons_line s) = (cons_ready s, cons_line s)"
    proof (cases "c = 0")
      case True
      then show ?thesis by (simp add: edit_def)
    next
      case nz: False
      then have "(length (cons_ready s) + length (cons_line s) < INPUT_BUF) = False" unfolding len using False by blast
      moreover have "(c = 16 \<or> c = 0) = False" "(c = 21) = False" "(c = 8 \<or> c = 127) = False" using assms(4) nz by simp_all
      ultimately show ?thesis by (simp only: edit_def prod.case if_False)
    qed
    ultimately show ?thesis using assms(1) by simp
  next
    case True
    define d where "d = (if c = 13 then 10 else c)"
    define b where "b = (in_buf s)(unat (in_e s) mod INPUT_BUF := (of_int d :: u8))"
    define u where "u = s\<lparr>in_buf := b, in_e := in_e s + 1\<rparr>"
    have uok: "screen_ok u" using assms(1) by (simp add: cons_inv_def screen_ok_def u_def)
    obtain v where v: "consputc d (visible u) u = Ok () v" "screen_ok v" "only_screen u v"
      using consputc_ok[OF uok] by blast
    have cnt: "unat (in_e s + 1 - in_r s) = Suc (unat (in_e s - in_r s))" using cr.count_Suc True by simp
    have full: "in_e v = in_r v + of_nat INPUT_BUF \<longleftrightarrow> Suc (unat (in_e s - in_r s)) = INPUT_BUF"
    proof -
      have "in_e v = in_r v + of_nat INPUT_BUF \<longleftrightarrow> in_e s + 1 - in_r s = 128"
        by (auto simp: only_screen_keeps[OF v(3)] u_def algebra_simps)
      also have "\<dots> \<longleftrightarrow> unat (in_e s + 1 - in_r s) = unat (128 :: u32)" by (simp only: word_unat_eq_iff)
      finally show ?thesis using cnt by simp
    qed
    have ed: "edit c (cons_ready s, cons_line s) =
        (if d = 10 \<or> d = 4 \<or> Suc (unat (in_e s - in_r s)) = INPUT_BUF
         then (cons_ready s @ cons_line s @ [of_int d], []) else (cons_ready s, cons_line s @ [of_int d]))"
    proof -
      have g: "(c = 16 \<or> c = 0) = False" "(c = 21) = False" "(c = 8 \<or> c = 127) = False"
        "(length (cons_ready s) + length (cons_line s) < INPUT_BUF) = True"
        "(c = 10 \<or> c = 13 \<or> c = 4 \<or> length (cons_ready s) + length (cons_line s @ [of_int d]) = INPUT_BUF) =
          (d = 10 \<or> d = 4 \<or> Suc (unat (in_e s - in_r s)) = INPUT_BUF)"
        subgoal using assms(4) True by simp
        subgoal using assms(4) by simp
        subgoal using assms(4) by simp
        subgoal unfolding len using True by blast
        subgoal unfolding length_append by (simp add: d_def len[symmetric])
        done
      show ?thesis unfolding edit_def Let_def prod.case d_def[symmetric] g if_True if_False ..
    qed
    have run: "cons_put c s = (if d = 10 \<or> d = 4 \<or> Suc (unat (in_e s - in_r s)) = INPUT_BUF
        then wakeup ChConsole (v\<lparr>in_w := in_e v\<rparr>) else Ok () v)"
    proof -
      have guard: "(c \<noteq> 0 \<and> in_e s - in_r s < of_nat INPUT_BUF) = True" using True room by blast
      have st: "kmod (\<lambda>s. s\<lparr>in_buf := (in_buf s)(unat (in_e s) mod INPUT_BUF := of_int d), in_e := in_e s + 1\<rparr>) s = Ok () u"
        by (simp add: kmod_apply u_def b_def)
      have kf: "kif (\<lambda>s. d = 10 \<or> d = 4 \<or> in_e s = in_r s + of_nat INPUT_BUF)
          (kthen (kmod (\<lambda>s. s\<lparr>in_w := in_e s\<rparr>)) (wakeup ChConsole)) (kret ()) v =
          (if d = 10 \<or> d = 4 \<or> Suc (unat (in_e s - in_r s)) = INPUT_BUF
           then wakeup ChConsole (v\<lparr>in_w := in_e v\<rparr>) else Ok () v)"
        unfolding kif_apply full kthen_apply kmod_apply outcome.case kret_apply ..
      show ?thesis
        unfolding cons_put_def guard if_True Let_def d_def[symmetric] kthen_apply st outcome.case v(1) kf ..
    qed
    show ?thesis
    proof (cases "d = 10 \<or> d = 4 \<or> Suc (unat (in_e s - in_r s)) = INPUT_BUF")
      case commit: True
      let ?t = "wakeup1 (Some ChConsole) (v\<lparr>in_w := in_e v\<rparr>)"
      let ?z = "s\<lparr>in_buf := b, in_e := in_e s + 1, in_w := in_e s + 1\<rparr>"
      note pk = put_ok[OF assms(1) conjunct2[OF True], of "of_int d" "in_e s + 1", folded b_def]
      obtain o1 m1 p1 where "v = u\<lparr>uart_out := o1, crt := m1, crt_pos := p1\<rparr>" using v(3) unfolding only_screen_def by blast
      then have "v\<lparr>in_w := in_e v\<rparr> = ?z\<lparr>uart_out := o1, crt := m1, crt_pos := p1\<rparr>" by (simp add: u_def)
      then have "only_screen ?z (v\<lparr>in_w := in_e v\<rparr>)" unfolding only_screen_def by blast
      note os = only_screen_cons[OF this]
      have "screen_ok (v\<lparr>in_w := in_e v\<rparr>)" using v(2) by (simp add: screen_ok_def)
      moreover have "cons_put c s = Ok () ?t" using run commit by (simp only: if_True wakeup_def kmod_apply)
      moreover have "edit c (cons_ready s, cons_line s) = (cons_ready s @ cons_line s @ [of_int d], [])"
        using ed commit by (simp only: if_True)
      ultimately show ?thesis using os pk by simp
    next
      case False
      then have d10: "d \<noteq> 10" "0 \<le> d" "d < 256" using assms(2,3) by (auto simp: d_def)
      then have "(of_int d :: u8) \<noteq> 10" using char_eq[of d 10] by simp
      note pk = put_ok[OF assms(1) conjunct2[OF True], of "of_int d" "in_w s", folded b_def]
      have u: "s\<lparr>in_buf := b, in_e := in_e s + 1, in_w := in_w s\<rparr> = u" by (simp add: u_def)
      note pu = pk[unfolded u]
      have "cons_put c s = Ok () v" using run False by (simp only: if_False)
      moreover have "edit c (cons_ready s, cons_line s) = (cons_ready s, cons_line s @ [of_int d])"
        using ed False by (simp only: if_False)
      ultimately show ?thesis using only_screen_cons[OF v(3)] v(2) pu(1,2) \<open>of_int d \<noteq> 10\<close> by simp
    qed
  qed
qed

lemma consoleintr1_ok:
  assumes "cons_inv s" "0 \<le> c" "c < 256"
  shows "\<exists>t. consoleintr1 c s = Ok () t \<and> cons_inv t \<and> (cons_ready t, cons_line t) = edit c (cons_ready s, cons_line s)"
proof -
  note p = cons_parts[OF assms(1)]
  consider "c = 16" | "c = 21" | "c = 8 \<or> c = 127" | "c \<notin> {16, 21, 8, 127}" by auto
  then show ?thesis
  proof cases
    case 1
    then show ?thesis using assms(1) by (simp add: consoleintr1_def kret_apply edit_def)
  next
    case 2
    have "unat (in_e s - in_w s) = length (cons_line s)"
    proof -
      have "in_e s - in_w s = (in_e s - in_r s) - (in_w s - in_r s)" by simp
      then have "unat (in_e s - in_w s) = unat (in_e s - in_r s) - unat (in_w s - in_r s)"
        using assms(1) unat_sub[of "in_w s - in_r s" "in_e s - in_r s"] by (simp add: cons_inv_def word_le_nat_alt)
      then show ?thesis using p(3) by (simp add: cons_line_def)
    qed
    then show ?thesis using kill_line_ok[OF assms(1)] 2 by (auto simp: consoleintr1_def edit_def)
  next
    case 3
    then have e: "edit c (cons_ready s, cons_line s) = (cons_ready s, butlast (cons_line s))" by (auto simp: edit_def)
    show ?thesis
    proof (cases "in_e s = in_w s")
      case True
      then show ?thesis using 3 e p(4) assms(1) by (auto simp: consoleintr1_def kif_apply kret_apply)
    next
      case False
      obtain t where "kthen (kmod (\<lambda>s. s\<lparr>in_e := in_e s - 1\<rparr>)) (\<lambda>s. consputc BACKSPACE (visible s) s) s = Ok () t"
        "cons_inv t" "cons_ready t = cons_ready s" "cons_line t = butlast (cons_line s)"
        using erase_echo_ok[OF assms(1) False] by blast
      moreover have "(c = 16) = False" "(c = 21) = False" "(c = 8 \<or> c = 127) = True" "(in_e s \<noteq> in_w s) = True"
        using 3 False by auto
      ultimately show ?thesis using e by (simp only: consoleintr1_def kif_apply if_True if_False) blast
    qed
  next
    case 4
    then have "(c = 16) = False" "(c = 21) = False" "(c = 8 \<or> c = 127) = False" by auto
    then show ?thesis using cons_put_ok[OF assms 4] by (simp only: consoleintr1_def if_False)
  qed
qed

section \<open>Reading\<close>

definition line_len :: "u8 list \<Rightarrow> nat" where
  "line_len q = length (takeWhile (\<lambda>c. c \<noteq> 10 \<and> c \<noteq> 4) q)"

lemma line_len_Cons: "line_len (c # q) = (if c \<noteq> 10 \<and> c \<noteq> 4 then Suc (line_len q) else 0)"
  by (simp add: line_len_def)

lemma line_len_le: "line_len q \<le> length q"
  by (simp add: line_len_def length_takeWhile_le)

lemma line_len_stop: "line_len q < length q \<Longrightarrow> q ! line_len q = 10 \<or> q ! line_len q = 4"
  using nth_length_takeWhile[of "\<lambda>c. c \<noteq> 10 \<and> c \<noteq> 4" q] by (auto simp: line_len_def)

abbreviation advance :: "nat \<Rightarrow> 'a kcons_scheme \<Rightarrow> 'a kcons_scheme" where
  "advance j s \<equiv> s\<lparr>in_r := in_r s + of_nat j\<rparr>"

lemma read_one:
  assumes "cons_inv s" "in_r s \<noteq> in_w s"
  defines "t \<equiv> s\<lparr>in_r := in_r s + 1\<rparr>"
  shows "cons_ready s = in_buf s (unat (in_r s) mod INPUT_BUF) # cons_ready t" "cons_line t = cons_line s" "cons_inv t"
proof -
  have ne: "in_r s \<noteq> in_e s"
  proof
    assume "in_r s = in_e s"
    then have "unat (in_w s - in_r s) = 0" using assms(1) by (simp add: cons_inv_def)
    then show False using assms(2) by (simp add: unat_eq_0)
  qed
  show r: "cons_ready s = in_buf s (unat (in_r s) mod INPUT_BUF) # cons_ready t"
    using cr.ring_get[OF assms(2)] by (simp add: cons_ready_def t_def)
  have a: "cons_all s = in_buf s (unat (in_r s) mod INPUT_BUF) # cons_all t"
    using cr.ring_get[OF ne] by (simp add: cons_all_def t_def)
  have cw: "unat (in_w s - in_r s) = Suc (unat (in_w t - in_r t))"
    using arg_cong[OF r, of length] by (simp add: cons_ready_def)
  have ce: "unat (in_e s - in_r s) = Suc (unat (in_e t - in_r t))"
    using arg_cong[OF a, of length] by (simp add: cons_all_def)
  show l: "cons_line t = cons_line s" using a cw by (simp add: cons_line_def)
  have "screen_ok t" using assms(1) by (simp add: cons_inv_def screen_ok_def t_def)
  then show "cons_inv t" using assms(1) cw ce l by (simp add: cons_inv_def)
qed

lemma advance_ok:
  assumes "cons_inv s" "j \<le> length (cons_ready s)"
  shows "cons_inv (advance j s) \<and> cons_ready (advance j s) = drop j (cons_ready s) \<and> cons_line (advance j s) = cons_line s"
  using assms
proof (induction j arbitrary: s)
  case (Suc j)
  have nw: "in_r s \<noteq> in_w s" using Suc.prems(2) by (auto simp: cons_ready_def)
  note o = read_one[OF Suc.prems(1) nw]
  have "advance j (s\<lparr>in_r := in_r s + 1\<rparr>) = advance (Suc j) s" by (simp add: algebra_simps)
  then show ?case using Suc.IH[OF o(3)] Suc.prems(2) o(1,2) by (simp add: o(1) add.assoc)
qed simp

lemma consoleread_loop_run:
  assumes "cons_inv s" "n \<le> target"
  shows "consoleread_loop target dst n s =
    (let q = cons_ready s; k = line_len q; i = target - n;
         out = (\<lambda>j x. if i \<le> x \<and> x < i + j then q ! (x - i) else dst x) in
     if n \<le> k then Ok (Some 0, out n) (advance n s)
     else if k = length q then
       (if p_killed (myproc s) then Ok (None, out k) (advance k s) else sleep ChConsole (advance k s))
     else if q ! k = 10 then Ok (Some (n - Suc k), out (Suc k)) (advance (Suc k) s)
     else Ok (Some (n - k), out k) (advance (if 0 < k \<or> n < target then k else 1) s))"
  using assms
proof (induction n arbitrary: s dst)
  case 0
  then show ?case by (auto simp: kret_apply Let_def fun_eq_iff)
next
  case (Suc n)
  show ?case
  proof (cases "in_r s = in_w s")
    case True
    then have "cons_ready s = []" by (simp add: cons_ready_def)
    moreover have upd: "s\<lparr>in_r := in_w s\<rparr> = s" by (simp add: True[symmetric])
    ultimately show ?thesis using True by (auto simp: line_len_def Let_def fun_eq_iff upd)
  next
    case False
    note o = read_one[OF Suc.prems(1) False]
    define c where "c = in_buf s (unat (in_r s) mod INPUT_BUF)"
    define t where "t = s\<lparr>in_r := in_r s + 1\<rparr>"
    have q: "cons_ready s = c # cons_ready t" using o(1) by (simp add: c_def t_def)
    have adv: "advance j t = advance (Suc j) s" for j by (simp add: t_def algebra_simps)
    have k: "myproc t = myproc s" by (simp add: t_def)
    show ?thesis
    proof (cases "c = 10 \<or> c = 4")
      case True
      then show ?thesis using False Suc.prems(2) q
        by (auto simp: Let_def c_def[symmetric] t_def line_len_def fun_eq_iff)
    next
      case ne: False
      let ?d = "dst(target - Suc n := c)"
      have run: "consoleread_loop target dst (Suc n) s = consoleread_loop target ?d n t"
        using False ne by (simp add: Let_def c_def t_def)
      have ll: "line_len (cons_ready s) = Suc (line_len (cons_ready t))" using ne q by (simp add: line_len_Cons)
      have out: "(\<lambda>x. if target - n \<le> x \<and> x < target - n + j then cons_ready t ! (x - (target - n)) else ?d x) =
          (\<lambda>x. if target - Suc n \<le> x \<and> x < target - Suc n + Suc j then cons_ready s ! (x - (target - Suc n)) else dst x)" for j
      proof -
        obtain i where i: "target = i + Suc n" using Suc.prems(2) by (metis add.commute le_iff_add)
        show ?thesis unfolding i using q by (auto simp: fun_eq_iff nth_Cons')
      qed
      show ?thesis
        unfolding run Suc.IH[OF o(3)[folded t_def] Suc_leD[OF Suc.prems(2)]] Let_def out adv ll k using Suc.prems(2) q
        by (simp add: Suc_le_eq)
    qed
  qed
qed

lemma consoleintr_run:
  assumes "cons_inv s" "list_all (\<lambda>c. 0 \<le> c \<and> c < 256) cs"
  shows "\<exists>t. consoleintr cs s = Ok (16 \<in> set cs) t \<and> cons_inv t \<and>
    (cons_ready t, cons_line t) = fold edit cs (cons_ready s, cons_line s)"
proof -
  have "\<exists>t. kfor consoleintr1 cs s = Ok () t \<and> cons_inv t \<and>
      (cons_ready t, cons_line t) = fold edit cs (cons_ready s, cons_line s)"
    using assms
  proof (induction cs arbitrary: s)
    case (Cons c cs)
    obtain u where u: "consoleintr1 c s = Ok () u" "cons_inv u"
      "(cons_ready u, cons_line u) = edit c (cons_ready s, cons_line s)"
      using consoleintr1_ok[OF Cons.prems(1), of c] Cons.prems(2) by auto
    obtain t where "kfor consoleintr1 cs u = Ok () t" "cons_inv t"
      "(cons_ready t, cons_line t) = fold edit cs (cons_ready u, cons_line u)"
      using Cons.IH[OF u(2)] Cons.prems(2) by auto
    then show ?case using u by (auto simp: kthen_apply)
  qed (simp add: kret_apply)
  then show ?thesis by (auto simp: consoleintr_def kthen_apply kret_apply)
qed

section \<open>Properties\<close>

text \<open>
  C31. Typing refines a line editor: whatever characters the keyboard or the serial line delivers,
  \<^verbatim>\<open>consoleintr\<close> returns, keeps the invariant of the input buffer (no more than 128 characters,
  counters in order although they wrap around), and changes the characters that may be read and the
  line being typed as the reference editor \<open>edit\<close> does: backspace removes the last character
  of the line, Control-U the whole line, newline or Control-D hands the line over, and nothing
  already handed over can be edited.
\<close>

theorem consoleintr_refines:
  assumes "cons_inv s" "list_all (\<lambda>c. 0 \<le> c \<and> c < 256) cs"
  shows "\<exists>t. consoleintr cs s = Ok (16 \<in> set cs) t \<and> cons_inv t \<and>
    (cons_ready t, cons_line t) = fold edit cs (cons_ready s, cons_line s)"
  using assms by (rule consoleintr_run)

lemma zero_kcons_inv: "cons_inv zero_kcons" "cons_ready zero_kcons = []" "cons_line zero_kcons = []"
  by (simp_all add: cons_inv_def cons_ready_def cons_line_def cons_all_def)

theorem consoleintr_refines_witness:
  "\<exists>t. consoleintr [97, 98, 8, 99, 13, 100, 21, 101] zero_kcons = Ok False t \<and> cons_inv t \<and>
    cons_ready t = [97, 99, 10] \<and> cons_line t = [101]"
proof -
  have "fold edit [97, 98, 8, 99, 13, 100, 21, 101] ([], []) = ([97, 99, 10], [101])" by code_simp
  then show ?thesis
    using consoleintr_refines[OF zero_kcons_inv(1), of "[97, 98, 8, 99, 13, 100, 21, 101]"]
    by (auto simp: zero_kcons_inv)
qed


definition ex_line :: kcons where
  "ex_line = zero_kcons\<lparr>in_buf := (\<lambda>k. if k = 0 then 104 else if k = 1 then 105 else 10), in_w := 3, in_e := 3\<rparr>"

lemma ex_line_ready: "cons_ready ex_line = [104, 105, 10]" "cons_inv ex_line"
proof -
  have "[0..<3] = [0, 1, 2 :: nat]" by (simp add: upt_rec)
  then show "cons_ready ex_line = [104, 105, 10]" by (simp add: cons_ready_def ring_list_def ex_line_def)
  show "cons_inv ex_line" by (simp add: cons_inv_def cons_line_def cons_all_def ex_line_def screen_ok_def)
qed


end
