(* ===== verification/Kbd.thy ===== *)
theory Kbd
  imports Console_Edit
begin

text \<open>
  The keyboard (\<^verbatim>\<open>kernel/kbd.c\<close>, \<^verbatim>\<open>kernel/kbd.h\<close>) and input from the serial line
  (\<^verbatim>\<open>kernel/uart.c\<close>). A reading of the controller is the pair of its status and data ports; an
  interrupt handler gets the readings one after the other, and no more data when they are used up.
\<close>

record kkbd = kcons +
  kbd_shift :: u8

abbreviation (input) SHIFT :: u8 where "SHIFT \<equiv> 1"
abbreviation (input) CTL :: u8 where "CTL \<equiv> 2"
abbreviation (input) ALT :: u8 where "ALT \<equiv> 4"
abbreviation (input) CAPSLOCK :: u8 where "CAPSLOCK \<equiv> 8"
abbreviation (input) NUMLOCK :: u8 where "NUMLOCK \<equiv> 16"
abbreviation (input) SCROLLLOCK :: u8 where "SCROLLLOCK \<equiv> 32"
abbreviation (input) E0ESC :: u8 where "E0ESC \<equiv> 64"

section \<open>Tables\<close>

text \<open>A table of 256 entries: the leading ones in order, then some by index, the others 0.\<close>

definition key_table :: "u8 list \<Rightarrow> (u8 \<times> u8) list \<Rightarrow> u8 \<Rightarrow> u8" where
  "key_table xs ys k = (if unat k < length xs then xs ! unat k else case map_of ys k of Some v \<Rightarrow> v | None \<Rightarrow> 0)"

definition shiftcode :: "u8 \<Rightarrow> u8" where
  "shiftcode = key_table [] [(0x1D, CTL), (0x2A, SHIFT), (0x36, SHIFT), (0x38, ALT), (0x9D, CTL), (0xB8, ALT)]"

definition togglecode :: "u8 \<Rightarrow> u8" where
  "togglecode = key_table [] [(0x3A, CAPSLOCK), (0x45, NUMLOCK), (0x46, SCROLLLOCK)]"

definition normalmap :: "u8 \<Rightarrow> u8" where
  "normalmap = key_table
    [0, 27, 49, 50, 51, 52, 53, 54, 55, 56, 57, 48, 45, 61, 8, 9,
     113, 119, 101, 114, 116, 121, 117, 105, 111, 112, 91, 93, 10, 0, 97, 115,
     100, 102, 103, 104, 106, 107, 108, 59, 39, 96, 0, 92, 122, 120, 99, 118,
     98, 110, 109, 44, 46, 47, 0, 42, 0, 32, 0, 0, 0, 0, 0, 0,
     0, 0, 0, 0, 0, 0, 0, 55, 56, 57, 45, 52, 53, 54, 43, 49,
     50, 51, 48, 46, 0, 0, 0, 0]
    [(0x97, 0xE0), (0x9C, 0xA), (0xB5, 0x2F), (0xC8, 0xE2), (0xC9, 0xE6), (0xCB, 0xE4), (0xCD, 0xE5), (0xCF, 0xE1), (0xD0, 0xE3), (0xD1, 0xE7), (0xD2, 0xE8), (0xD3, 0xE9)]"

definition shiftmap :: "u8 \<Rightarrow> u8" where
  "shiftmap = key_table
    [0, 27, 33, 64, 35, 36, 37, 94, 38, 42, 40, 41, 95, 43, 8, 9,
     81, 87, 69, 82, 84, 89, 85, 73, 79, 80, 123, 125, 10, 0, 65, 83,
     68, 70, 71, 72, 74, 75, 76, 58, 34, 126, 0, 124, 90, 88, 67, 86,
     66, 78, 77, 60, 62, 63, 0, 42, 0, 32, 0, 0, 0, 0, 0, 0,
     0, 0, 0, 0, 0, 0, 0, 55, 56, 57, 45, 52, 53, 54, 43, 49,
     50, 51, 48, 46, 0, 0, 0, 0]
    [(0x97, 0xE0), (0x9C, 0xA), (0xB5, 0x2F), (0xC8, 0xE2), (0xC9, 0xE6), (0xCB, 0xE4), (0xCD, 0xE5), (0xCF, 0xE1), (0xD0, 0xE3), (0xD1, 0xE7), (0xD2, 0xE8), (0xD3, 0xE9)]"

definition ctlmap :: "u8 \<Rightarrow> u8" where
  "ctlmap = key_table
    [0, 0, 0, 0, 0, 0, 0, 0, 0, 0, 0, 0, 0, 0, 0, 0,
     17, 23, 5, 18, 20, 25, 21, 9, 15, 16, 0, 0, 13, 0, 1, 19,
     4, 6, 7, 8, 10, 11, 12, 0, 0, 0, 0, 28, 26, 24, 3, 22,
     2, 14, 13, 0, 0, 239, 0, 0]
    [(0x97, 0xE0), (0x9C, 0xD), (0xB5, 0xEF), (0xC8, 0xE2), (0xC9, 0xE6), (0xCB, 0xE4), (0xCD, 0xE5), (0xCF, 0xE1), (0xD0, 0xE3), (0xD1, 0xE7), (0xD2, 0xE8), (0xD3, 0xE9)]"

section \<open>Reading a key\<close>

definition kbdgetc :: "u8 \<Rightarrow> u8 \<Rightarrow> u8 \<Rightarrow> int \<times> u8" where
  "kbdgetc st data shift =
     (if st AND 1 = 0 then (-1, shift)
      else if data = 0xE0 then (0, shift OR E0ESC)
      else if data AND 0x80 \<noteq> 0 then
        let data = (if shift AND E0ESC \<noteq> 0 then data else data AND 0x7F)
        in (0, shift AND NOT (shiftcode data OR E0ESC))
      else
        let (data, shift) = (if shift AND E0ESC \<noteq> 0 then (data OR 0x80, shift AND NOT E0ESC) else (data, shift));
            shift = (shift OR shiftcode data) XOR togglecode data;
            c = (if shift AND (CTL OR SHIFT) = 0 then normalmap data
                 else if shift AND (CTL OR SHIFT) = 1 then shiftmap data else ctlmap data);
            c = (if shift AND CAPSLOCK \<noteq> 0 then
                   if 97 \<le> c \<and> c \<le> 122 then c - 32 else if 65 \<le> c \<and> c \<le> 90 then c + 32 else c
                 else c)
        in (uint c, shift))"

text \<open>The characters \<^verbatim>\<open>getc\<close> returns before the first negative one.\<close>

fun kbd_chars :: "(u8 \<times> u8) list \<Rightarrow> u8 \<Rightarrow> int list \<times> u8" where
  "kbd_chars [] shift = ([], shift)"
| "kbd_chars ((st, data) # es) shift =
     (case kbdgetc st data shift of (c, shift) \<Rightarrow>
        if c < 0 then ([], shift) else case kbd_chars es shift of (cs, shift) \<Rightarrow> (c # cs, shift))"

definition kbdintr :: "(u8 \<times> u8) list \<Rightarrow> ('a kkbd_scheme, bool) km" where
  "kbdintr es = (\<lambda>s. case kbd_chars es (kbd_shift s) of (cs, shift) \<Rightarrow>
     kthen (kmod (\<lambda>s. s\<lparr>kbd_shift := shift\<rparr>)) (consoleintr cs) s)"

definition uartgetc :: "bool \<Rightarrow> u8 \<Rightarrow> u8 \<Rightarrow> int" where
  "uartgetc there st data = (if \<not> there then -1 else if st AND 1 = 0 then -1 else uint data)"

fun uart_chars :: "bool \<Rightarrow> (u8 \<times> u8) list \<Rightarrow> int list" where
  "uart_chars there [] = []"
| "uart_chars there ((st, data) # es) =
     (let c = uartgetc there st data in if c < 0 then [] else c # uart_chars there es)"

definition uartintr :: "(u8 \<times> u8) list \<Rightarrow> ('a kcons_scheme, bool) km" where
  "uartintr es = (\<lambda>s. consoleintr (uart_chars (uart s) es) s)"

section \<open>Properties\<close>

lemma kbdgetc_range: "fst (kbdgetc st data shift) < 256"
proof -
  have "uint c < 256" for c :: u8 using uint_lt2p[of c] by simp
  then show ?thesis by (simp add: kbdgetc_def Let_def split: prod.split)
qed

lemma kbd_chars_range: "list_all (\<lambda>c. 0 \<le> c \<and> c < 256) (fst (kbd_chars es shift))"
proof (induction es shift rule: kbd_chars.induct)
  case (2 st data es shift)
  obtain c sh where c: "kbdgetc st data shift = (c, sh)" by (cases "kbdgetc st data shift")
  show ?case
  proof (cases "c < 0")
    case False
    then show ?thesis using 2[OF c[symmetric]] kbdgetc_range[of st data shift] c by (auto split: prod.split)
  qed (simp add: c)
qed simp

lemma uart_chars_range: "list_all (\<lambda>c. 0 \<le> c \<and> c < 256) (uart_chars there es)"
proof (induction there es rule: uart_chars.induct)
  case (2 there st data es)
  have "uint data < 256" using uint_lt2p[of data] by simp
  then show ?case using 2 by (auto simp: Let_def uartgetc_def)
qed simp


text \<open>Shift and A, release, B, Enter.\<close>

definition ex_keys :: "(u8 \<times> u8) list" where
  "ex_keys = [(1, 0x2A), (1, 0x1E), (1, 0xAA), (1, 0x30), (1, 0x1C), (0, 0)]"

definition zero_kkbd :: kkbd where
  "zero_kkbd = kcons.extend zero_kcons (kkbd.fields 0)"

lemma zero_kkbd_sel: "cons_inv zero_kkbd" "cons_ready zero_kkbd = []" "cons_line zero_kkbd = []" "kbd_shift zero_kkbd = 0"
  by (simp_all add: zero_kkbd_def kcons.defs kkbd.defs cons_inv_def cons_ready_def cons_line_def cons_all_def screen_ok_def)


end
