(* ===== verification/Trap.thy ===== *)
theory Trap
  imports Exec Kbd
begin

text \<open>
  Traps (\<^verbatim>\<open>kernel/trap.c\<close>) and the dispatch of system calls (\<^verbatim>\<open>kernel/syscall.c\<close>), with the console
  as the only device. What the hardware delivers is an argument: the trap frame, the error code,
  the fault address, the CPU, whether the CPU has a process, and the readings of the input device.
  A call of \<^verbatim>\<open>exit\<close> does not return, and \<^verbatim>\<open>yield\<close> returns when the process is scheduled
  again: the handler's result says how it ended. The interrupt of the in-memory disk does nothing, and
  acknowledging an interrupt is not represented.
\<close>

section \<open>System calls\<close>

definition sys_table :: "('a kkbd_scheme, int) km list" where
  "sys_table = [sys_fork, sys_exit, sys_wait, sys_pipe, sys_read consoleinit, sys_kill, sys_exec consoleinit,
     sys_fstat, sys_chdir consoleinit, sys_dup, sys_getpid, sys_sbrk, sys_sleep, sys_uptime, sys_open consoleinit,
     sys_write consoleinit, sys_mknod consoleinit, sys_unlink consoleinit, sys_link consoleinit,
     sys_mkdir consoleinit, sys_close, sys_getuid, sys_geteuid, sys_setuid, sys_chmod consoleinit,
     sys_chown consoleinit, sys_clrscr, sys_hideinp, sys_showinp, sys_lseek, sys_trim, sys_setgrps]"

text \<open>The table of the code has no entry at 0.\<close>

definition syscalls :: "int \<Rightarrow> ('a kkbd_scheme, int) km option" where
  "syscalls num = (if 0 < num \<and> num \<le> int (length (sys_table :: ('a kkbd_scheme, int) km list))
     then Some (sys_table ! (nat num - 1)) else None)"

definition proc_name :: "bytes \<Rightarrow> cstring" where
  "proc_name nm = takeWhile (\<lambda>c. c \<noteq> 0) (map nm [0..<16])"

definition set_eax :: "nat \<Rightarrow> u32 \<Rightarrow> 'a kbase_scheme \<Rightarrow> 'a kbase_scheme" where
  "set_eax p r = upd_proc p (\<lambda>x. x\<lparr>p_tf := (p_tf x)\<lparr>tf_eax := r\<rparr>\<rparr>)"

datatype trap_end = Returned | Exited | Yielded

abbreviation (input) SYS_exit :: int where "SYS_exit \<equiv> 2"

definition syscall :: "('a kkbd_scheme, trap_end) km" where
  "syscall = (\<lambda>s.
     let p = cur s; num = sint (tf_eax (p_tf (ptable s p))) in
     case syscalls num of
       Some call \<Rightarrow>
         kbind call (\<lambda>r. if num = SYS_exit then kret Exited
           else kthen (kmod (set_eax p (of_int r))) (kret Returned)) s
     | None \<Rightarrow>
         kthen (cprintf (cstr ''%d %s: unknown sys call %d\<newline>'')
           [CInt (of_int (p_pid (ptable s p))), CStr (Some (proc_name (p_name (ptable s p)))), CInt (of_int num)])
        (kthen (kmod (set_eax p (-1))) (kret Returned)) s)"

section \<open>Traps\<close>

abbreviation (input) T_SYSCALL :: u32 where "T_SYSCALL \<equiv> 64"
abbreviation (input) T_IRQ0 :: u32 where "T_IRQ0 \<equiv> 32"
abbreviation (input) DPL_USER :: u16 where "DPL_USER \<equiv> 3"

definition exit_if_killed :: "('a kkbd_scheme, trap_end) km \<Rightarrow> ('a kkbd_scheme, trap_end) km" where
  "exit_if_killed m = kif (\<lambda>s. p_killed (myproc s)) (kthen kexit (kret Exited)) m"

text \<open>What \<^verbatim>\<open>trap\<close> does after \<^verbatim>\<open>yield\<close> returns.\<close>

definition trap_resume :: "bool \<Rightarrow> trapframe \<Rightarrow> ('a kkbd_scheme, trap_end) km" where
  "trap_resume has tf =
     (if has \<and> tf_cs tf AND 3 = DPL_USER then exit_if_killed (kret Returned) else kret Returned)"

definition trap_tail :: "bool \<Rightarrow> trapframe \<Rightarrow> ('a kkbd_scheme, trap_end) km" where
  "trap_tail has tf =
     (let rest = kif (\<lambda>s. has \<and> p_state (myproc s) = RUNNING \<and> tf_trapno tf = T_IRQ0)
          (kthen yield (kret Yielded))
          (trap_resume has tf)
      in if has \<and> tf_cs tf AND 3 = DPL_USER then exit_if_killed rest else rest)"

definition timer_intr :: "nat \<Rightarrow> ('a kkbd_scheme, unit) km" where
  "timer_intr cpu =
     (if cpu = 0 then kthen (kmod (\<lambda>s. s\<lparr>ticks := ticks s + 1\<rparr>)) (wakeup ChTicks) else kret ())"

definition bad_trap :: "nat \<Rightarrow> bool \<Rightarrow> trapframe \<Rightarrow> u32 \<Rightarrow> u32 \<Rightarrow> ('a kkbd_scheme, unit) km" where
  "bad_trap cpu has tf err cr2 =
     (if \<not> has \<or> tf_cs tf AND 3 = 0 then
        kthen (cprintf (cstr ''unexpected trap %d from cpu %d eip %x (cr2=0x%x)\<newline>'')
          [CInt (tf_trapno tf), CInt (of_nat cpu), CInt (tf_eip tf), CInt cr2])
        (kpanic ''trap'')
      else
        kthen (\<lambda>s. cprintf (cstr ''pid %d %s: trap %d err %d on cpu %d eip 0x%x addr 0x%x--kill proc\<newline>'')
          [CInt (of_int (p_pid (myproc s))), CStr (Some (proc_name (p_name (myproc s)))), CInt (tf_trapno tf), CInt err,
           CInt (of_nat cpu), CInt (tf_eip tf), CInt cr2] s)
        (kmod (\<lambda>s. upd_proc (cur s) (\<lambda>p. p\<lparr>p_killed := True\<rparr>) s)))"

definition trap ::
  "nat \<Rightarrow> bool \<Rightarrow> trapframe \<Rightarrow> u32 \<Rightarrow> u32 \<Rightarrow> (u8 \<times> u8) list \<Rightarrow> ('a kkbd_scheme, trap_end) km" where
  "trap cpu has tf err cr2 es =
     (if tf_trapno tf = T_SYSCALL then
        exit_if_killed
          (kthen (kmod (\<lambda>s. upd_proc (cur s) (\<lambda>p. p\<lparr>p_tf := tf\<rparr>) s))
          (kbind syscall (\<lambda>r. if r = Exited then kret Exited else exit_if_killed (kret Returned))))
      else
        kthen (if tf_trapno tf = T_IRQ0 then timer_intr cpu
           else if tf_trapno tf = T_IRQ0 + 14 then kret ()
           else if tf_trapno tf = T_IRQ0 + 15 then kret ()
           else if tf_trapno tf = T_IRQ0 + 1 then kthen (kbdintr es) (kret ())
           else if tf_trapno tf = T_IRQ0 + 4 then kthen (uartintr es) (kret ())
           else if tf_trapno tf = T_IRQ0 + 7 \<or> tf_trapno tf = T_IRQ0 + 31 then
             cprintf (cstr ''cpu%d: spurious interrupt at %x:%x\<newline>'')
               [CInt (of_nat cpu), CInt (ucast (tf_cs tf)), CInt (tf_eip tf)]
           else bad_trap cpu has tf err cr2)
        (trap_tail has tf))"

section \<open>When formatted output is safe\<close>

text \<open>\<open>Some True\<close>: all is printed; \<open>Some False\<close>: the buffer of \<^verbatim>\<open>printint\<close> overruns; \<open>None\<close>: a wrong argument.\<close>

fun cprintf_check :: "cstring \<Rightarrow> carg list \<Rightarrow> bool option" where
  "cprintf_check [] args = Some True"
| "cprintf_check [c] args = Some True"
| "cprintf_check (c # d # cs) args =
     (if c \<noteq> 37 then cprintf_check (d # cs) args
      else if d = 100 then (case args of CInt x # as \<Rightarrow> cprintf_check cs as | _ \<Rightarrow> None)
      else if d = 120 \<or> d = 112 then
        (case args of CInt x # as \<Rightarrow> if unat x < 2 ^ 16 then cprintf_check cs as else Some False | _ \<Rightarrow> None)
      else if d = 115 then (case args of CStr x # as \<Rightarrow> cprintf_check cs as | _ \<Rightarrow> None)
      else cprintf_check cs args)"

lemma printint_ok:
  assumes "screen_ok s" "length (printint_chars xx base sign) \<le> 16"
  shows "\<exists>t. printint xx base sign s = Ok () t \<and> screen_ok t \<and> only_screen s t"
proof -
  obtain t where "kfor (\<lambda>c. consputc c True) (rev (printint_chars xx base sign)) s = Ok () t" "screen_ok t" "only_screen s t"
    using cputs_ok[OF assms(1), of "\<lambda>c. c" True "rev (printint_chars xx base sign)"] by auto
  then show ?thesis using assms(2) by (simp add: printint_def Let_def)
qed

definition cprintf_as :: "bool option \<Rightarrow> ('a kcons_scheme, unit) km \<Rightarrow> bool" where
  "cprintf_as b m \<longleftrightarrow> (\<forall>s. screen_ok s \<longrightarrow>
     (b = Some True \<longrightarrow> (\<exists>t. m s = Ok () t \<and> screen_ok t \<and> only_screen s t)) \<and>
     (b = Some False \<longrightarrow> m s = Panic ''undefined: store past buf''))"

lemma cprintf_as_then:
  assumes "\<And>s. screen_ok s \<Longrightarrow> \<exists>t. m s = Ok () t \<and> screen_ok t \<and> only_screen s t" "cprintf_as b n"
  shows "cprintf_as b (kthen m n)"
  unfolding cprintf_as_def
proof (intro allI impI conjI)
  fix s :: "'a kcons_scheme"
  assume "screen_ok s"
  from assms(1)[OF this] obtain t where t: "m s = Ok () t" "screen_ok t" "only_screen s t" by blast
  show "\<exists>u. kthen m n s = Ok () u \<and> screen_ok u \<and> only_screen s u" if "b = Some True"
    using assms(2) t that only_screen_trans[OF t(3)] by (fastforce simp: cprintf_as_def kthen_apply)
  show "kthen m n s = Panic ''undefined: store past buf''" if "b = Some False"
    using assms(2) t that by (simp add: cprintf_as_def kthen_apply)
qed

lemma cprintf_as_ret: "cprintf_as (Some True) (kret ())"
  by (simp add: cprintf_as_def kret_apply)

lemma cprintf_as_None: "cprintf_as None m"
  by (simp add: cprintf_as_def)

lemma consputc_fine: "screen_ok s \<Longrightarrow> \<exists>t. consputc x v s = Ok () t \<and> screen_ok t \<and> only_screen s t"
  using consputc_ok by blast

lemma cputs_fine: "screen_ok s \<Longrightarrow> \<exists>t. cputs cs s = Ok () t \<and> screen_ok t \<and> only_screen s t"
  using cputs_ok[of s "\<lambda>c. sint c" True cs] by (auto simp: cputs_def)

lemma printint_fine:
  "screen_ok s \<Longrightarrow> \<exists>t. printint x 10 True s = Ok () t \<and> screen_ok t \<and> only_screen s t"
  "screen_ok s \<Longrightarrow> unat x < 2 ^ 16 \<Longrightarrow> \<exists>t. printint x 2 False s = Ok () t \<and> screen_ok t \<and> only_screen s t"
  using printint_ok[of s x 10 True] printint_ok[of s x 2 False] printint_chars_length[of x] by simp_all

lemma printint_over: "\<not> unat x < 2 ^ 16 \<Longrightarrow> cprintf_as (Some False) (kthen (printint x 2 False) m)"
  using printint_chars_length(2)[of x] by (simp add: cprintf_as_def printint_def Let_def kthen_apply kpanic_apply)

lemmas cprintf_as_intros = cprintf_as_ret cprintf_as_None printint_over cprintf_as_then[OF consputc_fine]
  cprintf_as_then[OF cputs_fine] cprintf_as_then[OF printint_fine(1)] cprintf_as_then[OF printint_fine(2)]

lemma cprintf_checked: "cprintf_as (cprintf_check fmt args) (cprintf fmt args)"
proof (induction fmt args rule: cprintf_check.induct)
  case (2 c args)
  then show ?case using consputc_fine by (fastforce simp: cprintf_as_def kret_apply)
next
  case (3 c d cs args)
  show ?case
  proof (cases "c = 37")
    case False
    then show ?thesis using 3(1) by (simp add: cprintf_as_intros)
  next
    case True
    then show ?thesis using 3(2-5)
      by (auto simp: True split: list.split carg.split intro!: cprintf_as_intros)
  qed
qed (simp add: cprintf_as_ret)

lemma cprintf_fine:
  fixes s :: "'a kcons_scheme"
  shows "screen_ok s \<Longrightarrow> cprintf_check fmt args = Some True \<Longrightarrow> \<exists>t. cprintf fmt args s = Ok () t \<and> screen_ok t \<and> only_screen s t"
  "screen_ok s \<Longrightarrow> cprintf_check fmt args = Some False \<Longrightarrow> cprintf fmt args s = Panic ''undefined: store past buf''"
proof -
  have "cprintf_as (cprintf_check fmt args) (cprintf fmt args :: ('a kcons_scheme, unit) km)" by (rule cprintf_checked)
  then show "screen_ok s \<Longrightarrow> cprintf_check fmt args = Some True \<Longrightarrow> \<exists>t. cprintf fmt args s = Ok () t \<and> screen_ok t \<and> only_screen s t"
    "screen_ok s \<Longrightarrow> cprintf_check fmt args = Some False \<Longrightarrow> cprintf fmt args s = Panic ''undefined: store past buf''"
    by (simp_all add: cprintf_as_def)
qed

section \<open>Properties\<close>

text \<open>
  C38. A user program can make the kernel overrun a buffer on its stack: a fault of a process in
  user mode at an address (or with an instruction pointer) from \<open>2 ^ 16\<close> on is reported with
  \<^verbatim>\<open>%x\<close>, which prints more binary digits than the buffer of \<^verbatim>\<open>printint\<close> holds.
\<close>

theorem user_fault_overrun:
  assumes "screen_ok s" "tf_cs tf AND 3 \<noteq> 0" "tf_trapno tf < 32" "2 ^ 16 \<le> unat cr2 \<or> 2 ^ 16 \<le> unat (tf_eip tf)"
  shows "trap cpu True tf err cr2 es s = Panic ''undefined: store past buf''"
proof -
  have n: "tf_trapno tf \<noteq> k" if "32 \<le> k" for k using assms(3) that by auto
  have nos: "tf_trapno tf \<noteq> 64" "tf_trapno tf \<noteq> 32" "tf_trapno tf \<noteq> 46" "tf_trapno tf \<noteq> 47" "tf_trapno tf \<noteq> 33"
    "tf_trapno tf \<noteq> 36" "tf_trapno tf \<noteq> 39" "tf_trapno tf \<noteq> 63"
    by (rule n, simp)+
  have "cprintf_check (cstr ''pid %d %s: trap %d err %d on cpu %d eip 0x%x addr 0x%x--kill proc\<newline>'')
      [CInt a, CStr b, CInt c, CInt d, CInt e, CInt (tf_eip tf), CInt cr2] = Some False" for a b c d e
    using assms(4) by (auto simp: cstr_def)
  note c = cprintf_fine(2)[OF assms(1) this]
  show ?thesis using assms(2)
    by (simp add: trap_def nos kthen_apply bad_trap_def c)
qed

definition ex_fault :: trapframe where
  "ex_fault = user_tf\<lparr>tf_trapno := 14\<rparr>"

theorem user_fault_overrun_witness:
  "trap 0 True ex_fault 4 0xDEADBEEF [] zero_kkbd = Panic ''undefined: store past buf''"
proof -
  have "screen_ok zero_kkbd" using zero_kkbd_sel(1) by (simp add: cons_inv_def)
  then show ?thesis
    using user_fault_overrun[of zero_kkbd ex_fault "0xDEADBEEF" 0 4 "[]"] by (simp add: ex_fault_def user_tf_def zero_tf_def)
qed

text \<open>
  A number that is no system call changes nothing but the console and the result register of the
  process, which becomes -1; in particular the number 0, for which the table has no entry, and
  negative numbers.
\<close>

theorem syscall_unknown:
  fixes s :: "'a kkbd_scheme"
  assumes "screen_ok s" "sint (tf_eax (p_tf (myproc s))) \<le> 0 \<or> 32 < sint (tf_eax (p_tf (myproc s)))"
  shows "\<exists>t. syscall s = Ok Returned (set_eax (cur s) (-1) t) \<and> only_screen s t"
proof -
  let ?args = "[CInt (of_int (p_pid (myproc s))), CStr (Some (proc_name (p_name (myproc s)))),
     CInt (of_int (sint (tf_eax (p_tf (myproc s)))))]"
  have "cprintf_check (cstr ''%d %s: unknown sys call %d\<newline>'') ?args = Some True" by (simp add: cstr_def)
  from cprintf_fine(1)[OF assms(1) this] obtain t where
    "cprintf (cstr ''%d %s: unknown sys call %d\<newline>'') ?args s = Ok () t" "only_screen s t" by blast
  moreover have "(syscalls (sint (tf_eax (p_tf (myproc s)))) :: ('a kkbd_scheme, int) km option) = None"
    using assms(2) by (auto simp: syscalls_def sys_table_def)
  ultimately show ?thesis by (auto simp: syscall_def Let_def kthen_apply kmod_apply kret_apply)
qed

theorem syscall_unknown_witness:
  "\<exists>t. syscall zero_kkbd = Ok Returned (set_eax (cur zero_kkbd) (-1) t) \<and> only_screen zero_kkbd t"
proof -
  have "screen_ok zero_kkbd" using zero_kkbd_sel(1) by (simp add: cons_inv_def)
  moreover have "tf_eax (p_tf (myproc zero_kkbd)) = 0"
    by (simp add: zero_kkbd_def zero_kcons_def kcons.defs kkbd.defs kproc.defs ksys.defs kfile.defs zero_kfile_def zero_proc_def zero_tf_def)
  ultimately show ?thesis by (intro syscall_unknown) simp_all
qed

text \<open>
  C30. A killed process does not get back to user mode: when the handler of a system call, an exception or an
  interrupt taken in user mode returns, at once or after the process has been scheduled again, the
  process is not marked as killed.
\<close>

theorem killed_never_returns:
  assumes "tf_cs tf AND 3 = DPL_USER \<or> tf_trapno tf = T_SYSCALL"
  shows "(\<forall>t. trap cpu True tf err cr2 es s = Ok Returned t \<longrightarrow> \<not> p_killed (myproc t)) \<and>
    (\<forall>t. tf_trapno tf \<noteq> T_SYSCALL \<and> trap_resume True tf s = Ok Returned t \<longrightarrow> \<not> p_killed (myproc t))"
proof -
  have e: "\<not> p_killed (myproc t)" if "exit_if_killed (kret Returned) u = Ok Returned t" for u t :: "'a kkbd_scheme"
    using that by (auto simp: exit_if_killed_def kif_apply kthen_Ok_iff kret_apply split: if_splits)
  have r: "\<not> p_killed (myproc t)" if "tf_cs tf AND 3 = DPL_USER" "trap_resume True tf u = Ok Returned t" for u t :: "'a kkbd_scheme"
    using that e by (auto simp: trap_resume_def)
  have tl: "\<not> p_killed (myproc t)" if "tf_cs tf AND 3 = DPL_USER" "trap_tail True tf u = Ok Returned t" for u t :: "'a kkbd_scheme"
    using that r by (auto simp: trap_tail_def Let_def exit_if_killed_def kif_apply kthen_Ok_iff kret_apply split: if_splits)
  show ?thesis
  proof (intro conjI allI impI)
    fix t
    assume t: "trap cpu True tf err cr2 es s = Ok Returned t"
    show "\<not> p_killed (myproc t)"
    proof (cases "tf_trapno tf = T_SYSCALL")
      case True
      then show ?thesis using t e
        by (auto simp: trap_def exit_if_killed_def[of "kthen _ _"] kif_apply kthen_Ok_iff kbind_Ok_iff kret_apply split: if_splits)
    next
      case False
      then show ?thesis using t tl assms by (auto simp: trap_def kthen_Ok_iff)
    qed
  qed (use r assms in blast)
qed

theorem killed_never_returns_witness:
  "trap_resume True ex_fault zero_kkbd = Ok Returned zero_kkbd \<and> \<not> p_killed (myproc zero_kkbd)"
proof -
  have tf: "tf_cs ex_fault AND 3 = 3" "tf_trapno ex_fault = 14" by (simp_all add: ex_fault_def user_tf_def)
  have "\<not> p_killed (myproc zero_kkbd)"
    by (simp add: zero_kkbd_def zero_kcons_def kcons.defs kkbd.defs kproc.defs ksys.defs kfile.defs zero_kfile_def zero_proc_def)
  then have "trap_resume True ex_fault zero_kkbd = Ok Returned zero_kkbd"
    by (simp add: trap_resume_def tf exit_if_killed_def kif_apply kret_apply)
  then show ?thesis using killed_never_returns[of ex_fault 0 0 0 "[]" zero_kkbd] tf by auto
qed

end
