(* ===== verification/Frame_Sys.thy ===== *)
theory Frame_Sys
  imports Frame Trap
begin

text \<open>
  The interface between the system calls and what is observed of the state above them. The locale
  \<open>fileframe\<close> takes \<open>kframe\<close> to the calls that store nothing in a process, \<open>sysframe\<close> adds the fields of a
  process that the calls on files store, \<open>consframe\<close> the console, which closes the device switch, and
  \<open>callframe\<close> has both.
\<close>

section \<open>System calls on files\<close>

locale fileframe = kframe f for f :: "'a ksys_scheme \<Rightarrow> bool"
begin

lemma kept_file_ktry [kept_intros]:
  assumes "kept f (m s)" "\<And>x t. f t \<Longrightarrow> kept f (k x t)"
  shows "kept f (ktry m e k s)"
  unfolding ktry_def using assms by (auto simp: stores intro!: kept_intros)

lemma kept_fetchint [kept_intros]: "f s \<Longrightarrow> kept f (fetchint a s)"
  by (simp add: fetchint_def Let_def)

lemma kept_fetchstr [kept_intros]: "f s \<Longrightarrow> kept f (fetchstr a s)"
  unfolding fetchstr_def Let_def by (auto simp: stores intro!: kept_intros)

lemma kept_argint [kept_intros]: "f s \<Longrightarrow> kept f (argint n s)"
  unfolding argint_def by (auto simp: stores intro!: kept_intros)

lemma kept_argptr [kept_intros]: "f s \<Longrightarrow> kept f (argptr n sz s)"
  unfolding argptr_def by (auto simp: stores intro!: kept_intros)

lemma kept_argstr [kept_intros]: "f s \<Longrightarrow> kept f (argstr n s)"
  unfolding argstr_def by (auto simp: stores intro!: kept_intros)

lemma kept_argfd [kept_intros]: "f s \<Longrightarrow> kept f (argfd n s)"
  unfolding argfd_def Let_def by (auto simp: stores intro!: kept_intros)

lemma kept_store_ubuf [kept_intros]: "f s \<Longrightarrow> kept f (store_ubuf p n b s)"
  unfolding store_ubuf_def by (auto simp: stores intro!: kept_intros)

lemma kept_sys_read: "dev_kept f dv \<Longrightarrow> f s \<Longrightarrow> kept f (sys_read dv s)"
  unfolding sys_read_def by (auto simp: stores intro!: kept_intros)

lemma kept_sys_write: "dev_kept f dv \<Longrightarrow> f s \<Longrightarrow> kept f (sys_write dv s)"
  unfolding sys_write_def by (auto simp: stores intro!: kept_intros)

lemma kept_sys_fstat: "f s \<Longrightarrow> kept f (sys_fstat s)"
  unfolding sys_fstat_def by (auto simp: stores intro!: kept_intros)

lemma kept_fail_op [kept_intros]: "f s \<Longrightarrow> kept f (fail_op s)"
  unfolding fail_op_def by (auto simp: stores intro!: kept_intros)

lemma kept_fail_put [kept_intros]: "f s \<Longrightarrow> kept f (fail_put ip s)"
  unfolding fail_put_def by (auto simp: stores intro!: kept_intros)

lemma kept_sys_link_bad [kept_intros]: "f s \<Longrightarrow> kept f (sys_link_bad ip s)"
  unfolding sys_link_bad_def by (auto simp: stores intro!: kept_intros)

lemma kept_sys_link: "dev_kept f dv \<Longrightarrow> f s \<Longrightarrow> kept f (sys_link dv s)"
  unfolding sys_link_def by (auto simp: stores intro!: kept_intros)

lemma kept_isdirempty_loop [kept_intros]: "dev_kept f dv \<Longrightarrow> f s \<Longrightarrow> kept f (isdirempty_loop dv dp n off s)"
proof (induction dv dp n off arbitrary: s rule: isdirempty_loop.induct)
  case (1 dv dp n off)
  then show ?case unfolding isdirempty_loop.simps[of dv dp n off] by (auto simp: stores intro!: kept_intros)
qed

lemma kept_isdirempty [kept_intros]: "dev_kept f dv \<Longrightarrow> f s \<Longrightarrow> kept f (isdirempty dv dp s)"
  unfolding isdirempty_def by (auto simp: stores intro!: kept_intros)

lemma kept_sys_unlink: "dev_kept f dv \<Longrightarrow> f s \<Longrightarrow> kept f (sys_unlink dv s)"
  unfolding sys_unlink_def by (auto simp: stores intro!: kept_intros)

lemma kept_create [kept_intros]: "dev_kept f dv \<Longrightarrow> f s \<Longrightarrow> kept f (create dv path ty a b s)"
  unfolding create_def by (auto simp: stores intro!: kept_intros)

lemma kept_open_inode [kept_intros]: "dev_kept f dv \<Longrightarrow> f s \<Longrightarrow> kept f (open_inode dv path om s)"
  unfolding open_inode_def by (auto simp: stores intro!: kept_intros)

lemma kept_sys_mkdir: "dev_kept f dv \<Longrightarrow> f s \<Longrightarrow> kept f (sys_mkdir dv s)"
  unfolding sys_mkdir_def by (auto simp: stores intro!: kept_intros)

lemma kept_sys_mknod: "dev_kept f dv \<Longrightarrow> f s \<Longrightarrow> kept f (sys_mknod dv s)"
  unfolding sys_mknod_def by (auto simp: stores intro!: kept_intros)

lemma kept_sys_chmod: "dev_kept f dv \<Longrightarrow> f s \<Longrightarrow> kept f (sys_chmod dv s)"
  unfolding sys_chmod_def by (auto simp: stores intro!: kept_intros)

lemma kept_sys_chown: "dev_kept f dv \<Longrightarrow> f s \<Longrightarrow> kept f (sys_chown dv s)"
  unfolding sys_chown_def by (auto simp: stores intro!: kept_intros)

lemma kept_sys_lseek: "f s \<Longrightarrow> kept f (sys_lseek s)"
  unfolding sys_lseek_def by (auto simp: stores intro!: kept_intros)

lemma kept_sys_trim: "f s \<Longrightarrow> kept f (sys_trim s)"
  unfolding sys_trim_def by (auto simp: stores intro!: kept_intros)

subsection \<open>Calls on the process itself\<close>

lemma kept_sys_sleep: "f s \<Longrightarrow> kept f (sys_sleep s)"
  unfolding sys_sleep_def sys_sleep_loop_def by (auto simp: stores intro!: kept_intros)

lemma kept_readings:
  "f s \<Longrightarrow> kept f (sys_getpid s)" "f s \<Longrightarrow> kept f (sys_uptime s)"
  "f s \<Longrightarrow> kept f (sys_getuid s)" "f s \<Longrightarrow> kept f (sys_geteuid s)"
  by (simp_all add: sys_getpid_def sys_uptime_def sys_getuid_def sys_geteuid_def)

lemma kept_sys_exec_args [kept_intros]: "f s \<Longrightarrow> kept f (sys_exec_args u n s)"
  by (induction u n arbitrary: s rule: sys_exec_args.induct) (auto simp: stores intro!: kept_intros)

lemma kept_exec_bad [kept_intros]: "f s \<Longrightarrow> kept f (exec_bad d ip s)"
  unfolding exec_bad_def by (auto simp: stores intro!: kept_intros)

end

locale sysframe = fileframe f for f :: "'a ksys_scheme \<Rightarrow> bool" +
  assumes upd_ofile: "f s \<Longrightarrow> f (upd_proc i (\<lambda>p. p\<lparr>p_ofile := g p\<rparr>) s)"
    and upd_cwd: "f s \<Longrightarrow> f (upd_proc i (\<lambda>p. p\<lparr>p_cwd := h p\<rparr>) s)"
begin

lemma kept_fdalloc [kept_intros]: "f s \<Longrightarrow> kept f (fdalloc x s)"
  unfolding fdalloc_def by (auto simp: stores upd_ofile upd_cwd intro!: kept_intros)

lemma kept_sys_dup: "f s \<Longrightarrow> kept f (sys_dup s)"
  unfolding sys_dup_def by (auto simp: stores upd_ofile upd_cwd intro!: kept_intros)

lemma kept_sys_close: "f s \<Longrightarrow> kept f (sys_close s)"
  unfolding sys_close_def by (auto simp: stores upd_ofile upd_cwd intro!: kept_intros)

lemma kept_sys_open: "dev_kept f dv \<Longrightarrow> f s \<Longrightarrow> kept f (sys_open dv s)"
  unfolding sys_open_def by (auto simp: stores upd_ofile upd_cwd intro!: kept_intros)

lemma kept_sys_chdir: "dev_kept f dv \<Longrightarrow> f s \<Longrightarrow> kept f (sys_chdir dv s)"
  unfolding sys_chdir_def by (auto simp: stores upd_ofile upd_cwd intro!: kept_intros)

lemma kept_sys_pipe: "f s \<Longrightarrow> kept f (sys_pipe s)"
  unfolding sys_pipe_def by (auto simp: stores upd_ofile upd_cwd intro!: kept_intros)

end

section \<open>The console\<close>

locale consframe = fileframe f for f :: "'a kcons_scheme \<Rightarrow> bool" +
  assumes upd_cons: "f s \<Longrightarrow> f (s\<lparr>uart_out := uo\<rparr>)" "f s \<Longrightarrow> f (s\<lparr>crt := cm\<rparr>)" "f s \<Longrightarrow> f (s\<lparr>crt_pos := cp\<rparr>)"
      "f s \<Longrightarrow> f (s\<lparr>visible := vi\<rparr>)" "f s \<Longrightarrow> f (s\<lparr>in_buf := ib\<rparr>)" "f s \<Longrightarrow> f (s\<lparr>in_r := ir\<rparr>)" "f s \<Longrightarrow> f (s\<lparr>in_w := iw\<rparr>)"
      "f s \<Longrightarrow> f (s\<lparr>in_e := ie\<rparr>)"
begin

lemma kept_uartputc [kept_intros]: "f s \<Longrightarrow> kept f (uartputc x s)"
  by (simp add: uartputc_def upd_cons)

lemma kept_cgaputc [kept_intros]: "f s \<Longrightarrow> kept f (cgaputc x s)"
  by (auto simp: cgaputc_def Let_def upd_cons split: prod.split)

lemma kept_consputc [kept_intros]: "f s \<Longrightarrow> kept f (consputc x v s)"
  unfolding consputc_def by (auto simp: upd_cons intro!: kept_intros)

lemma kept_printint [kept_intros]: "f s \<Longrightarrow> kept f (printint x b g s)"
  unfolding printint_def Let_def by (auto simp: upd_cons intro!: kept_intros)

lemma kept_cprintf [kept_intros]: "f s \<Longrightarrow> kept f (cprintf fmt args s)"
proof (induction fmt args arbitrary: s rule: cprintf.induct)
  case (3 x y cs args)
  then show ?case by (auto simp: cputs_def upd_cons split: list.split carg.split intro!: kept_intros)
qed (auto simp: upd_cons intro!: kept_intros)

lemma kept_kill_line [kept_intros]: "f s \<Longrightarrow> kept f (kill_line n s)"
  by (induction n arbitrary: s) (auto simp: upd_cons intro!: kept_intros)

lemma kept_cons_put [kept_intros]: "f s \<Longrightarrow> kept f (cons_put x s)"
  unfolding cons_put_def Let_def by (auto simp: upd_cons intro!: kept_intros)

lemma kept_consoleintr [kept_intros]: "f s \<Longrightarrow> kept f (consoleintr cs s)"
  unfolding consoleintr_def consoleintr1_def by (auto simp: upd_cons intro!: kept_intros)

lemma kept_consoleread_loop [kept_intros]: "f s \<Longrightarrow> kept f (consoleread_loop n dst k s)"
  by (induction k arbitrary: dst s) (auto simp: Let_def upd_cons intro!: kept_intros)

lemma kept_consoleinit: "dev_kept f consoleinit"
  unfolding dev_kept_def consoleinit_def consoleread_def consolewrite_def
  by (auto simp: upd_cons split: if_splits intro!: kept_intros)

text \<open>\<^verbatim>\<open>exec\<close> keeps what its last step keeps.\<close>

lemma kept_exec:
  assumes "\<And>d n e sp b s. f s \<Longrightarrow> kept f (exec_commit path d n e sp b s)" "dev_kept f dv" "f s"
  shows "kept f (exec dv path argv s)"
  unfolding exec_def Let_def using assms by (auto simp: upd_cons intro!: kept_intros)

lemma kept_console_calls:
  "f s \<Longrightarrow> kept f (sys_clrscr s)" "f s \<Longrightarrow> kept f (sys_hideinp s)" "f s \<Longrightarrow> kept f (sys_showinp s)"
  unfolding sys_clrscr_def sys_hideinp_def sys_showinp_def by (auto simp: upd_cons intro!: kept_intros)

end

text \<open>Both together: the system calls that change nothing else of a process.\<close>

locale callframe = sysframe f + consframe f for f :: "'a kcons_scheme \<Rightarrow> bool"
begin

lemmas kept_file_calls = kept_sys_dup kept_sys_read[OF kept_consoleinit] kept_sys_write[OF kept_consoleinit] kept_sys_close
  kept_sys_fstat kept_sys_link[OF kept_consoleinit] kept_sys_unlink[OF kept_consoleinit] kept_sys_open[OF kept_consoleinit]
  kept_sys_mkdir[OF kept_consoleinit] kept_sys_mknod[OF kept_consoleinit] kept_sys_chdir[OF kept_consoleinit] kept_sys_pipe
  kept_sys_chmod[OF kept_consoleinit] kept_sys_chown[OF kept_consoleinit] kept_sys_lseek kept_sys_trim kept_sys_sleep
  kept_readings kept_console_calls

end

section \<open>The table of system calls\<close>

text \<open>The table entry by entry, with the number of each.\<close>

lemma sys_table_all:
  fixes P :: "int \<Rightarrow> ('a kkbd_scheme, int) km \<Rightarrow> bool"
  assumes "list_all2 P (map int [1..<33]) sys_table" "syscalls num = Some call"
  shows "P num call"
proof -
  have n: "0 < num" "nat num - 1 < 32" "call = sys_table ! (nat num - 1)"
    using assms(2) by (auto simp: syscalls_def sys_table_def split: if_splits)
  from list_all2_nthD[OF assms(1), of "nat num - 1"] n show ?thesis by simp
qed

lemma sys_nums: "map int [1..<33] = [1, 2, 3, 4, 5, 6, 7, 8, 9, 10, 11, 12, 13, 14, 15, 16, 17, 18, 19, 20, 21, 22, 23, 24, 25, 26,
      27, 28, 29, 30, 31, 32]"
  by code_simp

section \<open>Traps\<close>

text \<open>
  An invariant that the operations on processes keep is kept by every trap. Only \<^verbatim>\<open>fork\<close> and \<^verbatim>\<open>wait\<close> need to know
  that their caller is running.
\<close>

locale trapframe_inv = callframe f for f :: "'a kkbd_scheme \<Rightarrow> bool" +
  assumes inv_above: "f s \<Longrightarrow> f (s\<lparr>ticks := n\<rparr>)" "f s \<Longrightarrow> f (s\<lparr>kbd_shift := sh\<rparr>)"
    and inv_tf: "f s \<Longrightarrow> f (upd_proc i (\<lambda>p. p\<lparr>p_tf := g p\<rparr>) s)"
    and inv_killed: "f s \<Longrightarrow> f (upd_proc (cur s) (\<lambda>p. p\<lparr>p_killed := True\<rparr>) s)"
    and inv_yield: "f s \<Longrightarrow> f (upd_proc (cur s) (\<lambda>p. p\<lparr>p_state := RUNNABLE\<rparr>) s)"
    and inv_exit: "f s \<Longrightarrow> kept f (kexit s)"
    and inv_kill: "f s \<Longrightarrow> kept f (kill pid s)"
    and inv_grow: "f s \<Longrightarrow> kept f (growproc w s)"
    and inv_ids: "f s \<Longrightarrow> kept f (sys_setuid s)" "f s \<Longrightarrow> kept f (sys_setgrps s)"
    and inv_commit: "f s \<Longrightarrow> kept f (exec_commit path d m e sp b s)"
    and inv_fork: "f s \<Longrightarrow> p_state (myproc s) = RUNNING \<Longrightarrow> kept f (fork s)"
    and inv_wait: "f s \<Longrightarrow> p_state (myproc s) = RUNNING \<Longrightarrow> kept f (kwait s)"
begin

lemma kept_proc_calls:
  assumes "f s"
  shows "kept f (sys_exit s)" "kept f (sys_kill s)" "kept f (sys_exec consoleinit s)" "kept f (sys_sbrk s)"
  using assms unfolding sys_exit_def sys_kill_def sys_exec_def sys_sbrk_def
  by (auto intro!: kept_intros inv_exit inv_kill inv_grow kept_exec[OF inv_commit kept_consoleinit])

lemma kept_sys_table:
  assumes "f s" "p_state (myproc s) = RUNNING"
  shows "list_all2 (\<lambda>num call. kept f (call s)) (map int [1..<33]) sys_table"
proof -
  have "kept f (sys_wait s)" "kept f (sys_fork s)" unfolding sys_wait_def sys_fork_def by (auto intro: inv_wait inv_fork assms)
  then show ?thesis unfolding sys_nums sys_table_def
    using assms(1) by (simp add: kept_proc_calls kept_file_calls inv_ids)
qed

lemma kept_syscall:
  assumes "f s" "p_state (myproc s) = RUNNING"
  shows "kept f (syscall s)"
proof (cases "syscalls (sint (tf_eax (p_tf (myproc s)))) :: ('a kkbd_scheme, int) km option")
  case (Some call)
  from sys_table_all[OF kept_sys_table[OF assms] Some] have "kept f (call s)" .
  then show ?thesis by (auto simp: syscall_def Let_def Some set_eax_def intro!: kept_intros inv_tf)
next
  case None
  then show ?thesis using assms(1) by (auto simp: syscall_def Let_def set_eax_def intro!: kept_intros inv_tf)
qed

lemma kept_exit_if_killed: "kept f (m t) \<Longrightarrow> f t \<Longrightarrow> kept f (exit_if_killed m t)"
  unfolding exit_if_killed_def by (auto intro!: kept_intros inv_exit)

lemma kept_trap_resume: "f t \<Longrightarrow> kept f (trap_resume has tf t)"
  by (simp add: trap_resume_def kept_exit_if_killed)

lemma kept_trap_tail: "f t \<Longrightarrow> kept f (trap_tail has tf t)"
  unfolding trap_tail_def Let_def yield_def
  by (auto intro!: kept_intros kept_exit_if_killed kept_trap_resume inv_yield)

lemma kept_interrupts:
  "f t \<Longrightarrow> kept f (kbdintr es t)" "f t \<Longrightarrow> kept f (uartintr es t)" "f t \<Longrightarrow> kept f (timer_intr c t)"
  "f t \<Longrightarrow> kept f (bad_trap c has tf err cr2 t)"
  unfolding kbdintr_def uartintr_def timer_intr_def bad_trap_def
  by (auto simp: stores split: prod.split intro!: kept_intros inv_above inv_killed)

lemma kept_trap:
  assumes "f s" "p_state (myproc s) = RUNNING"
  shows "kept f (trap c has tf err cr2 es s)"
proof (cases "tf_trapno tf = T_SYSCALL")
  case True
  let ?u = "upd_proc (cur s) (\<lambda>p. p\<lparr>p_tf := tf\<rparr>) s"
  have u: "f ?u" "p_state (myproc ?u) = RUNNING" using assms by (auto intro: inv_tf)
  have "kept f (kbind syscall (\<lambda>r. if r = Exited then kret Exited else exit_if_killed (kret Returned)) ?u)"
    by (rule kept_bind, rule kept_syscall[OF u]) (auto intro!: kept_exit_if_killed)
  then show ?thesis unfolding trap_def using True assms(1) by (auto simp: kthen_apply kmod_apply intro!: kept_exit_if_killed)
next
  case False
  then show ?thesis unfolding trap_def using assms(1) by (auto intro!: kept_intros kept_interrupts kept_trap_tail)
qed

end

end
