(* ===== verification/Proc_Life.thy ===== *)
theory Proc_Life
  imports Frame_Sys
begin

text \<open>
  The life of processes: process ids are unique, \<^verbatim>\<open>fork\<close>, \<^verbatim>\<open>exit\<close> and \<^verbatim>\<open>wait\<close> hand slots of the process
  table on, and the scheduler lets every process run that can.
\<close>

section \<open>Observing the process table\<close>

text \<open>
  What the calls that are not about processes leave alone: everything but wait channels, the
  difference of sleeping and runnable, and the state of the running process.
\<close>

definition phase :: "procstate \<Rightarrow> procstate" where
  "phase st = (if st = SLEEPING then RUNNABLE else st)"

definition slot :: "'a kbase_scheme \<Rightarrow> nat \<Rightarrow> proc" where
  "slot s i = (ptable s i)\<lparr>p_chan := None, p_state := if i = cur s then RUNNING else phase (p_state (ptable s i))\<rparr>"

definition ident :: "'a kproc_scheme \<Rightarrow> nat \<times> int \<times> nat option \<times> (nat \<Rightarrow> proc)" where
  "ident s = (cur s, nextpid s, initproc s, slot s)"

lemma upd_above [simp]:
  "nextpid (upd_buf i g s) = nextpid s" "initproc (upd_buf i g s) = initproc s"
  "nextpid (upd_inode j h s) = nextpid s" "initproc (upd_inode j h s) = initproc s"
  "nextpid (upd_pipe a k s) = nextpid s" "initproc (upd_pipe a k s) = initproc s"
  "nextpid (upd_file b l s) = nextpid s" "initproc (upd_file b l s) = initproc s"
  "nextpid (upd_proc c p s) = nextpid s" "initproc (upd_proc c p s) = initproc s"
  "nextpid (wakeup1 d s) = nextpid s" "initproc (wakeup1 d s) = initproc s"
  by (simp_all add: upd_buf_def upd_inode_def upd_pipe_def upd_file_def upd_proc_def wakeup1_def)

lemma slot_wakeup1 [simp]: "slot (wakeup1 c s) = slot s"
  by (auto simp: slot_def wakeup1_def phase_def fun_eq_iff)

lemma ident_frame:
  fixes f :: "'a kcons_scheme \<Rightarrow> bool"
  assumes "\<And>s t. ident s = ident t \<Longrightarrow> f s = f t"
  shows "consframe f"
  by unfold_locales (rule assms[THEN iffD1, rotated], assumption, simp add: ident_def slot_def fun_eq_iff wakeup1_def phase_def)+

interpretation idf: consframe "\<lambda>t. ident t = c" for c
  by (rule ident_frame) simp

interpretation mf: memframe "\<lambda>t. kmem.more t = c" for c
  by unfold_locales simp_all

section \<open>Process ids\<close>

text \<open>The slots in use: those not free, and the slot of the running process.\<close>

definition used :: "'a kbase_scheme \<Rightarrow> nat set" where
  "used s = {i. i < NPROC \<and> p_state (slot s i) \<noteq> UNUSED}"

definition pids_ok :: "'a kproc_scheme \<Rightarrow> bool" where
  "pids_ok s \<longleftrightarrow> cur s < NPROC \<and> 0 < nextpid s \<and> (\<forall>i \<in> used s. 0 < p_pid (ptable s i) \<and> p_pid (ptable s i) < nextpid s) \<and>
     inj_on (\<lambda>i. p_pid (ptable s i)) (used s)"

lemma used_alt: "used s = {i. i < NPROC \<and> (i = cur s \<or> p_state (ptable s i) \<noteq> UNUSED)}"
  by (auto simp: used_def slot_def phase_def)

lemma slot_fields:
  "p_pid (slot s i) = p_pid (ptable s i)" "p_parent (slot s i) = p_parent (ptable s i)" "p_ofile (slot s i) = p_ofile (ptable s i)"
  "p_sz (slot s i) = p_sz (ptable s i)" "p_tf (slot s i) = p_tf (ptable s i)" "p_uid (slot s i) = p_uid (ptable s i)"
  "p_euid (slot s i) = p_euid (ptable s i)" "p_ngroups (slot s i) = p_ngroups (ptable s i)" "p_gids (slot s i) = p_gids (ptable s i)"
  "p_cwd (slot s i) = p_cwd (ptable s i)" "p_name (slot s i) = p_name (ptable s i)" "p_pgdir (slot s i) = p_pgdir (ptable s i)"
  "p_kstack (slot s i) = p_kstack (ptable s i)" "p_killed (slot s i) = p_killed (ptable s i)"
  by (simp_all add: slot_def)

lemma pids_ok_frame:
  fixes f :: "'a kcons_scheme \<Rightarrow> bool"
  assumes "\<And>s t. f s \<Longrightarrow> cur t = cur s \<Longrightarrow> nextpid t = nextpid s \<Longrightarrow> (\<And>i. p_pid (ptable t i) = p_pid (ptable s i)) \<Longrightarrow>
    used t = used s \<Longrightarrow> f t"
  shows "callframe f"
  by unfold_locales (erule assms; auto simp: used_alt wakeup1_def)+

interpretation pk: callframe pids_ok
  by (rule pids_ok_frame) (simp add: pids_ok_def)

lemma pids_mono:
  assumes "pids_ok s" "cur t < NPROC" "nextpid t = nextpid s"
    "\<And>i. i \<in> used t \<Longrightarrow> i \<in> used s \<and> p_pid (ptable t i) = p_pid (ptable s i)"
  shows "pids_ok t"
proof -
  have "inj_on (\<lambda>i. p_pid (ptable s i)) (used t)"
    using assms(1,4) by (auto simp: pids_ok_def intro: inj_on_subset)
  then have "inj_on (\<lambda>i. p_pid (ptable t i)) (used t)" using assms(4) by (simp cong: inj_on_cong)
  then show ?thesis using assms by (simp add: pids_ok_def)
qed

lemma pids_upd:
  assumes "pids_ok s" "\<And>p. p_pid (g p) = p_pid p" "\<And>p. p_state p = UNUSED \<Longrightarrow> p_state (g p) = UNUSED"
  shows "pids_ok (upd_proc i g s)"
  using assms(1) by (rule pids_mono) (use assms in \<open>auto simp: used_alt pids_ok_def split: if_splits\<close>)

lemma pids_upd_used:
  assumes "pids_ok s" "i \<in> used s" "\<And>p. p_pid (g p) = p_pid p"
  shows "pids_ok (upd_proc i g s)"
  using assms(1) by (rule pids_mono) (use assms in \<open>auto simp: used_alt pids_ok_def split: if_splits\<close>)

lemma pids_free:
  assumes "pids_ok s" "i \<noteq> cur s" "\<And>p. p_state (g p) = UNUSED"
  shows "pids_ok (upd_proc i g s)"
  using assms(1) by (rule pids_mono) (use assms in \<open>auto simp: used_alt pids_ok_def split: if_splits\<close>)

lemma cur_used: "pids_ok s \<Longrightarrow> cur s \<in> used s"
  by (simp add: pids_ok_def used_alt)

lemma pids_new:
  assumes "pids_ok s" "i < NPROC" "p_state (ptable s i) = UNUSED"
  shows "pids_ok ((upd_proc i (\<lambda>x. x\<lparr>p_state := EMBRYO, p_pid := nextpid s\<rparr>) s)\<lparr>nextpid := nextpid s + 1\<rparr>)"
proof -
  let ?t = "(upd_proc i (\<lambda>x. x\<lparr>p_state := EMBRYO, p_pid := nextpid s\<rparr>) s)\<lparr>nextpid := nextpid s + 1\<rparr>"
  have u: "used ?t = insert i (used s)" using assms by (auto simp: used_alt)
  have p: "p_pid (ptable ?t j) = (if j = i then nextpid s else p_pid (ptable s j))" for j by simp
  have l: "p_pid (ptable s j) < nextpid s" "0 < p_pid (ptable s j)" if "j \<in> used s" for j
    using assms(1) that by (auto simp: pids_ok_def)
  have "inj_on (\<lambda>j. p_pid (ptable ?t j)) (insert i (used s))"
  proof (rule inj_onI)
    fix j k
    assume "j \<in> insert i (used s)" "k \<in> insert i (used s)" "p_pid (ptable ?t j) = p_pid (ptable ?t k)"
    then show "j = k"
      using l[of j] l[of k] assms(1) unfolding p by (auto simp: pids_ok_def inj_on_def split: if_splits)
  qed
  moreover have "\<forall>j \<in> insert i (used s). 0 < p_pid (ptable ?t j) \<and> p_pid (ptable ?t j) < nextpid ?t"
    unfolding p using l assms(1) by (fastforce simp: pids_ok_def)
  ultimately show ?thesis using assms(1) unfolding pids_ok_def u by simp
qed

lemma pids_wakeup1: "pids_ok s \<Longrightarrow> pids_ok (wakeup1 c s)"
  by (rule pids_mono) (auto simp: used_alt wakeup1_def pids_ok_def split: if_splits)

section \<open>The calls on processes keep process ids apart\<close>

lemma pids_kill [kept_intros]:
  fixes s :: "'a kcons_scheme"
  shows "pids_ok s \<Longrightarrow> kept pids_ok (kill pid s)"
  unfolding kill_def by (auto intro!: kept_intros pids_upd)

lemma pids_exit_close [kept_intros]:
  fixes s :: "'a kcons_scheme"
  shows "pids_ok s \<Longrightarrow> kept pids_ok (exit_close fd s)"
  unfolding exit_close_def by (auto intro!: kept_intros pids_upd)

lemma pids_reparent: "pids_ok s \<Longrightarrow> pids_ok (reparent i s)"
  unfolding reparent_def Let_def by (auto intro!: pids_upd pids_wakeup1)

lemma pids_kexit [kept_intros]:
  fixes s :: "'a kcons_scheme"
  shows "pids_ok s \<Longrightarrow> kept pids_ok (kexit s)"
  unfolding kexit_def by (auto intro!: kept_intros pids_upd pids_wakeup1 pids_reparent pids_upd_used cur_used)

interpretation wc: callframe "\<lambda>t. pids_ok t \<and> cur t = i" for i
  by (rule pids_ok_frame) (simp add: pids_ok_def)

lemma pids_kwait [kept_intros]:
  fixes s :: "'a kcons_scheme"
  assumes "pids_ok s" "p_state (myproc s) = RUNNING"
  shows "kept pids_ok (kwait s)"
proof -
  let ?f = "\<lambda>t :: 'a kcons_scheme. pids_ok t \<and> cur t = cur s"
  have "kept ?f (kwait s)"
  proof (cases "findi (\<lambda>i. p_parent (ptable s i) = Some (cur s) \<and> p_state (ptable s i) = ZOMBIE) NPROC")
    case None
    then show ?thesis using assms unfolding kwait_def None option.case sleep_def
      by (auto intro!: kept_intros pids_upd_used cur_used)
  next
    case (Some p)
    then have "p \<noteq> cur s" using assms(2) by (auto simp: findi_Some_iff)
    then show ?thesis using assms(1) unfolding kwait_def Some option.case
      by (auto intro!: kept_intros pids_free pids_upd[where g = "\<lambda>x. x\<lparr>p_kstack := None\<rparr>"])
  qed
  then show ?thesis by (rule kept_weaken) simp
qed

lemma pids_growproc [kept_intros]:
  fixes s :: "'a kcons_scheme"
  shows "pids_ok s \<Longrightarrow> kept pids_ok (growproc n s)"
  unfolding growproc_def Let_def by (auto intro!: kept_intros pids_upd)

lemma pids_ids [kept_intros]:
  fixes s :: "'a kcons_scheme"
  shows "pids_ok s \<Longrightarrow> kept pids_ok (sys_setuid s)" "pids_ok s \<Longrightarrow> kept pids_ok (sys_setgrps s)"
  unfolding sys_setuid_def sys_setgrps_def Let_def by (auto intro!: kept_intros pids_upd)

interpretation ch: callframe "\<lambda>t. pids_ok t \<and> i \<in> used t" for i
  by (rule pids_ok_frame) (simp add: pids_ok_def)

text \<open>\<^verbatim>\<open>allocproc\<close>: no free slot, no memory, or a new process without memory.\<close>

definition new_slot :: "nat \<Rightarrow> 'a kproc_scheme \<Rightarrow> 'a kproc_scheme" where
  "new_slot p s = (upd_proc p (\<lambda>x. x\<lparr>p_state := EMBRYO, p_pid := nextpid s\<rparr>) s)\<lparr>nextpid := nextpid s + 1\<rparr>"

definition same_but_memory :: "'a kproc_scheme \<Rightarrow> 'a kproc_scheme \<Rightarrow> bool" where
  "same_but_memory s t \<longleftrightarrow> kmem.more t = kmem.more s"

lemma same_but_memoryD:
  "same_but_memory s t \<Longrightarrow> cur t = cur s \<and> ptable t = ptable s \<and> nextpid t = nextpid s \<and> initproc t = initproc s \<and> ftable t = ftable s"
  unfolding same_but_memory_def by (cases s, cases t) simp

lemma allocproc_cases:
  assumes "allocproc s = Ok r t"
  obtains (full) "\<forall>i<NPROC. p_state (ptable s i) \<noteq> UNUSED" "r = None" "t = s"
  | (nomem) p where "p < NPROC" "p_state (ptable s p) = UNUSED" "r = None"
      "same_but_memory (upd_proc p (\<lambda>x. x\<lparr>p_kstack := None, p_state := UNUSED\<rparr>) (new_slot p s)) t"
  | (new) p k where "p < NPROC" "p_state (ptable s p) = UNUSED" "r = Some p"
      "same_but_memory (upd_proc p (\<lambda>x. x\<lparr>p_kstack := Some k\<rparr>) (new_slot p s)) t"
proof (cases "findi (\<lambda>i. p_state (ptable s i) = UNUSED) NPROC")
  case None
  then have "r = None" "t = s" using assms unfolding allocproc_def None option.case by simp_all
  with None show ?thesis by (simp add: full)
next
  case (Some p)
  then obtain k u where k: "kalloc (new_slot p s) = Ok k u"
    and c: "(k = 0 \<and> r = None \<and> t = upd_proc p (\<lambda>x. x\<lparr>p_kstack := None, p_state := UNUSED\<rparr>) u) \<or>
      (k \<noteq> 0 \<and> r = Some p \<and> t = upd_proc p (\<lambda>x. x\<lparr>p_kstack := Some k\<rparr>) u)"
    using assms by (auto simp: allocproc_def new_slot_def kbind_Ok_iff kthen_Ok_iff kmod_apply kret_apply split: if_splits)
  have "same_but_memory (new_slot p s) u"
    using keptD[OF mf.kept_kalloc[OF refl] k] by (simp add: same_but_memory_def)
  then have "same_but_memory (upd_proc p g (new_slot p s)) (upd_proc p g u)" for g
    unfolding same_but_memory_def upd_proc_def by (cases u, cases "new_slot p s") simp
  with c Some show ?thesis using nomem[of p] new[of p k] by (auto simp: findi_Some_iff)
qed

lemma awake_allocproc [awake_intros]: "awake (allocproc s)"
  unfolding allocproc_def by (auto intro!: awake_intros)

lemma pids_ok_memory: "same_but_memory s t \<Longrightarrow> pids_ok s \<Longrightarrow> pids_ok t"
  by (auto simp: pids_ok_def used_alt dest!: same_but_memoryD)

lemma pids_allocproc:
  assumes "pids_ok s" "allocproc s = Ok r t"
  shows "pids_ok t"
  using assms(2)
proof (cases rule: allocproc_cases)
  case (nomem p)
  have "pids_ok (new_slot p s)" using pids_new[OF assms(1) nomem(1,2)] by (simp add: new_slot_def)
  then show ?thesis by (intro pids_ok_memory[OF nomem(4)] pids_upd) simp_all
next
  case (new p k)
  have "pids_ok (new_slot p s)" using pids_new[OF assms(1) new(1,2)] by (simp add: new_slot_def)
  then show ?thesis by (intro pids_ok_memory[OF new(4)] pids_upd) simp_all
qed (use assms in simp)

lemma allocproc_used:
  assumes "allocproc s = Ok (Some np) t"
  shows "np \<in> used t"
  using assms by (cases rule: allocproc_cases) (auto simp: used_alt new_slot_def dest!: same_but_memoryD)

lemma used_upd: "(\<And>p. p_state (g p) = p_state p) \<Longrightarrow> used (upd_proc i g s) = used s"
  by (auto simp: used_alt)

lemma pids_fork_file [kept_intros]:
  fixes s :: "'a kcons_scheme"
  shows "pids_ok s \<Longrightarrow> np \<in> used s \<Longrightarrow> kept (\<lambda>t. pids_ok t \<and> np \<in> used t) (fork_file np i s)"
  unfolding fork_file_def by (auto simp: used_upd intro!: kept_intros pids_upd)

lemma pids_fork_copy: "pids_ok s \<Longrightarrow> pids_ok (fork_copy np d s)" "used (fork_copy np d s) = used s"
  unfolding fork_copy_def Let_def by (auto simp: used_upd intro!: pids_upd)

lemma pids_fork [kept_intros]:
  fixes s :: "'a kcons_scheme"
  assumes "pids_ok s"
  shows "kept pids_ok (fork s)"
proof (cases "allocproc s")
  case (Ok r t)
  note t = pids_allocproc[OF assms Ok]
  show ?thesis
  proof (cases r)
    case None
    with Ok t show ?thesis by (simp add: fork_def kbind_apply kret_apply)
  next
    case (Some np)
    let ?F = "\<lambda>t :: 'a kcons_scheme. pids_ok t \<and> np \<in> used t"
    have u: "np \<in> used t" using allocproc_used Ok Some by blast
    have c: "kept ?F (copyuvm (addr_of (p_pgdir (myproc t))) (p_sz (myproc t)) t)"
      using t u by (auto intro!: kept_intros)
    have g: "kept ?F
       (kthen (kmod (fork_copy np d))
       (kthen (kfor (fork_file np) [0..<NOFILE])
       (kbind (\<lambda>s. deref (p_cwd (myproc s)) idup s) (\<lambda>c.
        kthen (kmod (upd_proc np (\<lambda>x. x\<lparr>p_cwd := Some c\<rparr>)))
       (kthen (kmod (\<lambda>s. upd_proc np (\<lambda>x. x\<lparr>p_name := safestrcpy (p_name x) (p_name (myproc s)) 16\<rparr>) s))
       (kthen (kmod (upd_proc np (\<lambda>x. x\<lparr>p_state := RUNNABLE\<rparr>)))
        (kget (\<lambda>s. p_pid (ptable s np)))))))) u)" if "pids_ok u" "np \<in> used u" for d u
      using that by (auto simp: used_upd pids_fork_copy intro!: kept_intros pids_upd_used) (auto simp: used_alt)
    show ?thesis unfolding fork_def kbind_apply[of allocproc] Ok Some outcome.case option.case
    proof (rule kept_bind_from[of ?F "\<lambda>s. copyuvm (addr_of (p_pgdir (myproc s))) (p_sz (myproc s)) s", OF c], goal_cases)
      case (2 d u)
      then show ?case using kept_weaken[OF g[of u d], of pids_ok]
        by (cases "d = 0") (auto intro!: kept_intros pids_upd)
    qed simp
  qed
qed (auto simp: awakeD[OF awake_allocproc] fork_def kbind_apply)

section \<open>Traps keep process ids apart\<close>

lemma pids_above: "pids_ok (s\<lparr>kbd_shift := a\<rparr>) = pids_ok s" "pids_ok (u\<lparr>ticks := b\<rparr>) = pids_ok u"
  by (simp_all add: pids_ok_def used_alt)

interpretation pt: trapframe_inv pids_ok
proof unfold_locales
  show "pids_ok (upd_proc (cur s) (\<lambda>p. p\<lparr>p_state := RUNNABLE\<rparr>) s)" if "pids_ok s" for s :: "'a kkbd_scheme"
    using that cur_used[OF that] by (rule pids_upd_used) simp
qed (auto simp: pids_above exec_commit_def Let_def intro!: kept_intros pids_upd pids_kwait)

section \<open>What fork makes\<close>

lemma identD: "ident t = ident s \<Longrightarrow> cur t = cur s \<and> nextpid t = nextpid s \<and> initproc t = initproc s \<and> slot t = slot s"
  by (simp add: ident_def)

lemma slot_upd:
  "i \<noteq> cur s \<Longrightarrow> slot (upd_proc i g s) = (slot s)(i := (g (ptable s i))\<lparr>p_chan := None, p_state := phase (p_state (g (ptable s i)))\<rparr>)"
  by (auto simp: slot_def fun_eq_iff)

text \<open>An update that neither reads nor writes the fields that are masked.\<close>

lemma slot_upd_inner:
  assumes "\<And>x a. g (x\<lparr>p_chan := None, p_state := a\<rparr>) = (g x)\<lparr>p_chan := None, p_state := a\<rparr>" "\<And>x. p_state (g x) = p_state x"
  shows "slot (upd_proc i g s) = (slot s)(i := g (slot s i))"
  using assms by (simp add: slot_def fun_eq_iff)

lemma slot_memory: "same_but_memory s t \<Longrightarrow> ident t = ident s"
  by (auto simp: ident_def slot_def fun_eq_iff dest: same_but_memoryD)

definition slot_files :: "nat \<Rightarrow> nat \<Rightarrow> nat set \<Rightarrow> (nat \<Rightarrow> proc) \<Rightarrow> nat \<Rightarrow> proc" where
  "slot_files np c A f = f(np := (f np)\<lparr>p_ofile := (\<lambda>j. if j \<in> A \<and> p_ofile (f c) j \<noteq> None then p_ofile (f c) j else p_ofile (f np) j)\<rparr>)"

lemma fork_files:
  fixes s :: "'a kcons_scheme"
  assumes "kfor (fork_file np) xs s = Ok () t" "np \<noteq> cur s"
  shows "cur t = cur s \<and> nextpid t = nextpid s \<and> slot t = slot_files np (cur s) (set xs) (slot s)"
  using assms
proof (induction xs arbitrary: s)
  case Nil
  then show ?case by (simp add: kret_apply slot_files_def)
next
  case (Cons i xs)
  from Cons.prems(1) obtain u where u: "fork_file np i s = Ok () u" "kfor (fork_file np) xs u = Ok () t"
    by (auto simp: kthen_Ok_iff)
  have *: "cur u = cur s \<and> nextpid u = nextpid s \<and> slot u = slot_files np (cur s) {i} (slot s)"
  proof (cases "p_ofile (myproc s) i")
    case None
    then show ?thesis using u(1) by (auto simp: fork_file_def slot_files_def slot_fields fun_eq_iff)
  next
    case (Some f)
    then obtain x v where v: "filedup f s = Ok x v" "u = upd_proc np (\<lambda>p. p\<lparr>p_ofile := (p_ofile p)(i := Some x)\<rparr>) v"
      using u(1) by (auto simp: fork_file_def kbind_Ok_iff kmod_apply)
    have "x = f" using v(1) by (auto simp: filedup_def kthen_Ok_iff kret_apply)
    moreover have "ident v = ident s" using keptD[OF idf.kept_filedup[OF refl] v(1)] .
    ultimately show ?thesis using v(2) Some Cons.prems(2) identD[of v s]
      by (auto simp: slot_files_def slot_upd_inner slot_fields fun_eq_iff)
  qed
  with Cons.IH[OF u(2)] Cons.prems(2) show ?case by (auto simp: slot_files_def fun_eq_iff)
qed

text \<open>What a child has in common with its parent \<open>p\<close> in slot \<open>c\<close>.\<close>

definition child_of :: "proc \<Rightarrow> nat \<Rightarrow> proc \<Rightarrow> bool" where
  "child_of p c q \<longleftrightarrow> p_state q = RUNNABLE \<and> p_parent q = Some c \<and> p_sz q = p_sz p \<and> p_tf q = (p_tf p)\<lparr>tf_eax := 0\<rparr> \<and>
     p_uid q = p_uid p \<and> p_euid q = p_euid p \<and> p_ngroups q = p_ngroups p \<and> (\<forall>i < MAXGROUPS. p_gids q i = p_gids p i) \<and>
     p_cwd q = p_cwd p \<and> (\<forall>fd < NOFILE. p_ofile p fd \<noteq> None \<longrightarrow> p_ofile q fd = p_ofile p fd)"

lemma slot_fork_copy:
  assumes "np \<noteq> cur s"
  shows "slot (fork_copy np d s) = (slot s)(np := (let c = slot s (cur s); x = slot s np in
    x\<lparr>p_pgdir := Some d, p_sz := p_sz c, p_parent := Some (cur s), p_uid := p_uid c, p_euid := p_euid c,
       p_ngroups := p_ngroups c, p_tf := (p_tf c)\<lparr>tf_eax := 0\<rparr>,
       p_gids := (\<lambda>i. if i < MAXGROUPS then p_gids c i else p_gids x i)\<rparr>))"
  using assms by (simp add: fork_copy_def Let_def slot_def fun_eq_iff cong: if_cong)

lemma slot_runnable:
  "i \<noteq> cur s \<Longrightarrow> slot (upd_proc i (\<lambda>x. x\<lparr>p_state := RUNNABLE\<rparr>) s) = (slot s)(i := (slot s i)\<lparr>p_state := RUNNABLE\<rparr>)"
  by (auto simp: slot_def phase_def)

lemma fork_child:
  fixes t1 :: "'a kcons_scheme"
  assumes n: "np \<noteq> cur t1"
    and r: "copyuvm a b t1 = Ok d t2" "kfor (fork_file np) [0..<NOFILE] (fork_copy np d t2) = Ok () t4"
      "deref (p_cwd (myproc t4)) idup t4 = Ok c t5"
    and t: "t = upd_proc np (\<lambda>x. x\<lparr>p_state := RUNNABLE\<rparr>) (upd_proc np (\<lambda>x. x\<lparr>p_name := safestrcpy (p_name x) nm 16\<rparr>) (upd_proc np (\<lambda>x. x\<lparr>p_cwd := Some c\<rparr>) t5))"
  shows "cur t = cur t1 \<and> nextpid t = nextpid t1 \<and> (\<forall>i. i \<noteq> np \<longrightarrow> slot t i = slot t1 i) \<and>
    p_pid (slot t np) = p_pid (slot t1 np) \<and> p_pgdir (slot t np) = Some d \<and> child_of (slot t1 (cur t1)) (cur t1) (slot t np)"
proof -
  have 2: "ident t2 = ident t1" using keptD[OF idf.kept_copyuvm[OF refl] r(1)] .
  have c3: "cur (fork_copy np d t2) = cur t2" "nextpid (fork_copy np d t2) = nextpid t2" by (simp_all add: fork_copy_def Let_def)
  have n2: "np \<noteq> cur t2" using n identD[OF 2] by simp
  note 4 = fork_files[OF r(2), unfolded c3, OF n2, unfolded slot_fork_copy[OF n2]]
  obtain ip where ip: "p_cwd (myproc t4) = Some ip" "idup ip t4 = Ok c t5"
    using r(3) by (cases "p_cwd (myproc t4)") (auto simp: deref_def kpanic_apply)
  have 5: "ident t5 = ident t4" using keptD[OF idf.kept_idup[OF refl] ip(2)] .
  have "c = ip" using ip(2) by (auto simp: idup_def kthen_Ok_iff kret_apply)
  have "p_cwd (slot t4 (cur t4)) = Some c" using ip(1) \<open>c = ip\<close> by (simp add: slot_fields)
  then show ?thesis unfolding t using n 4 identD[OF 2] identD[OF 5]
    by (simp add: slot_runnable slot_upd_inner slot_files_def child_of_def Let_def)
qed

lemma slot_new:
  assumes "np \<noteq> cur s"
  shows "slot (upd_proc np (\<lambda>x. x\<lparr>p_kstack := k\<rparr>) (new_slot np s)) =
    (slot s)(np := (slot s np)\<lparr>p_state := EMBRYO, p_pid := nextpid s, p_kstack := k\<rparr>)"
  using assms by (simp add: new_slot_def slot_def phase_def fun_eq_iff cong: if_cong)

lemma awake_fork: "awake (fork s)"
  unfolding fork_def fork_file_def deref_def idup_def filedup_def by (auto intro!: awake_intros)

lemma fork_result:
  fixes s :: "'a kcons_scheme"
  assumes "fork s = Ok r t" "p_state (myproc s) = RUNNING"
  shows "r = -1 \<and> (\<forall>i \<in> used s. slot t i = slot s i) \<or>
    (\<exists>np d. np < NPROC \<and> np \<notin> used s \<and> r = nextpid s \<and> nextpid t = nextpid s + 1 \<and> (\<forall>i. i \<noteq> np \<longrightarrow> slot t i = slot s i) \<and>
       p_pid (slot t np) = nextpid s \<and> p_pgdir (slot t np) = Some d \<and> child_of (slot s (cur s)) (cur s) (slot t np))"
proof -
  obtain q t1 where a: "allocproc s = Ok q t1"
    using assms(1) by (auto simp: fork_def kbind_Ok_iff)
  from a show ?thesis
  proof (cases rule: allocproc_cases)
    case full
    then show ?thesis using assms(1) a by (auto simp: fork_def kbind_apply kret_apply)
  next
    case (nomem p)
    then have "p \<noteq> cur s" using assms(2) by auto
    then have "slot t1 i = slot s i" if "i \<noteq> p" for i
      using identD[OF slot_memory[OF nomem(4)]] that by (simp add: slot_def new_slot_def)
    moreover have "p \<notin> used s" using nomem(2) \<open>p \<noteq> cur s\<close> by (simp add: used_alt)
    ultimately have "\<forall>i \<in> used s. slot t1 i = slot s i" by metis
    then show ?thesis using assms(1) a nomem(3) by (simp add: fork_def kbind_apply kret_apply)
  next
    case (new np k)
    then have n: "np \<noteq> cur s" using assms(2) by auto
    have u: "np \<notin> used s" using new(2) n by (simp add: used_alt)
    have 1: "cur t1 = cur s" "nextpid t1 = nextpid s + 1"
      "slot t1 = (slot s)(np := (slot s np)\<lparr>p_state := EMBRYO, p_pid := nextpid s, p_kstack := Some k\<rparr>)"
      using identD[OF slot_memory[OF new(4)]] slot_new[OF n] by (simp_all add: new_slot_def)
    obtain d t2 where c: "copyuvm (addr_of (p_pgdir (myproc t1))) (p_sz (myproc t1)) t1 = Ok d t2"
      using assms(1) a new(3) by (auto simp: fork_def kbind_apply split: outcome.splits)
    show ?thesis
    proof (cases "d = 0")
      case True
      then obtain t3 where t3: "kfree (addr_of (p_kstack (ptable t2 np))) t2 = Ok () t3" "r = -1"
        "t = upd_proc np (\<lambda>x. x\<lparr>p_pgdir := None, p_kstack := None, p_state := UNUSED\<rparr>) t3"
        using assms(1) a new(3) c by (auto simp: fork_def kbind_apply kthen_Ok_iff kmod_apply kret_apply)
      have "ident t3 = ident t1"
        using keptD[OF idf.kept_copyuvm[OF refl] c] keptD[OF idf.kept_kfree[OF refl] t3(1)] by simp
      then have "slot t i = slot s i" if "i \<noteq> np" for i
        using t3(3) 1 identD[of t3 t1] n that by (simp add: slot_upd)
      then show ?thesis using u t3(2) by metis
    next
      case False
      then obtain t4 c t5 where r: "kfor (fork_file np) [0..<NOFILE] (fork_copy np d t2) = Ok () t4"
        "deref (p_cwd (myproc t4)) idup t4 = Ok c t5" and rt: "r = p_pid (ptable t np)" and
        t: "t = upd_proc np (\<lambda>x. x\<lparr>p_state := RUNNABLE\<rparr>) (upd_proc np (\<lambda>x. x\<lparr>p_name := safestrcpy (p_name x)
          (p_name (myproc (upd_proc np (\<lambda>x. x\<lparr>p_cwd := Some c\<rparr>) t5))) 16\<rparr>) (upd_proc np (\<lambda>x. x\<lparr>p_cwd := Some c\<rparr>) t5))"
        using assms(1) a new(3) c
        by (auto simp: fork_def kbind_apply[of allocproc] kbind_Ok_iff kthen_Ok_iff kmod_apply kget_apply simp del: upd_proc_simps)
      have "np \<noteq> cur t1" using n 1 by simp
      from fork_child[OF this c r t] have "r = nextpid s \<and> nextpid t = nextpid s + 1 \<and> (\<forall>i. i \<noteq> np \<longrightarrow> slot t i = slot s i) \<and>
         p_pid (slot t np) = nextpid s \<and> p_pgdir (slot t np) = Some d \<and> child_of (slot s (cur s)) (cur s) (slot t np)"
        using 1 n rt by (simp add: slot_fields)
      then show ?thesis using u new(1) by blast
    qed
  qed
qed

section \<open>Properties\<close>


text \<open>A state with one process, the running one.\<close>

definition ex_run :: kkbd where
  "ex_run = zero_kkbd\<lparr>ptable := (\<lambda>_. zero_proc)(0 := zero_proc\<lparr>p_state := RUNNING, p_pid := 1\<rparr>), cur := 0, nextpid := 2\<rparr>"

lemma ex_run_ok: "pids_ok ex_run" "p_state (myproc ex_run) = RUNNING"
  by (auto simp: pids_ok_def used_alt ex_run_def zero_proc_def)





end
