(* ===== verification/Proc_Family.thy ===== *)
theory Proc_Family
  imports Proc_Life
begin

text \<open>
  Parents and children. A process that waits for a child is woken by it: no trap leads to a state in which
  a process sleeps in \<^verbatim>\<open>wait\<close> although one of its children has exited.
\<close>

section \<open>The invariant\<close>

definition waiting :: "'a kbase_scheme \<Rightarrow> nat \<Rightarrow> bool" where
  "waiting s q \<longleftrightarrow> p_state (ptable s q) = SLEEPING \<and> p_chan (ptable s q) = Some (ChProc q)"

definition family :: "'a kproc_scheme \<Rightarrow> bool" where
  "family s \<longleftrightarrow> (\<forall>i<NPROC. p_parent (ptable s i) \<noteq> Some i) \<and>
     (\<forall>r. initproc s = Some r \<longrightarrow>
        p_parent (ptable s r) = None \<and> p_state (ptable s r) \<noteq> UNUSED \<and> p_state (ptable s r) \<noteq> ZOMBIE) \<and>
     (\<forall>q<NPROC. \<forall>i<NPROC. waiting s q \<and> p_parent (ptable s i) = Some q \<longrightarrow> p_state (ptable s i) \<noteq> ZOMBIE)"

lemma familyD:
  assumes "family s"
  shows "i < NPROC \<Longrightarrow> p_parent (ptable s i) \<noteq> Some i"
    "initproc s = Some r \<Longrightarrow> p_parent (ptable s r) = None \<and> p_state (ptable s r) \<noteq> UNUSED \<and> p_state (ptable s r) \<noteq> ZOMBIE"
    "q < NPROC \<Longrightarrow> i < NPROC \<Longrightarrow> waiting s q \<Longrightarrow> p_parent (ptable s i) = Some q \<Longrightarrow> p_state (ptable s i) \<noteq> ZOMBIE"
  using assms unfolding family_def by blast+

lemma family_mono:
  assumes "family s" "initproc t = initproc s" "\<And>i. p_parent (ptable t i) = p_parent (ptable s i)"
    "\<And>i. p_state (ptable t i) = ZOMBIE \<Longrightarrow> p_state (ptable s i) = ZOMBIE"
    "\<And>i. p_state (ptable t i) = UNUSED \<Longrightarrow> p_state (ptable s i) = UNUSED"
    "\<And>q. waiting t q \<Longrightarrow> waiting s q"
  shows "family t"
  using assms(1) unfolding family_def assms(2,3) using assms(4-6) by blast

lemma family_frame: "callframe family"
  by unfold_locales (erule family_mono; auto simp: waiting_def wakeup1_def split: if_splits)+

interpretation fam: callframe family
  by (rule family_frame)

lemma family_upd:
  assumes "family s" "\<And>p. p_parent (g p) = p_parent p" "\<And>p. p_state (g p) = ZOMBIE \<Longrightarrow> p_state p = ZOMBIE"
    "\<And>p. p_state (g p) = UNUSED \<Longrightarrow> p_state p = UNUSED"
    "\<And>p q. p_state (g p) = SLEEPING \<Longrightarrow> p_chan (g p) = Some (ChProc q) \<Longrightarrow> p_state p = SLEEPING \<and> p_chan p = Some (ChProc q)"
  shows "family (upd_proc i g s)"
proof (rule family_mono[OF assms(1)])
  show "waiting s q" if "waiting (upd_proc i g s) q" for q
    using that assms(5)[of "ptable s i" i] by (cases "q = i") (simp_all add: waiting_def)
  show "p_state (ptable s j) = ZOMBIE" if "p_state (ptable (upd_proc i g s) j) = ZOMBIE" for j
    using that assms(3)[of "ptable s i"] by (cases "j = i") simp_all
  show "p_state (ptable s j) = UNUSED" if "p_state (ptable (upd_proc i g s) j) = UNUSED" for j
    using that assms(4)[of "ptable s i"] by (cases "j = i") simp_all
qed (simp_all add: assms(2))

lemma family_wakeup1: "family s \<Longrightarrow> family (wakeup1 c s)"
  by (erule family_mono) (auto simp: waiting_def wakeup1_def split: if_splits)

section \<open>Exiting\<close>

text \<open>What holds while a process exits: \<open>woken\<close> says that its parent does not wait.\<close>

definition exiting :: "bool \<Rightarrow> nat \<Rightarrow> nat option \<Rightarrow> 'a kproc_scheme \<Rightarrow> bool" where
  "exiting w c r s \<longleftrightarrow> family s \<and> cur s = c \<and> initproc s = r \<and> r \<noteq> Some c \<and>
     (w \<longrightarrow> (\<forall>q<NPROC. p_parent (ptable s c) = Some q \<longrightarrow> \<not> waiting s q))"

interpretation ex: callframe "exiting False c r" for c r
proof unfold_locales
  fix s :: "'a kcons_scheme" and w
  assume "exiting False c r s" "\<And>q. w \<noteq> ChProc q"
  then show "exiting False c r (upd_proc (cur s) (\<lambda>p. p\<lparr>p_chan := Some w, p_state := SLEEPING\<rparr>) s)"
    using fam.doze[of s w] by (simp add: exiting_def)
qed (simp_all add: exiting_def fam.stores fam.upd_ofile fam.upd_cwd fam.upd_cons)

lemma exiting_upd:
  assumes "exiting False c r s" "\<And>p. p_parent (g p) = p_parent p" "\<And>p. p_state (g p) = p_state p" "\<And>p. p_chan (g p) = p_chan p"
  shows "exiting False c r (upd_proc i g s)"
proof -
  have "family (upd_proc i g s)" using assms(1) by (intro family_upd) (simp_all add: exiting_def assms(2-4))
  then show ?thesis using assms(1) by (simp add: exiting_def)
qed

lemma waiting_wakeup1: "waiting (wakeup1 ch s) q \<longleftrightarrow> waiting s q \<and> (q < NPROC \<longrightarrow> ch \<noteq> Some (ChProc q))"
  by (auto simp: waiting_def wakeup1_def)

lemma waiting_upd: "(\<And>p. p_state (g p) = p_state p \<and> p_chan (g p) = p_chan p) \<Longrightarrow> waiting (upd_proc i g s) q = waiting s q"
  by (simp add: waiting_def)

lemma exiting_wakeup:
  assumes "exiting False c r s"
  shows "exiting True c r (wakeup1 (map_option ChProc (p_parent (ptable s c))) s)"
proof -
  have "p_parent (ptable (wakeup1 ch s) i) = p_parent (ptable s i)" for ch i by (simp add: wakeup1_def)
  then show ?thesis using assms family_wakeup1[of s] unfolding exiting_def by (auto simp: waiting_wakeup1)
qed

lemma exiting_close [kept_intros]:
  fixes s :: "'a kcons_scheme"
  shows "exiting False c r s \<Longrightarrow> kept (exiting False c r) (exit_close fd s)"
  unfolding exit_close_def by (auto intro!: kept_intros exiting_upd)

lemma exiting_reparent:
  assumes "exiting True c r s" "i < NPROC"
  shows "exiting True c r (reparent i s)"
proof (cases "p_parent (ptable s i) = Some c")
  case True
  have f: "family s" "cur s = c" "initproc s = r" using assms(1) by (auto simp: exiting_def)
  then have i: "i \<noteq> c" "r \<noteq> Some i" using familyD(1)[OF f(1) assms(2)] familyD(2)[OF f(1), of i] True by auto
  let ?u = "upd_proc i (\<lambda>p. p\<lparr>p_parent := r\<rparr>) s"
  define t where "t = reparent i s"
  have t: "t = (if p_state (ptable s i) = ZOMBIE then wakeup1 (map_option ChProc r) ?u else ?u)"
    using True f by (simp add: t_def reparent_def Let_def)
  have w: "waiting t q \<longleftrightarrow> waiting s q \<and> \<not> (p_state (ptable s i) = ZOMBIE \<and> q < NPROC \<and> r = Some q)" for q
    by (auto simp: t waiting_wakeup1 waiting_upd)
  have p: "p_parent (ptable t j) = (if j = i then r else p_parent (ptable s j))" for j by (simp add: t wakeup1_def)
  have st: "p_state (ptable t j) = ZOMBIE \<longleftrightarrow> p_state (ptable s j) = ZOMBIE"
    "p_state (ptable t j) = UNUSED \<longleftrightarrow> p_state (ptable s j) = UNUSED" for j
    by (auto simp: t wakeup1_def)
  have c: "cur t = c" "initproc t = r" using f by (simp_all add: t)
  have "family t" unfolding family_def
  proof (intro conjI allI impI)
    show "p_parent (ptable t j) \<noteq> Some j" if "j < NPROC" for j
      unfolding p using i(2) familyD(1)[OF f(1) that] by auto
  next
    fix q j
    assume "q < NPROC" "j < NPROC" "waiting t q \<and> p_parent (ptable t j) = Some q"
    then show "p_state (ptable t j) \<noteq> ZOMBIE"
      unfolding w p st using familyD(3)[OF f(1), of q j] by (auto split: if_splits)
  qed (use p st familyD(2)[OF f(1)] i(2) c f(3) in auto)
  then show ?thesis using assms(1) i(1) c unfolding t_def[symmetric] exiting_def w p by auto
next
  case False
  then show ?thesis using assms(1) by (simp add: reparent_def exiting_def)
qed

lemma exiting_family: "exiting w c r s \<Longrightarrow> family s"
  by (simp add: exiting_def)

lemma exiting_reparent_all: "set xs \<subseteq> {..<NPROC} \<Longrightarrow> exiting True c r s \<Longrightarrow> kept (exiting True c r) (kfor (\<lambda>i. kmod (reparent i)) xs s)"
  by (induction xs arbitrary: s) (auto simp: exiting_reparent intro!: kept_then)

lemma exiting_zombie:
  assumes "exiting True c r s"
  shows "family (upd_proc (cur s) (\<lambda>p. p\<lparr>p_state := ZOMBIE\<rparr>) s)"
proof -
  let ?t = "upd_proc (cur s) (\<lambda>p. p\<lparr>p_state := ZOMBIE\<rparr>) s"
  have f: "family s" "cur s = c" "initproc s = r" "r \<noteq> Some c" and
    w: "\<And>q. q < NPROC \<Longrightarrow> p_parent (ptable s c) = Some q \<Longrightarrow> \<not> waiting s q"
    using assms by (auto simp: exiting_def)
  have "waiting s q" if "waiting ?t q" for q using that by (auto simp: waiting_def split: if_splits)
  then show ?thesis unfolding family_def
    using familyD[OF f(1)] f(2-4) w by (auto split: if_splits)
qed

lemma family_kexit [kept_intros]:
  fixes s :: "'a kcons_scheme"
  assumes "family s"
  shows "kept family (kexit s)"
proof (cases "initproc s = Some (cur s)")
  case True
  then show ?thesis by (simp add: kexit_def kthen_apply kassert_def)
next
  case False
  define c r where "c = cur s" and "r = initproc s"
  have e: "exiting False c r s" using assms False by (simp add: exiting_def c_def r_def)
  have w: "exiting True c r (wakeup1 (map_option ChProc (p_parent (myproc t))) t)" if "exiting False c r t" for t :: "'a kcons_scheme"
    using exiting_wakeup[OF that] that by (simp add: exiting_def)
  have k: "kthen (kassert m p) n s = n s" if "p s" for m p n using that by (simp add: kthen_apply kassert_def)
  have z: "kept family (kthen (kfor (\<lambda>i. kmod (reparent i)) [0..<NPROC])
     (kmod (\<lambda>s. upd_proc (cur s) (\<lambda>p. p\<lparr>p_state := ZOMBIE\<rparr>) s)) t)" if "exiting True c r t" for t :: "'a kcons_scheme"
    by (rule kept_then_from[OF exiting_reparent_all]) (use that in \<open>auto intro: exiting_family exiting_zombie\<close>)
  have y: "kept family (kthen (kmod (\<lambda>s. wakeup1 (map_option ChProc (p_parent (myproc s))) s))
      (kthen (kfor (\<lambda>i. kmod (reparent i)) [0..<NPROC])
       (kmod (\<lambda>s. upd_proc (cur s) (\<lambda>p. p\<lparr>p_state := ZOMBIE\<rparr>) s))) t)" if "exiting False c r t" for t :: "'a kcons_scheme"
    by (rule kept_then_from[of "exiting True c r"]) (use w[OF that] z in \<open>auto intro: exiting_family\<close>)
  have stage: "kept family (kthen m n t)" if "kept (exiting False c r) (m t)" "\<And>u. exiting False c r u \<Longrightarrow> kept family (n u)"
    for m n and t :: "'a kcons_scheme"
    by (rule kept_then_from, rule that(1)) (auto intro: exiting_family that(2))
  show ?thesis unfolding kexit_def using e
    by (subst k, simp add: False, intro stage y) (auto intro!: kept_intros exiting_upd)
qed

section \<open>What exit leaves\<close>

text \<open>The descriptors in \<open>A\<close> are closed; nobody's id or parent has changed.\<close>

definition shut :: "nat set \<Rightarrow> 'a kproc_scheme \<Rightarrow> 'a kproc_scheme \<Rightarrow> bool" where
  "shut A s t \<longleftrightarrow> cur t = cur s \<and> initproc t = initproc s \<and> (\<forall>fd \<in> A. p_ofile (ptable t (cur s)) fd = None) \<and>
     (\<forall>i. p_pid (ptable t i) = p_pid (ptable s i) \<and> p_parent (ptable t i) = p_parent (ptable s i))"

interpretation sh: consframe "shut A s" for A s
  by unfold_locales (auto simp: shut_def wakeup1_def)

lemma shut_close:
  fixes s t :: "'a kcons_scheme"
  assumes "exit_close fd t = Ok () u" "shut A s t"
  shows "shut (insert fd A) s u"
proof (cases "p_ofile (myproc t) fd")
  case None
  then show ?thesis using assms by (auto simp: exit_close_def shut_def)
next
  case (Some f)
  then obtain v where v: "fileclose f t = Ok () v" "u = upd_proc (cur v) (\<lambda>p. p\<lparr>p_ofile := (p_ofile p)(fd := None)\<rparr>) v"
    using assms(1) by (auto simp: exit_close_def kthen_Ok_iff kmod_apply)
  then show ?thesis using keptD[OF sh.kept_fileclose[OF assms(2)] v(1)] by (auto simp: shut_def)
qed

lemma shut_close_all:
  fixes s t :: "'a kcons_scheme"
  assumes "kfor exit_close xs t = Ok () u" "shut A s t"
  shows "shut (A \<union> set xs) s u"
  using assms
proof (induction xs arbitrary: t A)
  case (Cons fd xs)
  then obtain v where "exit_close fd t = Ok () v" "kfor exit_close xs v = Ok () u" by (auto simp: kthen_Ok_iff)
  with Cons.IH[of v "insert fd A"] shut_close[of fd t v] Cons.prems(2) show ?case by simp
qed (simp add: kret_apply)

lemma reparent_all:
  assumes "kfor (\<lambda>i. kmod (reparent i)) xs s = Ok () t" "distinct xs" "initproc s \<noteq> Some (cur s)"
  shows "cur t = cur s \<and> initproc t = initproc s \<and> (\<forall>i. p_pid (ptable t i) = p_pid (ptable s i) \<and>
     p_ofile (ptable t i) = p_ofile (ptable s i) \<and> p_cwd (ptable t i) = p_cwd (ptable s i) \<and>
     p_parent (ptable t i) = (if i \<in> set xs \<and> p_parent (ptable s i) = Some (cur s) then initproc s else p_parent (ptable s i)))"
  using assms
proof (induction xs arbitrary: s)
  case (Cons j xs)
  let ?u = "reparent j s"
  have u: "cur ?u = cur s" "initproc ?u = initproc s" "p_pid (ptable ?u i) = p_pid (ptable s i)"
    "p_ofile (ptable ?u i) = p_ofile (ptable s i)" "p_cwd (ptable ?u i) = p_cwd (ptable s i)"
    "p_parent (ptable ?u i) = (if i = j \<and> p_parent (ptable s i) = Some (cur s) then initproc s else p_parent (ptable s i))" for i
    by (auto simp: reparent_def Let_def wakeup1_def)
  have "kfor (\<lambda>i. kmod (reparent i)) xs ?u = Ok () t" using Cons.prems(1) by (simp add: kthen_apply kmod_apply[of "reparent j"])
  from Cons.IH[OF this] Cons.prems(2,3) show ?case unfolding u by auto
qed (simp add: kret_apply)

section \<open>Waiting\<close>

interpretation fi: callframe "\<lambda>t. family t \<and> initproc t = r" for r
  by unfold_locales (simp_all add: fam.stores fam.upd_ofile fam.upd_cwd fam.upd_cons)

lemma family_free:
  assumes "family s" "initproc s \<noteq> Some i" "\<And>p. p_state (g p) = UNUSED" "\<And>p. p_parent (g p) = None \<or> p_parent (g p) = p_parent p"
  shows "family (upd_proc i g s)"
proof -
  have w: "waiting s q" if "waiting (upd_proc i g s) q" for q
    using that assms(3) by (auto simp: waiting_def split: if_splits)
  have p: "p_parent (ptable s j) = Some q" if "p_parent (ptable (upd_proc i g s) j) = Some q" for j q
    using that assms(4)[of "ptable s i"] by (cases "j = i") auto
  have z: "p_state (ptable s j) = ZOMBIE \<and> j \<noteq> i" if "p_state (ptable (upd_proc i g s) j) = ZOMBIE" for j
    using that assms(3) by (cases "j = i") auto
  show ?thesis unfolding family_def
  proof (intro conjI allI impI)
    show "p_parent (ptable (upd_proc i g s) j) \<noteq> Some j" if "j < NPROC" for j
      using familyD(1)[OF assms(1) that] p[of j j] by auto
  next
    fix q j
    assume a: "q < NPROC" "j < NPROC" "waiting (upd_proc i g s) q \<and> p_parent (ptable (upd_proc i g s) j) = Some q"
    then show "p_state (ptable (upd_proc i g s) j) \<noteq> ZOMBIE"
      using familyD(3)[OF assms(1), of q j] w[of q] p[of j q] z[of j] by blast
  qed (use familyD(2)[OF assms(1)] assms(2) in \<open>auto split: if_splits\<close>)
qed

lemma family_reap: "family s \<Longrightarrow> initproc s \<noteq> Some i \<Longrightarrow> family (upd_proc i (\<lambda>x. x\<lparr>p_pid := 0, p_parent := None,
    p_name := (p_name x)(0 := 0), p_killed := False, p_state := UNUSED\<rparr>) s)"
  by (rule family_free) simp_all

lemma family_kwait:
  fixes s :: "'a kcons_scheme"
  assumes "family s"
  shows "kept family (kwait s)"
proof (cases "findi (\<lambda>i. p_parent (ptable s i) = Some (cur s) \<and> p_state (ptable s i) = ZOMBIE) NPROC")
  case None
  let ?t = "upd_proc (cur s) (\<lambda>p. p\<lparr>p_chan := Some (ChProc (cur s)), p_state := SLEEPING\<rparr>) s"
  have n: "p_state (ptable s i) \<noteq> ZOMBIE" if "i < NPROC" "p_parent (ptable s i) = Some (cur s)" for i
    using None that by auto
  have w: "waiting s q \<or> q = cur s" if "waiting ?t q" for q using that by (auto simp: waiting_def split: if_splits)
  have p: "p_parent (ptable ?t j) = p_parent (ptable s j)" for j by simp
  have z: "p_state (ptable s j) = ZOMBIE" if "p_state (ptable ?t j) = ZOMBIE" for j using that by (auto split: if_splits)
  have "family ?t" unfolding family_def p
  proof (intro conjI allI impI)
    fix q j
    assume a: "q < NPROC" "j < NPROC" "waiting ?t q \<and> p_parent (ptable s j) = Some q"
    then show "p_state (ptable ?t j) \<noteq> ZOMBIE"
      using familyD(3)[OF assms, of q j] w[of q] n[of j] z[of j] by blast
  qed (use familyD(1,2)[OF assms] in \<open>auto split: if_splits\<close>)
  then show ?thesis using assms unfolding kwait_def None option.case sleep_def by auto
next
  case (Some p)
  define r where "r = initproc s"
  have r: "r \<noteq> Some p" using Some familyD(2)[OF assms, of p] by (auto simp: findi_Some_iff r_def)
  have "kept (\<lambda>t. family t \<and> initproc t = r) (kwait s)"
    unfolding kwait_def Some option.case using assms r_def[symmetric] r
    by (auto intro!: kept_intros family_upd[where g = "\<lambda>x. x\<lparr>p_kstack := None\<rparr>"] family_reap)
  then show ?thesis by (rule kept_weaken) simp
qed

section \<open>Forking\<close>

definition forking :: "nat \<Rightarrow> nat \<Rightarrow> nat option \<Rightarrow> 'a kproc_scheme \<Rightarrow> bool" where
  "forking np c r s \<longleftrightarrow> family s \<and> cur s = c \<and> initproc s = r \<and> r \<noteq> Some np \<and> np \<noteq> c \<and> p_state (ptable s np) = EMBRYO"

interpretation fk: callframe "forking np c r" for np c r
proof unfold_locales
  fix s :: "'a kcons_scheme" and w
  assume "forking np c r s" "\<And>q. w \<noteq> ChProc q"
  then show "forking np c r (upd_proc (cur s) (\<lambda>p. p\<lparr>p_chan := Some w, p_state := SLEEPING\<rparr>) s)"
    using fam.doze[of s w] by (simp add: forking_def)
qed (simp_all add: forking_def fam.stores fam.upd_ofile fam.upd_cwd fam.upd_cons, auto simp: wakeup1_def)

lemma forking_family: "forking np c r s \<Longrightarrow> family s"
  by (simp add: forking_def)

lemma forking_upd:
  assumes "forking np c r s" "\<And>p. p_parent (g p) = p_parent p" "\<And>p. p_state (g p) = p_state p" "\<And>p. p_chan (g p) = p_chan p"
  shows "forking np c r (upd_proc i g s)"
proof -
  have "family (upd_proc i g s)" using assms(1) by (intro family_upd) (simp_all add: forking_def assms(2-4))
  then show ?thesis using assms(1,3) by (auto simp: forking_def)
qed

lemma forking_copy:
  assumes "forking np c r s"
  shows "forking np c r (fork_copy np d s)"
proof -
  let ?t = "fork_copy np d s"
  have f: "family s" "cur s = c" "initproc s = r" "r \<noteq> Some np" "np \<noteq> c" "p_state (ptable s np) = EMBRYO"
    using assms by (auto simp: forking_def)
  have st: "p_state (ptable ?t j) = p_state (ptable s j)" "p_chan (ptable ?t j) = p_chan (ptable s j)"
    "p_parent (ptable ?t j) = (if j = np then Some c else p_parent (ptable s j))" for j
    using f(2) by (simp_all add: fork_copy_def Let_def)
  have c: "cur ?t = c" "initproc ?t = r" using f by (simp_all add: fork_copy_def Let_def)
  have w: "waiting ?t q = waiting s q" for q by (simp add: waiting_def st)
  have "family ?t" unfolding family_def c st w
    using familyD[OF f(1)] f by (auto split: if_splits)
  then show ?thesis using f c st by (simp add: forking_def)
qed

lemma forking_file [kept_intros]:
  fixes s :: "'a kcons_scheme"
  shows "forking np c r s \<Longrightarrow> kept (forking np c r) (fork_file np i s)"
  unfolding fork_file_def by (auto intro!: kept_intros forking_upd)

lemma family_memory: "same_but_memory s t \<Longrightarrow> family s \<Longrightarrow> family t"
  by (rule family_mono[of s]) (auto simp: waiting_def dest: same_but_memoryD)

lemma family_new:
  assumes "family s"
  shows "family (new_slot p s)"
proof -
  have "family (upd_proc p (\<lambda>x. x\<lparr>p_state := EMBRYO, p_pid := nextpid s\<rparr>) s)" using assms by (rule family_upd) simp_all
  then show ?thesis by (rule family_mono) (simp_all add: new_slot_def waiting_def)
qed

lemma family_allocproc:
  assumes "family s" "allocproc s = Ok q t"
  shows "family t"
  using assms(2)
proof (cases rule: allocproc_cases)
  case (nomem p)
  have "initproc s \<noteq> Some p" using familyD(2)[OF assms(1), of p] nomem(2) by auto
  then show ?thesis using family_new[OF assms(1), of p]
    by (intro family_memory[OF nomem(4)] family_free) (simp_all add: new_slot_def)
next
  case (new p k)
  show ?thesis using family_new[OF assms(1), of p] by (intro family_memory[OF new(4)] family_upd) simp_all
qed (use assms in simp)

lemma forking_allocproc:
  assumes "family s" "p_state (myproc s) = RUNNING" "allocproc s = Ok (Some np) t"
  shows "forking np (cur s) (initproc s) t"
  using assms(3)
proof (cases rule: allocproc_cases)
  case (new p k)
  have "initproc s \<noteq> Some p" using familyD(2)[OF assms(1), of p] new(2) by auto
  moreover have "p \<noteq> cur s" using assms(2) new(2) by auto
  ultimately show ?thesis using same_but_memoryD[OF new(4)] family_allocproc[OF assms(1,3)] new(3)
    by (auto simp: forking_def new_slot_def)
qed simp_all

lemma family_fork:
  fixes s :: "'a kcons_scheme"
  assumes "family s" "p_state (myproc s) = RUNNING"
  shows "kept family (fork s)"
proof (cases "allocproc s")
  case (Ok r t)
  show ?thesis
  proof (cases r)
    case None
    with Ok family_allocproc[OF assms(1) Ok] show ?thesis by (simp add: fork_def kbind_apply kret_apply)
  next
    case (Some np)
    let ?F = "forking np (cur s) (initproc s)"
    have t: "?F t" using forking_allocproc[OF assms] Ok Some by blast
    have c: "kept ?F (copyuvm (addr_of (p_pgdir (myproc t))) (p_sz (myproc t)) t)"
      using t by (auto intro!: kept_intros)
    have bind: "kept family (kbind m n u)" if "kept ?F (m u)" "\<And>x v. ?F v \<Longrightarrow> kept family (n x v)"
      for m :: "('a kcons_scheme, 'd) km" and n :: "'d \<Rightarrow> ('a kcons_scheme, int) km" and u :: "'a kcons_scheme"
      by (rule kept_bind_from, rule that(1)) (auto intro: forking_family that(2))
    have stage: "kept family (kthen m n u)" if "kept ?F (m u)" "\<And>v. ?F v \<Longrightarrow> kept family (n v)"
      for m and n :: "('a kcons_scheme, int) km" and u :: "'a kcons_scheme"
      by (rule kept_then_from, rule that(1)) (auto intro: forking_family that(2))
    have run: "family (upd_proc np (\<lambda>x. x\<lparr>p_state := RUNNABLE\<rparr>) u)" if "?F u" for u :: "'a kcons_scheme"
      using forking_family[OF that] by (rule family_upd) simp_all
    have free: "family (upd_proc np (\<lambda>x. x\<lparr>p_pgdir := None, p_kstack := None, p_state := UNUSED\<rparr>) u)" if "?F u" for u :: "'a kcons_scheme"
      using that by (intro family_free) (auto simp: forking_def)
    have last: "kept family (kthen (kmod (upd_proc np (\<lambda>x. x\<lparr>p_state := RUNNABLE\<rparr>))) (kget g) u)" if "?F u" for g and u :: "'a kcons_scheme"
      using run[OF that] by (auto intro!: kept_then)
    have child: "kept family
       (kthen (kmod (fork_copy np d))
       (kthen (kfor (fork_file np) [0..<NOFILE])
       (kbind (\<lambda>s. deref (p_cwd (myproc s)) idup s) (\<lambda>c.
        kthen (kmod (upd_proc np (\<lambda>x. x\<lparr>p_cwd := Some c\<rparr>)))
       (kthen (kmod (\<lambda>s. upd_proc np (\<lambda>x. x\<lparr>p_name := safestrcpy (p_name x) (p_name (myproc s)) 16\<rparr>) s))
       (kthen (kmod (upd_proc np (\<lambda>x. x\<lparr>p_state := RUNNABLE\<rparr>)))
        (kget (\<lambda>s. p_pid (ptable s np)))))))) u)" if "?F u" for d and u :: "'a kcons_scheme"
      using that by (intro stage bind last) (auto intro!: kept_intros forking_copy forking_upd)
    have none: "kept family (kthen (\<lambda>s. kfree (addr_of (p_kstack (ptable s np))) s)
        (kthen (kmod (upd_proc np (\<lambda>x. x\<lparr>p_pgdir := None, p_kstack := None, p_state := UNUSED\<rparr>))) (kret (-1 :: int))) u)" if "?F u" for u :: "'a kcons_scheme"
      using that free by - (rule stage, auto intro!: kept_intros)
    show ?thesis unfolding fork_def kbind_apply[of allocproc] Ok Some outcome.case option.case
      using t by (intro bind) (auto intro!: kept_intros child none)
  qed
qed (auto simp: awakeD[OF awake_allocproc] fork_def kbind_apply)

section \<open>Traps\<close>

lemma family_above: "family (s\<lparr>kbd_shift := a\<rparr>) = family s" "family (u\<lparr>ticks := b\<rparr>) = family u"
  by (simp_all add: family_def waiting_def)

lemma family_calls:
  fixes s :: "'a kcons_scheme"
  assumes "family s"
  shows "kept family (kill pid s)" "kept family (growproc n s)" "kept family (sys_setuid s)" "kept family (sys_setgrps s)"
    "kept family (exec_commit path d m e sp b s)"
  using assms unfolding kill_def growproc_def sys_setuid_def sys_setgrps_def exec_commit_def Let_def
  by (auto split: if_splits intro!: kept_intros family_upd)

interpretation ft: trapframe_inv family
  by unfold_locales (auto simp: family_above family_calls intro!: family_kexit family_fork family_kwait family_upd)

section \<open>Properties\<close>




end
