(* ===== verification/Sched.thy ===== *)
theory Sched
  imports Proc_Family
begin

text \<open>
  The scheduler (\<^verbatim>\<open>scheduler\<close> of \<^verbatim>\<open>kernel/proc.c\<close>) as passes over the process table. Between two decisions
  the chosen process runs until it gives the CPU up; all that is required of this run is that it leaves runnable
  processes runnable, which every trap does.
\<close>

section \<open>Runnable processes stay runnable\<close>

definition ready :: "nat \<Rightarrow> nat \<Rightarrow> 'a kbase_scheme \<Rightarrow> bool" where
  "ready c q s \<longleftrightarrow> q \<noteq> c \<and> cur s = c \<and> p_state (ptable s q) = RUNNABLE"

lemma ready_upd:
  assumes "ready c q s" "\<And>p. p_state p = RUNNABLE \<Longrightarrow> p_state (g p) = RUNNABLE"
  shows "ready c q (upd_proc i g s)"
  using assms(1) assms(2)[of "ptable s q"] by (auto simp: ready_def)

lemma ready_other: "ready c q s \<Longrightarrow> i \<noteq> q \<Longrightarrow> ready c q (upd_proc i g s)"
  by (simp add: ready_def)

lemma ready_cur: "ready c q s \<Longrightarrow> ready c q (upd_proc (cur s) g s)"
  by (simp add: ready_def)

lemma ready_wakeup1: "ready c q s \<Longrightarrow> ready c q (wakeup1 ch s)"
  by (simp add: ready_def wakeup1_def)

interpretation rd: callframe "ready c q" for c q
  by unfold_locales (auto simp: ready_def wakeup1_def)

lemma ready_memory: "same_but_memory s t \<Longrightarrow> ready c q s \<Longrightarrow> ready c q t"
  by (auto simp: ready_def dest: same_but_memoryD)

lemma ready_reparent: "ready c q s \<Longrightarrow> ready c q (reparent i s)"
  unfolding reparent_def Let_def by (auto intro!: ready_upd ready_wakeup1)

lemma ready_kexit [kept_intros]:
  fixes s :: "'a kcons_scheme"
  shows "ready c q s \<Longrightarrow> kept (ready c q) (kexit s)"
  unfolding kexit_def exit_close_def by (auto intro!: kept_intros ready_cur ready_wakeup1 ready_reparent)

lemma ready_kwait [kept_intros]:
  fixes s :: "'a kcons_scheme"
  assumes "ready c q s"
  shows "kept (ready c q) (kwait s)"
proof (cases "findi (\<lambda>i. p_parent (ptable s i) = Some (cur s) \<and> p_state (ptable s i) = ZOMBIE) NPROC")
  case None
  then show ?thesis using assms unfolding kwait_def None option.case sleep_def by (auto intro!: kept_intros ready_cur)
next
  case (Some p)
  then have "p \<noteq> q" using assms by (auto simp: findi_Some_iff ready_def)
  then show ?thesis using assms unfolding kwait_def Some option.case by (auto intro!: kept_intros ready_other)
qed

lemma ready_allocproc:
  assumes "ready c q s" "allocproc s = Ok r t"
  shows "ready c q t" "r = Some np \<Longrightarrow> np \<noteq> q"
proof -
  have n: "p \<noteq> q" if "p_state (ptable s p) = UNUSED" for p using that assms(1) by (auto simp: ready_def)
  from assms(2) show "r = Some np \<Longrightarrow> np \<noteq> q" by (cases rule: allocproc_cases) (auto dest: n)
  from assms(2) show "ready c q t"
    by (cases rule: allocproc_cases)
      (use assms(1) n in \<open>auto simp: ready_def new_slot_def dest!: same_but_memoryD\<close>)
qed

lemma ready_fork [kept_intros]:
  fixes s :: "'a kcons_scheme"
  assumes "ready c q s"
  shows "kept (ready c q) (fork s)"
proof (cases "allocproc s")
  case (Ok r t)
  show ?thesis
  proof (cases r)
    case None
    with Ok ready_allocproc(1)[OF assms Ok] show ?thesis by (simp add: fork_def kbind_apply kret_apply)
  next
    case (Some np)
    have "ready c q t" "np \<noteq> q" using ready_allocproc[OF assms Ok] Some by auto
    then show ?thesis unfolding fork_def kbind_apply[of allocproc] Ok Some outcome.case option.case
      by (auto simp: fork_copy_def Let_def fork_file_def intro!: kept_intros ready_other)
  qed
qed (auto simp: awakeD[OF awake_allocproc] fork_def kbind_apply)

interpretation rt: trapframe_inv "ready c q" for c q
proof unfold_locales
  show "kept (ready c q) (kill pid s)" if "ready c q s" for pid and s :: "'a kkbd_scheme"
    using that unfolding kill_def by (auto intro!: kept_intros ready_upd)
qed (auto simp: growproc_def sys_setuid_def sys_setgrps_def exec_commit_def Let_def
     intro!: kept_intros ready_cur ready_upd, auto simp: ready_def)

section \<open>Passes over the table\<close>

text \<open>What the run of process \<open>c\<close> may do: runnable processes stay runnable.\<close>

definition leaves_runnable :: "nat \<Rightarrow> 'a kbase_scheme \<Rightarrow> 'b kbase_scheme \<Rightarrow> bool" where
  "leaves_runnable c s t \<longleftrightarrow> (\<forall>q. q \<noteq> c \<and> p_state (ptable s q) = RUNNABLE \<longrightarrow> p_state (ptable t q) = RUNNABLE)"

text \<open>\<open>pass i s ps t\<close>: the loop over the table from slot \<open>i\<close> on lets the processes \<open>ps\<close> run.\<close>

inductive pass :: "nat \<Rightarrow> 'a kproc_scheme \<Rightarrow> nat list \<Rightarrow> 'a kproc_scheme \<Rightarrow> bool" where
  pass_end: "schedule_from i s = Ok None t \<Longrightarrow> pass i s [] t"
| pass_run: "schedule_from i s = Ok (Some p) t \<Longrightarrow> leaves_runnable p t u \<Longrightarrow> pass (Suc p) u ps v \<Longrightarrow> pass i s (p # ps) v"

lemma schedule_from_Some:
  assumes "schedule_from i s = Ok (Some p) t"
  shows "i \<le> p" "p < NPROC" "p_state (ptable s p) = RUNNABLE" "\<And>q. i \<le> q \<Longrightarrow> q < p \<Longrightarrow> p_state (ptable s q) \<noteq> RUNNABLE"
    "p_state (ptable t p) = RUNNING" "cur t = p" "\<And>q. q \<noteq> p \<Longrightarrow> ptable t q = ptable s q"
proof -
  obtain u where f: "find (\<lambda>p. p_state (ptable s p) = RUNNABLE) [i..<NPROC] = Some p"
    and u: "switchuvm p (s\<lparr>cur := p\<rparr>) = Ok () u" "t = upd_proc p (\<lambda>x. x\<lparr>p_state := RUNNING\<rparr>) u"
    using assms by (auto simp: schedule_from_def kthen_Ok_iff kmod_apply kret_apply split: option.splits)
  have "u = s\<lparr>cur := p\<rparr>" using u(1) by (auto simp: switchuvm_def kthen_Ok_iff kassert_def split: if_splits)
  then show "p_state (ptable t p) = RUNNING" "cur t = p" "\<And>q. q \<noteq> p \<Longrightarrow> ptable t q = ptable s q" using u(2) by simp_all
  from f obtain k where k: "k < NPROC - i" "p = i + k" "p_state (ptable s p) = RUNNABLE" "\<And>j. j < k \<Longrightarrow> p_state (ptable s (i + j)) \<noteq> RUNNABLE"
    by (auto simp: find_Some_iff)
  then show "i \<le> p" "p < NPROC" "p_state (ptable s p) = RUNNABLE" by auto
  show "p_state (ptable s q) \<noteq> RUNNABLE" if "i \<le> q" "q < p" for q
    using k(4)[of "q - i"] k(2) that by auto
qed

lemma schedule_from_None:
  assumes "schedule_from i s = Ok None t" "i \<le> q" "q < NPROC"
  shows "p_state (ptable s q) \<noteq> RUNNABLE"
  using assms by (auto simp: schedule_from_def kthen_Ok_iff kmod_apply kret_apply find_None_iff split: option.splits)

section \<open>Properties\<close>


text \<open>A table in which slots 3 and 5 can run.\<close>

definition ex_table :: "nat \<Rightarrow> proc" where
  "ex_table = (\<lambda>i. if i = 3 \<or> i = 5 then zero_proc\<lparr>p_state := RUNNABLE, p_kstack := Some 4096, p_pgdir := Some 8192\<rparr> else zero_proc)"

definition ex_sched :: kkbd where
  "ex_sched = ex_run\<lparr>ptable := ex_table\<rparr>"

lemma find_runnable:
  assumes "i \<le> p" "p < NPROC" "p_state (ptable s p) = RUNNABLE" "\<And>q. i \<le> q \<Longrightarrow> q < p \<Longrightarrow> p_state (ptable s q) \<noteq> RUNNABLE"
    "p_kstack (ptable s p) \<noteq> None" "p_pgdir (ptable s p) \<noteq> None"
  shows "schedule_from i s = Ok (Some p) (upd_proc p (\<lambda>x. x\<lparr>p_state := RUNNING\<rparr>) (s\<lparr>cur := p\<rparr>))"
proof -
  have "find (\<lambda>p. p_state (ptable s p) = RUNNABLE) [i..<NPROC] = Some p"
    using assms(1-4) by (auto simp: find_Some_iff intro!: exI[of _ "p - i"])
  then show ?thesis using assms(5,6)
    by (simp add: schedule_from_def kthen_apply kmod_apply kret_apply switchuvm_def kassert_def)
qed


text \<open>
  Every trap leaves the other processes their turn: whatever the trap, and whether its handler returns, sleeps,
  yields or exits, a process that was runnable is runnable afterwards. Only the scheduler takes a process
  out of this state.
\<close>

theorem trap_leaves_runnable:
  assumes "p_state (myproc s) = RUNNING"
  shows "case trap c has tf err cr2 es s of
      Ok r t \<Rightarrow> leaves_runnable (cur s) s t
    | Sleep ch t \<Rightarrow> leaves_runnable (cur s) s t
    | Panic m \<Rightarrow> True"
proof -
  have "kept (\<lambda>t. ready (cur s) q t) (trap c has tf err cr2 es s)" if "q \<noteq> cur s" "p_state (ptable s q) = RUNNABLE" for q
    by (rule rt.kept_trap[OF _ assms]) (simp add: ready_def that)
  then show ?thesis by (auto simp: kept_def ready_def leaves_runnable_def split: outcome.splits)
qed

theorem trap_leaves_runnable_witness:
  "case trap 0 True (user_tf\<lparr>tf_trapno := 32\<rparr>) 0 0 [] ex_run of
      Ok r t \<Rightarrow> leaves_runnable 0 ex_run t | Sleep ch t \<Rightarrow> leaves_runnable 0 ex_run t | Panic m \<Rightarrow> True"
proof -
  have c: "cur ex_run = 0" by (simp add: ex_run_def)
  show ?thesis using trap_leaves_runnable[OF ex_run_ok(2), of 0 True "user_tf\<lparr>tf_trapno := 32\<rparr>" 0 0 "[]"] unfolding c .
qed

end
