(* ===== verification/Privilege.thy ===== *)
theory Privilege
  imports Frame_Sys
begin

text \<open>
  Privileges. The credentials of a process are its user id, its effective user id and its groups;
  the permission tests of the kernel read nothing else of it. This theory shows which system calls
  change credentials, whose, and when.
\<close>

section \<open>Credentials as an observation\<close>

definition cred :: "proc \<Rightarrow> u32 \<times> u32 \<times> int \<times> u32 list" where
  "cred p = (p_uid p, p_euid p, p_ngroups p, map (p_gids p) [0..<MAXGROUPS])"

definition creds :: "'a kbase_scheme \<Rightarrow> nat \<times> (nat \<Rightarrow> u32 \<times> u32 \<times> int \<times> u32 list)" where
  "creds s = (cur s, \<lambda>i. cred (ptable s i))"

lemma cred_fields [simp]:
  "cred (p\<lparr>p_state := a\<rparr>) = cred p" "cred (p\<lparr>p_chan := b\<rparr>) = cred p" "cred (p\<lparr>p_ofile := d\<rparr>) = cred p"
  "cred (p\<lparr>p_cwd := e\<rparr>) = cred p" "cred (p\<lparr>p_sz := g\<rparr>) = cred p" "cred (p\<lparr>p_pgdir := h\<rparr>) = cred p"
  "cred (p\<lparr>p_kstack := k\<rparr>) = cred p" "cred (p\<lparr>p_pid := l\<rparr>) = cred p" "cred (p\<lparr>p_parent := m\<rparr>) = cred p"
  "cred (p\<lparr>p_tf := n\<rparr>) = cred p" "cred (p\<lparr>p_killed := q\<rparr>) = cred p" "cred (p\<lparr>p_name := r\<rparr>) = cred p"
  by (simp_all add: cred_def)

lemma cred_upd_proc: "cred (ptable (upd_proc j g s) i) = (if i = j then cred (g (ptable s i)) else cred (ptable s i))"
  by (simp add: upd_proc_def)

lemma cred_wakeup1 [simp]: "cred (ptable (wakeup1 ch s) i) = cred (ptable s i)"
  by (simp add: wakeup1_def)

text \<open>Whatever reads only the credentials and the identity of the running process is kept.\<close>

lemma creds_frame:
  fixes f :: "'a kcons_scheme \<Rightarrow> bool"
  assumes "\<And>s t. creds s = creds t \<Longrightarrow> f s = f t"
  shows "callframe f"
  by unfold_locales (rule assms[THEN iffD1, rotated], assumption, simp add: creds_def fun_eq_iff)+


interpretation cr: callframe "\<lambda>t. creds t = c" for c
  by (rule creds_frame) simp

section \<open>Calls that keep all credentials\<close>

lemma creds_upd: "(\<And>p. cred (g p) = cred p) \<Longrightarrow> creds (upd_proc i g s) = creds s"
  by (simp add: creds_def fun_eq_iff)

lemma creds_cur: "creds t = creds s \<Longrightarrow> cred (myproc t) = cred (myproc s)"
  by (auto simp: creds_def fun_eq_iff)

lemma creds_wakeup1 [simp]: "creds (wakeup1 ch s) = creds s"
  by (simp add: creds_def)

lemma creds_above [simp]:
  "creds (s\<lparr>nextpid := a\<rparr>) = creds s" "creds (s\<lparr>ticks := b\<rparr>) = creds s"
  by (simp_all add: creds_def)

lemma creds_kill [kept_intros]:
  fixes s :: "'a kcons_scheme"
  shows "creds s = c \<Longrightarrow> kept (\<lambda>t. creds t = c) (kill pid s)"
  unfolding kill_def by (auto simp: creds_upd Let_def intro!: kept_intros)

lemma creds_sys_kill:
  fixes s :: "'a kcons_scheme"
  shows "creds s = c \<Longrightarrow> kept (\<lambda>t. creds t = c) (sys_kill s)"
  unfolding sys_kill_def by (auto intro!: kept_intros)

lemma creds_growproc [kept_intros]:
  fixes s :: "'a kcons_scheme"
  shows "creds s = c \<Longrightarrow> kept (\<lambda>t. creds t = c) (growproc n s)"
  unfolding growproc_def Let_def by (auto simp: creds_upd intro!: kept_intros)

lemma creds_sys_sbrk:
  fixes s :: "'a kcons_scheme"
  shows "creds s = c \<Longrightarrow> kept (\<lambda>t. creds t = c) (sys_sbrk s)"
  unfolding sys_sbrk_def by (auto intro!: kept_intros)

lemma creds_exit_close [kept_intros]:
  fixes s :: "'a kcons_scheme"
  shows "creds s = c \<Longrightarrow> kept (\<lambda>t. creds t = c) (exit_close fd s)"
  unfolding exit_close_def by (auto simp: creds_upd intro!: kept_intros)

lemma creds_reparent [simp]:
  fixes s :: "'a kcons_scheme"
  shows "creds (reparent i s) = creds s"
  by (simp add: reparent_def Let_def creds_upd)

lemma creds_sys_exit:
  fixes s :: "'a kcons_scheme"
  shows "creds s = c \<Longrightarrow> kept (\<lambda>t. creds t = c) (sys_exit s)"
  unfolding sys_exit_def kexit_def by (auto simp: creds_upd intro!: kept_intros)

lemma creds_sys_wait:
  fixes s :: "'a kcons_scheme"
  shows "creds s = c \<Longrightarrow> kept (\<lambda>t. creds t = c) (sys_wait s)"
  unfolding sys_wait_def kwait_def sleep_def by (auto simp: creds_upd intro!: kept_intros)

lemma creds_allocproc:
  fixes s :: "'a kcons_scheme"
  shows "creds s = c \<Longrightarrow> kept (\<lambda>t. creds t = c) (allocproc s)"
  unfolding allocproc_def by (auto simp: creds_upd intro!: kept_intros)

section \<open>Calls that change credentials\<close>

text \<open>\<^verbatim>\<open>fork\<close>: a free slot gets the credentials of the caller.\<close>

definition inherited :: "'a kbase_scheme \<Rightarrow> 'b kbase_scheme \<Rightarrow> bool" where
  "inherited s t \<longleftrightarrow> cur t = cur s \<and> (\<forall>i. cred (ptable t i) = cred (ptable s i) \<or>
     p_state (ptable s i) = UNUSED \<and> cred (ptable t i) = cred (myproc s))"

interpretation inh: callframe "inherited s" for s
  by (rule creds_frame) (auto simp: inherited_def creds_def fun_eq_iff)

lemma inherited_upd: "(\<And>p. cred (g p) = cred p) \<Longrightarrow> inherited s (upd_proc i g t) = inherited s t"
  unfolding inherited_def by (intro conj_cong arg_cong[where f = All] ext) (auto simp: fun_upd_def)

lemma inherited_creds: "creds t = creds s \<Longrightarrow> inherited s t"
  by (auto simp: inherited_def creds_def fun_eq_iff)

lemma inherited_fork_copy:
  assumes "inherited s t" "p_state (ptable s np) = UNUSED"
  shows "inherited s (fork_copy np d t)"
proof -
  have "cred (myproc t) = cred (myproc s)" "cur t = cur s" using assms(1) by (auto simp: inherited_def)
  then show ?thesis using assms by (auto simp: inherited_def fork_copy_def Let_def cred_def)
qed

lemma inherited_fork_file [kept_intros]:
  fixes s t :: "'a kcons_scheme"
  shows "inherited s t \<Longrightarrow> kept (inherited s) (fork_file np i t)"
  unfolding fork_file_def by (auto simp: inherited_upd intro!: kept_intros)

lemma allocproc_slot:
  assumes "allocproc s = Ok (Some np) t"
  shows "p_state (ptable s np) = UNUSED" "np < NPROC"
  using assms by (auto simp: allocproc_def kbind_Ok_iff kthen_Ok_iff kret_apply split: option.splits if_splits dest: findi_SomeD)

lemma inherited_sys_fork:
  fixes s :: "'a kcons_scheme"
  shows "kept (inherited s) (sys_fork s)"
  unfolding sys_fork_def fork_def
  by (rule kept_bind_from[OF creds_allocproc[OF refl]])
    (auto simp: inherited_creds inherited_upd inherited_fork_copy dest: allocproc_slot split: option.split intro!: kept_intros)

text \<open>\<^verbatim>\<open>exec\<close>: the caller's effective user id becomes its user id, or the superuser's.\<close>

definition exec_creds :: "'a kbase_scheme \<Rightarrow> 'b kbase_scheme \<Rightarrow> bool" where
  "exec_creds s t \<longleftrightarrow> cur t = cur s \<and> (\<forall>i. cred (ptable t i) = cred (ptable s i) \<or>
     i = cur s \<and> (\<exists>e. (e = 0 \<or> e = p_uid (myproc s)) \<and> cred (ptable t i) = cred ((myproc s)\<lparr>p_euid := e\<rparr>)))"

interpretation exc: callframe "exec_creds s" for s
  by (rule creds_frame) (auto simp: exec_creds_def creds_def fun_eq_iff)

lemma exec_creds_commit [kept_intros]:
  fixes s t :: "'a kcons_scheme"
  assumes "exec_creds s t"
  shows "kept (exec_creds s) (exec_commit path d n e sp b t)"
proof -
  have "exec_creds s (upd_proc (cur t) (\<lambda>p. p\<lparr>p_name := nm p, p_pgdir := Some d, p_sz := n, p_tf := tf p,
      p_euid := if b then 0 else p_uid p\<rparr>) t)" for nm tf
  proof -
    have "p_uid (myproc t) = p_uid (myproc s)" "p_ngroups (myproc t) = p_ngroups (myproc s)"
      "map (p_gids (myproc t)) [0..<MAXGROUPS] = map (p_gids (myproc s)) [0..<MAXGROUPS]" "cur t = cur s"
      using assms by (auto simp: exec_creds_def cred_def)
    then show ?thesis using assms by (auto simp: exec_creds_def cred_def)
  qed
  then show ?thesis
    unfolding exec_commit_def Let_def by (auto intro!: kept_intros)
qed

lemma exec_creds_sys_exec:
  fixes s :: "'a kcons_scheme"
  shows "kept (exec_creds s) (sys_exec consoleinit s)"
proof -
  have "exec_creds s s" by (simp add: exec_creds_def)
  then show ?thesis unfolding sys_exec_def
    by (auto intro!: kept_intros exc.kept_exec[OF _ exc.kept_consoleinit])
qed

text \<open>The superuser may change the credentials of the own process.\<close>

definition own_creds :: "'a kbase_scheme \<Rightarrow> 'b kbase_scheme \<Rightarrow> bool" where
  "own_creds s t \<longleftrightarrow> cur t = cur s \<and> (\<forall>i. cred (ptable t i) = cred (ptable s i) \<or> i = cur s \<and> p_euid (myproc s) = 0)"

interpretation own: callframe "own_creds s" for s
  by (rule creds_frame) (auto simp: own_creds_def creds_def fun_eq_iff)

lemma own_creds_upd:
  "own_creds s t \<Longrightarrow> p_euid (myproc s) = 0 \<Longrightarrow> own_creds s (upd_proc (cur t) g t)"
  by (auto simp: own_creds_def)

lemma own_creds_calls:
  fixes s :: "'a kcons_scheme"
  shows "kept (own_creds s) (sys_setuid s)" "kept (own_creds s) (sys_setgrps s)"
proof -
  have "own_creds s s" by (simp add: own_creds_def)
  then show "kept (own_creds s) (sys_setuid s)" "kept (own_creds s) (sys_setgrps s)"
    unfolding sys_setuid_def sys_setgrps_def Let_def
    by (auto intro!: kept_intros own_creds_upd)
qed

text \<open>The last step of \<^verbatim>\<open>exec\<close>.\<close>

lemma exec_commit_ends:
  fixes s u :: "'a kcons_scheme"
  assumes "creds s = creds u"
  shows "ends f (\<lambda>r t. r = 0 \<and> cred (myproc t) = cred ((myproc u)\<lparr>p_euid := if b then 0 else p_uid (myproc u)\<rparr>))
    (exec_commit path d n e sp b s)"
proof -
  let ?u = "upd_proc (cur s) (\<lambda>p. p\<lparr>p_name := safestrcpy (p_name p) (cbytes (path_last path)) 16,
      p_pgdir := Some d, p_sz := n, p_tf := (p_tf p)\<lparr>tf_eip := e, tf_esp := sp\<rparr>,
      p_euid := (if b then 0 else p_uid p)\<rparr>) s"
  have "awake (exec_commit path d n e sp b s)"
    unfolding exec_commit_def Let_def switchuvm_def by (auto intro!: awake_intros)
  moreover have "r = 0 \<and> creds t = creds ?u" if run: "exec_commit path d n e sp b s = Ok r t" for r t
  proof -
    obtain v w where "switchuvm (cur s) ?u = Ok () v" "freevm (addr_of (p_pgdir (myproc s))) v = Ok () w" "r = 0" "t = w"
      using run by (auto simp: exec_commit_def Let_def kthen_Ok_iff kmod_apply kret_apply)
    moreover have "kept (\<lambda>t. creds t = creds ?u) (switchuvm (cur s) ?u)" "kept (\<lambda>t. creds t = creds v) (freevm (addr_of (p_pgdir (myproc s))) v)"
      by (simp_all add: cr.kept_switchuvm cr.kept_freevm)
    ultimately show ?thesis by simp
  qed
  ultimately show ?thesis using assms
    by (auto simp: ends_def awake_def creds_def fun_eq_iff cred_def split: outcome.splits)
qed

section \<open>Descriptors and credentials\<close>

text \<open>The file system keeps the open files of every process too.\<close>

definition holdings :: "'a kbase_scheme \<Rightarrow> nat \<times> (nat \<Rightarrow> (u32 \<times> u32 \<times> int \<times> u32 list) \<times> (nat \<Rightarrow> nat option))" where
  "holdings s = (cur s, \<lambda>i. (cred (ptable s i), p_ofile (ptable s i)))"

interpretation ho: consframe "\<lambda>t. holdings t = c" for c
  by unfold_locales (erule subst, simp add: holdings_def fun_eq_iff wakeup1_def)+

lemma holdings_cur: "holdings t = holdings s \<Longrightarrow>
    cur t = cur s \<and> cred (myproc t) = cred (myproc s) \<and> p_ofile (myproc t) = p_ofile (myproc s)"
  by (auto simp: holdings_def fun_eq_iff)

lemma fdalloc_Some:
  "fdalloc f s = Ok (Some fd) t \<Longrightarrow> fd < NOFILE \<and> p_ofile (myproc s) fd = None \<and> (\<forall>i<fd. p_ofile (myproc s) i \<noteq> None) \<and>
     t = upd_proc (cur s) (\<lambda>p. p\<lparr>p_ofile := (p_ofile p)(fd := Some f)\<rparr>) s"
  by (auto simp: fdalloc_def findi_Some_iff split: option.splits)

text \<open>What \<^verbatim>\<open>open\<close> must have checked; it checks nothing with \<^verbatim>\<open>O_CREATE\<close>.\<close>

definition open_granted :: "proc \<Rightarrow> inode \<Rightarrow> u32 \<Rightarrow> bool" where
  "open_granted p ip om \<longleftrightarrow> (om AND O_CREATE = 0 \<longrightarrow> open_ok p ip om \<and> (i_type ip = T_DIR \<longrightarrow> om = O_RDONLY))"

lemma open_inode_ok:
  assumes "open_inode dv path om s = Ok (Some ip) t"
  shows "open_granted (myproc t) (icache t ip) om"
  using assms by (auto simp: open_granted_def open_inode_def kbind_Ok_iff kthen_Ok_iff kif_apply kret_apply split: option.splits if_splits)

definition opened :: "'a kcons_scheme \<Rightarrow> int \<Rightarrow> 'a kcons_scheme \<Rightarrow> bool" where
  "opened s r t \<longleftrightarrow>
       (\<exists>path om s0 ip u f fd. argstr 0 s = Ok (Some path) s \<and> argint 1 s = Ok (Some om) s \<and> begin_op s = Ok () s0 \<and>
         open_inode consoleinit path om s0 = Ok (Some ip) u \<and> cred (myproc u) = cred (myproc s) \<and>
         open_granted (myproc u) (icache u ip) om \<and>
         r = int fd \<and> findi (\<lambda>i. p_ofile (myproc s) i = None) NOFILE = Some fd \<and>
         p_ofile (myproc t) = (p_ofile (myproc s))(fd := Some f) \<and> cred (myproc t) = cred (myproc s) \<and>
         f_type (ftable t f) = FD_INODE \<and> f_ip (ftable t f) = Some ip \<and> f_off (ftable t f) = 0 \<and>
         (f_readable (ftable t f) \<longleftrightarrow> om AND O_RDONLY \<noteq> 0) \<and> (f_writable (ftable t f) \<longleftrightarrow> om AND O_WRONLY \<noteq> 0))"

lemma fetchstr_unchanged: "fetchstr a s = Ok r t \<Longrightarrow> t = s"
  unfolding fetchstr_def Let_def by (simp split: if_splits option.split_asm)

lemma argstr_unchanged: "argstr n s = Ok r t \<Longrightarrow> t = s"
  by (auto simp: argstr_def ktry_def kbind_Ok_iff kret_apply dest!: argint_unchanged fetchstr_unchanged split: option.splits)

lemma opened_intro:
  fixes s :: "'a kcons_scheme"
  assumes a: "argstr 0 s = Ok (Some path) s1" "argint (Suc 0) s1 = Ok (Some om) s2" "begin_op s2 = Ok () s3"
    and o: "open_inode consoleinit path om s3 = Ok (Some ip) s4" "filealloc s4 = Ok (Some f) s5"
    and d: "fdalloc f s5 = Ok (Some fd) s6" "iunlock ip s6 = Ok () s7" "end_op s7 = Ok () s8"
  shows "opened s (int fd) (upd_file f (\<lambda>x. x\<lparr>f_type := FD_INODE, f_ip := Some ip, f_off := 0,
         f_readable := (om AND O_RDONLY \<noteq> 0), f_writable := (om AND O_WRONLY \<noteq> 0)\<rparr>) s8)"
proof -
  have s: "s1 = s" "s2 = s" using argstr_unchanged[OF a(1)] argint_unchanged[OF a(2)] by auto
  have h4: "holdings s4 = holdings s"
    using keptD[OF ho.kept_begin_op[OF refl] a(3)] keptD[OF ho.kept_open_inode[OF ho.kept_consoleinit refl] o(1)] s by simp
  have h5: "holdings s5 = holdings s" using keptD[OF ho.kept_filealloc[OF refl] o(2)] h4 by simp
  have h8: "holdings s8 = holdings s6"
    using keptD[OF ho.kept_iunlock[OF refl] d(2)] keptD[OF ho.kept_end_op[OF refl] d(3)] by simp
  from fdalloc_Some[OF d(1)] h5 have
    "findi (\<lambda>i. p_ofile (myproc s) i = None) NOFILE = Some fd" "cred (myproc s6) = cred (myproc s)"
    "p_ofile (myproc s6) = (p_ofile (myproc s))(fd := Some f)"
    using holdings_cur[OF h5] by (auto simp: findi_Some_iff)
  then show ?thesis unfolding opened_def
    using a o(1) s open_inode_ok[OF o(1)] holdings_cur[OF h4] holdings_cur[OF h8]
    by - (rule exI[of _ path], rule exI[of _ om], rule exI[of _ s3], rule exI[of _ ip], rule exI[of _ s4],
      rule exI[of _ f], rule exI[of _ fd], auto simp: upd_file_def)
qed

section \<open>Permission bits\<close>

text \<open>Right \<open>r\<close> (0 execute, 1 write, 2 read) of an inode: for others, for the owner, or for a group.\<close>

definition grants :: "proc \<Rightarrow> inode \<Rightarrow> nat \<Rightarrow> bool" where
  "grants p ip r \<longleftrightarrow> bit (i_mode ip) r \<or> p_euid p = i_uid ip \<and> bit (i_mode ip) (6 + r) \<or>
     (\<exists>i < nat (p_ngroups p). p_gids p i = i_gid ip \<and> bit (i_mode ip) (3 + r))"

lemma mode_bit: "n < 15 \<Longrightarrow> (scast (m :: u16) :: u32) AND push_bit n 1 = push_bit n 1 \<longleftrightarrow> bit m n"
proof -
  assume n: "n < 15"
  have "bit (scast m :: u32) n = bit m n" using n by (simp add: bit_simps)
  moreover have "w AND push_bit n 1 = push_bit n 1 \<longleftrightarrow> bit w n" if "n < 32" for w :: u32
    using that by (auto simp: bit_simps simp flip: bit_eq_iff intro!: bit_word_eqI dest: arg_cong[where f = "\<lambda>w. bit w n"])
  ultimately show ?thesis using n by simp
qed

lemma mode_bits:
  "(scast (m :: u16) :: u32) AND 4 = 4 \<longleftrightarrow> bit m 2" "(scast (m :: u16) :: u32) AND 2 = 2 \<longleftrightarrow> bit m 1"
  "(scast (m :: u16) :: u32) AND 32 = 32 \<longleftrightarrow> bit m 5" "(scast (m :: u16) :: u32) AND 16 = 16 \<longleftrightarrow> bit m 4"
  "(scast (m :: u16) :: u32) AND 256 = 256 \<longleftrightarrow> bit m 8" "(scast (m :: u16) :: u32) AND 128 = 128 \<longleftrightarrow> bit m 7"
  using mode_bit[of 2 m] mode_bit[of 1 m] mode_bit[of 5 m] mode_bit[of 4 m] mode_bit[of 8 m] mode_bit[of 7 m]
  by (simp_all add: push_bit_eq_mult)

section \<open>All system calls\<close>

abbreviation (input) SYS_fork :: int where "SYS_fork \<equiv> 1"
abbreviation (input) SYS_exec :: int where "SYS_exec \<equiv> 7"
abbreviation (input) SYS_setuid :: int where "SYS_setuid \<equiv> 24"
abbreviation (input) SYS_setgrps :: int where "SYS_setgrps \<equiv> 32"

text \<open>How system call \<open>num\<close> may change credentials.\<close>

definition lawful :: "int \<Rightarrow> 'a kbase_scheme \<Rightarrow> 'b kbase_scheme \<Rightarrow> bool" where
  "lawful num s t \<longleftrightarrow>
     (if num = SYS_fork then inherited s t
      else if num = SYS_exec then exec_creds s t
      else if num = SYS_setuid \<or> num = SYS_setgrps then own_creds s t
      else creds t = creds s)"

lemma lawful_set_eax [simp]: "lawful num s (set_eax p r t) = lawful num s t"
proof -
  have "creds (set_eax p r t) = creds t" by (simp add: set_eax_def creds_upd)
  then show ?thesis by (auto simp: lawful_def inherited_def exec_creds_def own_creds_def creds_def fun_eq_iff)
qed

lemma lawful_creds: "kept (\<lambda>t. creds t = creds s) r \<Longrightarrow> num \<notin> {1, 7, 24, 32} \<Longrightarrow> kept (lawful num s) r"
  by (rule kept_weaken[of "\<lambda>t. creds t = creds s"]) (auto simp: lawful_def)

lemma lawful_call:
  fixes s :: "'a kkbd_scheme"
  shows "list_all2 (\<lambda>num call. kept (lawful num s) (call s)) (map int [1..<33]) sys_table"
proof -
  have l: "kept (lawful 1 s) (sys_fork s)" "kept (lawful 7 s) (sys_exec consoleinit s)"
    "kept (lawful 24 s) (sys_setuid s)" "kept (lawful 32 s) (sys_setgrps s)"
    using inherited_sys_fork[of s] exec_creds_sys_exec[of s] own_creds_calls[of s]
    by (simp_all add: lawful_def[abs_def])
  show ?thesis unfolding sys_nums sys_table_def
    by (simp add: l lawful_creds cr.kept_file_calls creds_sys_exit creds_sys_wait creds_sys_kill creds_sys_sbrk)
qed

section \<open>Properties\<close>

text \<open>
  C2. System calls confine privileges. Whatever the arguments, and whether the call returns or the process
  goes to sleep in it: \<^verbatim>\<open>fork\<close> gives a free slot of the process table the credentials of the caller;
  \<^verbatim>\<open>exec\<close> changes only the effective user id of the caller, to its user id or 0; \<^verbatim>\<open>setuid\<close>
  and \<^verbatim>\<open>setgrps\<close> change only the credentials of the caller, and only if its effective user id is 0;
  every other call, including numbers that are no call, leaves all credentials as they are.
\<close>

theorem privileges_confined:
  "case syscall s of
     Ok r t \<Rightarrow> lawful (sint (tf_eax (p_tf (myproc s)))) s t
   | Sleep ch t \<Rightarrow> lawful (sint (tf_eax (p_tf (myproc s)))) s t
   | Panic m \<Rightarrow> True"
proof -
  let ?n = "sint (tf_eax (p_tf (myproc s)))"
  have "kept (lawful ?n s) (syscall s)"
  proof (cases "syscalls ?n :: ('a kkbd_scheme, int) km option")
    case (Some call)
    from sys_table_all[OF lawful_call Some] have "kept (lawful ?n s) (call s)" .
    then show ?thesis by (auto simp: syscall_def Let_def Some intro!: kept_intros)
  next
    case None
    then have "?n \<notin> {1, 7, 24, 32}" by (auto simp: syscalls_def sys_table_def split: if_splits)
    then show ?thesis by (intro lawful_creds) (auto simp: syscall_def Let_def None set_eax_def creds_upd intro!: kept_intros)
  qed
  then show ?thesis by (simp add: kept_def split: outcome.splits)
qed

text \<open>
  C4. \<^verbatim>\<open>exec\<close> checks permissions. It fails and changes no credentials, or the file the path leads to
  was executable for the caller's credentials when its inode was locked, it starts with the magic number of
  an executable, and the caller's effective user id becomes 0 exactly when the inode has the set-user-id
  bit, and its user id otherwise.
\<close>

theorem exec_permitted:
  "case exec consoleinit path argv s of
     Ok r t \<Rightarrow> r = -1 \<and> creds t = creds s \<or>
       r = 0 \<and> (\<exists>s0 ip u v b w d x n y. begin_op s = Ok () s0 \<and> namei consoleinit path s0 = Ok (Some ip) u \<and>
         ilock ip u = Ok () v \<and> cred (myproc v) = cred (myproc s) \<and> exec_ok (myproc v) (icache v ip) \<and>
         readi consoleinit ip (\<lambda>_. 0) 0 52 v = Ok (52, b) w \<and> e_magic (get_elfhdr b) = ELF_MAGIC \<and>
         setupkvm w = Ok d x \<and>
         exec_load consoleinit d ip (e_phoff (get_elfhdr b)) (unat (e_phnum (get_elfhdr b))) 0 x = Ok (Some n) y \<and>
         cred (myproc t) = cred ((myproc s)\<lparr>p_euid := if bit (i_mode (icache y ip)) 9 then 0 else p_uid (myproc s)\<rparr>))
   | Sleep ch t \<Rightarrow> creds t = creds s
   | Panic m \<Rightarrow> True"
  (is "case ?e of Ok r t \<Rightarrow> ?P r t | Sleep ch t \<Rightarrow> ?Q t | Panic m \<Rightarrow> True")
proof -
  note d = cr.kept_consoleinit
  have "ends (\<lambda>t. creds t = creds s) (\<lambda>r t. ?P r t) ?e"
    unfolding exec_def Let_def exec_bad_def
    by (auto intro!: ends_intros kept_intros d creds_cur exec_commit_ends[THEN ends_mono] simp: kget_apply split del: if_split)
  then show ?thesis unfolding ends_def .
qed


text \<open>
  The permission tests are the usual ones: executing a file and searching a directory need
  the execute bit of the mode for others, for the caller as owner, or for one of its groups; opening for
  reading or writing needs the read or write bit in the same way, or the superuser. The superuser gets no
  exception for executing and searching.
\<close>

theorem permission_tests:
  "(exec_ok p ip \<longleftrightarrow> grants p ip 0) \<and> (dir_search_ok p ip \<longleftrightarrow> grants p ip 0) \<and>
   (open_ok p ip O_RDONLY \<longleftrightarrow> p_euid p = 0 \<or> grants p ip 2) \<and>
   (open_ok p ip O_WRONLY \<longleftrightarrow> p_euid p = 0 \<or> grants p ip 1)"
  unfolding exec_ok_def dir_search_ok_def open_ok_def grants_def
  by (auto simp: push_bit_eq_mult mode_bits)

end
