(* ===== verification/Spinlock.thy ===== *)
theory Spinlock
  imports Proc_Table
begin

text \<open>
  Spin-locks on several CPUs (\<^verbatim>\<open>kernel/spinlock.c\<close>), with \<^verbatim>\<open>mycpu\<close> and the tests of \<^verbatim>\<open>sched\<close>
  (\<^verbatim>\<open>kernel/proc.c\<close>). A CPU is its index in \<^verbatim>\<open>cpus\<close>; the model keeps for each CPU the depth and the
  saved flag of \<^verbatim>\<open>pushcli\<close> and the interrupt flag of the processor. The call stack recorded for
  debugging is left out.

  The functions are sequential. How CPUs interleave is the step relation \<open>lock_step\<close>: one step is one atomic
  access to the lock word or to its owner field, so that between the steps of \<^verbatim>\<open>acquire\<close> and \<^verbatim>\<open>release\<close>
  on one CPU every other CPU may take any number of steps.
\<close>

record cpu =
  cpu_ncli :: int
  cpu_intena :: bool
  cpu_if :: bool

record spinlock =
  lk_locked :: bool
  lk_cpu :: "nat option"

record smp =
  cpus :: "nat \<Rightarrow> cpu"
  locks :: "nat \<Rightarrow> spinlock"

definition upd_cpu :: "nat \<Rightarrow> (cpu \<Rightarrow> cpu) \<Rightarrow> 'a smp_scheme \<Rightarrow> 'a smp_scheme" where
  "upd_cpu c f s = s\<lparr>cpus := (cpus s)(c := f (cpus s c))\<rparr>"

definition upd_lock :: "nat \<Rightarrow> (spinlock \<Rightarrow> spinlock) \<Rightarrow> 'a smp_scheme \<Rightarrow> 'a smp_scheme" where
  "upd_lock l f s = s\<lparr>locks := (locks s)(l := f (locks s l))\<rparr>"

section \<open>Operations\<close>

definition mycpu :: "(nat \<Rightarrow> u8) \<Rightarrow> nat \<Rightarrow> u8 \<Rightarrow> bool \<Rightarrow> ('s, nat) km" where
  "mycpu apicids ncpu apicid ifl =
     (if ifl then kpanic ''mycpu called with interrupts enabled''
      else case findi (\<lambda>i. apicids i = apicid) ncpu of
        Some i \<Rightarrow> kret i
      | None \<Rightarrow> kpanic ''unknown apicid'')"

definition initlock :: "nat \<Rightarrow> ('a smp_scheme, unit) km" where
  "initlock l = kmod (upd_lock l (\<lambda>k. k\<lparr>lk_locked := False, lk_cpu := None\<rparr>))"

definition pushcli :: "nat \<Rightarrow> ('a smp_scheme, unit) km" where
  "pushcli c = kmod (upd_cpu c (\<lambda>p. p\<lparr>cpu_if := False,
     cpu_intena := (if cpu_ncli p = 0 then cpu_if p else cpu_intena p), cpu_ncli := cpu_ncli p + 1\<rparr>))"

definition popcli :: "nat \<Rightarrow> ('a smp_scheme, unit) km" where
  "popcli c =
     kthen (kassert ''popcli - interruptible'' (\<lambda>s. \<not> cpu_if (cpus s c)))
    (kthen (kmod (upd_cpu c (\<lambda>p. p\<lparr>cpu_ncli := cpu_ncli p - 1\<rparr>)))
    (kthen (kassert ''popcli'' (\<lambda>s. \<not> cpu_ncli (cpus s c) < 0))
     (kif (\<lambda>s. cpu_ncli (cpus s c) = 0 \<and> cpu_intena (cpus s c))
       (kmod (upd_cpu c (\<lambda>p. p\<lparr>cpu_if := True\<rparr>)))
       (kret ()))))"

definition held_by :: "nat \<Rightarrow> spinlock \<Rightarrow> bool" where
  "held_by c k \<longleftrightarrow> lk_locked k \<and> lk_cpu k = Some c"

definition holding :: "nat \<Rightarrow> nat \<Rightarrow> ('a smp_scheme, bool) km" where
  "holding c l =
     kthen (pushcli c)
    (kbind (kget (\<lambda>s. held_by c (locks s l))) (\<lambda>r.
     kthen (popcli c) (kret r)))"

text \<open>\<^verbatim>\<open>acquire\<close> up to its loop, one \<^verbatim>\<open>xchg\<close>, and what follows the loop.\<close>

definition acquire_start :: "nat \<Rightarrow> nat \<Rightarrow> ('a smp_scheme, unit) km" where
  "acquire_start c l =
     kthen (pushcli c)
    (kbind (holding c l) (\<lambda>h. if h then kpanic ''acquire'' else kret ()))"

definition xchg_lock :: "nat \<Rightarrow> ('a smp_scheme, bool) km" where
  "xchg_lock l = (\<lambda>s. Ok (lk_locked (locks s l)) (upd_lock l (\<lambda>k. k\<lparr>lk_locked := True\<rparr>) s))"

definition acquire_claim :: "nat \<Rightarrow> nat \<Rightarrow> ('a smp_scheme, unit) km" where
  "acquire_claim c l = kmod (upd_lock l (\<lambda>k. k\<lparr>lk_cpu := Some c\<rparr>))"

text \<open>\<^verbatim>\<open>release\<close> up to the store that clears the owner, and from the store to the lock word on.\<close>

definition release_start :: "nat \<Rightarrow> nat \<Rightarrow> ('a smp_scheme, unit) km" where
  "release_start c l =
     kbind (holding c l) (\<lambda>h. if \<not> h then kpanic ''release''
       else kmod (upd_lock l (\<lambda>k. k\<lparr>lk_cpu := None\<rparr>)))"

definition release_drop :: "nat \<Rightarrow> nat \<Rightarrow> ('a smp_scheme, unit) km" where
  "release_drop c l =
     kthen (kmod (upd_lock l (\<lambda>k. k\<lparr>lk_locked := False\<rparr>))) (popcli c)"

definition release :: "nat \<Rightarrow> nat \<Rightarrow> ('a smp_scheme, unit) km" where
  "release c l = kthen (release_start c l) (release_drop c l)"

text \<open>\<^verbatim>\<open>acquire\<close> on a lock nobody else touches: the loop runs once or for ever (\<open>None\<close>).\<close>

definition acquire :: "nat \<Rightarrow> nat \<Rightarrow> ('a smp_scheme, unit option) km" where
  "acquire c l =
     kthen (acquire_start c l)
    (kbind (xchg_lock l) (\<lambda>old. if old then kret None
       else kthen (acquire_claim c l) (kret (Some ()))))"

text \<open>The tests of \<^verbatim>\<open>sched\<close>; \<open>l\<close> is the lock of the process table.\<close>

definition sched :: "nat \<Rightarrow> nat \<Rightarrow> procstate \<Rightarrow> ('a smp_scheme, unit) km" where
  "sched c l st =
     kbind (holding c l) (\<lambda>h.
     kthen (kassert ''sched ptable.lock'' (\<lambda>_. h))
    (kthen (kassert ''sched locks'' (\<lambda>s. cpu_ncli (cpus s c) = 1))
    (kthen (kassert ''sched running'' (\<lambda>_. st \<noteq> RUNNING))
     (kassert ''sched interruptible'' (\<lambda>s. \<not> cpu_if (cpus s c))))))"

section \<open>Interleaving\<close>

text \<open>Where a CPU is in \<^verbatim>\<open>acquire\<close> or \<^verbatim>\<open>release\<close>.\<close>

datatype lock_pc = Run | Spin nat | Claim nat | Drop nat

record smp_run = smp +
  pcs :: "nat \<Rightarrow> lock_pc"

definition goto :: "nat \<Rightarrow> lock_pc \<Rightarrow> smp_run \<Rightarrow> smp_run" where
  "goto c p s = s\<lparr>pcs := (pcs s)(c := p)\<rparr>"

inductive lock_step :: "smp_run \<Rightarrow> smp_run \<Rightarrow> bool" where
  start: "pcs s c = Run \<Longrightarrow> acquire_start c l s = Ok () t \<Longrightarrow> lock_step s (goto c (Spin l) t)"
| spin: "pcs s c = Spin l \<Longrightarrow> xchg_lock l s = Ok True t \<Longrightarrow> lock_step s t"
| take: "pcs s c = Spin l \<Longrightarrow> xchg_lock l s = Ok False t \<Longrightarrow> lock_step s (goto c (Claim l) t)"
| claim: "pcs s c = Claim l \<Longrightarrow> acquire_claim c l s = Ok () t \<Longrightarrow> lock_step s (goto c Run t)"
| clear: "pcs s c = Run \<Longrightarrow> release_start c l s = Ok () t \<Longrightarrow> lock_step s (goto c (Drop l) t)"
| drop: "pcs s c = Drop l \<Longrightarrow> release_drop c l s = Ok () t \<Longrightarrow> lock_step s (goto c Run t)"
| flag: "pcs s c = Run \<Longrightarrow> cpu_ncli (cpus s c) = 0 \<Longrightarrow> lock_step s (upd_cpu c (\<lambda>p. p\<lparr>cpu_if := b\<rparr>) s)"

inductive reachable :: "smp_run \<Rightarrow> bool" where
  init: "(\<And>c. pcs s c = Run \<and> cpu_ncli (cpus s c) = 0) \<Longrightarrow> (\<And>l. locks s l = \<lparr>lk_locked = False, lk_cpu = None\<rparr>) \<Longrightarrow>
     reachable s"
| step: "reachable s \<Longrightarrow> lock_step s t \<Longrightarrow> reachable t"

text \<open>The locks a CPU has: those it holds, and the one it is about to claim or to drop.\<close>

definition owns :: "smp_run \<Rightarrow> nat \<Rightarrow> nat set" where
  "owns s c = {l. held_by c (locks s l) \<or> pcs s c = Claim l \<or> pcs s c = Drop l}"

definition spinning :: "lock_pc \<Rightarrow> int" where
  "spinning p = (case p of Spin l \<Rightarrow> 1 | _ \<Rightarrow> 0)"

definition lock_inv :: "smp_run \<Rightarrow> bool" where
  "lock_inv s \<longleftrightarrow>
     (\<forall>c d l. l \<in> owns s c \<and> l \<in> owns s d \<longrightarrow> c = d) \<and>
     (\<forall>l. lk_locked (locks s l) \<longleftrightarrow> (\<exists>c. l \<in> owns s c)) \<and>
     (\<forall>c l. pcs s c = Claim l \<or> pcs s c = Drop l \<longrightarrow> lk_cpu (locks s l) = None) \<and>
     (\<forall>l. lk_cpu (locks s l) \<noteq> None \<longrightarrow> lk_locked (locks s l)) \<and>
     (\<forall>c. finite (owns s c) \<and> cpu_ncli (cpus s c) = int (card (owns s c)) + spinning (pcs s c)) \<and>
     (\<forall>c. 0 < cpu_ncli (cpus s c) \<longrightarrow> \<not> cpu_if (cpus s c))"

section \<open>Effects\<close>

lemma upd_cpu_sel [simp]:
  "cpus (upd_cpu c f s) = (cpus s)(c := f (cpus s c))" "locks (upd_cpu c f s) = locks s"
  by (simp_all add: upd_cpu_def)

lemma upd_lock_sel [simp]:
  "locks (upd_lock l f s) = (locks s)(l := f (locks s l))" "cpus (upd_lock l f s) = cpus s"
  by (simp_all add: upd_lock_def)

lemma upd_pcs [simp]: "pcs (upd_cpu c f s) = pcs s" "pcs (upd_lock l g s) = pcs s"
  by (simp_all add: upd_cpu_def upd_lock_def)

lemma goto_sel [simp]:
  "pcs (goto c p s) = (pcs s)(c := p)" "cpus (goto c p s) = cpus s" "locks (goto c p s) = locks s"
  by (simp_all add: goto_def)

lemma upd_cpu_same: "f (cpus s c) = cpus s c \<Longrightarrow> upd_cpu c f s = s"
  by (simp add: upd_cpu_def)

lemma upd_cpu_twice: "upd_cpu c g (upd_cpu c f s) = upd_cpu c (\<lambda>p. g (f p)) s"
  by (simp add: upd_cpu_def)

definition pushed :: "nat \<Rightarrow> 'a smp_scheme \<Rightarrow> 'a smp_scheme" where
  "pushed c s = upd_cpu c (\<lambda>p. p\<lparr>cpu_if := False,
     cpu_intena := (if cpu_ncli p = 0 then cpu_if p else cpu_intena p), cpu_ncli := cpu_ncli p + 1\<rparr>) s"

lemma pushcli_run: "pushcli c s = Ok () (pushed c s)"
  by (simp add: pushcli_def kmod_apply pushed_def)

lemma popcli_run:
  assumes "\<not> cpu_if (cpus s c)" "1 \<le> cpu_ncli (cpus s c)"
  shows "popcli c s = Ok () (upd_cpu c (\<lambda>p. p\<lparr>cpu_ncli := cpu_ncli p - 1,
    cpu_if := (cpu_ncli p = 1 \<and> cpu_intena p)\<rparr>) s)"
  using assms
  by (auto simp: popcli_def kthen_apply kassert_apply kmod_apply kif_apply kret_apply upd_cpu_def intro!: arg_cong[where f = "\<lambda>x. s\<lparr>cpus := x\<rparr>"])

lemma holding_nested:
  assumes "\<not> cpu_if (cpus s c)" "1 \<le> cpu_ncli (cpus s c)"
  shows "holding c l s = Ok (held_by c (locks s l)) s"
proof -
  let ?t = "pushed c s"
  have "\<not> cpu_if (cpus ?t c)" "1 \<le> cpu_ncli (cpus ?t c)" using assms by (simp_all add: pushed_def)
  note p = popcli_run[OF this]
  have "upd_cpu c (\<lambda>p. p\<lparr>cpu_ncli := cpu_ncli p - 1, cpu_if := (cpu_ncli p = 1 \<and> cpu_intena p)\<rparr>) ?t = s"
    unfolding pushed_def upd_cpu_twice using assms by (intro upd_cpu_same) simp
  then show ?thesis
    by (simp add: holding_def kthen_apply kbind_apply kget_apply kret_apply pushcli_run p) (simp add: pushed_def)
qed

lemma acquire_start_run:
  assumes "0 \<le> cpu_ncli (cpus s c)"
  shows "acquire_start c l s = (if held_by c (locks s l) then Panic ''acquire'' else Ok () (pushed c s))"
proof -
  have "\<not> cpu_if (cpus (pushed c s) c)" "1 \<le> cpu_ncli (cpus (pushed c s) c)" using assms by (simp_all add: pushed_def)
  note h = holding_nested[OF this]
  show ?thesis
    by (simp add: acquire_start_def kthen_apply kbind_apply pushcli_run h kpanic_apply kret_apply) (simp add: pushed_def)
qed

lemma release_start_run:
  assumes "\<not> cpu_if (cpus s c)" "1 \<le> cpu_ncli (cpus s c)"
  shows "release_start c l s = (if held_by c (locks s l) then Ok () (upd_lock l (\<lambda>k. k\<lparr>lk_cpu := None\<rparr>) s)
    else Panic ''release'')"
  by (simp add: release_start_def kbind_apply holding_nested[OF assms] kpanic_apply kmod_apply)

text \<open>Without a lock on this CPU, \<^verbatim>\<open>holding\<close> may change only the saved flag.\<close>

lemma holding_result: "holding c l s = Ok r t \<Longrightarrow> r = held_by c (locks s l)"
  by (auto simp: holding_def pushcli_run kthen_apply kbind_apply kget_apply kret_apply pushed_def split: outcome.splits)

section \<open>Invariant\<close>

lemma pushed_sel [simp]:
  "locks (pushed c s) = locks s" "cpu_ncli (cpus (pushed c s) d) = cpu_ncli (cpus s d) + (if d = c then 1 else 0)"
  "cpu_if (cpus (pushed c s) d) = (d \<noteq> c \<and> cpu_if (cpus s d))"
  by (simp_all add: pushed_def)

lemma pushed_pcs [simp]: "pcs (pushed c s) = pcs s"
  by (simp add: pushed_def)

lemma lock_invD:
  assumes "lock_inv s"
  shows "l \<in> owns s c \<Longrightarrow> l \<in> owns s d \<Longrightarrow> c = d" "lk_locked (locks s l) \<longleftrightarrow> (\<exists>c. l \<in> owns s c)"
    "pcs s c = Claim l \<or> pcs s c = Drop l \<Longrightarrow> lk_cpu (locks s l) = None"
    "lk_cpu (locks s l) \<noteq> None \<Longrightarrow> lk_locked (locks s l)"
    "finite (owns s c)" "cpu_ncli (cpus s c) = int (card (owns s c)) + spinning (pcs s c)"
    "0 < cpu_ncli (cpus s c) \<Longrightarrow> \<not> cpu_if (cpus s c)"
  using assms unfolding lock_inv_def by blast+

lemma lock_inv_nested:
  assumes "lock_inv s" "l \<in> owns s c"
  shows "\<not> cpu_if (cpus s c)" "1 \<le> cpu_ncli (cpus s c)"
proof -
  have "0 < card (owns s c)" using assms(2) lock_invD(5)[OF assms(1)] card_gt_0_iff by blast
  then show "1 \<le> cpu_ncli (cpus s c)" using lock_invD(6)[OF assms(1), of c] by (simp add: spinning_def split: lock_pc.split)
  then show "\<not> cpu_if (cpus s c)" using lock_invD(7)[OF assms(1), of c] by linarith
qed

lemma lock_invI:
  assumes "\<And>d e m. m \<in> owns u d \<Longrightarrow> m \<in> owns u e \<Longrightarrow> d = e"
    "\<And>m. lk_locked (locks u m) \<longleftrightarrow> (\<exists>d. m \<in> owns u d)"
    "\<And>d m. pcs u d = Claim m \<or> pcs u d = Drop m \<Longrightarrow> lk_cpu (locks u m) = None"
    "\<And>m. lk_cpu (locks u m) \<noteq> None \<Longrightarrow> lk_locked (locks u m)"
    "\<And>d. finite (owns u d) \<and> cpu_ncli (cpus u d) = int (card (owns u d)) + spinning (pcs u d)"
    "\<And>d. 0 < cpu_ncli (cpus u d) \<Longrightarrow> \<not> cpu_if (cpus u d)"
  shows "lock_inv u"
  unfolding lock_inv_def using assms by blast

lemma lock_inv_start:
  assumes "lock_inv s" "pcs s c = Run" "acquire_start c l s = Ok () t"
  shows "lock_inv (goto c (Spin l) t)"
proof -
  have "0 \<le> cpu_ncli (cpus s c)" using lock_invD(6)[OF assms(1), of c] by (simp add: spinning_def split: lock_pc.split)
  then have t: "t = pushed c s" using assms(3) by (simp add: acquire_start_run split: if_splits)
  define u where "u = goto c (Spin l) t"
  have u: "locks u = locks s" "pcs u = (pcs s)(c := Spin l)" "cpus u = cpus (pushed c s)" by (simp_all add: u_def t)
  have o: "owns u d = owns s d" for d using assms(2) by (auto simp: owns_def u)
  have "lock_inv u"
  proof (rule lock_invI, unfold o)
    fix d m
    show "pcs u d = Claim m \<or> pcs u d = Drop m \<Longrightarrow> lk_cpu (locks u m) = None"
      using lock_invD(3)[OF assms(1), of d m] by (auto simp: u split: if_splits)
    show "finite (owns s d) \<and> cpu_ncli (cpus u d) = int (card (owns s d)) + spinning (pcs u d)"
      using lock_invD(5,6)[OF assms(1), of d] assms(2) by (auto simp: u spinning_def)
    show "0 < cpu_ncli (cpus u d) \<Longrightarrow> \<not> cpu_if (cpus u d)"
      using lock_invD(7)[OF assms(1), of d] by (auto simp: u split: if_splits)
  qed (use lock_invD(1,2,4)[OF assms(1)] in \<open>simp_all only: u, blast+\<close>)
  then show ?thesis by (simp only: u_def)
qed

lemma lock_inv_take:
  assumes "lock_inv s" "pcs s c = Spin l" "xchg_lock l s = Ok False t"
  shows "lock_inv (goto c (Claim l) t)"
proof -
  have t: "t = upd_lock l (\<lambda>k. k\<lparr>lk_locked := True\<rparr>) s" and free: "\<not> lk_locked (locks s l)"
    using assms(3) by (auto simp: xchg_lock_def)
  have none: "lk_cpu (locks s l) = None" "\<And>d. l \<notin> owns s d" using lock_invD(2,4)[OF assms(1)] free by blast+
  define u where "u = goto c (Claim l) t"
  have u: "locks u = (locks s)(l := (locks s l)\<lparr>lk_locked := True\<rparr>)" "pcs u = (pcs s)(c := Claim l)" "cpus u = cpus s"
    by (simp_all add: u_def t)
  have o: "owns u d = (if d = c then insert l (owns s c) else owns s d)" for d
    using assms(2) none(1) by (auto simp: owns_def u held_by_def split: if_splits)
  have "lock_inv u"
  proof (rule lock_invI)
    fix d e m
    show "m \<in> owns u d \<Longrightarrow> m \<in> owns u e \<Longrightarrow> d = e"
      using none(2) lock_invD(1)[OF assms(1)] by (auto simp: o split: if_splits)
    show "lk_locked (locks u m) \<longleftrightarrow> (\<exists>d. m \<in> owns u d)"
      using lock_invD(2)[OF assms(1), of m] unfolding o u(1) by (auto split: if_splits)
    show "pcs u d = Claim m \<or> pcs u d = Drop m \<Longrightarrow> lk_cpu (locks u m) = None"
      using lock_invD(3)[OF assms(1), of d m] none(1) by (auto simp: u split: if_splits)
    show "lk_cpu (locks u m) \<noteq> None \<Longrightarrow> lk_locked (locks u m)"
      using lock_invD(4)[OF assms(1), of m] by (auto simp: u)
    show "finite (owns u d) \<and> cpu_ncli (cpus u d) = int (card (owns u d)) + spinning (pcs u d)"
      using lock_invD(5,6)[OF assms(1), of d] none(2) assms(2) by (auto simp: o u(2,3) spinning_def)
    show "0 < cpu_ncli (cpus u d) \<Longrightarrow> \<not> cpu_if (cpus u d)"
      using lock_invD(7)[OF assms(1), of d] by (simp add: u)
  qed
  then show ?thesis by (simp only: u_def)
qed

lemma lock_inv_claim:
  assumes "lock_inv s" "pcs s c = Claim l" "acquire_claim c l s = Ok () t"
  shows "lock_inv (goto c Run t)"
proof -
  have t: "t = upd_lock l (\<lambda>k. k\<lparr>lk_cpu := Some c\<rparr>) s" using assms(3) by (simp add: acquire_claim_def kmod_apply)
  have lc: "l \<in> owns s c" using assms(2) by (simp add: owns_def)
  then have locked: "lk_locked (locks s l)" using lock_invD(2)[OF assms(1)] by blast
  have none: "lk_cpu (locks s l) = None" using lock_invD(3)[OF assms(1)] assms(2) by blast
  define u where "u = goto c Run t"
  have u: "locks u = (locks s)(l := (locks s l)\<lparr>lk_cpu := Some c\<rparr>)" "pcs u = (pcs s)(c := Run)" "cpus u = cpus s"
    by (simp_all add: u_def t)
  have o: "owns u d = owns s d" for d
    using assms(2) none locked by (auto simp: owns_def u held_by_def split: if_splits)
  have "lock_inv u"
  proof (rule lock_invI, unfold o)
    fix d e m
    show "m \<in> owns s d \<Longrightarrow> m \<in> owns s e \<Longrightarrow> d = e" using lock_invD(1)[OF assms(1)] .
    show "lk_locked (locks u m) \<longleftrightarrow> (\<exists>d. m \<in> owns s d)"
      using lock_invD(2)[OF assms(1), of m] unfolding u(1) by (auto split: if_splits)
    show "pcs u d = Claim m \<or> pcs u d = Drop m \<Longrightarrow> lk_cpu (locks u m) = None"
    proof -
      assume p: "pcs u d = Claim m \<or> pcs u d = Drop m"
      then have d: "d \<noteq> c" "pcs s d = Claim m \<or> pcs s d = Drop m" by (auto simp: u split: if_splits)
      then have "m \<in> owns s d" by (auto simp: owns_def)
      then have "m \<noteq> l" using lock_invD(1)[OF assms(1) _ lc] d(1) by blast
      then show ?thesis using lock_invD(3)[OF assms(1) d(2)] by (simp add: u)
    qed
    show "lk_cpu (locks u m) \<noteq> None \<Longrightarrow> lk_locked (locks u m)"
      using lock_invD(4)[OF assms(1), of m] locked by (auto simp: u split: if_splits)
    show "finite (owns s d) \<and> cpu_ncli (cpus u d) = int (card (owns s d)) + spinning (pcs u d)"
      using lock_invD(5,6)[OF assms(1), of d] assms(2) by (auto simp: u(2,3) spinning_def)
    show "0 < cpu_ncli (cpus u d) \<Longrightarrow> \<not> cpu_if (cpus u d)"
      using lock_invD(7)[OF assms(1), of d] by (simp add: u)
  qed
  then show ?thesis by (simp only: u_def)
qed

lemma lock_inv_clear:
  assumes "lock_inv s" "pcs s c = Run" "release_start c l s = Ok () t"
  shows "lock_inv (goto c (Drop l) t)" "held_by c (locks s l)" "t = upd_lock l (\<lambda>k. k\<lparr>lk_cpu := None\<rparr>) s"
proof -
  show h: "held_by c (locks s l)"
    using assms(3) by (auto simp: release_start_def kbind_Ok_iff kpanic_apply dest: holding_result split: if_splits)
  then have lc: "l \<in> owns s c" by (simp add: owns_def)
  show t: "t = upd_lock l (\<lambda>k. k\<lparr>lk_cpu := None\<rparr>) s"
    using assms(3) release_start_run[OF lock_inv_nested[OF assms(1) lc]] h by simp
  have locked: "lk_locked (locks s l)" "lk_cpu (locks s l) = Some c" using h by (simp_all add: held_by_def)
  define u where "u = goto c (Drop l) t"
  have u: "locks u = (locks s)(l := (locks s l)\<lparr>lk_cpu := None\<rparr>)" "pcs u = (pcs s)(c := Drop l)" "cpus u = cpus s"
    by (simp_all add: u_def t)
  have o: "owns u d = owns s d" for d
    using assms(2) locked by (auto simp: owns_def u held_by_def split: if_splits)
  have "lock_inv u"
  proof (rule lock_invI, unfold o)
    fix d e m
    show "m \<in> owns s d \<Longrightarrow> m \<in> owns s e \<Longrightarrow> d = e" using lock_invD(1)[OF assms(1)] .
    show "lk_locked (locks u m) \<longleftrightarrow> (\<exists>d. m \<in> owns s d)"
      using lock_invD(2)[OF assms(1), of m] unfolding u(1) by (auto split: if_splits)
    show "pcs u d = Claim m \<or> pcs u d = Drop m \<Longrightarrow> lk_cpu (locks u m) = None"
      using lock_invD(3)[OF assms(1), of d m] by (auto simp: u split: if_splits)
    show "lk_cpu (locks u m) \<noteq> None \<Longrightarrow> lk_locked (locks u m)"
      using lock_invD(4)[OF assms(1), of m] by (auto simp: u split: if_splits)
    show "finite (owns s d) \<and> cpu_ncli (cpus u d) = int (card (owns s d)) + spinning (pcs u d)"
      using lock_invD(5,6)[OF assms(1), of d] assms(2) by (auto simp: u(2,3) spinning_def)
    show "0 < cpu_ncli (cpus u d) \<Longrightarrow> \<not> cpu_if (cpus u d)"
      using lock_invD(7)[OF assms(1), of d] by (simp add: u)
  qed
  then show "lock_inv (goto c (Drop l) t)" by (simp only: u_def)
qed

lemma release_drop_run:
  assumes "\<not> cpu_if (cpus s c)" "1 \<le> cpu_ncli (cpus s c)"
  shows "release_drop c l s = Ok () (upd_cpu c (\<lambda>p. p\<lparr>cpu_ncli := cpu_ncli p - 1,
    cpu_if := (cpu_ncli p = 1 \<and> cpu_intena p)\<rparr>) (upd_lock l (\<lambda>k. k\<lparr>lk_locked := False\<rparr>) s))"
  using assms by (simp add: release_drop_def kthen_apply kmod_apply popcli_run)

lemma lock_inv_drop:
  assumes "lock_inv s" "pcs s c = Drop l" "release_drop c l s = Ok () t"
  shows "lock_inv (goto c Run t)" "locks t = (locks s)(l := (locks s l)\<lparr>lk_locked := False\<rparr>)"
proof -
  have lc: "l \<in> owns s c" using assms(2) by (simp add: owns_def)
  note t = assms(3)[unfolded release_drop_run[OF lock_inv_nested[OF assms(1) lc]], simplified, symmetric]
  show lt: "locks t = (locks s)(l := (locks s l)\<lparr>lk_locked := False\<rparr>)" by (simp add: t)
  have none: "lk_cpu (locks s l) = None" using lock_invD(3)[OF assms(1)] assms(2) by blast
  define u where "u = goto c Run t"
  have u: "locks u = (locks s)(l := (locks s l)\<lparr>lk_locked := False\<rparr>)" "pcs u = (pcs s)(c := Run)"
    "cpu_ncli (cpus u d) = cpu_ncli (cpus s d) - (if d = c then 1 else 0)"
    "d \<noteq> c \<Longrightarrow> cpu_if (cpus u d) = cpu_if (cpus s d)"
    "cpu_ncli (cpus s c) \<noteq> 1 \<Longrightarrow> \<not> cpu_if (cpus u c)" for d
    by (simp_all add: u_def t)
  have o: "owns u d = (if d = c then owns s c - {l} else owns s d)" for d
    using assms(2) none by (auto simp: owns_def u(1,2) held_by_def split: if_splits)
  have "lock_inv u"
  proof (rule lock_invI)
    fix d e m
    show "m \<in> owns u d \<Longrightarrow> m \<in> owns u e \<Longrightarrow> d = e"
      using lock_invD(1)[OF assms(1)] by (auto simp: o split: if_splits)
    show "lk_locked (locks u m) \<longleftrightarrow> (\<exists>d. m \<in> owns u d)"
    proof (cases "m = l")
      case True
      have "l \<notin> owns u d" for d using lock_invD(1)[OF assms(1) lc, of d] by (auto simp: o)
      then show ?thesis using True by (simp add: u(1))
    next
      case False
      then have "m \<in> owns u d \<longleftrightarrow> m \<in> owns s d" for d by (simp add: o)
      then show ?thesis using lock_invD(2)[OF assms(1), of m] False by (simp add: u(1))
    qed
    show "pcs u d = Claim m \<or> pcs u d = Drop m \<Longrightarrow> lk_cpu (locks u m) = None"
      using lock_invD(3)[OF assms(1), of d m] by (auto simp: u(1,2) split: if_splits)
    show "lk_cpu (locks u m) \<noteq> None \<Longrightarrow> lk_locked (locks u m)"
      using lock_invD(4)[OF assms(1), of m] none by (auto simp: u(1) split: if_splits)
    have "0 < card (owns s c)" using lc lock_invD(5)[OF assms(1)] card_gt_0_iff by blast
    then show "finite (owns u d) \<and> cpu_ncli (cpus u d) = int (card (owns u d)) + spinning (pcs u d)"
      using lock_invD(5,6)[OF assms(1), of d] assms(2) lc by (auto simp: o u(2,3) spinning_def card_Diff_singleton)
    show "0 < cpu_ncli (cpus u d) \<Longrightarrow> \<not> cpu_if (cpus u d)"
      using lock_invD(7)[OF assms(1), of d] u(3)[of d] u(4)[of d] u(5) by (cases "d = c") auto
  qed
  then show "lock_inv (goto c Run t)" by (simp only: u_def)
qed

lemma lock_inv_flag:
  assumes "lock_inv s" "cpu_ncli (cpus s c) = 0"
  shows "lock_inv (upd_cpu c (\<lambda>p. p\<lparr>cpu_if := b\<rparr>) s)"
proof -
  have o: "owns (upd_cpu c (\<lambda>p. p\<lparr>cpu_if := b\<rparr>) s) d = owns s d" for d by (simp add: owns_def)
  show ?thesis
    by (rule lock_invI, unfold o) (use lock_invD[OF assms(1)] assms(2) in \<open>auto split: if_splits\<close>)
qed

lemma xchg_taken:
  assumes "xchg_lock l s = Ok True t"
  shows "t = s"
proof -
  have "lk_locked (locks s l)" "t = upd_lock l (\<lambda>k. k\<lparr>lk_locked := True\<rparr>) s" using assms by (auto simp: xchg_lock_def)
  moreover from this(1) have "(locks s l)\<lparr>lk_locked := True\<rparr> = locks s l" by (cases "locks s l") simp
  ultimately show ?thesis by (simp add: upd_lock_def)
qed

lemma lock_step_inv: "lock_step s t \<Longrightarrow> lock_inv s \<Longrightarrow> lock_inv t"
proof (induction rule: lock_step.induct)
  case (spin s c l t)
  then show ?case using xchg_taken by blast
qed (blast intro: lock_inv_start lock_inv_take lock_inv_claim lock_inv_clear lock_inv_drop lock_inv_flag)+

lemma reachable_inv: "reachable s \<Longrightarrow> lock_inv s"
proof (induction rule: reachable.induct)
  case (init s)
  have o: "owns s c = {}" for c using init by (auto simp: owns_def held_by_def)
  show ?case by (rule lock_invI, unfold o) (use init in \<open>auto simp: spinning_def\<close>)
qed (blast intro: lock_step_inv)

section \<open>Properties\<close>

text \<open>
  C3. Mutual exclusion: however the CPUs interleave, no lock is had by two of them at a time, where a CPU
  has a lock from the moment its \<^verbatim>\<open>xchg\<close> returned 0 until it has stored 0 in the lock word. A lock
  word is set exactly while some CPU has the lock. On a CPU that has a lock interrupts are off,
  and the depth of \<^verbatim>\<open>pushcli\<close> counts the locks it has and the one it waits for.
\<close>

theorem mutual_exclusion:
  assumes "reachable s"
  shows "(l \<in> owns s c \<and> l \<in> owns s d \<longrightarrow> c = d) \<and> (lk_locked (locks s l) \<longleftrightarrow> (\<exists>c. l \<in> owns s c)) \<and>
    (owns s c \<noteq> {} \<longrightarrow> \<not> cpu_if (cpus s c)) \<and>
    cpu_ncli (cpus s c) = int (card (owns s c)) + spinning (pcs s c)"
proof -
  note inv = reachable_inv[OF assms]
  show ?thesis using lock_invD(1,2,6)[OF inv] lock_inv_nested(1)[OF inv] by blast
qed

definition idle_cpu :: cpu where
  "idle_cpu = \<lparr>cpu_ncli = 0, cpu_intena = False, cpu_if = True\<rparr>"

definition ex_smp :: smp_run where
  "ex_smp = \<lparr>cpus = (\<lambda>_. idle_cpu), locks = (\<lambda>_. \<lparr>lk_locked = False, lk_cpu = None\<rparr>), pcs = (\<lambda>_. Run)\<rparr>"

text \<open>CPU 0 has taken lock 7, CPU 1 waits for it.\<close>

definition ex_smp2 :: smp_run where
  "ex_smp2 = goto 0 (Claim 7) (upd_lock 7 (\<lambda>k. k\<lparr>lk_locked := True\<rparr>)
     (goto 0 (Spin 7) (pushed 0 (goto 1 (Spin 7) (pushed 1 ex_smp)))))"

lemma ex_smp2_reachable: "reachable ex_smp2"
proof -
  have 0: "reachable ex_smp" by (rule reachable.init) (simp_all add: ex_smp_def idle_cpu_def)
  have 1: "lock_step ex_smp (goto 1 (Spin 7) (pushed 1 ex_smp))"
    by (rule lock_step.start) (simp_all add: acquire_start_run ex_smp_def idle_cpu_def held_by_def)
  let ?s = "goto 1 (Spin 7) (pushed 1 ex_smp)"
  have "cpu_ncli (cpus ?s 0) = 0" "\<not> held_by 0 (locks ?s 7)" "pcs ?s 0 = Run"
    by (simp_all add: ex_smp_def idle_cpu_def held_by_def)
  then have 2: "lock_step ?s (goto 0 (Spin 7) (pushed 0 ?s))"
    by (intro lock_step.start) (simp_all only: acquire_start_run order_refl if_False)
  let ?t = "goto 0 (Spin 7) (pushed 0 ?s)"
  have 3: "lock_step ?t ex_smp2" unfolding ex_smp2_def
    by (rule lock_step.take[where c = 0]) (simp_all add: xchg_lock_def, simp add: ex_smp_def)
  show ?thesis using 0 1 2 3 reachable.step by blast
qed

theorem mutual_exclusion_witness:
  "reachable ex_smp2 \<and> 7 \<in> owns ex_smp2 0 \<and> 7 \<notin> owns ex_smp2 1 \<and> \<not> cpu_if (cpus ex_smp2 0)"
proof -
  have "7 \<in> owns ex_smp2 0" by (simp add: owns_def ex_smp2_def)
  then show ?thesis
    using ex_smp2_reachable mutual_exclusion[OF ex_smp2_reachable, of 7 0 1] by auto
qed

text \<open>
  The tests of \<^verbatim>\<open>sched\<close>: a process may leave the CPU exactly when the process table's lock is the
  only lock the CPU has and the process is no longer marked as running; otherwise the kernel panics.
\<close>

theorem sched_only_ptable_lock:
  assumes "reachable s" "pcs s c = Run"
  shows "(\<exists>t. sched c l st s = Ok () t) \<longleftrightarrow> owns s c = {l} \<and> st \<noteq> RUNNING"
proof (cases "held_by c (locks s l)")
  case True
  note inv = reachable_inv[OF assms(1)]
  have lc: "l \<in> owns s c" using True by (simp add: owns_def)
  note n = lock_inv_nested[OF inv lc]
  have "cpu_ncli (cpus s c) = 1 \<longleftrightarrow> card (owns s c) = 1" using lock_invD(6)[OF inv, of c] assms(2) by (simp add: spinning_def)
  also have "\<dots> \<longleftrightarrow> owns s c = {l}" using lc by (auto simp: card_1_singleton_iff)
  finally show ?thesis using True n
    by (simp add: sched_def kbind_apply holding_nested kthen_apply kassert_apply)
next
  case False
  then have "l \<notin> owns s c" using assms(2) by (simp add: owns_def)
  moreover have "\<nexists>t. sched c l st s = Ok () t"
    using False by (auto simp: sched_def kbind_Ok_iff kthen_Ok_iff kassert_apply dest: holding_result split: if_splits)
  ultimately show ?thesis by auto
qed

text \<open>CPU 0 with lock 7 claimed.\<close>

definition ex_smp3 :: smp_run where
  "ex_smp3 = goto 0 Run (upd_lock 7 (\<lambda>k. k\<lparr>lk_cpu := Some 0\<rparr>) ex_smp2)"

theorem sched_only_ptable_lock_witness:
  "(\<exists>t. sched 0 7 SLEEPING ex_smp3 = Ok () t) \<and> (\<nexists>t. sched 0 7 RUNNING ex_smp3 = Ok () t)"
proof -
  have "lock_step ex_smp2 ex_smp3" unfolding ex_smp3_def
    by (rule lock_step.claim) (simp_all add: ex_smp2_def acquire_claim_def kmod_apply)
  then have r: "reachable ex_smp3" using ex_smp2_reachable reachable.step by blast
  have "owns ex_smp3 0 = {7}"
    by (auto simp: owns_def ex_smp3_def ex_smp2_def ex_smp_def held_by_def pushed_def upd_lock_def upd_cpu_def goto_def split: if_splits)
  moreover have "pcs ex_smp3 0 = Run" by (simp add: ex_smp3_def)
  ultimately show ?thesis
    using sched_only_ptable_lock[OF r, of 0 7 SLEEPING] sched_only_ptable_lock[OF r, of 0 7 RUNNING] by simp
qed

end
