(* ===== verification/Fs_Tx.thy ===== *)
theory Fs_Tx
  imports Log
begin

text \<open>
  What the file system relies on in the log and the buffer cache below it: inside a transaction that has room for
  the blocks of a set \<open>W\<close> and for \<open>k\<close> more, reading a block, changing it, recording the change with \<^verbatim>\<open>log_write\<close>
  and releasing it all return. The interface is a locale; the idioms of the file system (read a block, rewrite a
  block) are proved in it, and it is interpreted on the log.
\<close>

locale tx_blocks =
  fixes tx :: "nat set \<Rightarrow> nat \<Rightarrow> 's \<Rightarrow> bool"
    and view :: "'s \<Rightarrow> nat \<Rightarrow> bytes"
    and busy :: "'s \<Rightarrow> nat set"
    and blocks :: "'s \<Rightarrow> nat"
    and reserved :: "'s \<Rightarrow> nat set"
    and blk :: "'s \<Rightarrow> nat \<Rightarrow> nat"
    and bdata :: "'s \<Rightarrow> nat \<Rightarrow> bytes"
    and rest :: "'s \<Rightarrow> 's \<Rightarrow> bool"
    and rd :: "nat \<Rightarrow> ('s, nat) km"
    and put :: "nat \<Rightarrow> (bytes \<Rightarrow> bytes) \<Rightarrow> 's \<Rightarrow> 's"
    and lw :: "nat \<Rightarrow> ('s, unit) km"
    and rel :: "nat \<Rightarrow> ('s, unit) km"
  assumes rest_refl: "rest s s"
    and rest_trans: "rest s t \<Longrightarrow> rest t u \<Longrightarrow> rest s u"
    and tx_blocks: "tx W k s \<Longrightarrow> b \<in> W \<Longrightarrow> b < blocks s"
    and tx_grow: "tx W (Suc k) s \<Longrightarrow> b < blocks s \<Longrightarrow> b \<notin> reserved s \<Longrightarrow> tx (insert b W) k s"
    and busy_data: "tx W k s \<Longrightarrow> i \<in> busy s \<Longrightarrow> bdata s i = view s (blk s i)"
    and rd_tx: "tx W k s \<Longrightarrow> b < blocks s \<Longrightarrow> b \<notin> blk s ` busy s \<Longrightarrow> card (busy s) \<le> 1 \<Longrightarrow>
      \<exists>i t. rd b s = Ok i t \<and> tx W k t \<and> view t = view s \<and> i \<notin> busy s \<and> busy t = insert i (busy s) \<and>
        blk t i = b \<and> bdata t i = view s b \<and> (\<forall>j \<in> busy s. blk t j = blk s j \<and> bdata t j = bdata s j) \<and> rest s t"
    and lw_tx: "tx W k s \<Longrightarrow> i \<in> busy s \<Longrightarrow> blk s i \<in> W \<Longrightarrow>
      \<exists>t. lw i (put i f s) = Ok () t \<and> tx W k t \<and> view t = (view s)(blk s i := f (bdata s i)) \<and> busy t = busy s \<and>
        (\<forall>j. blk t j = blk s j) \<and> (\<forall>j. bdata t j = (if j = i then f (bdata s i) else bdata s j)) \<and> rest s t"
    and rel_tx: "tx W k s \<Longrightarrow> i \<in> busy s \<Longrightarrow>
      \<exists>t. rel i s = Ok () t \<and> tx W k t \<and> view t = view s \<and> busy t = busy s - {i} \<and>
        (\<forall>j. blk t j = blk s j \<and> bdata t j = bdata s j) \<and> rest s t"
begin

text \<open>Reading a block and releasing it.\<close>

lemma read_block:
  assumes "tx W k s" "b < blocks s" "b \<notin> blk s ` busy s" "card (busy s) \<le> 1"
  obtains i u t where "rd b s = Ok i u" "bdata u i = view s b" "rel i u = Ok () t" "tx W k u" "rest s u" "view u = view s"
    "busy u = insert i (busy s)" "i \<notin> busy s" "blk u i = b"
    "tx W k t" "view t = view s" "busy t = busy s" "\<forall>j \<in> busy s. blk t j = blk s j \<and> bdata t j = bdata s j" "rest s t"
proof -
  from rd_tx[OF assms] obtain i u where u: "rd b s = Ok i u" "tx W k u" "view u = view s" "i \<notin> busy s"
    "busy u = insert i (busy s)" "blk u i = b" "bdata u i = view s b"
    "\<forall>j \<in> busy s. blk u j = blk s j \<and> bdata u j = bdata s j" "rest s u" by blast
  from rel_tx[OF u(2), of i] u(5) obtain t where t: "rel i u = Ok () t" "tx W k t" "view t = view u" "busy t = busy u - {i}"
    "\<forall>j. blk t j = blk u j \<and> bdata t j = bdata u j" "rest u t" by blast
  show thesis by (rule that[OF u(1,7) t(1) u(2,9,3,5,4,6) t(2)]) (use u t rest_trans in auto)
qed

text \<open>Changing a block of the transaction.\<close>

lemma rewrite_block:
  assumes "tx W k s" "b \<in> W" "b \<notin> blk s ` busy s" "card (busy s) \<le> 1"
  obtains i u v t where "rd b s = Ok i u" "bdata u i = view s b" "rest s u" "view u = view s"
    "lw i (put i f u) = Ok () v" "rel i v = Ok () t"
    "tx W k t" "view t = (view s)(b := f (view s b))" "busy t = busy s"
    "\<forall>j \<in> busy s. blk t j = blk s j \<and> bdata t j = bdata s j" "rest s t"
proof -
  from rd_tx[OF assms(1) tx_blocks[OF assms(1,2)] assms(3,4)] obtain i u where u: "rd b s = Ok i u" "tx W k u" "view u = view s"
    "i \<notin> busy s" "busy u = insert i (busy s)" "blk u i = b" "bdata u i = view s b"
    "\<forall>j \<in> busy s. blk u j = blk s j \<and> bdata u j = bdata s j" "rest s u" by blast
  from lw_tx[OF u(2), of i f] u(5,6) assms(2) obtain v where v: "lw i (put i f u) = Ok () v" "tx W k v"
    "view v = (view u)(blk u i := f (bdata u i))" "busy v = busy u" "\<forall>j. blk v j = blk u j"
    "\<forall>j. bdata v j = (if j = i then f (bdata u i) else bdata u j)" "rest u v" by blast
  from rel_tx[OF v(2), of i] v(4) u(5) obtain t where t: "rel i v = Ok () t" "tx W k t" "view t = view v"
    "busy t = busy v - {i}" "\<forall>j. blk t j = blk v j \<and> bdata t j = bdata v j" "rest v t" by blast
  show thesis
  proof (rule that[OF u(1,7,9,3) v(1) t(1,2)])
    show "view t = (view s)(b := f (view s b))" "busy t = busy s" using u t v by auto
    show "\<forall>j \<in> busy s. blk t j = blk s j \<and> bdata t j = bdata s j" using u(4,8) v(5,6) t(5) by metis
    show "rest s t" using u(9) v(7) t(6) rest_trans by blast
  qed
qed

lemma rewrite_run:
  assumes "tx W k s" "b \<in> W" "b \<notin> blk s ` busy s" "card (busy s) \<le> 1"
  obtains t where "kbind (rd b) (\<lambda>i. kthen (kmod (put i f)) (kthen (lw i) (rel i))) s = Ok () t"
    "tx W k t" "view t = (view s)(b := f (view s b))" "busy t = busy s"
    "\<forall>j \<in> busy s. blk t j = blk s j \<and> bdata t j = bdata s j" "rest s t"
proof -
  obtain i u v t where r: "rd b s = Ok i u" "lw i (put i f u) = Ok () v" "rel i v = Ok () t"
    and t: "tx W k t" "view t = (view s)(b := f (view s b))" "busy t = busy s"
    "\<forall>j \<in> busy s. blk t j = blk s j \<and> bdata t j = bdata s j" "rest s t"
    by (rule rewrite_block[OF assms])
  have "kbind (rd b) (\<lambda>i. kthen (kmod (put i f)) (kthen (lw i) (rel i))) s = Ok () t"
    by (simp add: kbind_apply kthen_apply kmod_apply r)
  then show thesis using t by (rule that)
qed

end

section \<open>The log as this interface\<close>

text \<open>Reading needs no operation to be outstanding: with no blocks to change \<open>W\<close> is empty and \<open>k\<close> is 0.\<close>

definition log_tx :: "nat set \<Rightarrow> nat \<Rightarrow> 'a klog_scheme \<Rightarrow> bool" where
  "log_tx W k s \<longleftrightarrow> log_inv s \<and> (W \<noteq> {} \<or> 0 < k \<longrightarrow> 1 \<le> lg_outstanding s) \<and> finite W \<and> W \<subseteq> {..<disksize s} \<and> W \<inter> log_area s = {} \<and>
     card (logged s \<union> W) + k < NBUF - 1 \<and> card (logged s \<union> W) + k < lg_size s - 1 \<and>
     own s = held s \<and> (\<forall>i \<in> held s. settled s i)"

definition log_rest :: "'a klog_scheme \<Rightarrow> 'a klog_scheme \<Rightarrow> bool" where
  "log_rest s t \<longleftrightarrow> woken s t \<and> disksize t = disksize s \<and> klog.more t = klog.more s \<and> lg_start t = lg_start s \<and>
     lg_size t = lg_size s \<and> lg_outstanding t = lg_outstanding s \<and> lg_committing t = lg_committing s \<and> lg_dev t = lg_dev s"

lemma card_dirty_blocks: "bio_inv s \<Longrightarrow> card (dirty s) = card (dirty_blocks s)"
proof -
  assume inv: "bio_inv s"
  have "inj_on (\<lambda>i. b_blockno (bufs s i)) (dirty s)"
  proof (rule inj_onI)
    fix i j
    assume "i \<in> dirty s" "j \<in> dirty s" and eq: "b_blockno (bufs s i) = b_blockno (bufs s j)"
    then have "i < NBUF" "j < NBUF" "b_dev (bufs s i) = 1" "b_dev (bufs s j) = 1"
      using bio_inv_bufD[OF inv] by (auto simp: dirty_def buf_ok_def)
    then show "i = j" using bio_inv_uniqueD[OF inv] eq by auto
  qed
  then show ?thesis by (simp add: card_image dirty_blocks_def)
qed

lemma log_tx_room:
  assumes "log_tx W k s" "card (held s) \<le> 1"
  shows "buf_room s 1"
proof -
  have inv: "log_inv s" using assms(1) by (simp add: log_tx_def)
  have "card (held s \<union> dirty s) \<le> card (held s) + card (logged s)"
    using card_Un_le[of "held s" "dirty s"] card_dirty_blocks log_invD(1,6)[OF inv] by metis
  moreover have "card (logged s) \<le> card (logged s \<union> W)"
    using assms(1) by (intro card_mono) (auto simp: log_tx_def)
  ultimately show ?thesis using assms by (simp add: buf_room_def log_tx_def)
qed

lemma log_tx_bio:
  assumes "log_tx W k s" "bio_inv t" "dirty_blocks t = dirty_blocks s" "memdisk t = memdisk s" "bio_rest s t"
    "own t = held t" "\<And>i. i \<in> held t \<Longrightarrow> settled t i"
  shows "log_tx W k t"
  using assms bio_rest_klog[OF assms(5)] geometry_rest[OF assms(5)] by (simp add: log_tx_def log_inv_def)

lemma bio_rest_log_rest: "bio_rest s t \<Longrightarrow> log_rest s t"
  by (simp add: log_rest_def bio_rest_klog)

lemma log_tx_bread:
  assumes "log_tx W k s" "b < disksize s" "b \<notin> (\<lambda>i. b_blockno (bufs s i)) ` held s" "card (held s) \<le> 1"
  shows "\<exists>i t. bread 1 b s = Ok i t \<and> log_tx W k t \<and> bview t = bview s \<and> i \<notin> held s \<and> held t = insert i (held s) \<and>
    b_blockno (bufs t i) = b \<and> b_data (bufs t i) = bview s b \<and>
    (\<forall>j \<in> held s. b_blockno (bufs t j) = b_blockno (bufs s j) \<and> b_data (bufs t j) = b_data (bufs s j)) \<and> log_rest s t"
proof -
  have inv: "bio_inv s" "own s = held s" "\<And>i. i \<in> held s \<Longrightarrow> settled s i"
    using assms(1) log_invD(1) by (auto simp: log_tx_def)
  from bc.rd_succeeds[OF inv(1) assms(2,3)] log_tx_room[OF assms(1,4)] obtain i t where t: "bread 1 b s = Ok i t" by blast
  note R = bc.rd_law[OF inv(1) t, of 0]
  have "log_tx W k t" by (rule log_tx_bio[OF assms(1)]) (use R inv in auto)
  then show ?thesis using t R bio_rest_log_rest by blast
qed

lemma log_tx_brelse:
  assumes "log_tx W k s" "i \<in> held s"
  shows "\<exists>t. brelse i s = Ok () t \<and> log_tx W k t \<and> bview t = bview s \<and> held t = held s - {i} \<and>
    (\<forall>j. b_blockno (bufs t j) = b_blockno (bufs s j) \<and> b_data (bufs t j) = b_data (bufs s j)) \<and> log_rest s t"
proof -
  have inv: "bio_inv s" "own s = held s" "\<And>i. i \<in> held s \<Longrightarrow> settled s i"
    using assms(1) log_invD(1) by (auto simp: log_tx_def)
  from bc.rel_law[OF inv(1), of i 0] inv assms(2) obtain t where t: "brelse i s = Ok () t" "bio_inv t" "bview t = bview s"
    "memdisk t = memdisk s" "own t = own s - {i}" "held t = held s - {i}" "dirty_blocks t = dirty_blocks s"
    "(\<lambda>j. b_blockno (bufs t j)) = (\<lambda>j. b_blockno (bufs s j))" "(\<lambda>j. b_data (bufs t j)) = (\<lambda>j. b_data (bufs s j))"
    "\<forall>j. settled t j = settled s j" "bio_rest s t" by blast
  have "log_tx W k t" by (rule log_tx_bio[OF assms(1)]) (use t inv in auto)
  then show ?thesis using t bio_rest_log_rest by (auto simp: fun_eq_iff)
qed

lemma log_tx_log_write:
  assumes "log_tx W k s" "i \<in> held s" "b_blockno (bufs s i) \<in> W"
  shows "\<exists>t. log_write i (upd_data i f s) = Ok () t \<and> log_tx W k t \<and>
    bview t = (bview s)(b_blockno (bufs s i) := f (b_data (bufs s i))) \<and> held t = held s \<and>
    (\<forall>j. b_blockno (bufs t j) = b_blockno (bufs s j)) \<and>
    (\<forall>j. b_data (bufs t j) = (if j = i then f (b_data (bufs s i)) else b_data (bufs s j))) \<and> log_rest s t"
proof -
  let ?u = "upd_data i f s"
  have T: "log_inv s" "own s = held s" "\<And>i. i \<in> held s \<Longrightarrow> settled s i" "1 \<le> lg_outstanding s" "finite W"
    "W \<subseteq> {..<disksize s}" "W \<inter> log_area s = {}" "card (logged s \<union> W) + k < NBUF - 1" "card (logged s \<union> W) + k < lg_size s - 1"
    using assms(1,3) by (auto simp: log_tx_def)
  have i: "i \<in> own s" using assms(2) T(2) by simp
  note P = bc.put_law[OF log_invD(1)[OF T(1)] i, of f]
  have k: "bio_rest s ?u" using P by simp
  note kk = bio_rest_klog[OF k] geometry_rest[OF k]
  have u: "log_inv ?u" using T(1) P kk by (simp add: log_inv_def)
  have n: "lh_n s = card (logged s)" using log_invD(5)[OF T(1)] by (simp add: logged_def card_image)
  also have "\<dots> \<le> card (logged s \<union> W)" using T(5) by (intro card_mono) auto
  finally have "\<not> (lh_n ?u \<ge> LOGSIZE \<or> lh_n ?u \<ge> lg_size ?u - 1)" "\<not> lg_outstanding ?u < 1" using T kk by auto
  then obtain t where t: "log_write i ?u = Ok () t"
    by (auto simp: log_write_def kthen_apply kassert_apply kmod_apply)
  have b: "b_blockno (bufs ?u i) = b_blockno (bufs s i)" by simp
  have na: "b_blockno (bufs ?u i) \<notin> log_area ?u" using assms(3) T(7) kk b by auto
  have "i \<in> own ?u" using P i by simp
  note E = log_write_effect[OF u this na t]
  have lg: "logged t = insert (b_blockno (bufs s i)) (logged s)" using E(9) kk b by simp
  then have "logged t \<union> W = logged s \<union> W" using assms(3) by auto
  moreover have "settled t j" if "j \<in> held s" for j
    using that T(3) E(7) E(8)[of j] P by (cases "j = i") auto
  ultimately have "log_tx W k t"
    unfolding log_tx_def using T(4-9) E(1,5,6,10,11,12,15) P kk by (simp add: log_area_def T(2))
  moreover have "log_rest s t"
    using bio_rest_log_rest[OF k] E(10-19) woken_trans[OF kk(10)] woken_eq[of t ?u] by (simp add: log_rest_def)
  ultimately show ?thesis using t E P by auto
qed

interpretation ltx: tx_blocks log_tx bview held disksize log_area "\<lambda>s i. b_blockno (bufs s i)" "\<lambda>s i. b_data (bufs s i)"
  log_rest "bread 1" upd_data log_write brelse
proof
  show "log_rest s s" for s :: "'a klog_scheme" by (simp add: log_rest_def)
  show "log_rest s t \<Longrightarrow> log_rest t u \<Longrightarrow> log_rest s u" for s t u :: "'a klog_scheme"
    by (auto simp: log_rest_def intro: woken_trans)
  show "b < disksize s" if "log_tx W k s" "b \<in> W" for W k b and s :: "'a klog_scheme"
    using that by (auto simp: log_tx_def)
  show "log_tx (insert b W) k s" if "log_tx W (Suc k) s" "b < disksize s" "b \<notin> log_area s" for W k b and s :: "'a klog_scheme"
  proof -
    have "card (logged s \<union> insert b W) \<le> Suc (card (logged s \<union> W))"
      using that(1) by (simp add: card_insert_if log_tx_def)
    then show ?thesis using that by (auto simp: log_tx_def)
  qed
  show "b_data (bufs s i) = bview s (b_blockno (bufs s i))" if "log_tx W k s" "i \<in> held s" for W k i and s :: "'a klog_scheme"
    using ownD(8)[of s i] that log_invD(1)[of s] by (auto simp: log_tx_def)
qed (fact log_tx_bread log_tx_log_write log_tx_brelse)+

end
