(* ===== verification/Fs_Alloc.thy ===== *)
theory Fs_Alloc
  imports Fs_Inode Fs_Tx
begin

text \<open>
  The block allocator of the file system: what \<^verbatim>\<open>balloc\<close> and \<^verbatim>\<open>bfree\<close> do to the set of blocks in use, proved on the
  interface of the log.
\<close>

section \<open>The map of blocks in use\<close>

lemma bmap_free_bit: "bmap_free d i \<longleftrightarrow> \<not> bit (d (i div 8)) (i mod 8)"
  by (simp add: bmap_free_def push_bit_of_1 and_exp_eq_0_iff_not_bit)

lemma bmap_free_mark: "bmap_free (bmap_mark i d) j \<longleftrightarrow> j \<noteq> i \<and> bmap_free d j"
proof (cases "j div 8 = i div 8")
  case True
  then have "j = i \<longleftrightarrow> j mod 8 = i mod 8" by (metis div_mult_mod_eq)
  then show ?thesis using True by (auto simp: bmap_free_bit bmap_mark_def bit_simps)
qed (auto simp: bmap_free_bit bmap_mark_def)

lemma bmap_free_clear: "bmap_free (bmap_clear i d) j \<longleftrightarrow> j = i \<or> bmap_free d j"
proof (cases "j div 8 = i div 8")
  case True
  then have "j = i \<longleftrightarrow> j mod 8 = i mod 8" by (metis div_mult_mod_eq)
  moreover have "j mod 8 < 8" by simp
  ultimately show ?thesis using True by (auto simp: bmap_free_bit bmap_clear_def bit_simps)
qed (auto simp: bmap_free_bit bmap_clear_def)

definition in_use :: "'a kfs_scheme \<Rightarrow> nat \<Rightarrow> bool" where
  "in_use s b \<longleftrightarrow> \<not> bmap_free (bview s (BBLOCK b (fs_sb s))) (b mod BPB)"

definition map_blocks :: "'a kfs_scheme \<Rightarrow> nat set" where
  "map_blocks s = (\<lambda>b. BBLOCK b (fs_sb s)) ` {..<sb_size (fs_sb s)}"

lemma map_block: "c < sb_size (fs_sb s) \<Longrightarrow> BBLOCK c (fs_sb s) \<in> map_blocks s"
  by (simp add: map_blocks_def)

definition held_blocks :: "'a bio_scheme \<Rightarrow> nat set" where
  "held_blocks s = (\<lambda>i. b_blockno (bufs s i)) ` held s"

section \<open>Frames\<close>

lemma kfs_more:
  "klog.more t = klog.more s \<Longrightarrow> fs_sb t = fs_sb s \<and> icache t = icache s \<and> kfs.more t = kfs.more s"
  by (cases s; cases t) simp

lemma log_rest_kfs:
  assumes "log_rest s t"
  shows "fs_sb t = fs_sb s" "icache t = icache s" "kfs.more t = kfs.more s" "disksize t = disksize s" "log_area t = log_area s"
    "woken s t"
  using assms kfs_more[of t s] by (simp_all add: log_rest_def log_area_def)

lemma upd_inode_simps [simp]:
  "bufs (upd_inode i f s) = bufs s" "disksize (upd_inode i f s) = disksize s" "fs_sb (upd_inode i f s) = fs_sb s"
  "icache (upd_inode i f s) = (icache s)(i := f (icache s i))" "memdisk (upd_inode i f s) = memdisk s"
  "kfs.more (upd_inode i f s) = kfs.more s" "lg_start (upd_inode i f s) = lg_start s" "lg_size (upd_inode i f s) = lg_size s"
  "lg_outstanding (upd_inode i f s) = lg_outstanding s" "lg_committing (upd_inode i f s) = lg_committing s"
  "lg_dev (upd_inode i f s) = lg_dev s" "lh_n (upd_inode i f s) = lh_n s" "lh_block (upd_inode i f s) = lh_block s"
  "mru (upd_inode i f s) = mru s" "ptable (upd_inode i f s) = ptable s" "cur (upd_inode i f s) = cur s"
  by (simp_all add: upd_inode_def)

lemma upd_inode_cache [simp]:
  "bio_inv (upd_inode i f s) = bio_inv s" "bview (upd_inode i f s) = bview s" "own (upd_inode i f s) = own s"
  "held (upd_inode i f s) = held s" "dirty_blocks (upd_inode i f s) = dirty_blocks s" "settled (upd_inode i f s) = settled s"
  by (rule cache_cong; simp)+

lemma upd_inode_log [simp]:
  "log_area (upd_inode i f s) = log_area s" "logged (upd_inode i f s) = logged s" "log_tx W k (upd_inode i f s) = log_tx W k s"
  "held_blocks (upd_inode i f s) = held_blocks s" "in_use (upd_inode i f s) b = in_use s b" "map_blocks (upd_inode i f s) = map_blocks s"
  by (simp_all add: log_tx_def log_inv_def log_geometry_def log_area_def logged_def held_blocks_def in_use_def map_blocks_def)

lemma woken_upd_inode [simp]: "woken s (upd_inode i f s)"
  by (simp add: woken_def upd_inode_def same_memory_def)

section \<open>Allocating\<close>

definition zeroed :: "bytes \<Rightarrow> bytes" where
  "zeroed d = (\<lambda>j. if j < BSIZE then 0 else d j)"

lemma bzero_run:
  assumes "log_tx W k s" "b \<in> W" "b \<notin> held_blocks s" "card (held s) \<le> 1"
  obtains t where "bzero 1 b s = Ok () t" "log_tx W k t" "bview t = (bview s)(b := zeroed (bview s b))"
    "held t = held s" "\<forall>j \<in> held s. b_blockno (bufs t j) = b_blockno (bufs s j) \<and> b_data (bufs t j) = b_data (bufs s j)" "log_rest s t"
  by (rule ltx.rewrite_run[OF assms(1,2) assms(3)[unfolded held_blocks_def] assms(4), of "\<lambda>d k. if k < BSIZE then 0 else d k"])
    (rule that, simp_all add: bzero_def zeroed_def)

definition can_alloc :: "nat set \<Rightarrow> nat \<Rightarrow> 'a kfs_scheme \<Rightarrow> bool" where
  "can_alloc W k s \<longleftrightarrow> log_tx W k s \<and> map_blocks s \<subseteq> W \<and> card (held s) \<le> 1 \<and> held_blocks s \<inter> map_blocks s = {} \<and>
     sb_size (fs_sb s) \<le> disksize s \<and>
     (\<forall>b < sb_size (fs_sb s). \<not> in_use s b \<longrightarrow> b \<notin> log_area s \<union> map_blocks s \<union> held_blocks s)"

lemma balloc_found:
  assumes c: "can_alloc W (Suc k) s" and b: "b < sb_size (fs_sb s)" "\<not> in_use s b"
    and i: "bread 1 (BBLOCK b (fs_sb s)) s = Ok i u" "bi = b mod BPB"
    "log_tx W (Suc k) u" "bview u = bview s" "held u = insert i (held s)" "i \<notin> held s" "b_blockno (bufs u i) = BBLOCK b (fs_sb s)"
    "b_data (bufs u i) = bview s (BBLOCK b (fs_sb s))" "log_rest s u"
    "\<forall>j \<in> held s. b_blockno (bufs u j) = b_blockno (bufs s j) \<and> b_data (bufs u j) = b_data (bufs s j)"
  shows "\<exists>t. kthen (kmod (upd_data i (bmap_mark bi))) (kthen (log_write i) (kthen (brelse i) (kthen (bzero 1 b) (kret b)))) u = Ok b t \<and>
    log_tx (insert b W) k t \<and> held t = held s \<and>
    (\<forall>j \<in> held s. b_blockno (bufs t j) = b_blockno (bufs s j) \<and> b_data (bufs t j) = b_data (bufs s j)) \<and> log_rest s t \<and>
    bview t = (bview s)(BBLOCK b (fs_sb s) := bmap_mark (b mod BPB) (bview s (BBLOCK b (fs_sb s))),
      b := zeroed (bview s b))"
proof -
  have C: "map_blocks s \<subseteq> W" "card (held s) \<le> 1" "held_blocks s \<inter> map_blocks s = {}" "sb_size (fs_sb s) \<le> disksize s"
    "b \<notin> log_area s \<union> map_blocks s \<union> held_blocks s"
    using c b by (auto simp: can_alloc_def)
  have m: "BBLOCK b (fs_sb s) \<in> map_blocks s" using b(1) by (auto simp: map_blocks_def)
  from ltx.lw_tx[OF i(3), of i "bmap_mark bi"] i(5,7) m C(1) obtain v where v: "log_write i (upd_data i (bmap_mark bi) u) = Ok () v"
    "log_tx W (Suc k) v" "bview v = (bview u)(BBLOCK b (fs_sb s) := bmap_mark bi (b_data (bufs u i)))" "held v = held u"
    "\<forall>j. b_blockno (bufs v j) = b_blockno (bufs u j)"
    "\<forall>j. b_data (bufs v j) = (if j = i then bmap_mark bi (b_data (bufs u i)) else b_data (bufs u j))" "log_rest u v" by auto
  from ltx.rel_tx[OF v(2), of i] v(4) i(5) obtain w where w: "brelse i v = Ok () w" "log_tx W (Suc k) w" "bview w = bview v"
    "held w = held v - {i}" "\<forall>j. b_blockno (bufs w j) = b_blockno (bufs v j) \<and> b_data (bufs w j) = b_data (bufs v j)" "log_rest v w"
    by blast
  have sw: "log_rest s w" using i(9) v(7) w(6) ltx.rest_trans by blast
  have hw: "held w = held s" using w(4) v(4) i(5,6) by auto
  have same: "\<forall>j \<in> held s. b_blockno (bufs w j) = b_blockno (bufs s j) \<and> b_data (bufs w j) = b_data (bufs s j)"
    using i(6,10) v(5,6) w(5) by metis
  then have hb: "held_blocks w = held_blocks s" by (auto simp: held_blocks_def hw)
  have tw: "log_tx (insert b W) k w"
    using ltx.tx_grow[OF w(2), of b] C(4,5) b(1) log_rest_kfs(4,5)[OF sw] by simp
  have bw: "b \<in> insert b W" "b \<notin> held_blocks w" "card (held w) \<le> 1" using C(2,5) hb hw by auto
  obtain t where t: "bzero 1 b w = Ok () t" "log_tx (insert b W) k t"
    "bview t = (bview w)(b := zeroed (bview w b))" "held t = held w"
    "\<forall>j \<in> held w. b_blockno (bufs t j) = b_blockno (bufs w j) \<and> b_data (bufs t j) = b_data (bufs w j)" "log_rest w t"
    by (rule bzero_run[OF tw bw])
  have "b \<noteq> BBLOCK b (fs_sb s)" using C(5) m by auto
  then have "bview t = (bview s)(BBLOCK b (fs_sb s) := bmap_mark (b mod BPB) (bview s (BBLOCK b (fs_sb s))),
      b := zeroed (bview s b))"
    unfolding t(3) w(3) v(3) i(2,4,8) by simp
  moreover have "log_rest s t" using sw t(6) ltx.rest_trans by blast
  moreover have "kthen (kmod (upd_data i (bmap_mark bi))) (kthen (log_write i) (kthen (brelse i) (kthen (bzero 1 b) (kret b)))) u = Ok b t"
    using v(1) w(1) t(1) by (simp add: kthen_apply kmod_apply kret_apply)
  ultimately show ?thesis using t(2,4,5) same unfolding hw by (intro exI[of _ t]) simp
qed

definition allocated :: "nat \<Rightarrow> nat set \<Rightarrow> nat \<Rightarrow> 'a kfs_scheme \<Rightarrow> 'a kfs_scheme \<Rightarrow> bool" where
  "allocated b W k s t \<longleftrightarrow> b < sb_size (fs_sb s) \<and> \<not> in_use s b \<and> log_tx (insert b W) k t \<and> held t = held s \<and>
     (\<forall>j \<in> held s. b_blockno (bufs t j) = b_blockno (bufs s j) \<and> b_data (bufs t j) = b_data (bufs s j)) \<and> log_rest s t \<and>
     bview t = (bview s)(BBLOCK b (fs_sb s) := bmap_mark (b mod BPB) (bview s (BBLOCK b (fs_sb s))),
       b := zeroed (bview s b))"

lemma map_index:
  assumes "bi < BPB"
  shows "BBLOCK (m * BPB + bi) sb = BBLOCK (m * BPB) sb" "(m * BPB + bi) mod BPB = bi"
  using assms by (simp_all add: BBLOCK_def)

lemma balloc_scan_run:
  assumes "can_alloc W (Suc k) s" "b < sb_size (fs_sb s)" "\<not> in_use s b" "m * BPB \<le> b" "b < M * BPB"
  shows "\<exists>b t. balloc_scan 1 (sb_size (fs_sb s)) (map (\<lambda>k. k * BPB) [m..<M]) s = Ok b t \<and> allocated b W k s t"
  using assms
proof (induction "M - m" arbitrary: m s)
  case 0
  then show ?case by simp
next
  case (Suc x)
  let ?n = "sb_size (fs_sb s)" and ?mb = "BBLOCK (m * BPB) (fs_sb s)"
  have M: "m < M" using Suc.hyps(2) by simp
  have C: "log_tx W (Suc k) s" "map_blocks s \<subseteq> W" "card (held s) \<le> 1" "held_blocks s \<inter> map_blocks s = {}" "?n \<le> disksize s"
    "\<forall>b < ?n. \<not> in_use s b \<longrightarrow> b \<notin> log_area s \<union> map_blocks s \<union> held_blocks s"
    using Suc.prems(1) by (auto simp: can_alloc_def)
  have "m * BPB < ?n" using Suc.prems(2,4) by simp
  then have mb: "?mb \<in> map_blocks s" by (auto simp: map_blocks_def)
  then have mb': "?mb < disksize s" "?mb \<notin> (\<lambda>i. b_blockno (bufs s i)) ` held s"
    using C(2,4) ltx.tx_blocks[OF C(1)] by (auto simp: held_blocks_def)
  obtain i u v where i: "bread 1 ?mb s = Ok i u" "b_data (bufs u i) = bview s ?mb" "brelse i u = Ok () v" "log_tx W (Suc k) u"
    "log_rest s u" "bview u = bview s" "held u = insert i (held s)" "i \<notin> held s" "b_blockno (bufs u i) = ?mb"
    "log_tx W (Suc k) v" "bview v = bview s" "held v = held s"
    "\<forall>j \<in> held s. b_blockno (bufs v j) = b_blockno (bufs s j) \<and> b_data (bufs v j) = b_data (bufs s j)" "log_rest s v"
    by (rule ltx.read_block[OF C(1) mb' C(3)])
  have same: "\<forall>j \<in> held s. b_blockno (bufs u j) = b_blockno (bufs s j) \<and> b_data (bufs u j) = b_data (bufs s j)"
    using ltx.rd_tx[OF C(1) mb' C(3)] i(1) by auto
  have use: "bmap_free (b_data (bufs u i)) bi \<longleftrightarrow> \<not> in_use s (m * BPB + bi)" if "bi < BPB" for bi
    using map_index[OF that] by (simp add: in_use_def i(2))
  let ?P = "\<lambda>bi. m * BPB + bi < ?n \<and> bmap_free (b_data (bufs u i)) bi"
  have list: "map (\<lambda>k. k * BPB) [m..<M] = m * BPB # map (\<lambda>k. k * BPB) [Suc m..<M]" using M by (simp add: upt_conv_Cons)
  note step = list balloc_scan.simps(2) kbind_apply kget_apply i(1)
  show ?case
  proof (cases "findi ?P BPB")
    case (Some bi)
    note f = findi_SomeD[OF Some]
    have b': "m * BPB + bi < ?n" "\<not> in_use s (m * BPB + bi)" "BBLOCK (m * BPB + bi) (fs_sb s) = ?mb" "bi = (m * BPB + bi) mod BPB"
      using f use map_index[OF f(1)] by auto
    from balloc_found[OF Suc.prems(1) b'(1,2) i(1)[folded b'(3)] b'(4) i(4,6,7,8) i(9)[folded b'(3)] i(2)[folded b'(3)] i(5) same]
    obtain t where t: "kthen (kmod (upd_data i (bmap_mark bi))) (kthen (log_write i) (kthen (brelse i) (kthen (bzero 1 (m * BPB + bi))
        (kret (m * BPB + bi))))) u = Ok (m * BPB + bi) t" "allocated (m * BPB + bi) W k s t"
      using b'(1,2) unfolding allocated_def by blast
    then show ?thesis using Some by (auto simp: step simp del: One_nat_def)
  next
    case None
    then have "in_use s (m * BPB + bi)" if "bi < BPB" "m * BPB + bi < ?n" for bi using that use by auto
    then have "Suc m * BPB \<le> b"
      using Suc.prems(2,3,4) by (metis add.commute add_diff_inverse_nat less_diff_conv2 mult_Suc not_le)
    moreover have "can_alloc W (Suc k) v"
      using C i(10-14) log_rest_kfs[OF i(14)] by (auto simp: can_alloc_def map_blocks_def held_blocks_def in_use_def)
    ultimately have "\<exists>b t. balloc_scan 1 (sb_size (fs_sb v)) (map (\<lambda>k. k * BPB) [Suc m..<M]) v = Ok b t \<and> allocated b W k v t"
      using Suc.hyps(1)[of "Suc m" v] Suc.hyps(2) Suc.prems log_rest_kfs[OF i(14)] i(11) by (simp add: in_use_def)
    then obtain b' t where t: "balloc_scan 1 ?n (map (\<lambda>k. k * BPB) [Suc m..<M]) v = Ok b' t" "allocated b' W k v t"
      using log_rest_kfs[OF i(14)] by auto
    have "allocated b' W k s t"
      using t(2) i(11-14) log_rest_kfs[OF i(14)] ltx.rest_trans[OF i(14)] by (auto simp: allocated_def in_use_def)
    then show ?thesis using None t(1) i(3) by (auto simp: step kthen_apply simp del: One_nat_def findi_None)
  qed
qed

text \<open>
  \<^verbatim>\<open>balloc\<close> returns while there is a free block, with a block that was free, now is in use and filled with zeros;
  no other block changes but the one with its bit.
\<close>

lemma balloc_run:
  assumes "can_alloc W (Suc k) s" "b < sb_size (fs_sb s)" "\<not> in_use s b"
  shows "\<exists>b t. balloc 1 s = Ok b t \<and> allocated b W k s t"
proof -
  have "b < (sb_size (fs_sb s) + BPB - 1) div BPB * BPB" 
    using assms(2) div_mult_mod_eq[of "sb_size (fs_sb s) + BPB - 1" BPB] mod_less_divisor[of BPB "sb_size (fs_sb s) + BPB - 1"] by linarith
  from balloc_scan_run[OF assms _ this, of 0] show ?thesis by (simp add: balloc_def Let_def del: One_nat_def)
qed

lemma in_use_allocated:
  assumes "allocated b W k s t" "map_blocks s \<subseteq> W'" "b \<notin> map_blocks s" "c < sb_size (fs_sb s)"
  shows "in_use t c \<longleftrightarrow> c = b \<or> in_use s c"
proof -
  have t: "fs_sb t = fs_sb s" using assms(1) log_rest_kfs(1) by (auto simp: allocated_def)
  have "BBLOCK c (fs_sb s) \<noteq> b" using assms(3,4) by (auto simp: map_blocks_def)
  show ?thesis
  proof (cases "BBLOCK c (fs_sb s) = BBLOCK b (fs_sb s)")
    case True
    then have "c div BPB = b div BPB" by (simp add: BBLOCK_def)
    then have "c = b \<longleftrightarrow> c mod BPB = b mod BPB" by (metis div_mult_mod_eq)
    then show ?thesis using assms(1) \<open>BBLOCK c (fs_sb s) \<noteq> b\<close> True
      by (auto simp: allocated_def in_use_def t bmap_free_mark)
  next
    case False
    then show ?thesis using assms(1) \<open>BBLOCK c (fs_sb s) \<noteq> b\<close> by (auto simp: allocated_def in_use_def t)
  qed
qed

end
