(* ===== verification/Fs_Content.thy ===== *)
theory Fs_Content
  imports Fs_Alloc
begin

text \<open>
  The contents of a file as a sequence of bytes, and what \<^verbatim>\<open>bmap\<close>, \<^verbatim>\<open>readi\<close> and \<^verbatim>\<open>writei\<close> do to it.
\<close>

section \<open>The blocks of a file\<close>

definition indirect :: "'a kfs_scheme \<Rightarrow> nat \<Rightarrow> nat" where
  "indirect s ip = unat (i_addrs (icache s ip) NDIRECT)"

definition fblock :: "'a kfs_scheme \<Rightarrow> nat \<Rightarrow> nat \<Rightarrow> nat" where
  "fblock s ip bn =
     (if bn < NDIRECT then unat (i_addrs (icache s ip) bn)
      else if indirect s ip = 0 then 0
      else unat (le32 (bview s (indirect s ip)) (4 * (bn - NDIRECT))))"

definition file_blocks :: "'a kfs_scheme \<Rightarrow> nat \<Rightarrow> nat set" where
  "file_blocks s ip = insert (indirect s ip) (fblock s ip ` {..<MAXFILE}) - {0}"

definition inode_blocks :: "'a kfs_scheme \<Rightarrow> nat set" where
  "inode_blocks s = (\<lambda>i. IBLOCK i (fs_sb s)) ` {..<sb_ninodes (fs_sb s)}"

definition content :: "'a kfs_scheme \<Rightarrow> nat \<Rightarrow> nat \<Rightarrow> u8" where
  "content s ip k = bview s (fblock s ip (k div BSIZE)) (k mod BSIZE)"

definition fsize :: "'a kfs_scheme \<Rightarrow> nat \<Rightarrow> nat" where
  "fsize s ip = unat (i_size (icache s ip))"

text \<open>The metadata of the file system is in use, apart from each other, and so never handed out.\<close>

definition fs_ok :: "'a kfs_scheme \<Rightarrow> bool" where
  "fs_ok s \<longleftrightarrow> sb_size (fs_sb s) \<le> disksize s \<and> sb_size (fs_sb s) < 2 ^ 32 \<and> in_use s 0 \<and>
     (\<forall>b < sb_size (fs_sb s). \<not> in_use s b \<longrightarrow> b \<notin> log_area s \<union> map_blocks s \<union> inode_blocks s) \<and>
     map_blocks s \<inter> inode_blocks s = {}"

text \<open>A file is well-formed when its blocks are different data blocks in use and cover its size.\<close>

definition wf_map :: "(nat \<Rightarrow> nat) \<Rightarrow> nat \<Rightarrow> bool" where
  "wf_map f ind \<longleftrightarrow> (\<forall>m < MAXFILE. \<forall>n < MAXFILE. m \<noteq> n \<longrightarrow> f m = f n \<longrightarrow> f n = 0) \<and> (\<forall>n < MAXFILE. f n = ind \<longrightarrow> f n = 0)"

definition wf_file :: "'a kfs_scheme \<Rightarrow> nat \<Rightarrow> bool" where
  "wf_file s ip \<longleftrightarrow> i_dev (icache s ip) = 1 \<and> i_inum (icache s ip) < sb_ninodes (fs_sb s) \<and>
     file_blocks s ip \<subseteq> {b. b < sb_size (fs_sb s) \<and> in_use s b} \<and>
     file_blocks s ip \<inter> (log_area s \<union> map_blocks s \<union> inode_blocks s) = {} \<and>
     wf_map (fblock s ip) (indirect s ip) \<and>
     fsize s ip \<le> MAXFILE * BSIZE \<and> (\<forall>k < fsize s ip. fblock s ip (k div BSIZE) \<noteq> 0)"

lemma wf_fileD:
  assumes "wf_file s ip"
  shows "i_dev (icache s ip) = 1" "bn < MAXFILE \<Longrightarrow> fblock s ip bn \<noteq> 0 \<Longrightarrow> fblock s ip bn \<in> file_blocks s ip"
    "indirect s ip \<noteq> 0 \<Longrightarrow> indirect s ip \<in> file_blocks s ip" "b \<in> file_blocks s ip \<Longrightarrow> b < sb_size (fs_sb s)"
    "k < fsize s ip \<Longrightarrow> k div BSIZE < MAXFILE" "k < fsize s ip \<Longrightarrow> fblock s ip (k div BSIZE) \<noteq> 0"
proof -
  note w = assms[unfolded wf_file_def]
  show "i_dev (icache s ip) = 1" using w by blast
  show "fblock s ip bn \<in> file_blocks s ip" if "bn < MAXFILE" "fblock s ip bn \<noteq> 0" using that by (simp add: file_blocks_def)
  show "indirect s ip \<in> file_blocks s ip" if "indirect s ip \<noteq> 0" using that by (simp add: file_blocks_def)
  show "b < sb_size (fs_sb s)" if "b \<in> file_blocks s ip" using that w by blast
  show "fblock s ip (k div BSIZE) \<noteq> 0" if "k < fsize s ip" using that w by blast
  assume k: "k < fsize s ip"
  have "fsize s ip \<le> MAXFILE * BSIZE" using w by blast
  with k show "k div BSIZE < MAXFILE" by (intro less_mult_imp_div_less) simp
qed

lemma file_cong:
  assumes "icache t ip = icache s ip" "bview t = bview s" "fs_sb t = fs_sb s" "log_area t = log_area s"
  shows "indirect t ip = indirect s ip" "fblock t ip = fblock s ip" "fsize t ip = fsize s ip" "content t ip = content s ip"
    "file_blocks t ip = file_blocks s ip" "in_use t = in_use s" "map_blocks t = map_blocks s" "inode_blocks t = inode_blocks s"
    "wf_file t ip = wf_file s ip"
proof -
  show i: "indirect t ip = indirect s ip" and z: "fsize t ip = fsize s ip" and
    m: "map_blocks t = map_blocks s" "inode_blocks t = inode_blocks s" and u: "in_use t = in_use s"
    by (simp_all add: assms indirect_def fsize_def map_blocks_def inode_blocks_def in_use_def fun_eq_iff)
  show f: "fblock t ip = fblock s ip" by (simp add: assms fblock_def i fun_eq_iff)
  show "content t ip = content s ip" by (simp add: assms content_def f fun_eq_iff)
  show b: "file_blocks t ip = file_blocks s ip" by (simp add: file_blocks_def i f)
  show "wf_file t ip = wf_file s ip" unfolding wf_file_def i z m u f b assms ..
qed

section \<open>Reading\<close>

lemma bmap_hit:
  assumes "log_tx W k s" "held s = {}" "wf_file s ip" "sb_size (fs_sb s) \<le> disksize s" "bn < MAXFILE" "fblock s ip bn \<noteq> 0"
  obtains t where "bmap ip bn s = Ok (fblock s ip bn) t" "log_tx W k t" "held t = {}" "bview t = bview s" "log_rest s t"
proof (cases "bn < NDIRECT")
  case True
  then have "bmap ip bn s = Ok (fblock s ip bn) s"
    using assms(6) by (simp add: bmap_def fblock_def kbind_apply kget_apply kret_apply)
  then show thesis using assms(1,2) ltx.rest_refl by (intro that) auto
next
  case False
  have ind: "indirect s ip \<noteq> 0" using assms(6) False by (auto simp: fblock_def split: if_splits)
  then have b: "indirect s ip < disksize s" using wf_fileD(3,4)[OF assms(3)] assms(4) by force
  obtain i u t where i: "bread 1 (indirect s ip) s = Ok i u" "b_data (bufs u i) = bview s (indirect s ip)" "brelse i u = Ok () t"
    "log_tx W k t" "bview t = bview s" "held t = held s" "log_rest s t"
    by (rule ltx.read_block[OF assms(1) b]) (use assms(2) in auto)
  have "bn - NDIRECT < NINDIRECT" using False assms(5) by arith
  then have "bmap ip bn s = Ok (fblock s ip bn) t"
    using False assms(5,6) ind i(1-3) wf_fileD(1)[OF assms(3)]
    by (simp add: bmap_def fblock_def indirect_def kbind_apply kthen_apply kget_apply kret_apply del: One_nat_def)
  then show thesis using i(4-7) assms(2) by (intro that) auto
qed

lemma same_block:
  assumes "off mod BSIZE + d < BSIZE"
  shows "(off + d) div BSIZE = off div BSIZE" "(off + d) mod BSIZE = off mod BSIZE + d"
proof -
  have "off + d = (off mod BSIZE + d) + BSIZE * (off div BSIZE)" by simp
  then show "(off + d) div BSIZE = off div BSIZE" "(off + d) mod BSIZE = off mod BSIZE + d"
    using assms by (metis div_less div_mult_self2 add.right_neutral zero_neq_numeral, metis mod_less mod_mult_self2)
qed

text \<open>The bytes a call delivers into its buffer.\<close>

lemma readi_loop_run:
  assumes "log_tx W k s" "held s = {}" "wf_file s ip" "sb_size (fs_sb s) \<le> disksize s" "tot \<le> n" "off + (n - tot) \<le> fsize s ip"
  shows "\<exists>t. readi_loop ip dst off n tot s = Ok (\<lambda>j. if tot \<le> j \<and> j < n then content s ip (off + (j - tot)) else dst j) t \<and>
    log_tx W k t \<and> held t = {} \<and> bview t = bview s \<and> log_rest s t"
  using assms
proof (induction ip dst off n tot arbitrary: s rule: readi_loop.induct)
  case (1 ip dst off n tot)
  show ?case
  proof (cases "tot < n")
    case False
    then have "readi_loop ip dst off n tot s = Ok dst s" by (subst readi_loop.simps) (simp add: kret_apply)
    then show ?thesis using False "1.prems" ltx.rest_refl by (intro exI[of _ s]) (auto simp: fun_eq_iff)
  next
    case True
    define m where "m = min (n - tot) (BSIZE - off mod BSIZE)"
    have m: "0 < m" "tot + m \<le> n" "off mod BSIZE + m \<le> BSIZE" using True by (auto simp: m_def)
    have off: "off < fsize s ip" using "1.prems"(6) True by simp
    note w = wf_fileD[OF "1.prems"(3)]
    have bn: "off div BSIZE < MAXFILE" "fblock s ip (off div BSIZE) \<noteq> 0" using w(5,6)[OF off] .
    obtain u where u: "bmap ip (off div BSIZE) s = Ok (fblock s ip (off div BSIZE)) u" "log_tx W k u" "held u = {}"
      "bview u = bview s" "log_rest s u" by (rule bmap_hit[OF "1.prems"(1-4) bn])
    note su = log_rest_kfs[OF u(5)]
    have fd: "fblock s ip (off div BSIZE) < disksize u" using w(2)[OF bn] w(4) "1.prems"(4) su(4) by force
    obtain i v t where i: "bread 1 (fblock s ip (off div BSIZE)) u = Ok i v" "b_data (bufs v i) = bview u (fblock s ip (off div BSIZE))"
      "brelse i v = Ok () t" "log_tx W k t" "bview t = bview u" "held t = held u" "log_rest u t"
      by (rule ltx.read_block[OF u(2) fd]) (use u(3) in auto)
    have st: "log_rest s t" using u(5) i(7) ltx.rest_trans by blast
    note stk = log_rest_kfs[OF st]
    note same = file_cong[of t ip s, OF _ _ stk(1,5)]
    have bv: "bview t = bview s" "icache t ip = icache s ip" using i(5) u(4) stk(2) by simp_all
    note same = same[OF bv(2,1)]
    define dst' where "dst' = blit dst tot (b_data (bufs v i)) (off mod BSIZE) m"
    have "\<exists>t'. readi_loop ip dst' (off + m) n (tot + m) t =
        Ok (\<lambda>j. if tot + m \<le> j \<and> j < n then content t ip (off + m + (j - (tot + m))) else dst' j) t' \<and>
        log_tx W k t' \<and> held t' = {} \<and> bview t' = bview t \<and> log_rest t t'"
      unfolding m_def dst'_def[unfolded m_def]
      by (rule "1.IH"[OF True refl]) (use i u(3) same stk "1.prems" m in \<open>auto simp: m_def\<close>)
    then obtain t' where t': "readi_loop ip dst' (off + m) n (tot + m) t =
        Ok (\<lambda>j. if tot + m \<le> j \<and> j < n then content s ip (off + m + (j - (tot + m))) else dst' j) t'"
      "log_tx W k t'" "held t' = {}" "bview t' = bview t" "log_rest t t'" unfolding same by blast
    have d: "dst' j = content s ip (off + (j - tot))" if "tot \<le> j" "j < tot + m" for j
    proof -
      have "(off + (j - tot)) div BSIZE = off div BSIZE" "(off + (j - tot)) mod BSIZE = off mod BSIZE + (j - tot)"
        using that m(3) same_block[of off "j - tot"] by simp_all
      then show ?thesis using that by (simp add: dst'_def blit_def i(2) u(4) content_def)
    qed
    have "(\<lambda>j. if tot + m \<le> j \<and> j < n then content s ip (off + m + (j - (tot + m))) else dst' j) =
        (\<lambda>j. if tot \<le> j \<and> j < n then content s ip (off + (j - tot)) else dst j)"
      using m(2) d by (auto simp: fun_eq_iff dst'_def blit_def)
    moreover have "readi_loop ip dst off n tot s = readi_loop ip dst' (off + m) n (tot + m) t"
      using True u(1) i(1,3) wf_fileD(1)[OF "1.prems"(3)] su(2)
      by (subst readi_loop.simps)
        (simp add: Let_def kbind_apply kthen_apply kget_apply dst'_def m_def del: One_nat_def)
    ultimately show ?thesis using t' i(5) u(4) ltx.rest_trans[OF st t'(5)] by auto
  qed
qed

section \<open>Adding blocks to a file\<close>

lemma wf_map_upd:
  assumes "wf_map f ind" "b \<noteq> ind" "\<And>n. n < MAXFILE \<Longrightarrow> f n \<noteq> b"
  shows "wf_map (f(m := b)) ind"
proof -
  have "\<forall>k < MAXFILE. \<forall>n < MAXFILE. k \<noteq> n \<longrightarrow> (f(m := b)) k = (f(m := b)) n \<longrightarrow> (f(m := b)) n = 0"
  proof (intro allI impI)
    fix k n
    assume h: "k < MAXFILE" "n < MAXFILE" "k \<noteq> n" "(f(m := b)) k = (f(m := b)) n"
    then have "k \<noteq> m" "n \<noteq> m" using assms(3)[of k] assms(3)[of n] by auto
    then show "(f(m := b)) n = 0" using assms(1) h unfolding wf_map_def by auto
  qed
  then show ?thesis using assms(1,2) unfolding wf_map_def by auto
qed

lemma wf_map_indirect: "wf_map f ind \<Longrightarrow> n < MAXFILE \<Longrightarrow> f n \<noteq> 0 \<Longrightarrow> f n \<noteq> ind"
  unfolding wf_map_def by metis

lemma wf_map_ind:
  assumes "wf_map f ind" "\<And>n. n < MAXFILE \<Longrightarrow> f n \<noteq> b"
  shows "wf_map f b"
  using assms unfolding wf_map_def by blast

lemma wf_map_cong: "(\<And>n. n < MAXFILE \<Longrightarrow> f n = g n) \<Longrightarrow> wf_map f ind = wf_map g ind"
  unfolding wf_map_def by auto

text \<open>A block that may be added: a data block in use that no file has.\<close>

definition fresh :: "'a kfs_scheme \<Rightarrow> nat \<Rightarrow> nat \<Rightarrow> bool" where
  "fresh s ip b \<longleftrightarrow> b < sb_size (fs_sb s) \<and> in_use s b \<and> b \<noteq> 0 \<and>
     b \<notin> log_area s \<union> map_blocks s \<union> inode_blocks s \<union> file_blocks s ip"

lemma freshD:
  assumes "fresh s ip b"
  shows "n < MAXFILE \<Longrightarrow> fblock s ip n \<noteq> b" "indirect s ip \<noteq> b"
  using assms by (auto simp: fresh_def file_blocks_def)

text \<open>A file whose blocks become those of a new map, which adds the block \<open>b\<close>.\<close>

lemma wf_file_add:
  assumes wf: "wf_file s ip" and b: "fresh s ip b"
    and use: "\<And>c. c < sb_size (fs_sb s) \<Longrightarrow> in_use s c \<Longrightarrow> in_use t c" and st: "fs_sb t = fs_sb s" "log_area t = log_area s"
    "i_dev (icache t ip) = i_dev (icache s ip)" "i_inum (icache t ip) = i_inum (icache s ip)" "i_size (icache t ip) = i_size (icache s ip)"
    and map: "wf_map (fblock t ip) (indirect t ip)" "file_blocks t ip \<subseteq> insert b (file_blocks s ip)"
    and keep: "\<And>n. n < MAXFILE \<Longrightarrow> fblock s ip n \<noteq> 0 \<Longrightarrow> fblock t ip n \<noteq> 0"
  shows "wf_file t ip"
proof -
  note w = wf[unfolded wf_file_def]
  have m: "map_blocks t = map_blocks s" "inode_blocks t = inode_blocks s" "fsize t ip = fsize s ip"
    by (simp_all add: map_blocks_def inode_blocks_def fsize_def st)
  have "\<forall>k < fsize t ip. fblock t ip (k div BSIZE) \<noteq> 0"
    using wf_fileD(5,6)[OF wf] keep m(3) by auto
  moreover have "file_blocks t ip \<subseteq> {b. b < sb_size (fs_sb t) \<and> in_use t b}"
    using w map(2) b st use by (auto simp: fresh_def)
  moreover have "file_blocks t ip \<inter> (log_area t \<union> map_blocks t \<union> inode_blocks t) = {}"
    using w map(2) b st m by (auto simp: fresh_def)
  ultimately show ?thesis unfolding wf_file_def using w map(1) by (simp add: st m)
qed

lemma add_direct:
  fixes s :: "'a kfs_scheme"
  assumes wf: "wf_file s ip" and b: "fresh s ip b" and bn: "bn < NDIRECT" "fblock s ip bn = 0" and sz: "sb_size (fs_sb s) < 2 ^ 32"
  defines "t \<equiv> upd_inode ip (\<lambda>p. p\<lparr>i_addrs := (i_addrs p)(bn := of_nat b)\<rparr>) s"
  shows "fblock t ip = (fblock s ip)(bn := b)" "indirect t ip = indirect s ip" "wf_file t ip"
    "file_blocks t ip = insert b (file_blocks s ip)"
proof -
  have "b < 2 ^ 32" using b sz by (auto simp: fresh_def)
  then show f: "fblock t ip = (fblock s ip)(bn := b)" and i: "indirect t ip = indirect s ip"
    using bn(1) by (auto simp: fblock_def indirect_def t_def fun_eq_iff unat_of_nat32)
  have "bn < MAXFILE" "b \<noteq> 0" using bn(1) b by (simp_all add: fresh_def)
  then show fb: "file_blocks t ip = insert b (file_blocks s ip)"
    using bn(2) unfolding file_blocks_def f i by (auto simp: image_iff split: if_splits)
  show "wf_file t ip"
  proof (rule wf_file_add[OF wf b])
    show "wf_map (fblock t ip) (indirect t ip)"
      unfolding f i using wf[unfolded wf_file_def] freshD[OF b] by (intro wf_map_upd) auto
    show "fblock t ip n \<noteq> 0" if "n < MAXFILE" "fblock s ip n \<noteq> 0" for n using that bn(2) \<open>b \<noteq> 0\<close> by (auto simp: f)
  qed (simp_all add: t_def fb[unfolded t_def] fun_eq_iff)
qed

lemma le32_zeros: "(\<And>j. i \<le> j \<Longrightarrow> j < i + 4 \<Longrightarrow> d j = 0) \<Longrightarrow> le32 d i = 0"
  by (simp add: le32_def)

lemma add_indirect:
  fixes s :: "'a kfs_scheme"
  assumes wf: "wf_file s ip" and b: "fresh s ip b" and ind: "indirect s ip = 0" and z: "\<And>j. j < BSIZE \<Longrightarrow> bview s b j = 0"
    and sz: "sb_size (fs_sb s) < 2 ^ 32"
  defines "t \<equiv> upd_inode ip (\<lambda>p. p\<lparr>i_addrs := (i_addrs p)(NDIRECT := of_nat b)\<rparr>) s"
  shows "n < MAXFILE \<Longrightarrow> fblock t ip n = fblock s ip n" "indirect t ip = b" "wf_file t ip"
    "file_blocks t ip = insert b (file_blocks s ip)"
proof -
  have "b < 2 ^ 32" using b sz by (auto simp: fresh_def)
  then show i: "indirect t ip = b" by (simp add: indirect_def t_def unat_of_nat32)
  have f: "fblock t ip n = fblock s ip n" if n: "n < MAXFILE" for n
  proof (cases "n < NDIRECT")
    case False
    have "n - NDIRECT < NINDIRECT" using n False by arith
    then have "le32 (bview s b) (4 * (n - NDIRECT)) = 0" by (intro le32_zeros z) simp
    then show ?thesis using False ind i by (simp add: fblock_def) (simp add: t_def)
  qed (simp add: fblock_def t_def)
  then show "n < MAXFILE \<Longrightarrow> fblock t ip n = fblock s ip n" .
  have "fblock t ip ` {..<MAXFILE} = fblock s ip ` {..<MAXFILE}" using f by (intro image_cong) auto
  moreover have "b \<noteq> 0" using b by (simp add: fresh_def)
  ultimately show fb: "file_blocks t ip = insert b (file_blocks s ip)" unfolding file_blocks_def i ind by auto
  show "wf_file t ip"
  proof (rule wf_file_add[OF wf b])
    have "wf_map (fblock s ip) (indirect s ip)" using wf[unfolded wf_file_def] by blast
    then have "wf_map (fblock s ip) b" by (rule wf_map_ind) (rule freshD(1)[OF b])
    then show "wf_map (fblock t ip) (indirect t ip)" unfolding i using wf_map_cong[of "fblock t ip" "fblock s ip" b] f by blast
    show "fblock t ip n \<noteq> 0" if "n < MAXFILE" "fblock s ip n \<noteq> 0" for n using that f by simp
  qed (simp_all add: t_def fb[unfolded t_def])
qed

lemma add_entry:
  fixes s t :: "'a kfs_scheme"
  assumes wf: "wf_file s ip" and b: "fresh s ip b" and ind: "indirect s ip \<noteq> 0" and bn: "NDIRECT \<le> bn" "bn < MAXFILE" "fblock s ip bn = 0"
    and sz: "sb_size (fs_sb s) < 2 ^ 32"
    and t: "bview t = (bview s)(indirect s ip := put32 (bview s (indirect s ip)) (4 * (bn - NDIRECT)) (of_nat b))"
    "icache t = icache s" "fs_sb t = fs_sb s" "log_area t = log_area s"
  shows "n < MAXFILE \<Longrightarrow> fblock t ip n = (if n = bn then b else fblock s ip n)" "indirect t ip = indirect s ip" "wf_file t ip"
    "file_blocks t ip = insert b (file_blocks s ip)" "c < sb_size (fs_sb s) \<Longrightarrow> in_use t c = in_use s c"
proof -
  have b32: "b < 2 ^ 32" using b sz by (auto simp: fresh_def)
  show i: "indirect t ip = indirect s ip" by (simp add: indirect_def t)
  have f: "fblock t ip n = (if n = bn then b else fblock s ip n)" if n: "n < MAXFILE" for n
  proof (cases "n < NDIRECT")
    case False
    have "n = bn \<or> 4 * (n - NDIRECT) + 4 \<le> 4 * (bn - NDIRECT) \<or> 4 * (bn - NDIRECT) + 4 \<le> 4 * (n - NDIRECT)"
      using False bn(1) by arith
    then show ?thesis using False bn(1) ind b32 by (auto simp: fblock_def i t unat_of_nat32)
  next
    case True
    then show ?thesis using bn(1) by (auto simp: fblock_def t)
  qed
  then show "n < MAXFILE \<Longrightarrow> fblock t ip n = (if n = bn then b else fblock s ip n)" .
  have b0: "b \<noteq> 0" using b by (simp add: fresh_def)
  have "fblock t ip ` {..<MAXFILE} = ((fblock s ip)(bn := b)) ` {..<MAXFILE}" using f by (intro image_cong) auto
  then show fb: "file_blocks t ip = insert b (file_blocks s ip)"
    using bn(2,3) b0 unfolding file_blocks_def i by (auto simp: image_iff split: if_splits)
  have "indirect s ip \<notin> map_blocks s" using wf[unfolded wf_file_def] wf_fileD(3)[OF wf ind] by blast
  then show use: "in_use t c = in_use s c" if "c < sb_size (fs_sb s)" for c
  proof -
    have "BBLOCK c (fs_sb s) \<noteq> indirect s ip"  using \<open>indirect s ip \<notin> map_blocks s\<close> map_block[OF that] by auto
    then show ?thesis by (simp add: in_use_def t)
  qed
  show "wf_file t ip"
  proof (rule wf_file_add[OF wf b])
    have "wf_map (fblock s ip) (indirect s ip)" using wf[unfolded wf_file_def] by blast
    then have "wf_map ((fblock s ip)(bn := b)) (indirect s ip)" using freshD[OF b] by (intro wf_map_upd) auto
    then show "wf_map (fblock t ip) (indirect t ip)"
      unfolding i using wf_map_cong[of "fblock t ip" "(fblock s ip)(bn := b)"] f by auto
    show "fblock t ip n \<noteq> 0" if "n < MAXFILE" "fblock s ip n \<noteq> 0" for n using that f b0 by simp
    show "in_use t c" if "c < sb_size (fs_sb s)" "in_use s c" for c using that use by simp
  qed (simp_all add: t fb)
qed

section \<open>Allocation for a file\<close>

definition free_count :: "'a kfs_scheme \<Rightarrow> nat" where
  "free_count s = card {b. b < sb_size (fs_sb s) \<and> \<not> in_use s b}"

lemma balloc_file:
  fixes s :: "'a kfs_scheme"
  assumes tx: "log_tx W (Suc k) s" and ok: "fs_ok s" and wf: "wf_file s ip" and W: "map_blocks s \<subseteq> W"
    and h: "card (held s) \<le> 1" "held_blocks s \<subseteq> file_blocks s ip" and fr: "0 < free_count s"
  obtains b t where "balloc 1 s = Ok b t" "log_tx (insert b W) k t" "held t = held s"
    "\<forall>j \<in> held s. b_blockno (bufs t j) = b_blockno (bufs s j) \<and> b_data (bufs t j) = b_data (bufs s j)" "log_rest s t"
    "fresh t ip b" "\<not> in_use s b" "fs_ok t" "wf_file t ip" "fblock t ip = fblock s ip" "indirect t ip = indirect s ip"
    "\<forall>j < BSIZE. bview t b j = 0" "\<forall>c. c \<noteq> b \<longrightarrow> c \<notin> map_blocks s \<longrightarrow> bview t c = bview s c"
    "\<forall>c < sb_size (fs_sb s). in_use t c \<longleftrightarrow> c = b \<or> in_use s c" "free_count t = free_count s - 1"
proof -
  note O = ok[unfolded fs_ok_def] and w = wf[unfolded wf_file_def]
  have "{b. b < sb_size (fs_sb s) \<and> \<not> in_use s b} \<noteq> {}" using fr unfolding free_count_def by (metis card.empty less_irrefl)
  then obtain b0 where b0: "b0 < sb_size (fs_sb s)" "\<not> in_use s b0" by blast
  have "can_alloc W (Suc k) s"
    unfolding can_alloc_def using tx W h O w by blast
  from balloc_run[OF this b0] obtain b t where bt: "balloc 1 s = Ok b t" "allocated b W k s t" by blast
  note A = bt(2)[unfolded allocated_def]
  have r: "log_rest s t" using A by blast
  note rk = log_rest_kfs[OF r]
  have b: "b < sb_size (fs_sb s)" "\<not> in_use s b" using A by auto
  then have nb: "b \<notin> log_area s \<union> map_blocks s \<union> inode_blocks s" "b \<noteq> 0" "b \<notin> file_blocks s ip" using O w by auto
  have use: "in_use t c \<longleftrightarrow> c = b \<or> in_use s c" if "c < sb_size (fs_sb s)" for c
    by (rule in_use_allocated[OF bt(2) W _ that]) (use nb in auto)
  have v: "bview t c = bview s c" if "c \<noteq> b" "c \<notin> map_blocks s" for c
    using that b(1) A by (auto simp: map_blocks_def)
  have m: "map_blocks t = map_blocks s" "inode_blocks t = inode_blocks s" by (simp_all add: map_blocks_def inode_blocks_def rk)
  have i: "indirect t ip = indirect s ip" by (simp add: indirect_def rk)
  have "bview t (indirect s ip) = bview s (indirect s ip)" if "indirect s ip \<noteq> 0"
    using wf_fileD(3)[OF wf that] nb(3) w by (intro v) auto
  then have f: "fblock t ip = fblock s ip" by (intro ext) (simp add: fblock_def i rk)
  have fb: "file_blocks t ip = file_blocks s ip" by (simp add: file_blocks_def f i)
  show thesis
  proof (rule that[OF bt(1)])
    show "log_tx (insert b W) k t" "held t = held s" "log_rest s t" using A by auto
    show "\<forall>j \<in> held s. b_blockno (bufs t j) = b_blockno (bufs s j) \<and> b_data (bufs t j) = b_data (bufs s j)" using A by blast
    show "\<not> in_use s b" by (fact b)
    show "fresh t ip b" using b(1) nb use unfolding fresh_def fb m rk by simp
    show "fs_ok t" using O use[of 0] b(1) unfolding fs_ok_def m rk by (auto simp: use)
    show "wf_file t ip"
      using w use unfolding wf_file_def m rk fb f i fsize_def by auto
    show "fblock t ip = fblock s ip" "indirect t ip = indirect s ip" by (fact f i)+
    show "\<forall>j < BSIZE. bview t b j = 0" using A by (simp add: zeroed_def)
    show "\<forall>c. c \<noteq> b \<longrightarrow> c \<notin> map_blocks s \<longrightarrow> bview t c = bview s c" using v by blast
    show "\<forall>c < sb_size (fs_sb s). in_use t c \<longleftrightarrow> c = b \<or> in_use s c" using use by blast
    have "{c. c < sb_size (fs_sb t) \<and> \<not> in_use t c} = {c. c < sb_size (fs_sb s) \<and> \<not> in_use s c} - {b}"
      using use rk by auto
    then show "free_count t = free_count s - 1" unfolding free_count_def using b by (simp add: card_Diff_singleton)
  qed
qed

section \<open>Growing a file\<close>

text \<open>
  What happens to the rest of the system while blocks are added to a file and written: everything in use that belongs
  neither to the map nor to the file stays as it is, and the file only gets blocks that were free.
\<close>

definition grown :: "nat \<Rightarrow> 'a kfs_scheme \<Rightarrow> 'a kfs_scheme \<Rightarrow> bool" where
  "grown ip s t \<longleftrightarrow> fs_sb t = fs_sb s \<and> kfs.more t = kfs.more s \<and> disksize t = disksize s \<and> log_area t = log_area s \<and> woken s t \<and>
     (\<forall>j. j \<noteq> ip \<longrightarrow> icache t j = icache s j) \<and> icache t ip = (icache s ip)\<lparr>i_addrs := i_addrs (icache t ip)\<rparr> \<and>
     (\<forall>c < sb_size (fs_sb s). in_use s c \<longrightarrow> in_use t c) \<and>
     (\<forall>c < sb_size (fs_sb s). in_use s c \<and> c \<notin> map_blocks s \<and> c \<notin> file_blocks s ip \<longrightarrow> bview t c = bview s c) \<and>
     file_blocks s ip \<subseteq> file_blocks t ip \<and> (\<forall>b \<in> file_blocks t ip. b \<in> file_blocks s ip \<or> b < sb_size (fs_sb s) \<and> \<not> in_use s b)"

lemma grown_fields:
  assumes "grown ip s t"
  shows "fs_sb t = fs_sb s" "kfs.more t = kfs.more s" "disksize t = disksize s" "log_area t = log_area s" "woken s t"
    "j \<noteq> ip \<Longrightarrow> icache t j = icache s j" "i_dev (icache t ip) = i_dev (icache s ip)" "i_inum (icache t ip) = i_inum (icache s ip)"
    "i_size (icache t ip) = i_size (icache s ip)" "i_type (icache t ip) = i_type (icache s ip)"
    "map_blocks t = map_blocks s" "inode_blocks t = inode_blocks s" "fsize t ip = fsize s ip"
    "icache t ip = (icache s ip)\<lparr>i_addrs := i_addrs (icache t ip)\<rparr>"
proof -
  have i: "icache t ip = (icache s ip)\<lparr>i_addrs := i_addrs (icache t ip)\<rparr>" and sb: "fs_sb t = fs_sb s"
    using assms by (auto simp: grown_def)
  show "i_dev (icache t ip) = i_dev (icache s ip)" "i_inum (icache t ip) = i_inum (icache s ip)"
    "i_size (icache t ip) = i_size (icache s ip)" "i_type (icache t ip) = i_type (icache s ip)"
    by (subst i, simp)+
  then show "fsize t ip = fsize s ip" by (simp add: fsize_def)
  show "map_blocks t = map_blocks s" "inode_blocks t = inode_blocks s" by (simp_all add: map_blocks_def inode_blocks_def sb)
qed (use assms in \<open>auto simp: grown_def\<close>)

lemma grown_trans:
  assumes "grown ip s t" "grown ip t u"
  shows "grown ip s u"
proof -
  note f = grown_fields[OF assms(1)] and g = grown_fields[OF assms(2)]
  note s = assms(1)[unfolded grown_def] and t = assms(2)[unfolded grown_def]
  have use: "\<forall>c < sb_size (fs_sb s). in_use s c \<longrightarrow> in_use u c" using s t f(1) by auto
  have "bview u c = bview s c" if c: "c < sb_size (fs_sb s)" "in_use s c" "c \<notin> map_blocks s" "c \<notin> file_blocks s ip" for c
  proof -
    have "in_use t c" "c \<notin> file_blocks t ip" "bview t c = bview s c" using c s by auto
    then show ?thesis using t c f(1,11) by auto
  qed
  moreover have "b \<in> file_blocks s ip \<or> b < sb_size (fs_sb s) \<and> \<not> in_use s b" if "b \<in> file_blocks u ip" for b
  proof (cases "b \<in> file_blocks t ip")
    case True
    then show ?thesis using s by blast
  next
    case False
    then have "b < sb_size (fs_sb s)" "\<not> in_use t b" using that t f(1) by auto
    then show ?thesis using s by blast
  qed
  moreover have "icache u ip = (icache s ip)\<lparr>i_addrs := i_addrs (icache u ip)\<rparr>"
    by (subst g(14), subst f(14)) simp
  moreover have "file_blocks s ip \<subseteq> file_blocks u ip" using s t by blast
  moreover have "icache u j = icache s j" if "j \<noteq> ip" for j using f(6)[OF that] g(6)[OF that] by simp
  ultimately show ?thesis unfolding grown_def using use f(1-4) g(1-4) woken_trans[OF f(5) g(5)] by simp
qed

lemma grownI:
  assumes "fs_sb t = fs_sb s" "kfs.more t = kfs.more s" "disksize t = disksize s" "log_area t = log_area s" "woken s t"
    "\<And>j. j \<noteq> ip \<Longrightarrow> icache t j = icache s j" "icache t ip = (icache s ip)\<lparr>i_addrs := i_addrs (icache t ip)\<rparr>"
    "\<And>c. c < sb_size (fs_sb s) \<Longrightarrow> in_use s c \<Longrightarrow> in_use t c"
    "\<And>c. c < sb_size (fs_sb s) \<Longrightarrow> in_use s c \<Longrightarrow> c \<notin> map_blocks s \<Longrightarrow> c \<notin> file_blocks s ip \<Longrightarrow> bview t c = bview s c"
    "file_blocks t ip = insert b (file_blocks s ip)" "b \<in> file_blocks s ip \<or> b < sb_size (fs_sb s) \<and> \<not> in_use s b"
  shows "grown ip s t"
  unfolding grown_def using assms by auto

text \<open>A file inside an operation that has room to log the blocks of \<open>W\<close> and \<open>k\<close> more.\<close>

definition writing :: "nat set \<Rightarrow> nat \<Rightarrow> 'a kfs_scheme \<Rightarrow> nat \<Rightarrow> bool" where
  "writing W k s ip \<longleftrightarrow> log_tx W k s \<and> held s = {} \<and> fs_ok s \<and> wf_file s ip \<and> map_blocks s \<subseteq> W \<and>
     (indirect s ip \<noteq> 0 \<longrightarrow> indirect s ip \<in> W)"

lemma fs_ok_cong:
  assumes "fs_sb t = fs_sb s" "disksize t = disksize s" "log_area t = log_area s"
    "\<And>c. c < sb_size (fs_sb s) \<Longrightarrow> in_use t c = in_use s c" "fs_ok s" "0 < sb_size (fs_sb s)"
  shows "fs_ok t"
proof -
  have "map_blocks t = map_blocks s" "inode_blocks t = inode_blocks s" by (simp_all add: map_blocks_def inode_blocks_def assms(1))
  then show ?thesis using assms by (simp add: fs_ok_def)
qed

lemma upd_inode_content [simp]:
  "fs_ok (upd_inode i f s) = fs_ok s" "inode_blocks (upd_inode i f s) = inode_blocks s" "free_count (upd_inode i f s) = free_count s"
  by (simp_all add: fs_ok_def inode_blocks_def free_count_def)

lemma free_count_pos: "0 < free_count s \<Longrightarrow> 0 < sb_size (fs_sb s)"
  by (rule ccontr) (simp add: free_count_def)

lemma free_count_cong:
  assumes "fs_sb t = fs_sb s" "\<And>c. c < sb_size (fs_sb s) \<Longrightarrow> in_use t c = in_use s c"
  shows "free_count t = free_count s"
proof -
  have "{b. b < sb_size (fs_sb t) \<and> \<not> in_use t b} = {b. b < sb_size (fs_sb s) \<and> \<not> in_use s b}" using assms by auto
  then show ?thesis by (simp add: free_count_def)
qed

lemma bmap_direct:
  fixes s :: "'a kfs_scheme"
  assumes w: "writing W (Suc k) s ip" and bn: "bn < NDIRECT" "fblock s ip bn = 0" and fr: "0 < free_count s"
  obtains b t where "bmap ip bn s = Ok b t" "writing (insert b W) k t ip" "fblock t ip = (fblock s ip)(bn := b)" "b \<noteq> 0"
    "indirect t ip = indirect s ip" "grown ip s t" "\<not> in_use s b" "b < sb_size (fs_sb s)"
    "\<forall>c. c \<noteq> b \<longrightarrow> c \<notin> map_blocks s \<longrightarrow> bview t c = bview s c" "free_count t = free_count s - 1"
proof -
  have W: "log_tx W (Suc k) s" "held s = {}" "fs_ok s" "wf_file s ip" "map_blocks s \<subseteq> W"
    "indirect s ip \<noteq> 0 \<Longrightarrow> indirect s ip \<in> W" using w by (auto simp: writing_def)
  have h: "card (held s) \<le> 1" "held_blocks s \<subseteq> file_blocks s ip" using W(2) by (simp_all add: held_blocks_def)
  obtain b u where u: "balloc 1 s = Ok b u" "log_tx (insert b W) k u" "held u = held s" "log_rest s u"
    "fresh u ip b" "\<not> in_use s b" "fs_ok u" "wf_file u ip" "fblock u ip = fblock s ip" "indirect u ip = indirect s ip"
    "\<forall>c. c \<noteq> b \<longrightarrow> c \<notin> map_blocks s \<longrightarrow> bview u c = bview s c"
    "\<forall>c < sb_size (fs_sb s). in_use u c \<longleftrightarrow> c = b \<or> in_use s c" "free_count u = free_count s - 1"
    by (rule balloc_file[OF W(1,3,4,5) h fr])
  note rk = log_rest_kfs[OF u(4)]
  let ?t = "upd_inode ip (\<lambda>p. p\<lparr>i_addrs := (i_addrs p)(bn := of_nat b)\<rparr>) u"
  have bs: "b < sb_size (fs_sb s)" "b \<noteq> 0" using u(5) rk(1) by (simp_all add: fresh_def)
  have "fblock u ip bn = 0" "sb_size (fs_sb u) < 2 ^ 32" using u(9) bn(2) u(7) by (simp_all add: fs_ok_def)
  note A = add_direct[OF u(8,5) bn(1) this]
  have fb: "file_blocks u ip = file_blocks s ip" by (simp add: file_blocks_def u(9,10))
  have dev: "i_dev (icache s ip) = 1" using wf_fileD(1)[OF W(4)] .
  have "unat (i_addrs (icache s ip) bn) = 0" using bn by (simp add: fblock_def)
  then have "bmap ip bn s = Ok b ?t"
    using bn(1) u(1) dev by (simp add: bmap_def kbind_apply kthen_apply kget_apply kmod_apply kret_apply del: One_nat_def)
  then show thesis
  proof (rule that)
    show "writing (insert b W) k ?t ip"
      unfolding writing_def using u(2,3,7) W(2,5,6) A(2,3) u(10) rk by (auto simp: map_blocks_def)
    show "fblock ?t ip = (fblock s ip)(bn := b)" "indirect ?t ip = indirect s ip" using A(1,2) u(9,10) by simp_all
    show "grown ip s ?t"
    proof (rule grownI[where b = b])
      show "file_blocks ?t ip = insert b (file_blocks s ip)" using A(4) fb by simp
      show "in_use ?t c" if "c < sb_size (fs_sb s)" "in_use s c" for c using that u(12) by simp
      show "bview ?t c = bview s c" if "in_use s c" "c \<notin> map_blocks s" for c using that u(6,11) by auto
    qed (use rk u(6) bs in \<open>auto simp: log_area_def intro: woken_trans[OF rk(6)]\<close>)
    show "\<forall>c. c \<noteq> b \<longrightarrow> c \<notin> map_blocks s \<longrightarrow> bview ?t c = bview s c" using u(11) by simp
    show "free_count ?t = free_count s - 1" using u(13) by simp
  qed (use bs u(6) in auto)
qed

text \<open>\<^verbatim>\<open>bmap\<close> from the point where the indirect block \<open>addr\<close> is known.\<close>

definition bmap_entry :: "nat \<Rightarrow> nat \<Rightarrow> nat \<Rightarrow> ('a kfs_scheme, nat) km" where
  "bmap_entry dev bn addr =
     kbind (bread dev addr) (\<lambda>bp.
     kbind (kget (\<lambda>s. unat (le32 (b_data (bufs s bp)) (4 * (bn - NDIRECT))))) (\<lambda>addr1.
     kbind (if addr1 = 0 then
              kbind (balloc dev) (\<lambda>addr.
              kthen (kmod (upd_data bp (\<lambda>d. put32 d (4 * (bn - NDIRECT)) (of_nat addr))))
             (kthen (log_write bp)
              (kret addr)))
            else kret addr1) (\<lambda>addr.
     kthen (brelse bp)
     (kret addr))))"

lemma bmap_indirect_eq:
  assumes "NDIRECT \<le> bn" "bn < MAXFILE" "i_dev (icache s ip) = 1"
  shows "bmap ip bn s = (if indirect s ip = 0 then
      kbind (balloc 1) (\<lambda>addr. kthen (kmod (upd_inode ip (\<lambda>p. p\<lparr>i_addrs := (i_addrs p)(NDIRECT := of_nat addr)\<rparr>))) (bmap_entry 1 bn addr)) s
    else bmap_entry 1 bn (indirect s ip) s)"
proof -
  have "\<not> bn < NDIRECT" "bn - NDIRECT < NINDIRECT" using assms(1,2) by arith+
  then show ?thesis
    by (auto simp: bmap_def bmap_entry_def indirect_def kbind_apply kthen_apply kget_apply kmod_apply kret_apply assms(3)
      simp del: One_nat_def split: outcome.splits)
qed

lemma bmap_entry_alloc:
  fixes s :: "'a kfs_scheme"
  assumes w: "writing W (Suc k) s ip" and ind: "indirect s ip \<noteq> 0" and bn: "NDIRECT \<le> bn" "bn < MAXFILE" "fblock s ip bn = 0"
    and fr: "0 < free_count s"
  obtains b t where "bmap_entry 1 bn (indirect s ip) s = Ok b t" "writing (insert b W) k t ip" "b \<noteq> 0"
    "\<forall>n < MAXFILE. fblock t ip n = (if n = bn then b else fblock s ip n)"
    "indirect t ip = indirect s ip" "grown ip s t" "\<not> in_use s b" "b < sb_size (fs_sb s)"
    "\<forall>c. c \<noteq> b \<longrightarrow> c \<noteq> indirect s ip \<longrightarrow> c \<notin> map_blocks s \<longrightarrow> bview t c = bview s c" "free_count t = free_count s - 1"
proof -
  have W: "log_tx W (Suc k) s" "held s = {}" "fs_ok s" "wf_file s ip" "map_blocks s \<subseteq> W" "indirect s ip \<in> W"
    using w ind by (auto simp: writing_def)
  have ib: "indirect s ip \<in> file_blocks s ip" by (rule wf_fileD(3)[OF W(4) ind])
  have id: "indirect s ip < disksize s" by (rule ltx.tx_blocks[OF W(1,6)])
  from ltx.rd_tx[OF W(1) id] W(2) obtain i u where u: "bread 1 (indirect s ip) s = Ok i u" "log_tx W (Suc k) u" "bview u = bview s"
    "held u = {i}" "b_blockno (bufs u i) = indirect s ip" "b_data (bufs u i) = bview s (indirect s ip)" "log_rest s u" by auto
  note su = log_rest_kfs[OF u(7)]
  note cu = file_cong[of u ip s, OF _ u(3) su(1,5), unfolded su(2), OF refl]
  have fu: "fs_ok u" "free_count u = free_count s" "map_blocks u \<subseteq> W"
    using W(3,5) su cu by (simp_all add: fs_ok_def free_count_def)
  have h: "card (held u) \<le> 1" "held_blocks u \<subseteq> file_blocks u ip" using ib by (simp_all add: u(4,5) held_blocks_def cu)
  have wu: "wf_file u ip" and f0: "0 < free_count u" using W(4) fr cu fu(2) by simp_all
  obtain b v where v: "balloc 1 u = Ok b v" "log_tx (insert b W) k v" "held v = held u"
    "\<forall>j \<in> held u. b_blockno (bufs v j) = b_blockno (bufs u j) \<and> b_data (bufs v j) = b_data (bufs u j)" "log_rest u v"
    "fresh v ip b" "\<not> in_use u b" "fs_ok v" "wf_file v ip" "fblock v ip = fblock u ip" "indirect v ip = indirect u ip"
    "\<forall>c. c \<noteq> b \<longrightarrow> c \<notin> map_blocks u \<longrightarrow> bview v c = bview u c"
    "\<forall>c < sb_size (fs_sb u). in_use v c \<longleftrightarrow> c = b \<or> in_use u c" "free_count v = free_count u - 1"
    by (rule balloc_file[OF u(2) fu(1) wu fu(3) h f0])
  note uv = log_rest_kfs[OF v(5)]
  let ?f = "\<lambda>d. put32 d (4 * (bn - NDIRECT)) (of_nat b)"
  have iv: "i \<in> held v" "b_blockno (bufs v i) = indirect s ip" "b_data (bufs v i) = bview v (indirect s ip)"
    using v(3,4) u(4,5) ltx.busy_data[OF v(2), of i] by auto
  from ltx.lw_tx[OF v(2) iv(1), of ?f] iv(2) W(6) obtain x where x: "log_write i (upd_data i ?f v) = Ok () x" "log_tx (insert b W) k x"
    "bview x = (bview v)(indirect s ip := ?f (bview v (indirect s ip)))" "held x = held v" "log_rest v x"
    using iv(3) by auto
  from ltx.rel_tx[OF x(2), of i] x(4) iv(1) obtain t where t: "brelse i x = Ok () t" "log_tx (insert b W) k t" "bview t = bview x"
    "held t = held x - {i}" "log_rest x t" by auto
  have vt: "log_rest v t" using x(5) t(5) ltx.rest_trans by blast
  note kt = log_rest_kfs[OF vt]
  have iveq: "indirect v ip = indirect s ip" using v(11) cu(1) by simp
  have bt: "bview t = (bview v)(indirect v ip := put32 (bview v (indirect v ip)) (4 * (bn - NDIRECT)) (of_nat b))"
    unfolding iveq using t(3) x(3) by simp
  have pre: "indirect v ip \<noteq> 0" "fblock v ip bn = 0" "sb_size (fs_sb v) < 2 ^ 32"
    using ind iveq bn(3) v(8,10) cu(2) by (simp_all add: fs_ok_def)
  note A = add_entry[OF v(9,6) pre(1) bn(1,2) pre(2,3) bt kt(2,1,5)]
  have bs: "b < sb_size (fs_sb s)" "b \<noteq> 0" "\<not> in_use s b" using v(6,7) su(1) uv(1) cu(6) by (simp_all add: fresh_def)
  have fbv: "file_blocks v ip = file_blocks s ip" by (simp add: file_blocks_def v(10,11) cu)
  have views: "bview t c = bview s c" if "c \<noteq> b" "c \<noteq> indirect s ip" "c \<notin> map_blocks s" for c
    using that bt v(12) cu(7) u(3) iveq by simp
  have use: "in_use t c = in_use v c" if "c < sb_size (fs_sb s)" for c using A(5)[of c] that su uv by simp
  have le: "le32 (bview s (indirect s ip)) (4 * (bn - NDIRECT)) = 0" using bn(1,3) ind by (simp add: fblock_def unat_eq_0)
  have run: "bmap_entry 1 bn (indirect s ip) s = Ok b t"
    by (simp add: bmap_entry_def kbind_apply kthen_apply kget_apply kmod_apply kret_apply u(1,6) le v(1) x(1) t(1) del: One_nat_def)
  show thesis
  proof (rule that[OF run])
    have "fs_ok t" using fs_ok_cong[OF kt(1,4,5) _ v(8)] use su(1) uv(1) bs(1) by simp
    then show "writing (insert b W) k t ip"
      unfolding writing_def using t(2,4) x(4) v(3) u(4) A(2,3) W(5,6) iveq kt uv su by (auto simp: map_blocks_def)
    show "\<forall>n < MAXFILE. fblock t ip n = (if n = bn then b else fblock s ip n)" using A(1) v(10) cu(2) by simp
    show "indirect t ip = indirect s ip" using A(2) iveq by simp
    show "grown ip s t"
    proof (rule grownI[where b = b])
      show "file_blocks t ip = insert b (file_blocks s ip)" using A(4) fbv by simp
      show "in_use t c" if "c < sb_size (fs_sb s)" "in_use s c" for c using that use v(13) su(1) cu(6) by simp
      show "bview t c = bview s c" if "in_use s c" "c \<notin> map_blocks s" "c \<notin> file_blocks s ip" for c
        using that bs(3) ib by (intro views) auto
      show "woken s t" using su(6) uv(6) kt(6) woken_trans by blast
    qed (use su uv kt bs in auto)
    show "\<forall>c. c \<noteq> b \<longrightarrow> c \<noteq> indirect s ip \<longrightarrow> c \<notin> map_blocks s \<longrightarrow> bview t c = bview s c" using views by blast
    have "free_count t = free_count v" using free_count_cong[OF kt(1)] use su(1) uv(1) by simp
    then show "free_count t = free_count s - 1" using v(14) fu(2) by simp
  qed (use bs in auto)
qed

lemma log_tx_mono: "log_tx W k s \<Longrightarrow> j \<le> k \<Longrightarrow> log_tx W j s"
  by (auto simp: log_tx_def)

lemma writing_mono: "writing W k s ip \<Longrightarrow> j \<le> k \<Longrightarrow> writing W j s ip"
  using log_tx_mono by (auto simp: writing_def)

text \<open>Allocating the indirect block.\<close>

abbreviation (input) set_indirect :: "nat \<Rightarrow> nat \<Rightarrow> 'a kfs_scheme \<Rightarrow> 'a kfs_scheme" where
  "set_indirect ip b \<equiv> upd_inode ip (\<lambda>p. p\<lparr>i_addrs := (i_addrs p)(NDIRECT := of_nat b)\<rparr>)"

lemma balloc_indirect:
  fixes s :: "'a kfs_scheme"
  assumes w: "writing W (Suc k) s ip" and ind: "indirect s ip = 0" and fr: "0 < free_count s"
  obtains b u where "balloc 1 s = Ok b u"
    "writing (insert b W) k (set_indirect ip b u) ip"
    "\<forall>n < MAXFILE. fblock (set_indirect ip b u) ip n = fblock s ip n" "indirect (set_indirect ip b u) ip = b" "b \<noteq> 0" "grown ip s (set_indirect ip b u)" "\<not> in_use s b"
    "\<forall>c. c \<noteq> b \<longrightarrow> c \<notin> map_blocks s \<longrightarrow> bview u c = bview s c" "free_count (set_indirect ip b u) = free_count s - 1"
proof -
  have W: "log_tx W (Suc k) s" "held s = {}" "fs_ok s" "wf_file s ip" "map_blocks s \<subseteq> W" using w by (auto simp: writing_def)
  have h: "card (held s) \<le> 1" "held_blocks s \<subseteq> file_blocks s ip" using W(2) by (simp_all add: held_blocks_def)
  obtain b u where u: "balloc 1 s = Ok b u" "log_tx (insert b W) k u" "held u = held s" "log_rest s u"
    "fresh u ip b" "\<not> in_use s b" "fs_ok u" "wf_file u ip" "fblock u ip = fblock s ip" "indirect u ip = indirect s ip"
    "\<forall>j < BSIZE. bview u b j = 0" "\<forall>c. c \<noteq> b \<longrightarrow> c \<notin> map_blocks s \<longrightarrow> bview u c = bview s c"
    "\<forall>c < sb_size (fs_sb s). in_use u c \<longleftrightarrow> c = b \<or> in_use s c" "free_count u = free_count s - 1"
    by (rule balloc_file[OF W(1,3,4,5) h fr])
  note rk = log_rest_kfs[OF u(4)]
  let ?v = "set_indirect ip b u"
  have bs: "b < sb_size (fs_sb s)" "b \<noteq> 0" using u(5) rk(1) by (simp_all add: fresh_def)
  have pre: "indirect u ip = 0" "sb_size (fs_sb u) < 2 ^ 32" using u(7,10) ind by (simp_all add: fs_ok_def)
  note A = add_indirect[OF u(8,5) pre(1) _ pre(2)]
  have z: "\<And>j. j < BSIZE \<Longrightarrow> bview u b j = 0" using u(11) by blast
  note A = A[OF z]
  have fb: "file_blocks u ip = file_blocks s ip" by (simp add: file_blocks_def u(9,10))
  show thesis
  proof (rule that[OF u(1)])
    show "writing (insert b W) k ?v ip"
      unfolding writing_def using u(2,3,7) W(2,5) A(2,3) rk by (auto simp: map_blocks_def)
    show "\<forall>n < MAXFILE. fblock ?v ip n = fblock s ip n" using A(1) u(9) by simp
    show "indirect ?v ip = b" by (rule A(2))
    show "grown ip s ?v"
    proof (rule grownI[where b = b])
      show "file_blocks ?v ip = insert b (file_blocks s ip)" using A(4) fb by simp
      show "in_use ?v c" if "c < sb_size (fs_sb s)" "in_use s c" for c using that u(13) by simp
      show "bview ?v c = bview s c" if "in_use s c" "c \<notin> map_blocks s" for c using that u(6,12) by auto
    qed (use rk u(6) bs in \<open>auto simp: log_area_def intro: woken_trans[OF rk(6)]\<close>)
    show "free_count ?v = free_count s - 1" using u(14) by simp
  qed (use bs u(6,12) in auto)
qed

text \<open>
  \<^verbatim>\<open>bmap\<close> in an operation that has room for one more block, and one for the indirect block if there is none yet.
\<close>

abbreviation (input) no_indirect :: "'a kfs_scheme \<Rightarrow> nat \<Rightarrow> nat" where
  "no_indirect s ip \<equiv> (if indirect s ip = 0 then 1 else 0)"

lemma grown_same:
  assumes "log_rest s t" "bview t = bview s"
  shows "grown ip s t"
proof -
  note rk = log_rest_kfs[OF assms(1)]
  note c = file_cong[of t ip s, OF _ assms(2) rk(1,5), unfolded rk(2), OF refl]
  show ?thesis unfolding grown_def using rk assms(2) c by simp
qed

lemma bmap_run:
  fixes s :: "'a kfs_scheme"
  assumes w: "writing W (Suc k + no_indirect s ip) s ip" and bn: "bn < MAXFILE" and fr: "Suc (no_indirect s ip) \<le> free_count s"
  obtains b W' t where "bmap ip bn s = Ok b t" "writing W' (k + no_indirect t ip) t ip" "W \<subseteq> W'" "b \<in> W'" "b \<noteq> 0"
    "\<forall>n < MAXFILE. fblock t ip n = (if n = bn then b else fblock s ip n)" "fblock s ip bn \<noteq> 0 \<longrightarrow> b = fblock s ip bn" "grown ip s t"
    "\<forall>n < MAXFILE. fblock s ip n \<noteq> 0 \<longrightarrow> bview t (fblock s ip n) = bview s (fblock s ip n)"
    "free_count s + no_indirect t ip \<le> Suc (free_count t + no_indirect s ip)"
proof -
  have W: "log_tx W (Suc k + no_indirect s ip) s" "held s = {}" "fs_ok s" "wf_file s ip" "map_blocks s \<subseteq> W"
    "indirect s ip \<noteq> 0 \<Longrightarrow> indirect s ip \<in> W" using w by (auto simp: writing_def)
  have used: "fblock s ip n \<in> file_blocks s ip" "in_use s (fblock s ip n)" "fblock s ip n \<notin> map_blocks s" "fblock s ip n \<noteq> indirect s ip"
    if "n < MAXFILE" "fblock s ip n \<noteq> 0" for n
  proof -
    note f = wf_fileD(2)[OF W(4) that] and v = W(4)[unfolded wf_file_def]
    show "fblock s ip n \<in> file_blocks s ip" by (fact f)
    show "in_use s (fblock s ip n)" "fblock s ip n \<notin> map_blocks s" using f v by blast+
    have "wf_map (fblock s ip) (indirect s ip)" using v by blast
    then show "fblock s ip n \<noteq> indirect s ip" using that by (rule wf_map_indirect)
  qed
  consider (hit) "fblock s ip bn \<noteq> 0" | (direct) "fblock s ip bn = 0" "bn < NDIRECT"
    | (entry) "fblock s ip bn = 0" "NDIRECT \<le> bn" "indirect s ip \<noteq> 0" | (both) "fblock s ip bn = 0" "NDIRECT \<le> bn" "indirect s ip = 0"
    by (metis not_less)
  then show thesis
  proof cases
    case hit
    let ?b = "fblock s ip bn"
    have sd: "sb_size (fs_sb s) \<le> disksize s" using W(3) by (simp add: fs_ok_def)
    have b: "?b < disksize s" "?b \<notin> log_area s" using used(1)[OF bn hit] W(4) sd unfolding wf_file_def by auto
    have "log_tx (insert ?b W) (k + no_indirect s ip) s" using ltx.tx_grow[OF _ b] W(1) by simp
    then obtain t where t: "bmap ip bn s = Ok ?b t" "log_tx (insert ?b W) (k + no_indirect s ip) t" "held t = {}" "bview t = bview s" "log_rest s t"
      by (rule bmap_hit[OF _ W(2,4) sd bn hit])
    note rk = log_rest_kfs[OF t(5)]
    note c = file_cong[of t ip s, OF _ t(4) rk(1,5), unfolded rk(2), OF refl]
    have ni: "no_indirect t ip = no_indirect s ip" by (simp add: c)
    have "writing (insert ?b W) (k + no_indirect t ip) t ip"
      unfolding writing_def ni using t(2,3) W(3-6) rk c by (auto simp: fs_ok_def)
    then show thesis
    proof (rule that[OF t(1)])
      show "\<forall>n < MAXFILE. fblock t ip n = (if n = bn then ?b else fblock s ip n)" unfolding c by simp
      show "grown ip s t" by (rule grown_same[OF t(5,4)])
      have "free_count t = free_count s" by (rule free_count_cong[OF rk(1)]) (simp add: c)
      then show "free_count s + no_indirect t ip \<le> Suc (free_count t + no_indirect s ip)" unfolding ni by simp
    qed (use hit t(4) in auto)
  next
    case direct
    have "writing W (Suc (k + no_indirect s ip)) s ip" "0 < free_count s" using w fr by simp_all
    then obtain b t where t: "bmap ip bn s = Ok b t" "writing (insert b W) (k + no_indirect s ip) t ip" "fblock t ip = (fblock s ip)(bn := b)"
      "b \<noteq> 0" "indirect t ip = indirect s ip" "grown ip s t" "\<not> in_use s b" "b < sb_size (fs_sb s)"
      "\<forall>c. c \<noteq> b \<longrightarrow> c \<notin> map_blocks s \<longrightarrow> bview t c = bview s c" "free_count t = free_count s - 1"
      by (rule bmap_direct[OF _ direct(2,1)])
    have "fblock s ip n \<noteq> b" if "n < MAXFILE" "fblock s ip n \<noteq> 0" for n using used(2)[OF that] t(7) by auto
    then have v: "\<forall>n < MAXFILE. fblock s ip n \<noteq> 0 \<longrightarrow> bview t (fblock s ip n) = bview s (fblock s ip n)"
      using t(9) used(3) by blast
    have f: "\<forall>n < MAXFILE. fblock t ip n = (if n = bn then b else fblock s ip n)" unfolding t(3) by simp
    show thesis
      by (rule that[OF t(1) t(2)[folded t(5)] subset_insertI insertI1 t(4) f _ t(6) v]) (simp_all only: direct(1) t(5,10), simp)
  next
    case entry
    have "writing W (Suc k) s ip" "0 < free_count s" using w fr entry(3) by simp_all
    then obtain b t where t: "bmap_entry 1 bn (indirect s ip) s = Ok b t" "writing (insert b W) k t ip" "b \<noteq> 0"
      "\<forall>n < MAXFILE. fblock t ip n = (if n = bn then b else fblock s ip n)" "indirect t ip = indirect s ip" "grown ip s t"
      "\<not> in_use s b" "\<forall>c. c \<noteq> b \<longrightarrow> c \<noteq> indirect s ip \<longrightarrow> c \<notin> map_blocks s \<longrightarrow> bview t c = bview s c" "free_count t = free_count s - 1"
      by (rule bmap_entry_alloc[OF _ entry(3,2) bn entry(1)])
    have run: "bmap ip bn s = Ok b t" using bmap_indirect_eq[OF entry(2) bn wf_fileD(1)[OF W(4)]] entry(3) t(1) by simp
    have "fblock s ip n \<noteq> b" if "n < MAXFILE" "fblock s ip n \<noteq> 0" for n using used(2)[OF that] t(7) by auto
    then have v: "\<forall>n < MAXFILE. fblock s ip n \<noteq> 0 \<longrightarrow> bview t (fblock s ip n) = bview s (fblock s ip n)"
      using t(8) used(3,4) by blast
    have ni: "no_indirect t ip = 0" "no_indirect s ip = 0" using t(5) entry(3) by simp_all
    have tx: "writing (insert b W) (k + no_indirect t ip) t ip" unfolding ni using t(2) by simp
    show thesis
      by (rule that[OF run tx subset_insertI insertI1 t(3,4) _ t(6) v]) (simp_all only: entry(1) t(9) ni, simp)
  next
    case both
    have "writing W (Suc (Suc k)) s ip" "0 < free_count s" using w fr both(3) by simp_all
    then obtain a u where u: "balloc 1 s = Ok a u"
      "writing (insert a W) (Suc k) (set_indirect ip a u) ip"
      "\<forall>n < MAXFILE. fblock (set_indirect ip a u) ip n = fblock s ip n" "indirect (set_indirect ip a u) ip = a" "a \<noteq> 0"
      "grown ip s (set_indirect ip a u)" "\<not> in_use s a"
      "\<forall>c. c \<noteq> a \<longrightarrow> c \<notin> map_blocks s \<longrightarrow> bview u c = bview s c" "free_count (set_indirect ip a u) = free_count s - 1"
      by (rule balloc_indirect[OF _ both(3)])
    let ?u = "set_indirect ip a u"
    note gu = grown_fields[OF u(6)]
    have "indirect ?u ip \<noteq> 0" "fblock ?u ip bn = 0" "0 < free_count ?u" using u(3,4,5,9) bn both fr by auto
    then obtain b t where t: "bmap_entry 1 bn (indirect ?u ip) ?u = Ok b t" "writing (insert b (insert a W)) k t ip" "b \<noteq> 0"
      "\<forall>n < MAXFILE. fblock t ip n = (if n = bn then b else fblock ?u ip n)" "indirect t ip = indirect ?u ip" "grown ip ?u t"
      "\<not> in_use ?u b" "b < sb_size (fs_sb ?u)"
      "\<forall>c. c \<noteq> b \<longrightarrow> c \<noteq> indirect ?u ip \<longrightarrow> c \<notin> map_blocks ?u \<longrightarrow> bview t c = bview ?u c" "free_count t = free_count ?u - 1"
      by (rule bmap_entry_alloc[OF u(2) _ both(2) bn])
    have run: "bmap ip bn s = Ok b t"
      using bmap_indirect_eq[OF both(2) bn wf_fileD(1)[OF W(4)]] both(3) u(1,4) t(1)
      by (simp add: kbind_apply kthen_apply kmod_apply del: One_nat_def)
    have nb: "\<not> in_use s b" using t(7,8) u(6) gu(1) unfolding grown_def by auto
    have v: "bview t (fblock s ip n) = bview s (fblock s ip n)" if n: "n < MAXFILE" "fblock s ip n \<noteq> 0" for n
    proof -
      have "fblock s ip n \<noteq> b" "fblock s ip n \<noteq> a" using used(2)[OF n] nb u(7) by auto
      then show ?thesis using t(9) u(4,8) used(3)[OF n] gu(11) by simp
    qed
    have ni: "no_indirect t ip = 0" "no_indirect s ip = 1" using t(5) u(4,5) both(3) by simp_all
    have tx: "writing (insert b (insert a W)) (k + no_indirect t ip) t ip" unfolding ni using t(2) by simp
    have f: "\<forall>n < MAXFILE. fblock t ip n = (if n = bn then b else fblock s ip n)" using t(4) u(3) by simp
    show thesis
    proof (rule that[OF run tx _ insertI1 t(3) f _ grown_trans[OF u(6) t(6)]])
      show "W \<subseteq> insert b (insert a W)" by blast
      show "\<forall>n < MAXFILE. fblock s ip n \<noteq> 0 \<longrightarrow> bview t (fblock s ip n) = bview s (fblock s ip n)" using v by simp
      show "free_count s + no_indirect t ip \<le> Suc (free_count t + no_indirect s ip)" unfolding ni t(10) u(9) by simp
    qed (simp add: both(1))
  qed
qed

section \<open>Writing\<close>

lemma data_write:
  fixes s t :: "'a kfs_scheme"
  assumes w: "writing W k s ip" and bn: "bn < MAXFILE" "fblock s ip bn \<noteq> 0"
    and t: "log_tx W k t" "held t = {}" "bview t = (bview s)(fblock s ip bn := d)" "log_rest s t"
  shows "writing W k t ip" "grown ip s t" "fblock t ip = fblock s ip" "indirect t ip = indirect s ip" "free_count t = free_count s"
proof -
  have W: "fs_ok s" "wf_file s ip" "map_blocks s \<subseteq> W" "indirect s ip \<noteq> 0 \<Longrightarrow> indirect s ip \<in> W" using w by (auto simp: writing_def)
  note v = W(2)[unfolded wf_file_def] and rk = log_rest_kfs[OF t(4)]
  let ?b = "fblock s ip bn"
  have b: "?b \<in> file_blocks s ip" by (rule wf_fileD(2)[OF W(2) bn])
  then have nm: "?b \<notin> map_blocks s" "?b < sb_size (fs_sb s)" using v by blast+
  have "wf_map (fblock s ip) (indirect s ip)" using v by blast
  from wf_map_indirect[OF this bn] have ni: "?b \<noteq> indirect s ip" .
  show i: "indirect t ip = indirect s ip" by (simp add: indirect_def rk)
  show f: "fblock t ip = fblock s ip" using ni by (intro ext) (simp add: fblock_def i rk t(3))
  have fb: "file_blocks t ip = file_blocks s ip" by (simp add: file_blocks_def i f)
  have use: "in_use t c = in_use s c" if "c < sb_size (fs_sb s)" for c
  proof -
    have "BBLOCK c (fs_sb s) \<noteq> ?b" using nm(1) map_block[OF that] by auto
    then show ?thesis by (simp add: in_use_def t(3) rk)
  qed
  show fc: "free_count t = free_count s" by (rule free_count_cong[OF rk(1) use])
  have m: "map_blocks t = map_blocks s" "inode_blocks t = inode_blocks s" by (simp_all add: map_blocks_def inode_blocks_def rk)
  have "fs_ok t" by (rule fs_ok_cong[OF rk(1,4,5) use W(1) le_less_trans[OF le0 nm(2)]])
  moreover have "wf_file t ip"
    using v use unfolding wf_file_def m rk fb f i fsize_def by auto
  ultimately show "writing W k t ip" unfolding writing_def m i using t(1,2) W(3,4) by simp
  show "grown ip s t"
  proof (rule grownI[where b = ?b])
    show "file_blocks t ip = insert ?b (file_blocks s ip)" using fb b by blast
    show "bview t c = bview s c" if "c \<notin> file_blocks s ip" for c using that b by (auto simp: t(3))
  qed (use rk use b in auto)
qed

definition nblk :: "nat \<Rightarrow> nat \<Rightarrow> nat" where
  "nblk off r = (if r = 0 then 0 else (off mod BSIZE + r + (BSIZE - 1)) div BSIZE)"

lemma nblk_step:
  assumes "0 < r" "m = min r (BSIZE - off mod BSIZE)"
  shows "nblk off r = Suc (nblk (off + m) (r - m))"
proof (cases "r \<le> BSIZE - off mod BSIZE")
  case True
  then have "m = r" "off mod BSIZE + r \<le> BSIZE" using assms by auto
  moreover have "BSIZE \<le> off mod BSIZE + r + (BSIZE - 1)" "off mod BSIZE + r + (BSIZE - 1) < 2 * BSIZE" using calculation assms(1) by auto
  then have "(off mod BSIZE + r + (BSIZE - 1)) div BSIZE = 1" by (simp add: div_nat_eqI)
  ultimately show ?thesis using assms(1) by (simp add: nblk_def)
next
  case False
  then have m: "m = BSIZE - off mod BSIZE" "m < r" using assms(2) by auto
  have "off + m = BSIZE * (off div BSIZE) + BSIZE" using m(1) mult_div_mod_eq[of BSIZE off] mod_less_divisor[of BSIZE off] by linarith
  then have "(off + m) mod BSIZE = 0" by simp
  moreover have "off mod BSIZE + r + (BSIZE - 1) = (r - m + (BSIZE - 1)) + BSIZE" using m mod_less_divisor[of BSIZE off] by linarith
  then have "(off mod BSIZE + r + (BSIZE - 1)) div BSIZE = Suc ((r - m + (BSIZE - 1)) div BSIZE)" by simp
  ultimately show ?thesis using assms(1) m(2) by (simp add: nblk_def)
qed

lemma other_block:
  assumes "off mod BSIZE + m \<le> BSIZE" "j < off \<or> off + m \<le> j"
  shows "j div BSIZE \<noteq> off div BSIZE \<or> j mod BSIZE < off mod BSIZE \<or> off mod BSIZE + m \<le> j mod BSIZE"
proof (rule ccontr)
  assume "\<not> ?thesis"
  then have h: "j div BSIZE = off div BSIZE" "off mod BSIZE \<le> j mod BSIZE" "j mod BSIZE < off mod BSIZE + m" by auto
  then have "off \<le> j" "j < off + m"
    using div_mult_mod_eq[of j BSIZE] div_mult_mod_eq[of off BSIZE] by linarith+
  with assms(2) show False by simp
qed

lemma writei_loop_run:
  fixes s :: "'a kfs_scheme"
  assumes "writing W (nblk off (n - tot) + k + no_indirect s ip) s ip" "tot \<le> n" "off + (n - tot) \<le> MAXFILE * BSIZE"
    "nblk off (n - tot) + no_indirect s ip \<le> free_count s"
  shows "\<exists>W' t. writei_loop ip src off n tot s = Ok (off + (n - tot)) t \<and> writing W' (k + no_indirect t ip) t ip \<and> W \<subseteq> W' \<and> grown ip s t \<and>
    (\<forall>j. off \<le> j \<and> j < off + (n - tot) \<longrightarrow> fblock t ip (j div BSIZE) \<noteq> 0 \<and> content t ip j = src (tot + (j - off))) \<and>
    (\<forall>b < MAXFILE. fblock s ip b \<noteq> 0 \<longrightarrow> fblock t ip b = fblock s ip b) \<and>
    (\<forall>j. j < off \<or> off + (n - tot) \<le> j \<longrightarrow> j div BSIZE < MAXFILE \<longrightarrow> fblock s ip (j div BSIZE) \<noteq> 0 \<longrightarrow> content t ip j = content s ip j)"
  using assms
proof (induction ip src off n tot arbitrary: s W rule: writei_loop.induct)
  case (1 ip src off n tot)
  show ?case
  proof (cases "tot < n")
    case False
    then have e: "tot = n" using "1.prems"(2) by simp
    then have "writei_loop ip src off n tot s = Ok off s" by (subst writei_loop.simps) (simp add: kret_apply)
    moreover have "grown ip s s" by (simp add: grown_def)
    ultimately show ?thesis using e "1.prems"(1) by (intro exI[of _ W] exI[of _ s]) (simp add: nblk_def)
  next
    case True
    define m where "m = min (n - tot) (BSIZE - off mod BSIZE)"
    have m: "0 < m" "tot + m \<le> n" "off mod BSIZE + m \<le> BSIZE" using True by (auto simp: m_def)
    define r where "r = nblk (off + m) (n - (tot + m))"
    have nb: "nblk off (n - tot) = Suc r" using nblk_step[of "n - tot" m off] True by (simp add: m_def r_def)
    have bn: "off div BSIZE < MAXFILE" using "1.prems"(3) True by (intro less_mult_imp_div_less) simp
    have w: "writing W (Suc (r + k) + no_indirect s ip) s ip" using "1.prems"(1) nb by simp
    have fr: "Suc (no_indirect s ip) \<le> free_count s" using "1.prems"(4) nb by simp
    obtain b W1 u where u: "bmap ip (off div BSIZE) s = Ok b u" "writing W1 (r + k + no_indirect u ip) u ip" "W \<subseteq> W1" "b \<in> W1" "b \<noteq> 0"
      "\<forall>n < MAXFILE. fblock u ip n = (if n = off div BSIZE then b else fblock s ip n)"
      "fblock s ip (off div BSIZE) \<noteq> 0 \<longrightarrow> b = fblock s ip (off div BSIZE)" "grown ip s u"
      "\<forall>n < MAXFILE. fblock s ip n \<noteq> 0 \<longrightarrow> bview u (fblock s ip n) = bview s (fblock s ip n)"
      "free_count s + no_indirect u ip \<le> Suc (free_count u + no_indirect s ip)"
      by (rule bmap_run[OF w bn fr])
    note gu = grown_fields[OF u(8)]
    have fb: "fblock u ip (off div BSIZE) = b" using u(6) bn by simp
    have tu: "log_tx W1 (r + k + no_indirect u ip) u" "held u = {}" "wf_file u ip" using u(2) by (auto simp: writing_def)
    let ?f = "\<lambda>d. blit d (off mod BSIZE) src tot m"
    have pre: "b \<notin> (\<lambda>i. b_blockno (bufs u i)) ` held u" "card (held u) \<le> 1" using tu(2) by simp_all
    obtain i x y v where v: "bread 1 b u = Ok i x" "log_write i (upd_data i ?f x) = Ok () y" "brelse i y = Ok () v"
      "log_tx W1 (r + k + no_indirect u ip) v" "bview v = (bview u)(b := ?f (bview u b))" "held v = held u" "log_rest u v"
      by (rule ltx.rewrite_block[OF tu(1) u(4) pre])
    have fb0: "fblock u ip (off div BSIZE) \<noteq> 0" using fb u(5) by simp
    have hv: "held v = {}" using v(6) tu(2) by simp
    note D = data_write[OF u(2) bn fb0 v(4) hv v(5)[folded fb] v(7)]
    have ni: "no_indirect v ip = no_indirect u ip" by (simp add: D(4))
    have su: "grown ip s v" by (rule grown_trans[OF u(8) D(2)])
    have st: "i_dev (icache u ip) = 1" by (rule wf_fileD(1)[OF tu(3)])
    have "writing W1 (nblk (off + m) (n - (tot + m)) + k + no_indirect v ip) v ip" using D(1) unfolding ni r_def[symmetric] by simp
    moreover have "nblk (off + m) (n - (tot + m)) + no_indirect v ip \<le> free_count v"
      unfolding ni r_def[symmetric] D(5) using u(10) "1.prems"(4) nb by simp
    moreover have "off + m + (n - (tot + m)) = off + (n - tot)" using m(2) True by simp
    moreover note IH = "1.IH"[OF True refl, folded m_def, of W1 v]
    ultimately obtain W' t where t: "writei_loop ip src (off + m) n (tot + m) v = Ok (off + (n - tot)) t"
      "writing W' (k + no_indirect t ip) t ip" "W1 \<subseteq> W'" "grown ip v t"
      "\<forall>j. off + m \<le> j \<and> j < off + (n - tot) \<longrightarrow> fblock t ip (j div BSIZE) \<noteq> 0 \<and> content t ip j = src (tot + m + (j - (off + m)))"
      "\<forall>b < MAXFILE. fblock v ip b \<noteq> 0 \<longrightarrow> fblock t ip b = fblock v ip b"
      "\<forall>j. j < off + m \<or> off + (n - tot) \<le> j \<longrightarrow> j div BSIZE < MAXFILE \<longrightarrow> fblock v ip (j div BSIZE) \<noteq> 0 \<longrightarrow> content t ip j = content v ip j"
      using "1.prems"(3) m(2) by auto
    have run: "writei_loop ip src off n tot s = Ok (off + (n - tot)) t"
      using True u(1) v(1-3) st t(1)
      by (subst writei_loop.simps) (simp add: Let_def kbind_apply kthen_apply kget_apply kmod_apply m_def del: One_nat_def)
    have new: "fblock t ip (j div BSIZE) \<noteq> 0 \<and> content t ip j = src (tot + (j - off))" if j: "off \<le> j" "j < off + (n - tot)" for j
    proof (cases "j < off + m")
      case True
      then obtain d where d: "j = off + d" "d < m" using j(1) by (metis add_less_cancel_left le_Suc_ex)
      then have jb: "j div BSIZE = off div BSIZE" "j mod BSIZE = off mod BSIZE + d" using same_block[of off d] m(3) by simp_all
      have f: "fblock v ip (j div BSIZE) = b" using fb D(3) jb(1) by simp
      then have "content t ip j = content v ip j" "fblock t ip (j div BSIZE) = b" using t(6,7) True u(5) bn jb(1) by auto
      moreover have "content v ip j = src (tot + d)" using d(2) by (simp add: content_def f jb(2) v(5) blit_def)
      ultimately show ?thesis using u(5) d(1) by simp
    next
      case False
      then show ?thesis using t(5) j by auto
    qed
    have keep: "fblock t ip c = fblock s ip c" if "c < MAXFILE" "fblock s ip c \<noteq> 0" for c
    proof -
      have "fblock v ip c = fblock s ip c" using that D(3) u(6,7) by (cases "c = off div BSIZE") auto
      then show ?thesis using t(6) that by simp
    qed
    have old: "content t ip j = content s ip j" if j: "j < off \<or> off + (n - tot) \<le> j" "j div BSIZE < MAXFILE" "fblock s ip (j div BSIZE) \<noteq> 0" for j
    proof -
      have fj: "fblock v ip (j div BSIZE) = fblock s ip (j div BSIZE)" using j(2,3) D(3) u(6,7) by auto
      have "content t ip j = content v ip j" using t(7) j fj m(2) by auto
      also have "\<dots> = content u ip j"
      proof (cases "fblock s ip (j div BSIZE) = b")
        case True
        have "wf_map (fblock u ip) (indirect u ip)" using tu(3) unfolding wf_file_def by blast
        then have "j div BSIZE = off div BSIZE" using True fb fj D(3) j(2) bn u(5) unfolding wf_map_def by metis
        moreover have "j < off \<or> off + m \<le> j" using j(1) m(2) by auto
        ultimately show ?thesis using other_block[OF m(3), of j] True fj D(3) by (auto simp: content_def v(5) blit_def)
      next
        case False
        then show ?thesis using fj D(3) by (simp add: content_def v(5))
      qed
      also have "\<dots> = content s ip j" using u(9) j(2,3) fj D(3) by (simp add: content_def)
      finally show ?thesis .
    qed
    show ?thesis using run t(2,3) u(3) grown_trans[OF su t(4)] new keep old by (intro exI[of _ W'] exI[of _ t]) auto
  qed
qed

text \<open>\<^verbatim>\<open>iupdate\<close> changes the block of the inode and nothing else.\<close>

lemma iupdate_run:
  fixes s :: "'a kfs_scheme"
  assumes tx: "log_tx W k s" and h: "held s = {}" and dev: "i_dev (icache s ip) = 1"
    and ib: "IBLOCK (i_inum (icache s ip)) (fs_sb s) \<in> W"
  obtains t where "iupdate ip s = Ok () t" "log_tx W k t" "held t = {}" "log_rest s t"
    "bview t = (bview s)(IBLOCK (i_inum (icache s ip)) (fs_sb s) :=
      put_dinode (dinode_of (icache s ip)) (DINODE * (i_inum (icache s ip) mod IPB)) (bview s (IBLOCK (i_inum (icache s ip)) (fs_sb s))))"
proof -
  let ?b = "IBLOCK (i_inum (icache s ip)) (fs_sb s)"
  let ?f = "put_dinode (dinode_of (icache s ip)) (DINODE * (i_inum (icache s ip) mod IPB))"
  have pre: "?b \<notin> (\<lambda>i. b_blockno (bufs s i)) ` held s" "card (held s) \<le> 1" using h by simp_all
  obtain i u v t where r: "bread 1 ?b s = Ok i u" "log_rest s u" "log_write i (upd_data i ?f u) = Ok () v" "brelse i v = Ok () t"
    and t: "log_tx W k t" "bview t = (bview s)(?b := ?f (bview s ?b))" "held t = held s" "log_rest s t"
    by (rule ltx.rewrite_block[OF tx ib pre])
  have ic: "icache u = icache s" by (rule log_rest_kfs(2)[OF r(2)])
  have "iupdate ip s = Ok () t"
    by (simp add: iupdate_def dev kbind_apply kthen_apply kmod_apply r(1) ic r(3,4) del: One_nat_def)
  then show thesis using t h by (intro that) auto
qed

lemma iblock_in: "wf_file s ip \<Longrightarrow> IBLOCK (i_inum (icache s ip)) (fs_sb s) \<in> inode_blocks s"
  by (auto simp: wf_file_def inode_blocks_def)

text \<open>A change of one block that is neither in the map nor of the file.\<close>

lemma other_block_write:
  fixes s t :: "'a kfs_scheme"
  assumes t: "bview t = (bview s)(b := d)" "log_rest s t" and wf: "wf_file s ip" and b: "b \<notin> file_blocks s ip" "b \<notin> map_blocks s"
  shows "indirect t ip = indirect s ip" "fblock t ip = fblock s ip" "fsize t ip = fsize s ip" "file_blocks t ip = file_blocks s ip"
    "wf_file t ip" "c < sb_size (fs_sb s) \<Longrightarrow> in_use t c = in_use s c" "k < fsize s ip \<Longrightarrow> content t ip k = content s ip k"
proof -
  note rk = log_rest_kfs[OF t(2)] and v = wf[unfolded wf_file_def]
  show i: "indirect t ip = indirect s ip" by (simp add: indirect_def rk)
  show z: "fsize t ip = fsize s ip" by (simp add: fsize_def rk)
  have "bview t (indirect s ip) = bview s (indirect s ip)" if "indirect s ip \<noteq> 0"
    using wf_fileD(3)[OF wf that] b(1) by (auto simp: t(1))
  then show f: "fblock t ip = fblock s ip" by (intro ext) (simp add: fblock_def i rk)
  show fb: "file_blocks t ip = file_blocks s ip" by (simp add: file_blocks_def i f)
  have use: "in_use t c = in_use s c" if "c < sb_size (fs_sb s)" for c
  proof -
    have "BBLOCK c (fs_sb s) \<noteq> b" using b(2) map_block[OF that] by auto
    then show ?thesis by (simp add: in_use_def t(1) rk)
  qed
  then show "c < sb_size (fs_sb s) \<Longrightarrow> in_use t c = in_use s c" .
  have m: "map_blocks t = map_blocks s" "inode_blocks t = inode_blocks s" by (simp_all add: map_blocks_def inode_blocks_def rk)
  show "wf_file t ip" using v use unfolding wf_file_def m rk fb f i z by auto
  assume "k < fsize s ip"
  then have "fblock s ip (k div BSIZE) \<in> file_blocks s ip" using wf_fileD(2,5,6)[OF wf] by blast
  then show "content t ip k = content s ip k" using b(1) by (auto simp: content_def f t(1))
qed

lemma wf_file_resize:
  fixes s :: "'a kfs_scheme"
  assumes wf: "wf_file s ip" and z: "unat z \<le> MAXFILE * BSIZE" "\<forall>k < unat z. fblock s ip (k div BSIZE) \<noteq> 0"
  defines "t \<equiv> upd_inode ip (\<lambda>p. p\<lparr>i_size := z\<rparr>) s"
  shows "wf_file t ip" "fblock t ip = fblock s ip" "indirect t ip = indirect s ip" "file_blocks t ip = file_blocks s ip"
    "fsize t ip = unat z" "content t ip = content s ip"
proof -
  show i: "indirect t ip = indirect s ip" and z': "fsize t ip = unat z" by (simp_all add: indirect_def fsize_def t_def)
  show f: "fblock t ip = fblock s ip" by (intro ext) (simp add: fblock_def i, simp add: t_def)
  show fb: "file_blocks t ip = file_blocks s ip" by (simp add: file_blocks_def i f)
  show "content t ip = content s ip" by (intro ext) (simp add: content_def f, simp add: t_def)
  have m: "map_blocks t = map_blocks s" "inode_blocks t = inode_blocks s" "in_use t = in_use s" "fs_sb t = fs_sb s" "log_area t = log_area s"
    "i_dev (icache t ip) = i_dev (icache s ip)" "i_inum (icache t ip) = i_inum (icache s ip)" by (simp_all add: t_def fun_eq_iff)
  show "wf_file t ip" using wf z unfolding wf_file_def m fb f i z' by blast
qed

lemma grown_other:
  fixes s t :: "'a kfs_scheme"
  assumes g: "grown ip s t" and j: "jp \<noteq> ip" "wf_file s jp" "file_blocks s jp \<inter> file_blocks s ip = {}"
  shows "indirect t jp = indirect s jp" "fblock t jp = fblock s jp" "fsize t jp = fsize s jp" "file_blocks t jp = file_blocks s jp" "wf_file t jp"
    "file_blocks t jp \<inter> file_blocks t ip = {}" "k < fsize s jp \<Longrightarrow> content t jp k = content s jp k"
proof -
  note f = grown_fields[OF g] and v = j(2)[unfolded wf_file_def]
  have vb: "c < sb_size (fs_sb s)" "in_use s c" "c \<notin> map_blocks s" "c \<notin> file_blocks s ip" if "c \<in> file_blocks s jp" for c
    using that v j(3) by blast+
  have use: "\<forall>c < sb_size (fs_sb s). in_use s c \<longrightarrow> in_use t c"
    and new: "\<forall>b \<in> file_blocks t ip. b \<in> file_blocks s ip \<or> b < sb_size (fs_sb s) \<and> \<not> in_use s b"
    using g unfolding grown_def by simp_all
  have ic: "icache t jp = icache s jp" by (rule f(6)[OF j(1)])
  have view: "bview t c = bview s c" if "c \<in> file_blocks s jp" for c
    using g vb[OF that] unfolding grown_def by simp
  show i: "indirect t jp = indirect s jp" and z: "fsize t jp = fsize s jp" by (simp_all add: indirect_def fsize_def ic)
  have "bview t (indirect s jp) = bview s (indirect s jp)" if "indirect s jp \<noteq> 0" using view wf_fileD(3)[OF j(2) that] by blast
  then show fb: "fblock t jp = fblock s jp" by (intro ext) (simp add: fblock_def i ic)
  show fbs: "file_blocks t jp = file_blocks s jp" by (simp add: file_blocks_def i fb)
  have "file_blocks s jp \<subseteq> {b. b < sb_size (fs_sb s) \<and> in_use t b}" using vb use by blast
  then show "wf_file t jp" using v unfolding wf_file_def f(1,4,11,12) fbs fb i z ic by simp
  show "file_blocks t jp \<inter> file_blocks t ip = {}" unfolding fbs using vb(2,4) new by blast
  assume "k < fsize s jp"
  then have "fblock s jp (k div BSIZE) \<in> file_blocks s jp" using wf_fileD(2,5,6)[OF j(2)] by blast
  then show "content t jp k = content s jp k" by (simp add: content_def fb view)
qed

text \<open>The blocks a write may have to log beside the data: the map, the inode and the indirect block.\<close>

definition meta_blocks :: "'a kfs_scheme \<Rightarrow> nat \<Rightarrow> nat set" where
  "meta_blocks s ip = map_blocks s \<union> {IBLOCK (i_inum (icache s ip)) (fs_sb s)} \<union> ({indirect s ip} - {0})"

text \<open>What a write of \<open>n\<close> bytes at \<open>off\<close> leaves of this and of the other files.\<close>

definition written :: "nat \<Rightarrow> bytes \<Rightarrow> nat \<Rightarrow> nat \<Rightarrow> 'a kfs_scheme \<Rightarrow> 'a kfs_scheme \<Rightarrow> bool" where
  "written ip src off n s t \<longleftrightarrow> fs_ok t \<and> wf_file t ip \<and> (\<exists>a z. icache t ip = (icache s ip)\<lparr>i_addrs := a, i_size := z\<rparr>) \<and> woken s t \<and>
     fsize t ip = max (fsize s ip) (if n = 0 then 0 else off + n) \<and>
     (\<forall>j < fsize t ip. content t ip j = (if off \<le> j \<and> j < off + n then src (j - off) else content s ip j)) \<and>
     (\<forall>jp. jp \<noteq> ip \<and> wf_file s jp \<and> file_blocks s jp \<inter> file_blocks s ip = {} \<longrightarrow>
        wf_file t jp \<and> fsize t jp = fsize s jp \<and> (\<forall>j < fsize s jp. content t jp j = content s jp j))"

lemma wf_file_other_size:
  fixes s :: "'a kfs_scheme" and z :: u32
  assumes "jp \<noteq> ip"
  defines "v \<equiv> upd_inode ip (\<lambda>p. p\<lparr>i_size := z\<rparr>) s"
  shows "wf_file v jp = wf_file s jp"
    "fsize v jp = fsize s jp" "file_blocks v jp = file_blocks s jp" "content v jp = content s jp"
proof -
  have i: "indirect v jp = indirect s jp" using assms(1) by (simp add: indirect_def v_def)
  show z: "fsize v jp = fsize s jp" using assms(1) by (simp add: fsize_def v_def)
  have f: "fblock v jp = fblock s jp" using assms(1) by (intro ext) (simp add: fblock_def i, simp add: v_def)
  show fb: "file_blocks v jp = file_blocks s jp" by (simp add: file_blocks_def i f)
  show "content v jp = content s jp" by (intro ext) (simp add: content_def f, simp add: v_def)
  have u: "in_use v = in_use s" by (intro ext) (simp add: v_def)
  show "wf_file v jp = wf_file s jp" unfolding wf_file_def fb f i z u using assms(1) by (simp add: v_def)
qed

text \<open>The end of \<^verbatim>\<open>writei\<close>: the new size goes to the inode and to its block.\<close>

lemma size_update:
  fixes s :: "'a kfs_scheme"
  assumes tx: "log_tx W k s" "held s = {}" and ok: "fs_ok s" and wf: "wf_file s ip" and ib: "IBLOCK (i_inum (icache s ip)) (fs_sb s) \<in> W"
    and z: "unat z \<le> MAXFILE * BSIZE" "\<forall>k < unat z. fblock s ip (k div BSIZE) \<noteq> 0" and sz: "0 < sb_size (fs_sb s)"
  obtains t where "kthen (kmod (upd_inode ip (\<lambda>p. p\<lparr>i_size := z\<rparr>))) (iupdate ip) s = Ok () t" "log_tx W k t" "held t = {}" "fs_ok t"
    "wf_file t ip" "fsize t ip = unat z" "icache t ip = (icache s ip)\<lparr>i_size := z\<rparr>" "woken s t" "\<forall>k < unat z. content t ip k = content s ip k"
    "\<forall>jp. jp \<noteq> ip \<and> wf_file s jp \<longrightarrow> wf_file t jp \<and> fsize t jp = fsize s jp \<and> (\<forall>k < fsize s jp. content t jp k = content s jp k)"
proof -
  note R = wf_file_resize[OF wf z]
  let ?v = "upd_inode ip (\<lambda>p. p\<lparr>i_size := z\<rparr>) s" and ?ib = "IBLOCK (i_inum (icache s ip)) (fs_sb s)"
  have eq: "IBLOCK (i_inum (icache ?v ip)) (fs_sb ?v) = ?ib" by simp
  have V: "log_tx W k ?v" "held ?v = {}" "i_dev (icache ?v ip) = 1" "IBLOCK (i_inum (icache ?v ip)) (fs_sb ?v) \<in> W"
    using tx ib wf_fileD(1)[OF wf] by simp_all
  obtain t where t: "iupdate ip ?v = Ok () t" "log_tx W k t" "held t = {}" "log_rest ?v t"
    "bview t = (bview ?v)(?ib := put_dinode (dinode_of (icache ?v ip)) (DINODE * (i_inum (icache ?v ip) mod IPB)) (bview ?v ?ib))"
    by (rule iupdate_run[OF V, unfolded eq])
  have ibi: "?ib \<in> inode_blocks s" by (rule iblock_in[OF wf])
  have nf: "?ib \<notin> file_blocks s jp" if "wf_file s jp" for jp using that ibi unfolding wf_file_def by blast
  have nm: "?ib \<notin> map_blocks ?v" using ok ibi unfolding fs_ok_def by auto
  note X = other_block_write[OF t(5,4) R(1) _ nm, unfolded R(4), OF nf[OF wf]]
  note rk = log_rest_kfs[OF t(4)]
  show thesis
  proof (rule that)
    show "kthen (kmod (upd_inode ip (\<lambda>p. p\<lparr>i_size := z\<rparr>))) (iupdate ip) s = Ok () t" using t(1) by (simp add: kthen_apply kmod_apply)
    show "fs_ok t" by (rule fs_ok_cong[OF rk(1,4,5) X(6)]) (use ok sz in simp_all)
    show "\<forall>k < unat z. content t ip k = content s ip k" using X(7) R(5,6) by simp
    show "icache t ip = (icache s ip)\<lparr>i_size := z\<rparr>" by (simp add: rk)
    show "woken s t" using rk(6) by (simp add: woken_def upd_inode_def same_memory_def)
    show "\<forall>jp. jp \<noteq> ip \<and> wf_file s jp \<longrightarrow> wf_file t jp \<and> fsize t jp = fsize s jp \<and> (\<forall>k < fsize s jp. content t jp k = content s jp k)"
    proof (intro allI impI)
      fix jp
      assume j: "jp \<noteq> ip \<and> wf_file s jp"
      note o = wf_file_other_size[of jp ip z s]
      have "wf_file ?v jp" "?ib \<notin> file_blocks ?v jp" using j o nf by simp_all
      from other_block_write[OF t(5,4) this nm] o j
      show "wf_file t jp \<and> fsize t jp = fsize s jp \<and> (\<forall>k < fsize s jp. content t jp k = content s jp k)" by simp
    qed
  qed (use t X(3,5) R(5) in simp_all)
qed

lemma writei_guards:
  assumes "i_type (icache s ip) \<noteq> T_DEV" "off \<le> i_size (icache s ip)" "unat off + unat n \<le> MAXFILE * BSIZE"
    "writei_loop ip src (unat off) (unat n) 0 s = Ok (unat off + unat n) u" "z = of_nat (unat off + unat n)"
  shows "writei dv ip src off n s = (if n > 0 \<and> z > i_size (icache u ip)
      then kthen (kthen (kmod (upd_inode ip (\<lambda>p. p\<lparr>i_size := z\<rparr>))) (iupdate ip)) (kret (sint n)) u else Ok (sint n) u)"
proof -
  have lt: "unat off + unat n < 2 ^ 32" using assms(3) by simp
  then have "\<not> off + n < off" by (simp add: word_less_nat_alt unat_plus_if')
  moreover have "\<not> off + n > of_nat (MAXFILE * BSIZE)"
    using lt assms(3) by (simp add: word_less_nat_alt unat_plus_if')
  moreover have "\<not> off > i_size (icache s ip)" using assms(2) by simp
  ultimately show ?thesis using assms(1,4) unfolding writei_def Let_def assms(5)
    by (simp add: kbind_apply kthen_def kbind_def kif_apply kret_apply del: of_nat_add)
qed

lemma writei_run:
  fixes s :: "'a kfs_scheme"
  assumes tx: "log_tx (meta_blocks s ip) (nblk (unat off) (unat n) + 1) s" and st: "held s = {}" "fs_ok s" "wf_file s ip"
    "i_type (icache s ip) \<noteq> T_DEV" "nblk (unat off) (unat n) + 1 \<le> free_count s"
    and off: "off \<le> i_size (icache s ip)" "unat off + unat n \<le> MAXFILE * BSIZE"
  shows "\<exists>W t. writei dv ip src off n s = Ok (sint n) t \<and> log_tx W 0 t \<and> held t = {} \<and> written ip src (unat off) (unat n) s t"
proof -
  let ?o = "unat off" and ?n = "unat n" and ?W = "meta_blocks s ip"
  have w: "writing ?W (nblk ?o ?n + 0 + no_indirect s ip) s ip"
    unfolding writing_def using log_tx_mono[OF tx, of "nblk ?o ?n + 0 + no_indirect s ip"] st by (auto simp: meta_blocks_def)
  have fr: "nblk ?o ?n + no_indirect s ip \<le> free_count s" using st(5) by simp
  from writei_loop_run[of ?W ?o ?n 0 0 s ip src, unfolded diff_zero add_0, OF w le0 off(2) fr] obtain W u where
    u: "writei_loop ip src ?o ?n 0 s = Ok (?o + ?n) u" "writing W (no_indirect u ip) u ip" "?W \<subseteq> W" "grown ip s u"
    "\<forall>j. ?o \<le> j \<and> j < ?o + ?n \<longrightarrow> fblock u ip (j div BSIZE) \<noteq> 0 \<and> content u ip j = src (j - ?o)"
    "\<forall>b < MAXFILE. fblock s ip b \<noteq> 0 \<longrightarrow> fblock u ip b = fblock s ip b"
    "\<forall>j. j < ?o \<or> ?o + ?n \<le> j \<longrightarrow> j div BSIZE < MAXFILE \<longrightarrow> fblock s ip (j div BSIZE) \<noteq> 0 \<longrightarrow> content u ip j = content s ip j"
    by (elim exE conjE)
  note g = grown_fields[OF u(4)]
  have U: "log_tx W 0 u" "held u = {}" "fs_ok u" "wf_file u ip" using u(2) log_tx_mono[of W "no_indirect u ip" u 0] by (simp_all add: writing_def)
  have oz: "?o \<le> fsize s ip" using off(1) by (simp add: fsize_def word_le_nat_alt)
  have cont: "content u ip j = (if ?o \<le> j \<and> j < ?o + ?n then src (j - ?o) else content s ip j)"
    if "j < fsize s ip \<or> j < ?o + ?n" for j
  proof (cases "?o \<le> j \<and> j < ?o + ?n")
    case True
    then show ?thesis using u(5) by simp
  next
    case False
    then have j: "j < fsize s ip" "j < ?o \<or> ?o + ?n \<le> j" using that oz by auto
    have "content u ip j = content s ip j" by (rule u(7)[rule_format, OF j(2) wf_fileD(5,6)[OF st(3) j(1)]])
    then show ?thesis using False by auto
  qed
  have cov: "fblock u ip (j div BSIZE) \<noteq> 0" if "j < ?o + ?n" for j
  proof (cases "?o \<le> j")
    case True
    then show ?thesis using u(5)[rule_format, of j] that by simp
  next
    case False
    then have "j < fsize s ip" using oz by simp
    then show ?thesis using u(6)[rule_format, OF wf_fileD(5,6)[OF st(3)], of j] wf_fileD(6)[OF st(3)] by simp
  qed
  have oth: "wf_file u jp \<and> fsize u jp = fsize s jp \<and> (\<forall>j < fsize s jp. content u jp j = content s jp j)"
    if "jp \<noteq> ip" "wf_file s jp" "file_blocks s jp \<inter> file_blocks s ip = {}" for jp
    using grown_other[OF u(4) that] by blast
  define z where "z = (of_nat (?o + ?n) :: u32)"
  have z: "unat z = ?o + ?n" unfolding z_def using off(2) by (intro unat_of_nat32) simp
  note guard = writei_guards[OF st(4) off u(1) z_def]
  show ?thesis
  proof (cases "n > 0 \<and> z > i_size (icache u ip)")
    case False
    then have zz: "?n = 0 \<or> ?o + ?n \<le> fsize s ip" using g(9) z by (auto simp: word_less_nat_alt fsize_def unat_gt_0)
    have run: "writei dv ip src off n s = Ok (sint n) u" unfolding guard using False by (rule if_not_P)
    have "max (fsize s ip) (if ?n = 0 then 0 else ?o + ?n) = fsize s ip" using zz by auto
    moreover have "\<exists>a z. icache u ip = (icache s ip)\<lparr>i_addrs := a, i_size := z\<rparr>"
      by (rule exI[of _ "i_addrs (icache u ip)"], rule exI[of _ "i_size (icache s ip)"], subst g(14)) simp
    ultimately have "written ip src ?o ?n s u"
      unfolding written_def using U(3,4) g(5,13) cont oth by simp
    then show ?thesis using run U(1,2) by blast
  next
    case True
    then have grow: "fsize s ip < ?o + ?n" "?n \<noteq> 0" using g(9) z by (auto simp: word_less_nat_alt fsize_def unat_gt_0)
    have ib: "IBLOCK (i_inum (icache u ip)) (fs_sb u) \<in> W" using u(3) g by (auto simp: meta_blocks_def)
    have sz: "0 < sb_size (fs_sb u)" using st(5) free_count_pos[of s] g(1) by simp
    obtain t where t: "kthen (kmod (upd_inode ip (\<lambda>p. p\<lparr>i_size := z\<rparr>))) (iupdate ip) u = Ok () t" "log_tx W 0 t" "held t = {}" "fs_ok t"
      "wf_file t ip" "fsize t ip = unat z" "icache t ip = (icache u ip)\<lparr>i_size := z\<rparr>" "woken u t" "\<forall>k < unat z. content t ip k = content u ip k"
      "\<forall>jp. jp \<noteq> ip \<and> wf_file u jp \<longrightarrow> wf_file t jp \<and> fsize t jp = fsize u jp \<and> (\<forall>k < fsize u jp. content t jp k = content u jp k)"
      by (rule size_update[OF U ib _ _ sz, of z]) (use z off(2) cov in simp_all)
    have run: "writei dv ip src off n s = Ok (sint n) t"
      unfolding guard if_P[OF True] by (subst kthen_step, rule t(1)) (simp add: kret_apply)
    have "max (fsize s ip) (if ?n = 0 then 0 else ?o + ?n) = ?o + ?n" using grow by simp
    moreover have "\<exists>a z. icache t ip = (icache s ip)\<lparr>i_addrs := a, i_size := z\<rparr>"
      by (rule exI[of _ "i_addrs (icache u ip)"], rule exI[of _ z], subst t(7), subst g(14)) simp
    ultimately have "written ip src ?o ?n s t"
      unfolding written_def using t(4-6,8-10) z cont oth woken_trans[OF g(5)] by simp
    then show ?thesis using run t(2,3) by blast
  qed
qed

end
