(* ===== verification/Fs_File.thy ===== *)
theory Fs_File
  imports Fs_Content
begin

text \<open>
  Reading and writing files: \<^verbatim>\<open>readi\<close> delivers the contents of a file, \<^verbatim>\<open>writei\<close> changes exactly the bytes written, and
  both return.
\<close>

lemma unat_range: "\<not> off + n < (off :: u32) \<Longrightarrow> unat (off + n) = unat off + unat n"
proof -
  have "unat n < 2 ^ 32" using unsigned_less[where 'b = 32 and 'a = nat and w = n] by simp
  then show "\<not> off + n < off \<Longrightarrow> ?thesis" by (simp add: word_less_nat_alt unat_plus_if' split: if_splits)
qed

lemma sint_unat_small: "unat n < 2 ^ 31 \<Longrightarrow> sint (n :: u32) = int (unat n)"
  using sint_of_nat_small[of "unat n"] by simp

lemma readi_run:
  fixes s :: "'a kfs_scheme"
  assumes s: "log_tx W k s" "held s = {}" "fs_ok s" "wf_file s ip" "i_type (icache s ip) \<noteq> T_DEV"
    and off: "off \<le> i_size (icache s ip)" "\<not> off + n < off"
  defines "m \<equiv> min (unat n) (fsize s ip - unat off)"
  shows "\<exists>t. readi dv ip dst off n s = Ok (int m, \<lambda>j. if j < m then content s ip (unat off + j) else dst j) t \<and>
    bview t = bview s \<and> log_rest s t \<and> log_tx W k t \<and> held t = {}"
proof -
  define c where "c = (if off + n > i_size (icache s ip) then i_size (icache s ip) - off else n)"
  have on: "unat (off + n) = unat off + unat n" using off(2) by (rule unat_range)
  have o: "unat off \<le> fsize s ip" using off(1) by (simp add: fsize_def word_le_nat_alt)
  have c: "unat c = m"
  proof (cases "off + n > i_size (icache s ip)")
    case True
    then show ?thesis using off(1) on by (simp add: c_def m_def fsize_def unat_sub word_less_nat_alt)
  next
    case False
    then show ?thesis using on by (simp add: c_def m_def fsize_def word_less_nat_alt)
  qed
  have "fsize s ip \<le> MAXFILE * BSIZE" using s(4) unfolding wf_file_def by blast
  then have m: "m < 2 ^ 31" "unat off + m \<le> fsize s ip" using o by (simp_all add: m_def)
  have sc: "sint c = int m" using m(1) c by (simp add: sint_unat_small)
  have "sb_size (fs_sb s) \<le> disksize s" using s(3) by (simp add: fs_ok_def)
  from readi_loop_run[OF s(1,2,4) this, of 0 m "unat off" dst] m(2) obtain t where
    t: "readi_loop ip dst (unat off) m 0 s = Ok (\<lambda>j. if j < m then content s ip (unat off + j) else dst j) t"
    "log_tx W k t" "held t = {}" "bview t = bview s" "log_rest s t" by (auto cong: if_cong)
  have "readi dv ip dst off n s = Ok (int m, \<lambda>j. if j < m then content s ip (unat off + j) else dst j) t"
    using s(5) off t(1) c sc by (simp add: readi_def Let_def kbind_apply kret_apply flip: c_def)
  then show ?thesis using t(2-5) by blast
qed

section \<open>A file system with one file\<close>

text \<open>Log in blocks 2 to 31, inodes in block 32, the map in block 33, 166 free data blocks and an empty file.\<close>

definition ex_fs_sb :: superblock where
  "ex_fs_sb = \<lparr>sb_size = 200, sb_nblocks = 166, sb_ninodes = 2, sb_nlog = 30, sb_logstart = 2, sb_inodestart = 32, sb_bmapstart = 33\<rparr>"

definition ex_bitmap :: bytes where
  "ex_bitmap k = (if k < 4 then 255 else if k = 4 then 3 else 0)"

definition ex_fs :: kfs where
  "ex_fs = \<lparr>km_end = 0x80100000, km_data = 0x80108000, km_mem = (\<lambda>_. 0), km_use_lock = True, km_freelist = 0,
     ptable = (\<lambda>_. zero_proc), cur = 0,
     memdisk = (\<lambda>b. if b = 33 then ex_bitmap else (\<lambda>_. 0)), disksize = 200, dwrites = [], bufs = (\<lambda>_. init_buf), mru = [0..<NBUF],
     lg_start = 2, lg_size = 30, lg_outstanding = 1, lg_committing = False, lg_dev = 1, lh_n = 0, lh_block = (\<lambda>_. 0),
     fs_sb = ex_fs_sb, icache = (\<lambda>_. zero_inode\<lparr>i_dev := 1, i_inum := 1, i_ref := 1, i_valid := True, i_type := T_FILE\<rparr>)\<rparr>"

lemma ex_fs_fields:
  "fs_sb ex_fs = ex_fs_sb" "disksize ex_fs = 200" "memdisk ex_fs = (\<lambda>b. if b = 33 then ex_bitmap else (\<lambda>_. 0))"
  "bufs ex_fs i = init_buf" "i_type (icache ex_fs ip) = T_FILE" "i_size (icache ex_fs ip) = 0" "i_addrs (icache ex_fs ip) k = 0"
  "i_dev (icache ex_fs ip) = 1" "i_inum (icache ex_fs ip) = 1" "lg_size ex_fs = 30" "lg_start ex_fs = 2" "lg_outstanding ex_fs = 1"
  "lh_n ex_fs = 0" "lg_dev ex_fs = 1"
  by (simp_all add: ex_fs_def zero_inode_def)

lemma ex_fs_bview: "bview ex_fs b = (if b = 33 then ex_bitmap else (\<lambda>_. 0))"
proof -
  have "findi (\<lambda>i. b_valid (bufs ex_fs i) \<and> b_dev (bufs ex_fs i) = 1 \<and> b_blockno (bufs ex_fs i) = b) NBUF = None"
    by (subst findi_None) (simp add: ex_fs_fields init_buf_def)
  then show ?thesis by (simp add: bview_def ex_fs_fields(3) del: findi_None)
qed

lemma ex_fs_in_use: "b < 200 \<Longrightarrow> in_use ex_fs b \<longleftrightarrow> b < 34"
proof -
  have "list_all (\<lambda>b. (\<not> bmap_free ex_bitmap b) = (b < 34)) [0..<200]" by code_simp
  moreover assume "b < 200"
  ultimately show ?thesis by (simp add: in_use_def ex_fs_bview ex_fs_fields BBLOCK_def ex_fs_sb_def list_all_iff)
qed

lemma ex_fs_areas:
  "map_blocks ex_fs = {33}" "inode_blocks ex_fs = {32}" "log_area ex_fs = {2..<32}" "held ex_fs = {}" "logged ex_fs = {}"
  "indirect ex_fs ip = 0" "fblock ex_fs ip bn = 0" "file_blocks ex_fs ip = {}" "fsize ex_fs ip = 0" "meta_blocks ex_fs ip = {32, 33}"
proof -
  show m: "map_blocks ex_fs = {33}"
    by (auto simp: map_blocks_def BBLOCK_def ex_fs_fields ex_fs_sb_def image_iff) (rule exI[of _ 0], simp)
  show "inode_blocks ex_fs = {32}"
    by (auto simp: inode_blocks_def IBLOCK_def ex_fs_fields ex_fs_sb_def image_iff) (rule exI[of _ 0], simp)
  show "log_area ex_fs = {2..<32}" by (simp add: log_area_def ex_fs_fields)
  show "held ex_fs = {}" by (simp add: held_def ex_fs_fields init_buf_def initsleeplock_def)
  show "logged ex_fs = {}" by (simp add: logged_def ex_fs_fields)
  show i: "indirect ex_fs ip = 0" for ip by (simp add: indirect_def ex_fs_fields)
  show "fblock ex_fs ip bn = 0" for ip bn by (simp add: fblock_def i ex_fs_fields)
  then show "file_blocks ex_fs ip = {}" by (auto simp: file_blocks_def i)
  show "fsize ex_fs ip = 0" by (simp add: fsize_def ex_fs_fields)
  show "meta_blocks ex_fs ip = {32, 33}" by (auto simp: meta_blocks_def m i IBLOCK_def ex_fs_fields ex_fs_sb_def)
qed

lemma ex_fs_log_inv: "log_inv ex_fs"
proof -
  have "bio_inv ex_fs"
    by (auto simp: bio_inv_def buf_ok_def ex_fs_def init_buf_def initsleeplock_def atLeast0LessThan simp del: upt.simps)
  moreover have "dirty_blocks ex_fs = {}" by (simp add: dirty_blocks_def dirty_def ex_fs_fields init_buf_def)
  ultimately show ?thesis
    by (simp add: log_inv_def log_geometry_def ex_fs_areas ex_fs_fields head_n_def)
qed

lemma ex_fs_wf: "fs_ok ex_fs" "wf_file ex_fs ip" "log_tx {32, 33} 3 ex_fs" "log_tx {} 0 ex_fs" "3 \<le> free_count ex_fs"
proof -
  show "fs_ok ex_fs" using ex_fs_in_use by (auto simp: fs_ok_def ex_fs_areas ex_fs_fields ex_fs_sb_def)
  show "wf_file ex_fs ip" by (simp add: wf_file_def wf_map_def ex_fs_areas ex_fs_fields ex_fs_sb_def)
  have o: "own ex_fs = {}" by (simp add: own_def ex_fs_fields init_buf_def)
  show "log_tx {32, 33} 3 ex_fs" "log_tx {} 0 ex_fs" using ex_fs_log_inv o by (simp_all add: log_tx_def ex_fs_areas ex_fs_fields)
  have "card {34, 35, 36::nat} \<le> free_count ex_fs" unfolding free_count_def
    by (rule card_mono) (auto simp: ex_fs_in_use ex_fs_fields ex_fs_sb_def)
  then show "3 \<le> free_count ex_fs" by simp
qed

section \<open>Properties\<close>

lemma readi_refused:
  assumes "i_type (icache s ip) \<noteq> T_DEV" "off > i_size (icache s ip) \<or> off + n < off"
  shows "readi dv ip dst off n s = Ok (-1, dst) s" "writei dv ip src off n s = Ok (-1) s"
  using assms by (simp_all add: readi_def writei_def Let_def)

lemma writei_too_big:
  assumes "i_type (icache s ip) \<noteq> T_DEV" "off + n > of_nat (MAXFILE * BSIZE)"
  shows "writei dv ip src off n s = Ok (-1) s"
  using assms by (simp add: writei_def Let_def)

text \<open>
  C15. \<^verbatim>\<open>readi\<close> on a well-formed file returns: -1 and no bytes when the offset is past the end or the range
  wraps around, and otherwise the number of bytes of the range that the file has, with exactly these bytes
  in the destination. It changes no block, no inode and holds no buffer afterwards.
\<close>
theorem readi_correct:
  fixes s :: "'a kfs_scheme"
  assumes "log_tx W k s" "held s = {}" "fs_ok s" "wf_file s ip" "i_type (icache s ip) \<noteq> T_DEV"
  shows "if off > i_size (icache s ip) \<or> off + n < off then readi dv ip dst off n s = Ok (-1, dst) s
    else let m = min (unat n) (fsize s ip - unat off) in
      \<exists>t. readi dv ip dst off n s = Ok (int m, \<lambda>j. if j < m then content s ip (unat off + j) else dst j) t \<and>
        bview t = bview s \<and> icache t = icache s \<and> held t = {}"
proof (cases "off > i_size (icache s ip) \<or> off + n < off")
  case True
  then show ?thesis by (simp add: readi_refused assms(5))
next
  case False
  then have "off \<le> i_size (icache s ip)" "\<not> off + n < off" by auto
  from readi_run[OF assms this, of dv dst] show ?thesis
    using False by (auto simp: Let_def dest: log_rest_kfs(2))
qed

theorem readi_correct_witness:
  "\<exists>t. readi (\<lambda>_. (None, None)) 0 (\<lambda>_. 7) 0 10 ex_fs = Ok (0, \<lambda>_. 7) t \<and> bview t = bview ex_fs \<and> icache t = icache ex_fs \<and> held t = {}"
  using readi_correct[OF ex_fs_wf(4) ex_fs_areas(4) ex_fs_wf(1,2), of 0 0 10 "\<lambda>_. (None, None)" "\<lambda>_. 7"]
  by (simp add: ex_fs_fields ex_fs_areas)

text \<open>
  C11. \<^verbatim>\<open>writei\<close> inside a transaction with room for the blocks it touches, on a disk with enough free blocks,
  returns the count. The file stays well-formed and has grown to the end of the range if it was shorter; its
  bytes are those written inside the range and the old ones outside, and every other well-formed file that
  shares no block with it keeps its size and its contents. An offset past the end, a range that wraps around
  or one that passes the largest file is refused with -1 and changes nothing.
\<close>
theorem writei_correct:
  fixes s :: "'a kfs_scheme"
  assumes "log_tx (meta_blocks s ip) (nblk (unat off) (unat n) + 1) s" "held s = {}" "fs_ok s" "wf_file s ip"
    "i_type (icache s ip) \<noteq> T_DEV" "nblk (unat off) (unat n) + 1 \<le> free_count s"
  shows "if off > i_size (icache s ip) \<or> off + n < off \<or> off + n > of_nat (MAXFILE * BSIZE) then writei dv ip src off n s = Ok (-1) s
    else \<exists>t. writei dv ip src off n s = Ok (sint n) t \<and> held t = {} \<and> log_inv t \<and> written ip src (unat off) (unat n) s t"
proof (cases "off > i_size (icache s ip) \<or> off + n < off \<or> off + n > of_nat (MAXFILE * BSIZE)")
  case True
  then show ?thesis using readi_refused(2)[OF assms(5)] writei_too_big[OF assms(5)] by auto
next
  case False
  then have o: "off \<le> i_size (icache s ip)" "\<not> off + n < off" "off + n \<le> of_nat (MAXFILE * BSIZE)" by auto
  have "unat (off + n) = unat off + unat n" using o(2) by (rule unat_range)
  then have "unat off + unat n \<le> MAXFILE * BSIZE" using o(3) by (simp add: word_le_nat_alt)
  from writei_run[OF assms o(1) this, of dv src] obtain W t where
    "writei dv ip src off n s = Ok (sint n) t" "log_tx W 0 t" "held t = {}" "written ip src (unat off) (unat n) s t" by blast
  then show ?thesis using False by (auto simp: log_tx_def)
qed

theorem writei_correct_witness:
  "\<exists>t. writei (\<lambda>_. (None, None)) 0 (\<lambda>k. of_nat k) 0 600 ex_fs = Ok 600 t \<and> held t = {} \<and> log_inv t \<and>
     written 0 (\<lambda>k. of_nat k) 0 600 ex_fs t"
  using writei_correct[of ex_fs 0 0 600 "\<lambda>_. (None, None)" "\<lambda>k. of_nat k"] ex_fs_wf
  by (simp add: ex_fs_fields ex_fs_areas nblk_def)

text \<open>
  C12. What is written is read back: after \<^verbatim>\<open>writei\<close> of \<open>n\<close> bytes at an offset, \<^verbatim>\<open>readi\<close> of the same range
  returns the count and the bytes that were written.
\<close>
theorem writei_then_readi:
  fixes s :: "'a kfs_scheme"
  assumes "log_tx (meta_blocks s ip) (nblk (unat off) (unat n) + 1) s" "held s = {}" "fs_ok s" "wf_file s ip"
    "i_type (icache s ip) \<noteq> T_DEV" "nblk (unat off) (unat n) + 1 \<le> free_count s"
    "off \<le> i_size (icache s ip)" "unat off + unat n \<le> MAXFILE * BSIZE"
  shows "\<exists>t u. writei dv ip src off n s = Ok (int (unat n)) t \<and>
    readi dv ip dst off n t = Ok (int (unat n), \<lambda>j. if j < unat n then src j else dst j) u"
proof -
  from writei_run[OF assms, of dv src] obtain W t where t: "writei dv ip src off n s = Ok (sint n) t" "log_tx W 0 t" "held t = {}"
    and w: "written ip src (unat off) (unat n) s t" by blast
  have wt: "fs_ok t" "wf_file t ip" "i_type (icache t ip) \<noteq> T_DEV" using w assms(5) by (auto simp: written_def)
  have sn: "sint n = int (unat n)" using assms(8) by (simp add: sint_unat_small)
  have z: "unat off \<le> fsize t ip" "unat n \<le> fsize t ip - unat off"
    using w assms(7) by (auto simp: written_def word_le_nat_alt fsize_def[of s])
  have "off \<le> i_size (icache t ip)" using z(1) by (simp add: fsize_def word_le_nat_alt)
  moreover have "\<not> off + n < off" using assms(8) by (simp add: word_less_nat_alt unat_plus_if')
  ultimately obtain u where "readi dv ip dst off n t = Ok (int (unat n), \<lambda>j. if j < unat n then content t ip (unat off + j) else dst j) u"
    using readi_run[OF t(2,3) wt, of off n dv dst] z(2) by auto
  moreover have "content t ip (unat off + j) = src j" if "j < unat n" for j
    using w that z by (simp add: written_def)
  ultimately show ?thesis using t(1) sn by (auto cong: if_cong)
qed

theorem writei_then_readi_witness:
  "\<exists>t u. writei (\<lambda>_. (None, None)) 0 (\<lambda>k. of_nat k) 0 600 ex_fs = Ok 600 t \<and>
    readi (\<lambda>_. (None, None)) 0 (\<lambda>_. 7) 0 600 t = Ok (600, \<lambda>j. if j < 600 then of_nat j else 7) u"
  using writei_then_readi[of ex_fs 0 0 600 "\<lambda>_. (None, None)" "\<lambda>k. of_nat k" "\<lambda>_. 7"] ex_fs_wf
  by (simp add: ex_fs_fields ex_fs_areas nblk_def)

end
