(* ===== verification/Fs_Lookup.thy ===== *)
theory Fs_Lookup
  imports Fs_Dir Fs_File
begin

text \<open>
  Directories as tables of names: \<^verbatim>\<open>dirlookup\<close> finds the first entry of a name, \<^verbatim>\<open>dirlink\<close> adds one
  that is found again, and the entries of other names keep their places.
\<close>

section \<open>Reading entries\<close>

definition entry :: "'a kfs_scheme \<Rightarrow> nat \<Rightarrow> nat \<Rightarrow> bytes" where
  "entry s dp k = (\<lambda>j. if j < DIRENT then content s dp (DIRENT * k + j) else 0)"

definition dir_match :: "'a kfs_scheme \<Rightarrow> nat \<Rightarrow> bytes \<Rightarrow> nat \<Rightarrow> bool" where
  "dir_match s dp name k \<longleftrightarrow> de_inum (entry s dp k) \<noteq> 0 \<and> namecmp name (de_name (entry s dp k)) = 0"

text \<open>Reading has left the disk and the inodes as they were, and holds no buffer.\<close>

definition only_read :: "nat set \<Rightarrow> nat \<Rightarrow> 'a kfs_scheme \<Rightarrow> 'a kfs_scheme \<Rightarrow> bool" where
  "only_read W k s t \<longleftrightarrow> bview t = bview s \<and> log_rest s t \<and> log_tx W k t \<and> held t = {}"

text \<open>A directory whose entries can be read.\<close>

definition dir_ok :: "'a kfs_scheme \<Rightarrow> nat \<Rightarrow> nat \<Rightarrow> bool" where
  "dir_ok s dp c \<longleftrightarrow> fs_ok s \<and> wf_file s dp \<and> i_type (icache s dp) = T_DIR \<and> fsize s dp = DIRENT * c"

lemma only_read_refl: "log_tx W k s \<Longrightarrow> held s = {} \<Longrightarrow> only_read W k s s"
  by (simp add: only_read_def ltx.rest_refl)

lemma only_read_trans: "only_read W k s t \<Longrightarrow> only_read W k t u \<Longrightarrow> only_read W k s u"
  unfolding only_read_def using ltx.rest_trans by metis

lemma only_read_same:
  assumes r: "only_read W k s t"
  shows "log_tx W k t" "held t = {}" "icache t = icache s" "entry t = entry s" "dir_match t = dir_match s" "dir_ok s dp c \<Longrightarrow> dir_ok t dp c"
proof -
  show "log_tx W k t" "held t = {}" using r by (simp_all add: only_read_def)
  have l: "log_rest s t" and b: "bview t = bview s" using r by (simp_all add: only_read_def)
  note k = log_rest_kfs[OF l]
  have c: "icache t ip = icache s ip" for ip by (simp add: k)
  note f = file_cong[OF c b k(1,5)]
  show "icache t = icache s" by (rule k)
  show e: "entry t = entry s" by (simp add: entry_def f fun_eq_iff)
  show "dir_match t = dir_match s" by (simp add: dir_match_def e fun_eq_iff)
  show "dir_ok t dp c" if "dir_ok s dp c"
    using that f by (auto simp: dir_ok_def fs_ok_def k)
qed

lemma read_entry:
  fixes s :: "'a kfs_scheme"
  assumes s: "log_tx W k s" "held s = {}" "dir_ok s dp c" and j: "j < c"
  obtains t where "readi dv dp (\<lambda>_. 0) (of_nat (DIRENT * j)) (of_nat DIRENT) s = Ok (int DIRENT, entry s dp j) t" "only_read W k s t"
proof -
  have z: "fsize s dp = DIRENT * c" and wf: "wf_file s dp" "fs_ok s" and ty: "i_type (icache s dp) \<noteq> T_DEV" using s(3) by (auto simp: dir_ok_def)
  have "fsize s dp \<le> MAXFILE * BSIZE" using wf(1) by (simp add: wf_file_def)
  then have small: "DIRENT * j + DIRENT \<le> 94720" "DIRENT * j + DIRENT \<le> fsize s dp" using z j by auto
  let ?o = "of_nat (DIRENT * j) :: u32"
  have o: "unat ?o = DIRENT * j" using small(1) by (simp only: unat_of_nat) simp
  have le: "?o \<le> i_size (icache s dp)" using o small(2) by (simp add: word_le_nat_alt fsize_def)
  have "\<not> ?o + of_nat DIRENT < ?o" using o small(1) by (simp add: word_less_nat_alt unat_plus_if')
  from readi_run[OF s(1,2) wf(2,1) ty le this, of dv "\<lambda>_. 0"] obtain t where
    t: "readi dv dp (\<lambda>_. 0) ?o (of_nat DIRENT) s = Ok (int (min DIRENT (fsize s dp - DIRENT * j)),
      \<lambda>i. if i < min DIRENT (fsize s dp - DIRENT * j) then content s dp (DIRENT * j + i) else 0) t" and r: "only_read W k s t"
    unfolding o only_read_def by (auto simp: min_def)
  moreover have "min DIRENT (fsize s dp - DIRENT * j) = DIRENT" using small(2) by simp
  ultimately show thesis using that[of t] by (simp add: entry_def)
qed

section \<open>Searching\<close>

lemma dirlookup_loop_run:
  fixes s :: "'a kfs_scheme"
  assumes "log_tx W k s" "held s = {}" "dir_ok s dp c" "j \<le> c"
  shows "\<exists>t. only_read W k s t \<and> dirlookup_loop dv dp name (DIRENT * c) (DIRENT * j) s =
    (case find (dir_match s dp name) [j..<c] of None \<Rightarrow> Ok None t
     | Some i \<Rightarrow> kbind (iget 1 (unat (de_inum (entry s dp i)))) (\<lambda>ip. kret (Some (ip, DIRENT * i))) t)"
  using assms
proof (induction "c - j" arbitrary: j s)
  case 0
  then show ?case using only_read_refl[OF 0(2,3)] by (subst dirlookup_loop.simps) (auto simp: kret_apply)
next
  case (Suc n)
  then have j: "j < c" by simp
  from read_entry[OF Suc.prems(1-3) j, of dv] obtain t where
    t: "readi dv dp (\<lambda>_. 0) (of_nat (DIRENT * j)) (of_nat DIRENT) s = Ok (int DIRENT, entry s dp j) t" and r: "only_read W k s t" .
  note rs = only_read_same[OF r]
  have u: "[j..<c] = j # [Suc j..<c]" using j by (simp add: upt_conv_Cons)
  show ?case
  proof (cases "dir_match s dp name j")
    case True
    have "i_dev (icache t dp) = 1" using Suc.prems(3) rs(3) by (simp add: dir_ok_def wf_file_def)
    then have "dirlookup_loop dv dp name (DIRENT * c) (DIRENT * j) s =
        kbind (iget 1 (unat (de_inum (entry s dp j)))) (\<lambda>ip. kret (Some (ip, DIRENT * j))) t"
      using True t j by (subst dirlookup_loop.simps) (simp add: dir_match_def kbind_apply kthen_apply kassert_apply kget_apply)
    then show ?thesis using r True by (auto simp: u)
  next
    case False
    have "dirlookup_loop dv dp name (DIRENT * c) (DIRENT * j) s = dirlookup_loop dv dp name (DIRENT * c) (DIRENT * Suc j) t"
      using False t j by (subst dirlookup_loop.simps) (auto simp: dir_match_def kbind_apply kthen_apply kassert_apply add.commute)
    moreover have "\<exists>u. only_read W k t u \<and> dirlookup_loop dv dp name (DIRENT * c) (DIRENT * Suc j) t =
      (case find (dir_match t dp name) [Suc j..<c] of None \<Rightarrow> Ok None u
       | Some i \<Rightarrow> kbind (iget 1 (unat (de_inum (entry t dp i)))) (\<lambda>ip. kret (Some (ip, DIRENT * i))) u)"
      by (rule Suc.hyps(1)) (use Suc.hyps(2) rs Suc.prems(3) j in auto)
    ultimately show ?thesis using False only_read_trans[OF r] unfolding rs u by auto
  qed
qed

lemma dirlookup_run:
  fixes s :: "'a kfs_scheme"
  assumes "log_tx W k s" "held s = {}" "dir_ok s dp c" "dir_search_ok (myproc s) (icache s dp)"
  shows "\<exists>t. only_read W k s t \<and> dirlookup dv dp name s =
    (case find (dir_match s dp name) [0..<c] of None \<Rightarrow> Ok None t
     | Some i \<Rightarrow> kbind (iget 1 (unat (de_inum (entry s dp i)))) (\<lambda>ip. kret (Some (ip, DIRENT * i))) t)"
proof -
  have "dirlookup dv dp name s = dirlookup_loop dv dp name (DIRENT * c) (DIRENT * 0) s"
    using assms(3,4) by (simp add: dirlookup_def kthen_apply kassert_apply dir_ok_def fsize_def)
  then show ?thesis using dirlookup_loop_run[OF assms(1-3), of 0 dv name] by simp
qed

section \<open>Adding\<close>

text \<open>The place \<^verbatim>\<open>dirlink\<close> takes: the first empty entry, or the end.\<close>

definition free_slot :: "'a kfs_scheme \<Rightarrow> nat \<Rightarrow> nat \<Rightarrow> nat" where
  "free_slot s dp c = (case find (\<lambda>i. de_inum (entry s dp i) = 0) [0..<c] of None \<Rightarrow> c | Some i \<Rightarrow> i)"

lemma find_upt_Some: "find P [0..<n] = Some j \<longleftrightarrow> j < n \<and> P j \<and> (\<forall>i < j. \<not> P i)"
  by (auto simp: find_Some_iff)

lemma free_slot_le: "free_slot s dp c \<le> c"
  by (auto simp: free_slot_def find_upt_Some split: option.splits)

lemma dirlink_slot_run:
  fixes s :: "'a kfs_scheme"
  assumes "log_tx W k s" "held s = {}" "dir_ok s dp c" "j \<le> c"
  shows "\<exists>t. only_read W k s t \<and> dirlink_slot dv dp (DIRENT * c) (DIRENT * j) s =
    Ok (DIRENT * (case find (\<lambda>i. de_inum (entry s dp i) = 0) [j..<c] of None \<Rightarrow> c | Some i \<Rightarrow> i)) t"
  using assms
proof (induction "c - j" arbitrary: j s)
  case 0
  then show ?case using only_read_refl[OF 0(2,3)] by (subst dirlink_slot.simps) (auto simp: kret_apply)
next
  case (Suc n)
  then have j: "j < c" by simp
  from read_entry[OF Suc.prems(1-3) j, of dv] obtain t where
    t: "readi dv dp (\<lambda>_. 0) (of_nat (DIRENT * j)) (of_nat DIRENT) s = Ok (int DIRENT, entry s dp j) t" and r: "only_read W k s t" .
  note rs = only_read_same[OF r]
  have u: "[j..<c] = j # [Suc j..<c]" using j by (simp add: upt_conv_Cons)
  show ?case
  proof (cases "de_inum (entry s dp j) = 0")
    case True
    have "dirlink_slot dv dp (DIRENT * c) (DIRENT * j) s = Ok (DIRENT * j) t"
      using True t j by (subst dirlink_slot.simps) (simp add: kbind_apply kthen_apply kassert_apply kret_apply)
    then show ?thesis using r True by (auto simp: u)
  next
    case False
    have "dirlink_slot dv dp (DIRENT * c) (DIRENT * j) s = dirlink_slot dv dp (DIRENT * c) (DIRENT * Suc j) t"
      using False t j by (subst dirlink_slot.simps) (auto simp: kbind_apply kthen_apply kassert_apply add.commute)
    moreover have "\<exists>u. only_read W k t u \<and> dirlink_slot dv dp (DIRENT * c) (DIRENT * Suc j) t =
        Ok (DIRENT * (case find (\<lambda>i. de_inum (entry t dp i) = 0) [Suc j..<c] of None \<Rightarrow> c | Some i \<Rightarrow> i)) u"
      by (rule Suc.hyps(1)) (use Suc.hyps(2) rs Suc.prems(3) j in auto)
    ultimately show ?thesis using False only_read_trans[OF r] unfolding rs u by auto
  qed
qed

lemma make_dirent_fields:
  assumes "\<And>j. j < DIRENT \<Longrightarrow> e j = make_dirent name inum j"
  shows "de_inum e = of_nat inum" "namecmp name (de_name e) = 0"
proof -
  have "le16 e 0 = le16 (make_dirent name inum) 0" using assms by (simp add: le16_def)
  then show "de_inum e = of_nat inum" by (simp add: de_inum_def make_dirent_def)
  have "de_name e i = name_field name i" if "i < DIRSIZ" for i
  proof -
    have "de_name e i = strncpy (\<lambda>_. 0) name (int DIRSIZ) i" using assms[of "2 + i"] that by (simp add: de_name_def make_dirent_def put16_def)
    then show ?thesis using that by (simp add: strncpy_at)
  qed
  then have "same_name name (de_name e) DIRSIZ" by (auto simp: same_name_def name_field_def)
  then show "namecmp name (de_name e) = 0" by (simp add: namecmp_def strncmp_same)
qed

text \<open>The directory after adding the name: the new entry in its place, and all other entries as before.\<close>

definition linked :: "'a kfs_scheme \<Rightarrow> nat \<Rightarrow> nat \<Rightarrow> bytes \<Rightarrow> nat \<Rightarrow> 'a kfs_scheme \<Rightarrow> bool" where
  "linked s dp c name inum t \<longleftrightarrow>
     (let j = free_slot s dp c; d = max c (Suc j) in
      dir_ok t dp d \<and> de_inum (entry t dp j) = of_nat inum \<and> namecmp name (de_name (entry t dp j)) = 0 \<and>
      (\<forall>i < c. i \<noteq> j \<longrightarrow> entry t dp i = entry s dp i))"

lemma written_linked:
  assumes w: "written dp (make_dirent name inum) (DIRENT * j) DIRENT s t" and s: "dir_ok s dp c" and j: "j = free_slot s dp c"
  shows "linked s dp c name inum t"
proof -
  have jc: "j \<le> c" using free_slot_le by (simp add: j)
  have z: "fsize t dp = DIRENT * max c (Suc j)" using w s by (auto simp: written_def dir_ok_def max_def)
  have con: "content t dp x = (if DIRENT * j \<le> x \<and> x < DIRENT * j + DIRENT then make_dirent name inum (x - DIRENT * j) else content s dp x)"
    if "x < fsize t dp" for x using w that by (simp add: written_def)
  have d: "dir_ok t dp (max c (Suc j))" using w s z by (auto simp: written_def dir_ok_def)
  have "entry t dp j x = make_dirent name inum x" if "x < DIRENT" for x
  proof -
    have "DIRENT * j + x < fsize t dp" using that z by (simp add: max_def)
    then show ?thesis using that con[of "DIRENT * j + x"] by (simp add: entry_def)
  qed
  note f = make_dirent_fields[of "entry t dp j" name inum, OF this]
  have "entry t dp i = entry s dp i" if i: "i < c" "i \<noteq> j" for i
  proof
    fix x
    have "content t dp (DIRENT * i + x) = content s dp (DIRENT * i + x)" if "x < DIRENT"
    proof -
      have "DIRENT * i + x < fsize t dp" using i(1) that z by (simp add: max_def)
      moreover have "\<not> (DIRENT * j \<le> DIRENT * i + x \<and> DIRENT * i + x < DIRENT * j + DIRENT)" using that i(2) by presburger
      ultimately show ?thesis using con[of "DIRENT * i + x"] by auto
    qed
    then show "entry t dp i x = entry s dp i x" by (simp add: entry_def)
  qed
  then show ?thesis using d f by (simp add: linked_def Let_def j[symmetric])
qed

text \<open>The new name is found in its place.\<close>

lemma linked_found:
  assumes l: "linked s dp c name inum t" and nz: "(of_nat inum :: u16) \<noteq> 0" and new: "\<forall>i < c. \<not> dir_match s dp name i"
  shows "find (dir_match t dp name) [0..<max c (Suc (free_slot s dp c))] = Some (free_slot s dp c)"
proof -
  let ?j = "free_slot s dp c"
  have "dir_match t dp name ?j" using l nz by (simp add: linked_def Let_def dir_match_def)
  moreover have "\<not> dir_match t dp name i" if "i < ?j" for i
  proof -
    have "i < c" "i \<noteq> ?j" using that free_slot_le[of s dp c] by auto
    then show ?thesis using l new by (simp add: linked_def Let_def dir_match_def)
  qed
  ultimately show ?thesis by (simp add: find_upt_Some)
qed

lemma nblk_dirent: "nblk (DIRENT * j) DIRENT = 1"
proof -
  have "DIRENT * j mod BSIZE = DIRENT * (j mod 32)" by (simp add: mult_mod_right)
  moreover have "j mod 32 < 32" by simp
  ultimately have "DIRENT * j mod BSIZE + DIRENT \<le> BSIZE" by linarith
  then show ?thesis by (simp add: nblk_def)
qed

lemma dirlink_run:
  fixes s :: "'a kfs_scheme"
  assumes tx: "log_tx (meta_blocks s dp) 2 s" and s: "held s = {}" "dir_ok s dp c" "2 \<le> free_count s"
    and ok: "dir_search_ok (myproc s) (icache s dp)" and new: "\<forall>i < c. \<not> dir_match s dp name i" and c: "DIRENT * c + DIRENT \<le> MAXFILE * BSIZE"
  shows "\<exists>W t. dirlink dv dp name inum s = Ok 0 t \<and> log_tx W 0 t \<and> held t = {} \<and>
    written dp (make_dirent name inum) (DIRENT * free_slot s dp c) DIRENT s t"
proof -
  define j where "j = free_slot s dp c"
  have jc: "j \<le> c" using free_slot_le by (simp add: j_def)
  from dirlookup_run[OF tx s(1,2) ok, of dv name] new obtain t1 where
    t1: "dirlookup dv dp name s = Ok None t1" "only_read (meta_blocks s dp) 2 s t1" by (auto simp: find_upt_None[THEN iffD2])
  note r1 = only_read_same[OF t1(2)]
  from dirlink_slot_run[OF r1(1,2) r1(6)[OF s(2)], of 0 dv] obtain t2 where
    t2: "dirlink_slot dv dp (DIRENT * c) 0 t1 = Ok (DIRENT * j) t2" "only_read (meta_blocks s dp) 2 t1 t2"
    unfolding r1(4) by (auto simp: j_def free_slot_def)
  have r: "only_read (meta_blocks s dp) 2 s t2" using only_read_trans[OF t1(2) t2(2)] .
  note r2 = only_read_same[OF r]
  have l: "log_rest s t2" and b: "bview t2 = bview s" using r by (simp_all add: only_read_def)
  note k = log_rest_kfs[OF l]
  have ic: "icache t2 ip = icache s ip" for ip by (simp add: k)
  note f = file_cong[OF ic b k(1,5)]
  have m: "meta_blocks t2 dp = meta_blocks s dp" by (simp add: meta_blocks_def f k)
  have fc: "free_count t2 = free_count s" using f(6) by (simp add: free_count_def k)
  have d2: "dir_ok t2 dp c" using r2(6)[OF s(2)] .
  let ?o = "of_nat (DIRENT * j) :: u32"
  have o: "unat ?o = DIRENT * j" using jc c by (simp only: unat_of_nat) simp
  have on: "nblk (unat ?o) (unat (of_nat DIRENT :: u32)) = 1" unfolding o using nblk_dirent by simp
  have "\<exists>W t. writei dv dp (make_dirent name inum) ?o (of_nat DIRENT) t2 = Ok (sint (of_nat DIRENT :: u32)) t \<and> log_tx W 0 t \<and> held t = {} \<and>
      written dp (make_dirent name inum) (unat ?o) (unat (of_nat DIRENT :: u32)) t2 t"
  proof (rule writei_run)
    show "log_tx (meta_blocks t2 dp) (nblk (unat ?o) (unat (of_nat DIRENT :: u32)) + 1) t2" unfolding on m one_add_one by (rule r2(1))
    show "nblk (unat ?o) (unat (of_nat DIRENT :: u32)) + 1 \<le> free_count t2" using on fc s(3) by simp
    show "?o \<le> i_size (icache t2 dp)" using o jc d2 by (simp add: word_le_nat_alt dir_ok_def fsize_def)
    show "unat ?o + unat (of_nat DIRENT :: u32) \<le> MAXFILE * BSIZE" using o jc c by simp
  qed (use d2 r2(2) in \<open>simp_all add: dir_ok_def\<close>)
  then obtain W t where t: "writei dv dp (make_dirent name inum) ?o (of_nat DIRENT) t2 = Ok (int DIRENT) t" "log_tx W 0 t" "held t = {}"
    "written dp (make_dirent name inum) (DIRENT * j) DIRENT t2 t" unfolding o by auto
  have "unat (i_size (icache t1 dp)) = DIRENT * c" using r1(3) s(2) by (simp add: dir_ok_def fsize_def)
  then have "dirlink dv dp name inum s = Ok 0 t"
    using t1(1) t2(1) t(1) by (simp add: dirlink_def kbind_apply kthen_apply kassert_apply kret_apply)
  moreover have "written dp (make_dirent name inum) (DIRENT * j) DIRENT s t"
    using t(4) woken_trans[OF k(6)] by (auto simp: written_def f ic)
  ultimately show ?thesis using t(2,3) by (auto simp: j_def)
qed

section \<open>A file system with an empty directory\<close>

definition ex_dir :: kfs where
  "ex_dir = ex_fs\<lparr>icache := (\<lambda>_. zero_inode\<lparr>i_dev := 1, i_inum := 1, i_ref := 1, i_valid := True, i_type := T_DIR, i_mode := 493\<rparr>)\<rparr>"

lemma ex_dir_same:
  "bview ex_dir = bview ex_fs" "fs_sb ex_dir = fs_sb ex_fs" "log_area ex_dir = log_area ex_fs" "disksize ex_dir = disksize ex_fs"
  "held ex_dir = held ex_fs" "logged ex_dir = logged ex_fs" "lg_outstanding ex_dir = lg_outstanding ex_fs" "lg_size ex_dir = lg_size ex_fs"
proof -
  have e: "bufs ex_dir = bufs ex_fs" "memdisk ex_dir = memdisk ex_fs" by (simp_all add: ex_dir_def)
  show "bview ex_dir = bview ex_fs" "held ex_dir = held ex_fs" by (intro ext, unfold bview_def e, rule refl, simp add: held_def e)
qed (simp_all add: ex_dir_def log_area_def logged_def)

lemma ex_dir_fields:
  "i_type (icache ex_dir ip) = T_DIR" "i_size (icache ex_dir ip) = 0" "i_addrs (icache ex_dir ip) k = 0" "i_dev (icache ex_dir ip) = 1"
  "i_inum (icache ex_dir ip) = 1" "i_mode (icache ex_dir ip) = 493"
  by (simp_all add: ex_dir_def zero_inode_def)

lemma ex_dir_areas:
  "in_use ex_dir = in_use ex_fs" "map_blocks ex_dir = {33}" "inode_blocks ex_dir = {32}" "indirect ex_dir ip = 0" "fblock ex_dir ip n = 0"
  "file_blocks ex_dir ip = {}" "fsize ex_dir ip = 0" "meta_blocks ex_dir ip = {32, 33}" "free_count ex_dir = free_count ex_fs"
proof -
  show u: "in_use ex_dir = in_use ex_fs" by (simp add: in_use_def ex_dir_same fun_eq_iff)
  show m: "map_blocks ex_dir = {33}" using ex_fs_areas(1) by (simp add: map_blocks_def ex_dir_same)
  show "inode_blocks ex_dir = {32}" using ex_fs_areas(2) by (simp add: inode_blocks_def ex_dir_same)
  show i: "indirect ex_dir ip = 0" for ip by (simp add: indirect_def ex_dir_fields)
  show "fblock ex_dir ip n = 0" for ip n by (simp add: fblock_def i ex_dir_fields)
  then show "file_blocks ex_dir ip = {}" by (auto simp: file_blocks_def i)
  show "fsize ex_dir ip = 0" by (simp add: fsize_def ex_dir_fields)
  show "meta_blocks ex_dir ip = {32, 33}" by (auto simp: meta_blocks_def m i IBLOCK_def ex_dir_fields ex_dir_same ex_fs_fields ex_fs_sb_def)
  show "free_count ex_dir = free_count ex_fs" by (simp add: free_count_def u ex_dir_same)
qed

lemma ex_dir_ok: "log_tx {32, 33} 2 ex_dir" "held ex_dir = {}" "dir_ok ex_dir ip 0" "2 \<le> free_count ex_dir" "dir_search_ok (myproc ex_dir) (icache ex_dir ip)"
proof -
  show "held ex_dir = {}" by (simp add: ex_dir_same ex_fs_areas)
  show "2 \<le> free_count ex_dir" using ex_fs_wf(5) by (simp add: ex_dir_areas)
  have "fs_ok ex_dir" using ex_fs_wf(1) by (simp add: fs_ok_def ex_dir_areas ex_dir_same ex_fs_areas)
  moreover have "wf_file ex_dir ip" by (simp add: wf_file_def wf_map_def ex_dir_areas ex_dir_same ex_dir_fields ex_fs_fields ex_fs_sb_def)
  ultimately show "dir_ok ex_dir ip 0" by (simp add: dir_ok_def ex_dir_areas ex_dir_fields)
  show "dir_search_ok (myproc ex_dir) (icache ex_dir ip)" by (simp add: dir_search_ok_def ex_dir_fields)
  have "log_inv ex_dir"
    using ex_fs_log_inv by (simp add: log_inv_def log_geometry_def bio_inv_def buf_ok_def ex_dir_def dirty_blocks_def dirty_def logged_def log_area_def)
  moreover have "own ex_dir = {}" by (simp add: own_def ex_dir_def ex_fs_fields init_buf_def)
  ultimately show "log_tx {32, 33} 2 ex_dir" by (simp add: log_tx_def ex_dir_same ex_fs_areas ex_fs_fields)
qed

section \<open>Properties\<close>

text \<open>
  C14. \<^verbatim>\<open>dirlookup\<close> on a directory that can be read refuses without the right to search it, and otherwise
  finds the first entry in use that has the name and returns its inode and its position, or nothing when there is none. Reading
  changes no block and no inode.
\<close>
theorem dirlookup_correct:
  fixes s :: "'a kfs_scheme"
  assumes "log_tx W k s" "held s = {}" "dir_ok s dp c"
  shows "if \<not> dir_search_ok (myproc s) (icache s dp) then dirlookup dv dp name s = Ok None s
    else \<exists>t. bview t = bview s \<and> icache t = icache s \<and> held t = {} \<and> dirlookup dv dp name s =
      (case find (dir_match s dp name) [0..<c] of None \<Rightarrow> Ok None t
       | Some i \<Rightarrow> kbind (iget 1 (unat (de_inum (entry s dp i)))) (\<lambda>ip. kret (Some (ip, DIRENT * i))) t)"
proof (cases "dir_search_ok (myproc s) (icache s dp)")
  case True
  from dirlookup_run[OF assms True, of dv name] obtain t where
    "only_read W k s t" "dirlookup dv dp name s = (case find (dir_match s dp name) [0..<c] of None \<Rightarrow> Ok None t
       | Some i \<Rightarrow> kbind (iget 1 (unat (de_inum (entry s dp i)))) (\<lambda>ip. kret (Some (ip, DIRENT * i))) t)" by blast
  then show ?thesis using True only_read_same(2,3)[of W k s t] by (auto simp: only_read_def)
next
  case False
  then show ?thesis using assms(3) by (simp add: dirlookup_def kthen_apply kassert_apply dir_ok_def)
qed

theorem dirlookup_correct_witness:
  "\<exists>t. bview t = bview ex_dir \<and> icache t = icache ex_dir \<and> dirlookup (\<lambda>_. (None, None)) 0 (cbytes (cstr ''sh'')) ex_dir = Ok None t"
  using dirlookup_correct[OF ex_dir_ok(1-3), of 0 "\<lambda>_. (None, None)" "cbytes (cstr ''sh'')"] ex_dir_ok(5) by auto

text \<open>
  C13. A name that is not in a directory is added by \<^verbatim>\<open>dirlink\<close> and found by \<^verbatim>\<open>dirlookup\<close>: the entry goes to the first
  free place, every other entry keeps its place and its contents, files that share no block with the directory keep
  theirs, and looking the name up afterwards gives the inode it was linked to.
\<close>
theorem dirlink_then_dirlookup:
  fixes s :: "'a kfs_scheme"
  assumes "log_tx (meta_blocks s dp) 2 s" "held s = {}" "dir_ok s dp c" "2 \<le> free_count s"
    "dir_search_ok (myproc s) (icache s dp)" "\<forall>i < c. \<not> dir_match s dp name i" "DIRENT * c + DIRENT \<le> MAXFILE * BSIZE" "0 < inum" "inum < 2 ^ 16"
  shows "\<exists>t u. dirlink dv dp name inum s = Ok 0 t \<and> linked s dp c name inum t \<and>
    (\<forall>ip. ip \<noteq> dp \<and> wf_file s ip \<and> file_blocks s ip \<inter> file_blocks s dp = {} \<longrightarrow>
      wf_file t ip \<and> fsize t ip = fsize s ip \<and> (\<forall>j < fsize s ip. content t ip j = content s ip j)) \<and>
    dirlookup dv dp name t = kbind (iget 1 inum) (\<lambda>ip. kret (Some (ip, DIRENT * free_slot s dp c))) u \<and>
    bview u = bview t \<and> icache u = icache t"
proof -
  let ?j = "free_slot s dp c" and ?c = "max c (Suc (free_slot s dp c))"
  from dirlink_run[OF assms(1-7), of dv inum] obtain W t where
    t: "dirlink dv dp name inum s = Ok 0 t" "log_tx W 0 t" "held t = {}" and w: "written dp (make_dirent name inum) (DIRENT * ?j) DIRENT s t" by blast
  have l: "linked s dp c name inum t" by (rule written_linked[OF w assms(3) refl])
  have n: "unat (of_nat inum :: u16) = inum" using assms(9) by (simp add: unat_of_nat)
  then have nz: "(of_nat inum :: u16) \<noteq> 0" using assms(8) by (metis unat_0 less_irrefl)
  have ok: "dir_search_ok (myproc t) (icache t dp)"
  proof -
    have "myproc t = ptable t (cur s)" "ptable t (cur s) = myproc s \<or> ptable t (cur s) = (myproc s)\<lparr>p_state := RUNNABLE\<rparr>"
      using w by (auto simp: written_def woken_def)
    then have "p_euid (myproc t) = p_euid (myproc s)" "p_ngroups (myproc t) = p_ngroups (myproc s)" "p_gids (myproc t) = p_gids (myproc s)"
      by auto
    moreover have "i_mode (icache t dp) = i_mode (icache s dp)" "i_uid (icache t dp) = i_uid (icache s dp)" "i_gid (icache t dp) = i_gid (icache s dp)"
      using w by (auto simp: written_def)
    ultimately show ?thesis using assms(5) by (simp add: dir_search_ok_def)
  qed
  have f: "find (dir_match t dp name) [0..<?c] = Some ?j" by (rule linked_found[OF l nz assms(6)])
  have d: "dir_ok t dp ?c" using l by (simp add: linked_def Let_def)
  from dirlookup_run[OF t(2,3) d ok, of dv name] l n obtain u where
    "only_read W 0 t u" "dirlookup dv dp name t = kbind (iget 1 inum) (\<lambda>ip. kret (Some (ip, DIRENT * ?j))) u"
    unfolding f by (auto simp: linked_def Let_def)
  moreover have "\<forall>ip. ip \<noteq> dp \<and> wf_file s ip \<and> file_blocks s ip \<inter> file_blocks s dp = {} \<longrightarrow>
      wf_file t ip \<and> fsize t ip = fsize s ip \<and> (\<forall>j < fsize s ip. content t ip j = content s ip j)" using w unfolding written_def by blast
  ultimately show ?thesis using t(1) l only_read_same(3)[of W 0 t u] by (auto simp: only_read_def)
qed

theorem dirlink_then_dirlookup_witness:
  "\<exists>t u. dirlink (\<lambda>_. (None, None)) 0 (cbytes (cstr ''sh'')) 7 ex_dir = Ok 0 t \<and>
     dirlookup (\<lambda>_. (None, None)) 0 (cbytes (cstr ''sh'')) t = kbind (iget 1 7) (\<lambda>ip. kret (Some (ip, 0))) u \<and> icache u = icache t"
  using dirlink_then_dirlookup[of ex_dir 0 0 "cbytes (cstr ''sh'')" 7 "\<lambda>_. (None, None)"] ex_dir_ok
  by (auto simp: ex_dir_areas free_slot_def)

end
