(* ===== verification/Fs_Dinode.thy ===== *)
theory Fs_Dinode
  imports Fs_Inode
begin

text \<open>
  The layout of inodes on the disk: what is stored at one position is read back from it, and
  the other inode of the block is not touched.
\<close>

lemma put_addrs_fold:
  assumes "\<forall>k \<in> set ks. p + 4 * k + 4 \<le> q \<or> q + n \<le> p + 4 * k"
  shows "\<forall>j. q \<le> j \<and> j < q + n \<longrightarrow> fold (\<lambda>k b. put32 b (p + 4 * k) (a k)) ks b j = b j"
  using assms
proof (induction ks arbitrary: b)
  case (Cons k ks)
  from Cons.prems have k: "p + 4 * k + 4 \<le> q \<or> q + n \<le> p + 4 * k" by simp
  have "put32 b (p + 4 * k) (a k) j = b j" if "q \<le> j" "j < q + n" for j
    using k that by (auto simp: put32_def)
  then show ?case using Cons.IH[of "put32 b (p + 4 * k) (a k)"] Cons.prems by simp
qed simp

lemma put_addrs_other:
  assumes "j < p \<or> p + 232 \<le> j"
  shows "put_addrs a p b j = b j"
proof -
  have "\<forall>k \<in> set [0..<NDIRECT + 1]. p + 4 * k + 4 \<le> j \<or> j + 1 \<le> p + 4 * k" using assms by auto
  from put_addrs_fold[OF this, of a b] show ?thesis unfolding put_addrs_def by simp
qed

lemma le32_cong: "(\<And>j. i \<le> j \<Longrightarrow> j < i + 4 \<Longrightarrow> d j = e j) \<Longrightarrow> le32 d i = le32 e i"
  by (simp add: le32_def)

lemma le16_cong: "(\<And>j. i \<le> j \<Longrightarrow> j < i + 2 \<Longrightarrow> d j = e j) \<Longrightarrow> le16 d i = le16 e i"
  by (simp add: le16_def)

lemma put_addrs_same:
  assumes "k \<le> NDIRECT"
  shows "le32 (put_addrs a p b) (p + 4 * k) = a k"
proof -
  have e: "[0..<NDIRECT + 1] = [0..<k] @ k # [Suc k..<NDIRECT + 1]" using assms upt_add_eq_append[of 0 k "58 - k"] upt_conv_Cons[of k 58] by simp
  define b1 where "b1 = put32 (fold (\<lambda>k b. put32 b (p + 4 * k) (a k)) [0..<k] b) (p + 4 * k) (a k)"
  have "put_addrs a p b = fold (\<lambda>k b. put32 b (p + 4 * k) (a k)) [Suc k..<NDIRECT + 1] b1"
    unfolding put_addrs_def e b1_def by (simp del: upt_Suc)
  moreover have "\<forall>m \<in> set [Suc k..<NDIRECT + 1]. p + 4 * m + 4 \<le> p + 4 * k \<or> p + 4 * k + 4 \<le> p + 4 * m" by auto
  ultimately have "le32 (put_addrs a p b) (p + 4 * k) = le32 b1 (p + 4 * k)"
    using put_addrs_fold[of "[Suc k..<NDIRECT + 1]" p "p + 4 * k" 4 a b1] by (intro le32_cong) simp
  then show ?thesis by (simp add: b1_def)
qed

lemma put_dinode_other:
  assumes "j < p \<or> p + DINODE \<le> j"
  shows "put_dinode d p b j = b j"
  using assms unfolding put_dinode_def by (subst put_addrs_other) (auto simp: put16_def put32_def)

text \<open>An inode that is stored in a block is the one read from there.\<close>

lemma get_put_dinode:
  assumes "\<forall>k > NDIRECT. d_addrs d k = 0"
  shows "get_dinode (put_dinode d p b) p = d"
proof -
  define c where "c = put16 (put32 (put32 (put32 (put16 (put16 (put16 (put16 b p (d_type d))
        (p + 2) (d_major d)) (p + 4) (d_minor d)) (p + 6) (d_nlink d)) (p + 8) (d_size d))
        (p + 244) (d_uid d)) (p + 248) (d_gid d)) (p + 252) (d_mode d)"
  have e: "put_dinode d p b = put_addrs (d_addrs d) (p + 12) c" by (simp add: put_dinode_def c_def)
  have o16: "le16 (put_dinode d p b) j = le16 c j" if "j + 2 \<le> p + 12 \<or> p + 244 \<le> j" for j
    unfolding e using that by (intro le16_cong put_addrs_other) auto
  have o32: "le32 (put_dinode d p b) j = le32 c j" if "j + 4 \<le> p + 12 \<or> p + 244 \<le> j" for j
    unfolding e using that by (intro le32_cong put_addrs_other) auto
  have a: "(\<lambda>k. if k \<le> NDIRECT then le32 (put_dinode d p b) (p + 12 + 4 * k) else 0) = d_addrs d"
    using assms put_addrs_same[of _ "d_addrs d" "p + 12" c] by (auto simp: e)
  show ?thesis unfolding get_dinode_def a by (simp add: o16 o32) (simp add: c_def)
qed

lemma get_put_dinode_other:
  assumes "q + DINODE \<le> p \<or> p + DINODE \<le> q"
  shows "get_dinode (put_dinode d p b) q = get_dinode b q"
proof -
  have "le16 (put_dinode d p b) (q + i) = le16 b (q + i)" if "i + 2 \<le> DINODE" for i
    using that assms by (intro le16_cong put_dinode_other) auto
  moreover have "le32 (put_dinode d p b) (q + i) = le32 b (q + i)" if "i + 4 \<le> DINODE" for i
    using that assms by (intro le32_cong put_dinode_other) auto
  note m = calculation this
  have "le32 (put_dinode d p b) (q + 12 + 4 * k) = le32 b (q + 12 + 4 * k)" if "k \<le> NDIRECT" for k
    using that m(2)[of "12 + 4 * k"] by (simp add: add.assoc)
  then show ?thesis using m(1)[of 0] m(1)[of 2] m by (simp add: get_dinode_def cong: if_cong)
qed

lemma get_dinode_addrs: "\<forall>k > NDIRECT. d_addrs (get_dinode b p) k = 0"
  by (simp add: get_dinode_def)

end
