(* ===== verification/Mkfs.thy ===== *)
theory Mkfs
  imports Fs_Dir Fs_Dinode
begin

text \<open>
  The program that builds the file system image (\<^verbatim>\<open>tools/mkfs.c\<close>), which runs on the host when
  the system is built. Its state is the image and its global variables. A failed assertion and
  \<^verbatim>\<open>exit(1)\<close> end the program: both are outcomes \<open>Panic\<close>. The files of the host are a parameter
  \<open>host\<close> that gives the contents of the file of a name, if there is one; writing to the image
  succeeds. The host is little-endian as the machine is, so that a \<^verbatim>\<open>struct\<close> is in memory as it is on the disk.
\<close>

record mkfs =
  img :: "nat \<Rightarrow> bytes"
  nsect :: nat
  freeinode :: u32
  freeblock :: u32
  rootino :: u32
  homeino :: u32
  binino :: u32
  devino :: u32
  etcino :: u32
  rootuserino :: u32

abbreviation (input) NINODES :: nat where "NINODES \<equiv> 200"

definition nbitmap :: nat where "nbitmap = FSSIZE div (BSIZE * 8) + 1"
definition ninodeblocks :: nat where "ninodeblocks = NINODES div IPB + 1"
definition nlog :: nat where "nlog = LOGSIZE"
definition nmeta :: nat where "nmeta = 2 + nlog + ninodeblocks + nbitmap"
definition nblocks :: nat where "nblocks = FSSIZE - nmeta"

section \<open>Byte order\<close>

definition xshort :: "u16 \<Rightarrow> u16" where
  "xshort x = le16 (\<lambda>k. if k = 0 then ucast x else ucast (drop_bit 8 x)) 0"

definition xint :: "u32 \<Rightarrow> u32" where
  "xint x = le32 (\<lambda>k. if k = 0 then ucast x else if k = 1 then ucast (drop_bit 8 x)
     else if k = 2 then ucast (drop_bit 16 x) else ucast (drop_bit 24 x)) 0"

definition mkfs_sb :: superblock where
  "mkfs_sb = \<lparr>sb_size = unat (xint (of_nat FSSIZE)), sb_nblocks = unat (xint (of_nat nblocks)),
     sb_ninodes = unat (xint (of_nat NINODES)), sb_nlog = unat (xint (of_nat nlog)), sb_logstart = unat (xint 2),
     sb_inodestart = unat (xint (of_nat (2 + nlog))), sb_bmapstart = unat (xint (of_nat (2 + nlog + ninodeblocks)))\<rparr>"

text \<open>The superblock at the start of a block of zeroes.\<close>

definition sb_block :: bytes where
  "sb_block =
     (let w = (\<lambda>b p x. put32 b p (of_nat x)) in
      w (w (w (w (w (w (w (\<lambda>_. 0) 0 (sb_size mkfs_sb)) 4 (sb_nblocks mkfs_sb)) 8 (sb_ninodes mkfs_sb))
       12 (sb_nlog mkfs_sb)) 16 (sb_logstart mkfs_sb)) 20 (sb_inodestart mkfs_sb)) 24 (sb_bmapstart mkfs_sb))"

section \<open>Sectors and inodes\<close>

text \<open>
  The position in the image is computed in 32 bits. Reading past the end of the image gives no
  bytes, which ends the program.
\<close>

definition sector :: "u32 \<Rightarrow> nat" where
  "sector sec = unat (sec * of_nat BSIZE) div BSIZE"

definition wsect :: "u32 \<Rightarrow> bytes \<Rightarrow> (mkfs, unit) km" where
  "wsect sec buf = kmod (\<lambda>s. s\<lparr>img := (img s)(sector sec := buf), nsect := max (nsect s) (Suc (sector sec))\<rparr>)"

definition rsect :: "u32 \<Rightarrow> (mkfs, bytes) km" where
  "rsect sec = kthen (kassert ''read'' (\<lambda>s. sector sec < nsect s)) (kget (\<lambda>s. img s (sector sec)))"

definition inode_sect :: "u32 \<Rightarrow> u32" where
  "inode_sect inum = of_nat (IBLOCK (unat inum) mkfs_sb)"

definition winode :: "u32 \<Rightarrow> dinode \<Rightarrow> (mkfs, unit) km" where
  "winode inum ip =
     kbind (rsect (inode_sect inum)) (\<lambda>buf.
     wsect (inode_sect inum) (put_dinode ip (DINODE * (unat inum mod IPB)) buf))"

definition rinode :: "u32 \<Rightarrow> (mkfs, dinode) km" where
  "rinode inum =
     kbind (rsect (inode_sect inum)) (\<lambda>buf.
     kret (get_dinode buf (DINODE * (unat inum mod IPB))))"

definition mkfs_ialloc :: "u16 \<Rightarrow> u16 \<Rightarrow> (mkfs, u32) km" where
  "mkfs_ialloc type permission =
     kbind (kget freeinode) (\<lambda>inum.
     kthen (kmod (\<lambda>s. s\<lparr>freeinode := freeinode s + 1\<rparr>))
    (kthen (winode inum \<lparr>d_type = xshort type, d_major = 0, d_minor = 0, d_nlink = xshort 1, d_size = xint 0,
        d_addrs = (\<lambda>_. 0), d_uid = 0, d_gid = 0, d_mode = permission\<rparr>)
     (kret inum)))"

definition mkfs_balloc :: "int \<Rightarrow> (mkfs, unit) km" where
  "mkfs_balloc used =
     kthen (kassert ''used < BSIZE*8'' (\<lambda>_. used < int (BSIZE * 8)))
     (wsect (of_nat (sb_bmapstart mkfs_sb)) (fold bmap_mark [0..<nat used] (\<lambda>_. 0)))"

section \<open>Appending to a file\<close>

text \<open>\<^verbatim>\<open>freeblock++\<close>\<close>

definition next_block :: "(mkfs, u32) km" where
  "next_block = kbind (kget freeblock) (\<lambda>b. kthen (kmod (\<lambda>s. s\<lparr>freeblock := freeblock s + 1\<rparr>)) (kret b))"

text \<open>The sector of block \<open>fbn\<close> of the file, allocated when the file has none, with the inode in memory.\<close>

definition iappend_block :: "dinode \<Rightarrow> nat \<Rightarrow> (mkfs, dinode \<times> u32) km" where
  "iappend_block din fbn =
     (if fbn < NDIRECT then
        kbind (if xint (d_addrs din fbn) = 0
               then kbind next_block (\<lambda>b. kret (din\<lparr>d_addrs := (d_addrs din)(fbn := xint b)\<rparr>))
               else kret din) (\<lambda>din.
        kret (din, xint (d_addrs din fbn)))
      else
        kbind (if xint (d_addrs din NDIRECT) = 0
               then kbind next_block (\<lambda>b. kret (din\<lparr>d_addrs := (d_addrs din)(NDIRECT := xint b)\<rparr>))
               else kret din) (\<lambda>din.
        kbind (rsect (xint (d_addrs din NDIRECT))) (\<lambda>indirect.
        kbind (if le32 indirect (4 * (fbn - NDIRECT)) = 0
               then kbind next_block (\<lambda>b.
                  kthen (wsect (xint (d_addrs din NDIRECT)) (put32 indirect (4 * (fbn - NDIRECT)) (xint b)))
                  (kret (put32 indirect (4 * (fbn - NDIRECT)) (xint b))))
               else kret indirect) (\<lambda>indirect.
        kret (din, xint (le32 indirect (4 * (fbn - NDIRECT))))))))"

text \<open>The bytes \<open>xs\<close> at the offset \<open>p\<close> of a block.\<close>

definition bcopy_at :: "u8 list \<Rightarrow> nat \<Rightarrow> bytes \<Rightarrow> bytes" where
  "bcopy_at xs p b = (\<lambda>k. if p \<le> k \<and> k < p + length xs then xs ! (k - p) else b k)"

function iappend_loop :: "dinode \<Rightarrow> nat \<Rightarrow> u8 list \<Rightarrow> (mkfs, dinode \<times> nat) km" where
  "iappend_loop din off p =
     (if p = [] then kret (din, off)
      else
        let fbn = off div BSIZE; n1 = min (length p) ((fbn + 1) * BSIZE - off) in
        kthen (kassert ''fbn < MAXFILE'' (\<lambda>_. fbn < MAXFILE))
       (kbind (iappend_block din fbn) (\<lambda>(din, x).
        kbind (rsect x) (\<lambda>buf.
        kthen (wsect x (bcopy_at (take n1 p) (off - fbn * BSIZE) buf))
        (iappend_loop din (off + n1) (drop n1 p))))))"
  by pat_completeness auto
termination
  by (relation "measure (\<lambda>(din, off, p). length p)") (auto simp: min_def dividend_less_div_times Suc_le_eq)

definition iappend :: "u32 \<Rightarrow> u8 list \<Rightarrow> (mkfs, unit) km" where
  "iappend inum p =
     kbind (rinode inum) (\<lambda>din.
     kbind (iappend_loop din (unat (xint (d_size din))) p) (\<lambda>(din, off).
     winode inum (din\<lparr>d_size := xint (of_nat off)\<rparr>)))"

declare iappend_loop.simps [simp del]

section \<open>Directories and files\<close>

text \<open>
  A zeroed \<^verbatim>\<open>struct dirent\<close> with a number and a name; the names of \<^verbatim>\<open>makedirs\<close> are shorter than
  \<^verbatim>\<open>DIRSIZ\<close>, so that \<^verbatim>\<open>strcpy\<close> and \<^verbatim>\<open>strncpy\<close> make the same entry of them.
\<close>

definition dirent :: "cstring \<Rightarrow> u32 \<Rightarrow> u8 list" where
  "dirent name inum = map (make_dirent (cbytes name) (unat (xshort (ucast inum)))) [0..<DIRENT]"

definition DOT :: cstring where "DOT = cstr ''.''"
definition DOTDOT :: cstring where "DOTDOT = cstr ''..''"

definition mk_subdir :: "u32 \<Rightarrow> string \<Rightarrow> (mkfs, u32) km" where
  "mk_subdir parent name =
     kbind (mkfs_ialloc T_DIR 493) (\<lambda>ino.
     kthen (iappend ino (dirent DOT ino))
    (kthen (iappend ino (dirent DOTDOT parent))
    (kthen (iappend parent (dirent (cstr name) ino))
     (kret ino))))"

definition makedirs :: "(mkfs, unit) km" where
  "makedirs =
     kbind (mkfs_ialloc T_DIR 493) (\<lambda>root.
     kthen (kmod (\<lambda>s. s\<lparr>rootino := root\<rparr>))
    (kthen (kassert ''rootino == ROOTINO'' (\<lambda>_. root = of_nat ROOTINO))
    (kthen (iappend root (dirent DOT root))
    (kthen (iappend root (dirent DOTDOT root))
    (kbind (mk_subdir root ''dev'') (\<lambda>dev.
     kthen (kmod (\<lambda>s. s\<lparr>devino := dev\<rparr>))
    (kbind (mk_subdir root ''bin'') (\<lambda>bin.
     kthen (kmod (\<lambda>s. s\<lparr>binino := bin\<rparr>))
    (kbind (mk_subdir root ''home'') (\<lambda>home.
     kthen (kmod (\<lambda>s. s\<lparr>homeino := home\<rparr>))
    (kbind (mk_subdir home ''root'') (\<lambda>rootuser.
     kthen (kmod (\<lambda>s. s\<lparr>rootuserino := rootuser\<rparr>))
    (kbind (mk_subdir root ''etc'') (\<lambda>etc.
     kmod (\<lambda>s. s\<lparr>etcino := etc\<rparr>)))))))))))))))"

function copy_in :: "u32 \<Rightarrow> u8 list \<Rightarrow> (mkfs, unit) km" where
  "copy_in inum data =
     (if data = [] then kret ()
      else kthen (iappend inum (take BSIZE data)) (copy_in inum (drop BSIZE data)))"
  by pat_completeness auto
termination
  by (relation "measure (\<lambda>(inum, data). length data)") auto

declare copy_in.simps [simp del]

definition prefix_of :: "string \<Rightarrow> cstring \<Rightarrow> bool" where
  "prefix_of p xs \<longleftrightarrow> take (length p) xs = cstr p"

text \<open>The name without its directory, and whether the file is one of \<^verbatim>\<open>cfg/\<close>.\<close>

definition shortname :: "cstring \<Rightarrow> cstring" where
  "shortname arg =
     (let name = (if prefix_of ''user/'' arg then drop 5 arg else arg) in
      if prefix_of ''cfg/'' arg then drop 4 name else name)"

definition is_binary :: "cstring \<Rightarrow> bool" where
  "is_binary name \<longleftrightarrow> name \<noteq> [] \<and> hd name = of_char CHR ''_''"

definition add_file :: "(cstring \<Rightarrow> u8 list option) \<Rightarrow> cstring \<Rightarrow> (mkfs, unit) km" where
  "add_file host arg =
     (let name = shortname arg in
      kthen (kassert ''index(shortname, /) == 0'' (\<lambda>_. SLASH \<notin> set name))
      (case host arg of
         None \<Rightarrow> kpanic ''open''
       | Some data \<Rightarrow> (\<lambda>s.
          let dirino = (if is_binary name then binino s else if prefix_of ''cfg/'' arg then etcino s else rootuserino s);
              name = (if is_binary name then drop 1 name else name) in
          kbind (mkfs_ialloc T_FILE (if dirino = binino s then 509 else 420)) (\<lambda>inum.
          kthen (iappend dirino (dirent name inum))
          (copy_in inum data)) s)))"

definition mkfs_main :: "(cstring \<Rightarrow> u8 list option) \<Rightarrow> cstring list \<Rightarrow> (mkfs, unit) km" where
  "mkfs_main host argv =
     (if length argv < 2 then kpanic ''Usage: mkfs fs.img files...''
      else
        kthen (kmod (\<lambda>s. s\<lparr>freeblock := of_nat nmeta\<rparr>))
       (kthen (kfor (\<lambda>i. wsect (of_nat i) (\<lambda>_. 0)) [0..<FSSIZE])
       (kthen (wsect 1 sb_block)
       (kthen makedirs
       (kthen (kfor (add_file host) (drop 2 argv))
        (\<lambda>s. mkfs_balloc (sint (freeblock s)) s))))))"

text \<open>The state when the program starts, with a new image.\<close>

definition mkfs_init :: mkfs where
  "mkfs_init = \<lparr>img = (\<lambda>_ _. 0), nsect = 0, freeinode = 1, freeblock = 0, rootino = 0, homeino = 0, binino = 0,
     devino = 0, etcino = 0, rootuserino = 0\<rparr>"

end
