(* ===== verification/Mkfs_Image.thy ===== *)
theory Mkfs_Image
  imports Mkfs Fs_File
begin

text \<open>
  What the image builder puts on the disk: every file gets blocks of its own behind the metadata,
  and the kernel reads from the image what the host file held.
\<close>

lemma xint_id [simp]: "xint x = x"
proof -
  have "bit (xint x) n = bit x n" if "n < 32" for n
  proof -
    have "n < 8 \<or> 8 \<le> n \<and> n < 16 \<or> 16 \<le> n \<and> n < 24 \<or> 24 \<le> n" by linarith
    then show ?thesis
      using that unfolding xint_def le32_def
      by (elim disjE conjE) (simp_all add: bit_or_iff bit_push_bit_iff bit_unsigned_iff bit_drop_bit_eq, auto)
  qed
  then show ?thesis by (auto intro!: bit_word_eqI)
qed

lemma xshort_id [simp]: "xshort x = x"
proof -
  have "bit (xshort x) n = bit x n" if "n < 16" for n
    using that unfolding xshort_def le16_def
    by (auto simp: bit_or_iff bit_push_bit_iff bit_unsigned_iff bit_drop_bit_eq)
  then show ?thesis by (auto intro!: bit_word_eqI)
qed

lemma layout: "nmeta = 134" "nlog = 30" "ninodeblocks = 101" "nblocks = 3866"
  by (simp_all add: nmeta_def nlog_def ninodeblocks_def nbitmap_def nblocks_def)

lemma mkfs_sb_eq:
  "mkfs_sb = \<lparr>sb_size = 4000, sb_nblocks = 3866, sb_ninodes = 200, sb_nlog = 30, sb_logstart = 2, sb_inodestart = 32, sb_bmapstart = 133\<rparr>"
  by (simp add: mkfs_sb_def layout)

lemma decode_sb_block: "decode_sb sb_block = mkfs_sb"
  by (simp add: sb_block_def decode_sb_def mkfs_sb_eq Let_def)

lemma sector_small: "unat b < FSSIZE \<Longrightarrow> sector b = unat b"
  by (simp add: sector_def unat_word_ariths)

section \<open>Blocks of a file\<close>

text \<open>The blocks of a file by number, and as the last one the block of indirect addresses.\<close>

definition blk :: "(nat \<Rightarrow> bytes) \<Rightarrow> dinode \<Rightarrow> nat \<Rightarrow> nat" where
  "blk g d n =
     (if n < NDIRECT then unat (d_addrs d n)
      else if n = MAXFILE then unat (d_addrs d NDIRECT)
      else if d_addrs d NDIRECT = 0 then 0
      else unat (le32 (g (unat (d_addrs d NDIRECT))) (4 * (n - NDIRECT))))"

text \<open>All blocks of the files \<open>I\<close> are different, behind the metadata and below \<open>fb\<close>; the rest of the image is empty.\<close>

definition placed :: "(nat \<Rightarrow> bytes) \<Rightarrow> nat \<Rightarrow> (nat \<Rightarrow> dinode) \<Rightarrow> nat set \<Rightarrow> bool" where
  "placed g fb D I \<longleftrightarrow> nmeta \<le> fb \<and> fb \<le> FSSIZE \<and>
     (\<forall>i \<in> I. \<forall>n \<le> MAXFILE. blk g (D i) n \<noteq> 0 \<longrightarrow> nmeta \<le> blk g (D i) n \<and> blk g (D i) n < fb) \<and>
     (\<forall>i \<in> I. \<forall>j \<in> I. \<forall>n \<le> MAXFILE. \<forall>m \<le> MAXFILE. blk g (D i) n \<noteq> 0 \<and> blk g (D i) n = blk g (D j) m \<longrightarrow> i = j \<and> n = m) \<and>
     (\<forall>b. fb \<le> b \<and> b < FSSIZE \<longrightarrow> g b = (\<lambda>_. 0))"

lemma placed_range:
  assumes "placed g fb D I" "i \<in> I" "n \<le> MAXFILE" "blk g (D i) n \<noteq> 0"
  shows "nmeta \<le> blk g (D i) n" "blk g (D i) n < fb" "blk g (D i) n < FSSIZE"
  using assms unfolding placed_def by fastforce+

lemma placed_inj:
  assumes "placed g fb D I" "i \<in> I" "j \<in> I" "n \<le> MAXFILE" "m \<le> MAXFILE" "blk g (D i) n \<noteq> 0" "blk g (D i) n = blk g (D j) m"
  shows "i = j \<and> n = m"
  using assms unfolding placed_def by blast

lemma placed_free:
  assumes "placed g fb D I" "fb \<le> b" "b < FSSIZE"
  shows "g b = (\<lambda>_. 0)"
  using assms unfolding placed_def by blast

lemma blk_cong:
  assumes "d_addrs d NDIRECT \<noteq> 0 \<Longrightarrow> g' (unat (d_addrs d NDIRECT)) = g (unat (d_addrs d NDIRECT))"
  shows "blk g' d m = blk g d m"
  using assms by (simp add: blk_def)

lemma placed_new:
  assumes p: "placed g fb D I" and i: "i \<in> I" "n \<le> MAXFILE" and fb: "fb < FSSIZE" "\<And>b. Suc fb \<le> b \<Longrightarrow> b < FSSIZE \<Longrightarrow> g' b = g b"
    and b: "\<And>j m. j \<in> I \<Longrightarrow> m \<le> MAXFILE \<Longrightarrow> blk g' (D' j) m = (if j = i \<and> m = n then fb else blk g (D j) m)"
  shows "placed g' (Suc fb) D' I"
proof -
  have r: "blk g (D j) m \<noteq> 0 \<longrightarrow> nmeta \<le> blk g (D j) m \<and> blk g (D j) m < fb" if "j \<in> I" "m \<le> MAXFILE" for j m
    using placed_range[OF p that] by auto
  have fb2: "nmeta \<le> fb" using p by (simp add: placed_def)
  have "\<forall>j \<in> I. \<forall>m \<le> MAXFILE. blk g' (D' j) m \<noteq> 0 \<longrightarrow> nmeta \<le> blk g' (D' j) m \<and> blk g' (D' j) m < Suc fb"
    using b r fb2 by (auto simp: less_Suc_eq)
  moreover have "j = k \<and> m = l"
    if "j \<in> I" "k \<in> I" "m \<le> MAXFILE" "l \<le> MAXFILE" "blk g' (D' j) m \<noteq> 0" "blk g' (D' j) m = blk g' (D' k) l" for j k m l
    using that(5,6) b[OF that(1,3)] b[OF that(2,4)] r[OF that(1,3)] r[OF that(2,4)] placed_inj[OF p that(1,2,3,4)]
    by (auto split: if_splits)
  moreover have "\<forall>b. Suc fb \<le> b \<and> b < FSSIZE \<longrightarrow> g' b = (\<lambda>_. 0)" using placed_free[OF p] fb(2) by simp
  ultimately show ?thesis unfolding placed_def using fb fb2 by auto
qed

lemma placed_write:
  assumes p: "placed g fb D I" and i: "i \<in> I" "n < MAXFILE" "blk g (D i) n \<noteq> 0"
  shows "\<forall>j \<in> I. \<forall>m \<le> MAXFILE. blk (g(blk g (D i) n := x)) (D j) m = blk g (D j) m"
    and "placed (g(blk g (D i) n := x)) fb D I"
proof -
  show b: "\<forall>j \<in> I. \<forall>m \<le> MAXFILE. blk (g(blk g (D i) n := x)) (D j) m = blk g (D j) m"
  proof (intro ballI allI impI blk_cong)
    fix j m assume "j \<in> I" and nz: "d_addrs (D j) NDIRECT \<noteq> 0"
    moreover have "blk g (D j) MAXFILE = unat (d_addrs (D j) NDIRECT)" by (simp add: blk_def)
    ultimately have "unat (d_addrs (D j) NDIRECT) \<noteq> blk g (D i) n"
      using placed_inj[OF p i(1) \<open>j \<in> I\<close>, of n MAXFILE] i by auto
    then show "(g(blk g (D i) n := x)) (unat (d_addrs (D j) NDIRECT)) = g (unat (d_addrs (D j) NDIRECT))" by simp
  qed
  have "blk g (D i) n < fb" using placed_range(2)[OF p i(1) _ i(3)] i(2) by simp
  then show "placed (g(blk g (D i) n := x)) fb D I" using p b unfolding placed_def by simp
qed

lemma sect_run:
  assumes "unat b < FSSIZE" "nsect s = FSSIZE"
  shows "rsect b s = Ok (img s (unat b)) s" "wsect b buf s = Ok () (s\<lparr>img := (img s)(unat b := buf)\<rparr>)"
  using assms by (cases s; simp add: rsect_def wsect_def kdefs sector_small max_def)+

section \<open>Allocation\<close>

text \<open>A new direct block, or with the slot \<^verbatim>\<open>MAXFILE\<close> the indirect block.\<close>

lemma placed_addr:
  assumes p: "placed g fb D I" and i: "i \<in> I" "n < NDIRECT \<or> n = MAXFILE" "blk g (D i) n = 0" and fb: "fb < FSSIZE"
  defines "d' \<equiv> (D i)\<lparr>d_addrs := (d_addrs (D i))(min n NDIRECT := of_nat fb)\<rparr>"
  shows "placed g (Suc fb) (D(i := d')) I" "\<forall>m \<le> MAXFILE. blk g d' m = (if m = n then fb else blk g (D i) m)"
proof -
  have f1: "unat (of_nat fb :: u32) = fb" using fb by (simp add: unat_of_nat)
  have "fb \<noteq> 0" using p by (auto simp: placed_def layout)
  then have "(of_nat fb :: u32) \<noteq> 0" using f1 by (metis unat_0)
  note f = f1 this
  have z: "le32 (g fb) k = 0" for k using placed_free[OF p order_refl fb] by simp
  show b: "\<forall>m \<le> MAXFILE. blk g d' m = (if m = n then fb else blk g (D i) m)"
  proof (cases "n < NDIRECT")
    case True
    then show ?thesis using f by (auto simp: d'_def blk_def)
  next
    case False
    then have n: "n = MAXFILE" "d_addrs (D i) NDIRECT = 0" using i(2,3) by (auto simp: blk_def unat_eq_zero)
    then show ?thesis using f z by (simp add: d'_def blk_def)
  qed
  show "placed g (Suc fb) (D(i := d')) I"
    by (rule placed_new[OF p i(1) _ fb refl, where n = n]) (use i(2) b in auto)
qed

lemma placed_entry:
  assumes p: "placed g fb D I" and i: "i \<in> I" "NDIRECT \<le> n" "n < MAXFILE" "blk g (D i) n = 0" "blk g (D i) MAXFILE \<noteq> 0" and fb: "fb < FSSIZE"
  defines "c \<equiv> blk g (D i) MAXFILE"
  defines "g' \<equiv> g(c := put32 (g c) (4 * (n - NDIRECT)) (of_nat fb))"
  shows "placed g' (Suc fb) D I" "\<forall>j \<in> I. \<forall>m \<le> MAXFILE. blk g' (D j) m = (if j = i \<and> m = n then fb else blk g (D j) m)"
proof -
  have c: "c = unat (d_addrs (D i) NDIRECT)" by (simp add: c_def blk_def)
  have f: "unat (of_nat fb :: u32) = fb" using fb by (simp add: unat_of_nat)
  have cr: "c < fb" using placed_range[OF p i(1) _ i(5)] by (simp add: c_def)
  have e: "le32 (put32 (g c) (4 * (n - NDIRECT)) w) (4 * (m - NDIRECT)) = (if m = n then w else le32 (g c) (4 * (m - NDIRECT)))"
    if "NDIRECT \<le> m" for m w
    using that i(2) by (cases "m = n") (auto intro!: le32_put32_other)
  have "blk g' (D j) m = (if j = i \<and> m = n then fb else blk g (D j) m)" if j: "j \<in> I" "m \<le> MAXFILE" for j m
  proof (cases "j = i")
    case True
    have "d_addrs (D i) NDIRECT \<noteq> 0" using i(5) by (auto simp: blk_def)
    then show ?thesis using True i(2-4) e[of m "of_nat fb"] f c by (auto simp: blk_def g'_def)
  next
    case False
    have "blk g' (D j) m = blk g (D j) m"
    proof (rule blk_cong)
      assume "d_addrs (D j) NDIRECT \<noteq> 0"
      moreover have "unat (d_addrs (D j) NDIRECT) = blk g (D j) MAXFILE" by (simp add: blk_def)
      ultimately have "unat (d_addrs (D j) NDIRECT) \<noteq> c"
        using placed_inj[OF p i(1) j(1), of MAXFILE MAXFILE] i(5) False by (auto simp: c_def)
      then show "g' (unat (d_addrs (D j) NDIRECT)) = g (unat (d_addrs (D j) NDIRECT))" by (simp add: g'_def)
    qed
    then show ?thesis using False by simp
  qed
  then show b: "\<forall>j \<in> I. \<forall>m \<le> MAXFILE. blk g' (D j) m = (if j = i \<and> m = n then fb else blk g (D j) m)" by blast
  show "placed g' (Suc fb) D I"
    by (rule placed_new[OF p i(1) _ fb, where n = n]) (use i(3) b cr in \<open>auto simp: g'_def\<close>)
qed

text \<open>From \<open>s\<close> to \<open>t\<close> the file \<open>i\<close> has got blocks for the slots \<open>N\<close>; what was on the disk is kept.\<close>

definition grew :: "nat \<Rightarrow> nat set \<Rightarrow> nat set \<Rightarrow> (nat \<Rightarrow> dinode) \<Rightarrow> mkfs \<Rightarrow> (nat \<Rightarrow> dinode) \<Rightarrow> mkfs \<Rightarrow> bool" where
  "grew i I N D s D' t \<longleftrightarrow> placed (img t) (unat (freeblock t)) D' I \<and> unat (freeblock t) = unat (freeblock s) + card N \<and>
     (\<forall>j \<in> I. \<forall>m \<le> MAXFILE. if j = i \<and> m \<in> N then blk (img t) (D' j) m \<noteq> 0 else blk (img t) (D' j) m = blk (img s) (D j) m) \<and>
     (\<exists>a. D' = D(i := (D i)\<lparr>d_addrs := a\<rparr>) \<and> (\<forall>k > NDIRECT. a k = d_addrs (D i) k)) \<and> (\<exists>g b. t = s\<lparr>img := g, freeblock := b\<rparr>) \<and>
     (\<forall>b. b < nmeta \<or> (\<exists>j \<in> I. \<exists>m < MAXFILE. b = blk (img s) (D j) m \<and> b \<noteq> 0 \<and> \<not> (j = i \<and> m \<in> N)) \<longrightarrow> img t b = img s b)"

lemma grew_refl:
  assumes "placed (img s) (unat (freeblock s)) D I"
  shows "grew i I {} D s D s"
proof -
  have "\<exists>a. D = D(i := (D i)\<lparr>d_addrs := a\<rparr>) \<and> (\<forall>k > NDIRECT. a k = d_addrs (D i) k)" by (rule exI[of _ "d_addrs (D i)"]) simp
  moreover have "\<exists>g b. s = s\<lparr>img := g, freeblock := b\<rparr>" by (rule exI[of _ "img s"], rule exI[of _ "freeblock s"]) simp
  ultimately show ?thesis using assms by (simp add: grew_def)
qed

lemma grewD:
  assumes "grew i I N D s D' t"
  shows "placed (img t) (unat (freeblock t)) D' I" "unat (freeblock t) = unat (freeblock s) + card N"
    "\<lbrakk>m \<le> MAXFILE; i \<in> I; m \<in> N\<rbrakk> \<Longrightarrow> blk (img t) (D' i) m \<noteq> 0"
    "\<lbrakk>j \<in> I; m \<le> MAXFILE; \<not> (j = i \<and> m \<in> N)\<rbrakk> \<Longrightarrow> blk (img t) (D' j) m = blk (img s) (D j) m"
    "\<exists>a. D' = D(i := (D i)\<lparr>d_addrs := a\<rparr>) \<and> (\<forall>k > NDIRECT. a k = d_addrs (D i) k)"
    "\<exists>g b. t = s\<lparr>img := g, freeblock := b\<rparr>"
    "b < nmeta \<Longrightarrow> img t b = img s b"
    "\<lbrakk>j \<in> I; m < MAXFILE; b = blk (img s) (D j) m; b \<noteq> 0; \<not> (j = i \<and> m \<in> N)\<rbrakk> \<Longrightarrow> img t b = img s b"
proof -
  have b: "\<forall>j \<in> I. \<forall>m \<le> MAXFILE. if j = i \<and> m \<in> N then blk (img t) (D' j) m \<noteq> 0 else blk (img t) (D' j) m = blk (img s) (D j) m"
    and k: "\<forall>b. b < nmeta \<or> (\<exists>j \<in> I. \<exists>m < MAXFILE. b = blk (img s) (D j) m \<and> b \<noteq> 0 \<and> \<not> (j = i \<and> m \<in> N)) \<longrightarrow> img t b = img s b"
    using assms unfolding grew_def by blast+
  show "\<lbrakk>m \<le> MAXFILE; i \<in> I; m \<in> N\<rbrakk> \<Longrightarrow> blk (img t) (D' i) m \<noteq> 0" using b by auto
  show "\<lbrakk>j \<in> I; m \<le> MAXFILE; \<not> (j = i \<and> m \<in> N)\<rbrakk> \<Longrightarrow> blk (img t) (D' j) m = blk (img s) (D j) m" using b by auto
  show "b < nmeta \<Longrightarrow> img t b = img s b" using k by blast
  show "\<lbrakk>j \<in> I; m < MAXFILE; b = blk (img s) (D j) m; b \<noteq> 0; \<not> (j = i \<and> m \<in> N)\<rbrakk> \<Longrightarrow> img t b = img s b" using k by blast
qed (use assms in \<open>unfold grew_def, blast\<close>)+

lemma grew_trans:
  assumes a: "grew i I N D s D' t" and b: "grew i I M D' t D'' u" and N: "N \<inter> M = {}" "finite N" "finite M"
  shows "grew i I (N \<union> M) D s D'' u"
proof -
  have x: "\<exists>a. D'' = D(i := (D i)\<lparr>d_addrs := a\<rparr>) \<and> (\<forall>k > NDIRECT. a k = d_addrs (D i) k)"
    using grewD(5)[OF a] grewD(5)[OF b] by auto
  have y: "\<exists>g b. u = s\<lparr>img := g, freeblock := b\<rparr>" using grewD(6)[OF a] grewD(6)[OF b] by force
  have z: "if j = i \<and> m \<in> N \<union> M then blk (img u) (D'' j) m \<noteq> 0 else blk (img u) (D'' j) m = blk (img s) (D j) m"
    if "j \<in> I" "m \<le> MAXFILE" for j m
  proof (cases "j = i \<and> m \<in> N \<union> M")
    case True
    then have j: "j = i" "i \<in> I" using that(1) by auto
    have "blk (img u) (D'' i) m \<noteq> 0"
    proof (cases "m \<in> M")
      case True
      then show ?thesis using grewD(3)[OF b that(2) j(2)] by blast
    next
      case False
      then have "m \<in> N" using \<open>j = i \<and> m \<in> N \<union> M\<close> by blast
      then show ?thesis using grewD(3)[OF a that(2) j(2)] grewD(4)[OF b j(2) that(2)] False by simp
    qed
    then show ?thesis using True by simp
  next
    case False
    then have "\<not> (j = i \<and> m \<in> N)" "\<not> (j = i \<and> m \<in> M)" by blast+
    then show ?thesis using grewD(4)[OF a that] grewD(4)[OF b that] by auto
  qed
  have k: "img u c = img s c"
    if "c < nmeta \<or> (\<exists>j \<in> I. \<exists>m < MAXFILE. c = blk (img s) (D j) m \<and> c \<noteq> 0 \<and> \<not> (j = i \<and> m \<in> N \<union> M))" for c
    using that
  proof
    assume "c < nmeta"
    then show ?thesis using grewD(7)[OF a] grewD(7)[OF b] by simp
  next
    assume "\<exists>j \<in> I. \<exists>m < MAXFILE. c = blk (img s) (D j) m \<and> c \<noteq> 0 \<and> \<not> (j = i \<and> m \<in> N \<union> M)"
    then obtain j m where j: "j \<in> I" "m < MAXFILE" "c = blk (img s) (D j) m" "c \<noteq> 0" "\<not> (j = i \<and> m \<in> N)" "\<not> (j = i \<and> m \<in> M)" by blast
    then show ?thesis using grewD(8)[OF a j(1-5)] grewD(4)[OF a j(1) _ j(5)] grewD(8)[OF b j(1,2) _ j(4,6)] by simp
  qed
  have f: "unat (freeblock u) = unat (freeblock s) + card (N \<union> M)"
    using grewD(2)[OF b] grewD(2)[OF a] N by (simp add: card_Un_disjoint)
  show ?thesis unfolding grew_def
    by (intro conjI ballI allI impI) (rule grewD(1)[OF b], rule f, erule (1) z, rule x, rule y, erule k)
qed

lemma next_block_run:
  assumes "unat (freeblock s) < FSSIZE"
  shows "next_block s = Ok (freeblock s) (s\<lparr>freeblock := freeblock s + 1\<rparr>)" "unat (freeblock s + 1) = Suc (unat (freeblock s))"
proof -
  show "next_block s = Ok (freeblock s) (s\<lparr>freeblock := freeblock s + 1\<rparr>)" by (simp add: next_block_def kdefs)
  show "unat (freeblock s + 1) = Suc (unat (freeblock s))" using assms by (simp add: unat_plus_if')
qed

lemma grew_addr:
  assumes p: "placed (img s) (unat (freeblock s)) D I" and i: "i \<in> I" "n < NDIRECT \<or> n = MAXFILE" "blk (img s) (D i) n = 0"
    and fb: "unat (freeblock s) < FSSIZE"
  shows "grew i I {n} D s (D(i := (D i)\<lparr>d_addrs := (d_addrs (D i))(min n NDIRECT := freeblock s)\<rparr>)) (s\<lparr>freeblock := freeblock s + 1\<rparr>)"
proof -
  note a = placed_addr[OF p i fb]
  have "unat (freeblock s) \<noteq> 0" using p by (auto simp: placed_def layout)
  moreover have "\<exists>g b. s\<lparr>freeblock := freeblock s + 1\<rparr> = s\<lparr>img := g, freeblock := b\<rparr>"
    by (rule exI[of _ "img s"], rule exI[of _ "freeblock s + 1"]) simp
  moreover have "\<exists>a. D(i := (D i)\<lparr>d_addrs := (d_addrs (D i))(min n NDIRECT := freeblock s)\<rparr>) = D(i := (D i)\<lparr>d_addrs := a\<rparr>) \<and>
      (\<forall>k > NDIRECT. a k = d_addrs (D i) k)"
    by (rule exI[of _ "(d_addrs (D i))(min n NDIRECT := freeblock s)"]) auto
  ultimately show ?thesis using a next_block_run(2)[OF fb] unfolding grew_def by auto
qed

lemma grew_entry:
  assumes p: "placed (img s) (unat (freeblock s)) D I" and i: "i \<in> I" "NDIRECT \<le> n" "n < MAXFILE" "blk (img s) (D i) n = 0" "blk (img s) (D i) MAXFILE \<noteq> 0"
    and fb: "unat (freeblock s) < FSSIZE" and c: "c = blk (img s) (D i) MAXFILE"
  shows "grew i I {n} D s D (s\<lparr>freeblock := freeblock s + 1, img := (img s)(c := put32 (img s c) (4 * (n - NDIRECT)) (freeblock s))\<rparr>)"
proof -
  note a = placed_entry[OF p i fb, folded c, simplified]
  have nz: "unat (freeblock s) \<noteq> 0" using p by (auto simp: placed_def layout)
  have "c \<noteq> blk (img s) (D j) m" if "j \<in> I" "m < MAXFILE" for j m
    using placed_inj[OF p i(1) that(1), of MAXFILE m] that i(5) by (auto simp: c)
  moreover have "nmeta \<le> c" using placed_range(1)[OF p i(1) order_refl i(5)] by (simp add: c)
  moreover have "\<exists>a. D = D(i := (D i)\<lparr>d_addrs := a\<rparr>) \<and> (\<forall>k > NDIRECT. a k = d_addrs (D i) k)" by (rule exI[of _ "d_addrs (D i)"]) simp
  moreover have "\<exists>g b. s\<lparr>freeblock := freeblock s + 1, img := h\<rparr> = s\<lparr>img := g, freeblock := b\<rparr>" for h
    by (cases s) auto
  ultimately show ?thesis using a nz next_block_run(2)[OF fb] unfolding grew_def by auto
qed

text \<open>The slots without a block that the block \<open>n\<close> of a file needs.\<close>

definition missing :: "(nat \<Rightarrow> bytes) \<Rightarrow> dinode \<Rightarrow> nat \<Rightarrow> nat set" where
  "missing g d n = {m. (m = n \<or> m = MAXFILE \<and> NDIRECT \<le> n) \<and> blk g d m = 0}"

lemma missing_finite [simp]: "finite (missing g d n)"
  by (rule finite_subset[of _ "{n, MAXFILE}"]) (auto simp: missing_def)

lemma indirect_run:
  assumes p: "placed (img s) (unat (freeblock s)) D I" and i: "i \<in> I" and fb: "blk (img s) (D i) MAXFILE = 0 \<longrightarrow> unat (freeblock s) < FSSIZE"
  obtains d' t where "(if xint (d_addrs (D i) NDIRECT) = 0
      then kbind next_block (\<lambda>b. kret ((D i)\<lparr>d_addrs := (d_addrs (D i))(NDIRECT := xint b)\<rparr>)) else kret (D i)) s = Ok d' t"
    "grew i I (if blk (img s) (D i) MAXFILE = 0 then {MAXFILE} else {}) D s (D(i := d')) t" "blk (img t) d' MAXFILE \<noteq> 0" "img t = img s"
proof (cases "blk (img s) (D i) MAXFILE = 0")
  case True
  then have z: "d_addrs (D i) NDIRECT = 0" by (simp add: blk_def unat_eq_zero)
  have fb': "unat (freeblock s) < FSSIZE" using fb True by blast
  have e: "(if blk (img s) (D i) MAXFILE = 0 then {MAXFILE} else {}) = {MAXFILE}" using True by auto
  note g = grew_addr[OF p i _ True fb', simplified]
  show thesis
    by (rule that[of "(D i)\<lparr>d_addrs := (d_addrs (D i))(NDIRECT := freeblock s)\<rparr>" "s\<lparr>freeblock := freeblock s + 1\<rparr>"])
      (use z g grewD(3)[OF g _ i, of MAXFILE] in \<open>simp_all add: e kdefs next_block_run(1)[OF fb']\<close>)
next
  case False
  then have "d_addrs (D i) NDIRECT \<noteq> 0" "(if blk (img s) (D i) MAXFILE = 0 then {MAXFILE} else {}) = {}" by (auto simp: blk_def unat_eq_zero unat_gt_0)
  then show thesis using False grew_refl[OF p, of i] by (intro that[of "D i" s]) (simp_all add: kdefs)
qed

lemma iappend_block_run:
  assumes p: "placed (img s) (unat (freeblock s)) D I" and i: "i \<in> I" "n < MAXFILE" and ns: "nsect s = FSSIZE"
    and room: "unat (freeblock s) + card (missing (img s) (D i) n) \<le> FSSIZE"
  obtains d' x t where "iappend_block (D i) n s = Ok (d', x) t" "grew i I (missing (img s) (D i) n) D s (D(i := d')) t"
    "unat x = blk (img t) d' n" "unat x \<noteq> 0"
proof (cases "n < NDIRECT")
  case n: True
  show thesis
  proof (cases "d_addrs (D i) n = 0")
    case True
    then have z: "blk (img s) (D i) n = 0" using n by (simp add: blk_def)
    then have m: "missing (img s) (D i) n = {n}" using n by (auto simp: missing_def)
    then have fb: "unat (freeblock s) < FSSIZE" using room by simp
    note g = grew_addr[OF p i(1) disjI1[OF n] z fb]
    show thesis
      by (rule that[of "(D i)\<lparr>d_addrs := (d_addrs (D i))(n := freeblock s)\<rparr>" "freeblock s" "s\<lparr>freeblock := freeblock s + 1\<rparr>"])
        (use n g grewD(3)[OF g _ i(1), of n] True in \<open>simp_all add: m iappend_block_def kdefs next_block_run(1)[OF fb] blk_def min_def\<close>)
  next
    case False
    then have "blk (img s) (D i) n \<noteq> 0" using n by (simp add: blk_def unat_eq_zero)
    then have "missing (img s) (D i) n = {}" using n by (auto simp: missing_def)
    then show thesis using False n grew_refl[OF p, of i]
      by (intro that[of "D i" "d_addrs (D i) n" s]) (simp_all add: iappend_block_def kdefs blk_def unat_eq_zero)
  qed
next
  case n: False
  let ?M = "(if blk (img s) (D i) MAXFILE = 0 then {MAXFILE} else {})" and ?N = "if blk (img s) (D i) n = 0 then {n} else {}"
  have M: "missing (img s) (D i) n = ?M \<union> ?N" using n by (auto simp: missing_def)
  have fin: "?M \<inter> ?N = {}" "finite ?M" "finite ?N" using i(2) by auto
  have c: "card (missing (img s) (D i) n) = card ?M + card ?N" unfolding M by (rule card_Un_disjoint[OF fin(2,3,1)])
  obtain d' t where r1: "(if xint (d_addrs (D i) NDIRECT) = 0
      then kbind next_block (\<lambda>b. kret ((D i)\<lparr>d_addrs := (d_addrs (D i))(NDIRECT := xint b)\<rparr>)) else kret (D i)) s = Ok d' t"
    and g1: "grew i I ?M D s (D(i := d')) t" and nz: "blk (img t) d' MAXFILE \<noteq> 0"
    by (rule indirect_run[OF p i(1)]) (use room c in auto)
  note g1' = grewD[OF g1]
  have bn: "blk (img t) d' n = blk (img s) (D i) n" using g1'(4)[OF i(1), of n] i(2) by simp
  let ?c = "d_addrs d' NDIRECT"
  have c1: "blk (img t) d' MAXFILE = unat ?c" by (simp add: blk_def)
  have cs: "unat ?c < FSSIZE" using placed_range(3)[OF g1'(1) i(1) order_refl] nz c1 by simp
  have ns': "nsect t = FSSIZE" using g1'(6) ns by auto
  have c0: "?c \<noteq> 0" using nz c1 by auto
  have e: "blk (img t) d' n = unat (le32 (img t (unat ?c)) (4 * (n - NDIRECT)))" using n i(2) c0 by (simp add: blk_def)
  show thesis
  proof (cases "blk (img t) d' n = 0")
    case True
    then have N: "?N = {n}" and l0: "le32 (img t (unat ?c)) (4 * (n - NDIRECT)) = 0" using bn e by (auto simp: unat_eq_zero)
    have fb: "unat (freeblock t) < FSSIZE" using g1'(2) room c N by simp
    let ?u = "t\<lparr>freeblock := freeblock t + 1, img := (img t)(unat ?c := put32 (img t (unat ?c)) (4 * (n - NDIRECT)) (freeblock t))\<rparr>"
    have g2: "grew i I ?N (D(i := d')) t (D(i := d')) ?u" unfolding N
      by (rule grew_entry[OF g1'(1) i(1) _ i(2) _ _ fb]) (use n True nz c1 in auto)
    have r: "iappend_block (D i) n s = Ok (d', freeblock t) ?u"
      unfolding iappend_block_def using n r1 l0 sect_run[OF cs, of t] sect_run[OF cs, of "t\<lparr>freeblock := freeblock t + 1\<rparr>"] ns'
      by (simp add: kbind_apply kthen_apply kret_apply next_block_run(1)[OF fb])
    have b: "blk (img ?u) d' n = unat (freeblock t)" using n i(2) c0 by (simp add: blk_def)
    show thesis
      by (rule that[OF r]) (use grew_trans[OF g1 g2 fin] M b grewD(3)[OF g2 _ i(1), of n] N i(2) in simp_all)
  next
    case False
    then have N: "?N = {}" and l0: "le32 (img t (unat ?c)) (4 * (n - NDIRECT)) \<noteq> 0" using bn e by auto
    have r: "iappend_block (D i) n s = Ok (d', le32 (img t (unat ?c)) (4 * (n - NDIRECT))) t"
      unfolding iappend_block_def using n r1 l0 sect_run[OF cs ns'] by (simp add: kbind_apply kthen_apply kret_apply)
    show thesis by (rule that[OF r]) (use g1 e False M N in auto)
  qed
qed

section \<open>Contents\<close>

text \<open>The number of blocks of a file of \<open>z\<close> bytes, the indirect one included.\<close>

definition need :: "nat \<Rightarrow> nat" where
  "need z = (z + (BSIZE - 1)) div BSIZE + (if NDIRECT * BSIZE < z then 1 else 0)"

definition stored :: "(nat \<Rightarrow> bytes) \<Rightarrow> nat \<Rightarrow> (nat \<Rightarrow> dinode) \<Rightarrow> (nat \<Rightarrow> u8 list) \<Rightarrow> nat set \<Rightarrow> bool" where
  "stored g fb D F I \<longleftrightarrow> placed g fb D I \<and> finite I \<and> fb = nmeta + (\<Sum>i \<in> I. need (length (F i))) \<and>
     (\<forall>i \<in> I. length (F i) \<le> MAXFILE * BSIZE \<and> (\<forall>m < MAXFILE. blk g (D i) m \<noteq> 0 \<longleftrightarrow> m * BSIZE < length (F i)) \<and>
       (blk g (D i) MAXFILE \<noteq> 0 \<longleftrightarrow> NDIRECT * BSIZE < length (F i)) \<and>
       (\<forall>k < length (F i). g (blk g (D i) (k div BSIZE)) (k mod BSIZE) = F i ! k))"

lemma storedD:
  assumes "stored g fb D F I"
  shows "placed g fb D I" "finite I" "fb = nmeta + (\<Sum>i \<in> I. need (length (F i)))"
    "i \<in> I \<Longrightarrow> length (F i) \<le> MAXFILE * BSIZE"
    "i \<in> I \<Longrightarrow> m < MAXFILE \<Longrightarrow> blk g (D i) m \<noteq> 0 \<longleftrightarrow> m * BSIZE < length (F i)"
    "i \<in> I \<Longrightarrow> blk g (D i) MAXFILE \<noteq> 0 \<longleftrightarrow> NDIRECT * BSIZE < length (F i)"
    "i \<in> I \<Longrightarrow> k < length (F i) \<Longrightarrow> g (blk g (D i) (k div BSIZE)) (k mod BSIZE) = F i ! k"
  using assms unfolding stored_def by blast+

lemma need_mono: "a \<le> b \<Longrightarrow> need a \<le> need b"
  unfolding need_def by (intro add_mono div_le_mono) auto

lemma chunk:
  fixes off n1 :: nat
  assumes "0 < n1" "n1 \<le> (off div BSIZE + 1) * BSIZE - off"
  shows "(off + n1 + (BSIZE - 1)) div BSIZE = off div BSIZE + 1" "off - off div BSIZE * BSIZE = off mod BSIZE"
    "off mod BSIZE + n1 \<le> BSIZE" "off < (off div BSIZE + 1) * BSIZE"
    "(off + (BSIZE - 1)) div BSIZE = off div BSIZE + (if off mod BSIZE = 0 then 0 else 1)"
proof -
  define q r where "q = off div BSIZE" and "r = off mod BSIZE"
  have o: "off = q * BSIZE + r" "r < BSIZE" by (simp_all add: q_def r_def)
  have n: "n1 + r \<le> BSIZE" using assms(2) o by (simp flip: q_def)
  show "(off + n1 + (BSIZE - 1)) div BSIZE = off div BSIZE + 1"
    unfolding q_def[symmetric] by (rule div_nat_eqI) (use o n assms(1) in auto)
  show "off - off div BSIZE * BSIZE = off mod BSIZE" by (simp add: minus_div_mult_eq_mod)
  show "off mod BSIZE + n1 \<le> BSIZE" using n by (simp add: r_def)
  show "off < (off div BSIZE + 1) * BSIZE" using o by (simp add: q_def)
  show "(off + (BSIZE - 1)) div BSIZE = off div BSIZE + (if off mod BSIZE = 0 then 0 else 1)"
    unfolding q_def[symmetric] r_def[symmetric] by (rule div_nat_eqI) (use o in auto)
qed

lemma card_missing:
  assumes st: "stored g fb D F I" "i \<in> I" and n1: "0 < n1" "n1 \<le> (length (F i) div BSIZE + 1) * BSIZE - length (F i)"
    and n: "length (F i) div BSIZE < MAXFILE"
  shows "need (length (F i)) + card (missing g (D i) (length (F i) div BSIZE)) = need (length (F i) + n1)"
proof -
  define off q where "off = length (F i)" and "q = off div BSIZE"
  note c = chunk[OF n1, folded off_def, folded q_def]
  have oq: "off = q * BSIZE + off mod BSIZE" by (simp add: q_def)
  have b: "blk g (D i) q = 0 \<longleftrightarrow> off mod BSIZE = 0"
    using storedD(5)[OF st(1,2), of q] n oq by (simp add: off_def[symmetric] q_def[symmetric]) linarith
  have m: "blk g (D i) MAXFILE = 0 \<and> NDIRECT \<le> q \<longleftrightarrow> off = NDIRECT * BSIZE"
    using storedD(6)[OF st(1,2)] c(4) by (auto simp: off_def[symmetric] q_def)
  have "missing g (D i) q = (if off mod BSIZE = 0 then {q} else {}) \<union> (if off = NDIRECT * BSIZE then {MAXFILE} else {})"
    using b m unfolding missing_def by auto
  moreover have "q \<noteq> MAXFILE" using n by (simp add: q_def off_def)
  ultimately have k: "card (missing g (D i) q) = (if off mod BSIZE = 0 then 1 else 0) + (if off = NDIRECT * BSIZE then 1 else 0)" by auto
  have "(if NDIRECT * BSIZE < off + n1 then 1 else 0) = (if NDIRECT * BSIZE < off then 1 else 0) + (if off = NDIRECT * BSIZE then 1 else (0::nat))"
  proof -
    have "off + n1 \<le> (q + 1) * BSIZE" using c(3) oq by simp
    moreover have "q < NDIRECT" if "off < NDIRECT * BSIZE" using that by (simp add: q_def less_mult_imp_div_less)
    ultimately have "NDIRECT * BSIZE \<le> off" if "NDIRECT * BSIZE < off + n1" using that by fastforce
    then show ?thesis using n1(1) by auto
  qed
  then have "need off + card (missing g (D i) q) = need (off + n1)" unfolding need_def c(1,5) k by auto
  then show ?thesis by (simp add: off_def q_def)
qed

lemma sum_need:
  assumes "finite I" "i \<in> I"
  shows "(\<Sum>j \<in> I. need (length ((F(i := ys)) j))) + need (length (F i)) = (\<Sum>j \<in> I. need (length (F j))) + need (length ys)"
proof -
  have "(\<Sum>j \<in> I - {i}. need (length ((F(i := ys)) j))) = (\<Sum>j \<in> I - {i}. need (length (F j)))" by (rule sum.cong) auto
  then show ?thesis using assms by (simp add: sum.remove)
qed

text \<open>One round of the loop: the blocks of the file are extended, then the bytes are put into the last block.\<close>

lemma stored_step:
  assumes st: "stored (img s) (unat (freeblock s)) D F I" and i: "i \<in> I" and g: "grew i I (missing (img s) (D i) q) D s (D(i := d')) t"
    and xs: "0 < length xs" "length xs \<le> (q + 1) * BSIZE - length (F i)" and q: "q = length (F i) div BSIZE" "q < MAXFILE"
    and x: "x = blk (img t) d' q" "x \<noteq> 0"
  shows "stored ((img t)(x := bcopy_at xs (length (F i) mod BSIZE) (img t x))) (unat (freeblock t)) (D(i := d')) (F(i := F i @ xs)) I"
proof -
  define off h D' where "off = length (F i)" and "h = (img t)(x := bcopy_at xs (off mod BSIZE) (img t x))" and "D' = D(i := d')"
  note c = chunk[OF xs(1) xs(2)[unfolded q(1)], folded off_def, folded q(1)[folded off_def]]
  have oq: "off = q * BSIZE + off mod BSIZE" by (simp add: q off_def)
  note gD = grewD[OF g, folded D'_def]
  have xb: "x = blk (img t) (D' i) q" by (simp add: x D'_def)
  have qq: "q < MAXFILE" "blk (img t) (D' i) q \<noteq> 0" using q(2) x xb by simp_all
  have hb: "blk h (D' j) m = blk (img t) (D' j) m" if "j \<in> I" "m \<le> MAXFILE" for j m
    using placed_write(1)[OF gD(1) i qq] that by (simp add: h_def xb)
  have pl: "placed h (unat (freeblock t)) D' I" using placed_write(2)[OF gD(1) i qq] by (simp add: h_def xb)
  have hx: "h b = img t b" if "j \<in> I" "m \<le> MAXFILE" "b = blk (img t) (D' j) m" "\<not> (j = i \<and> m = q)" for j m b
    using placed_inj[OF gD(1) i that(1) _ that(2) qq(2)] that qq(1) by (auto simp: h_def xb)
  have mis: "m \<in> missing (img s) (D i) q \<longleftrightarrow> (m = q \<or> m = MAXFILE \<and> NDIRECT \<le> q) \<and> blk (img s) (D i) m = 0" for m by (simp add: missing_def)
  have other: "length (F j) \<le> MAXFILE * BSIZE \<and> (\<forall>m < MAXFILE. blk h (D' j) m \<noteq> 0 \<longleftrightarrow> m * BSIZE < length (F j)) \<and>
       (blk h (D' j) MAXFILE \<noteq> 0 \<longleftrightarrow> NDIRECT * BSIZE < length (F j)) \<and>
       (\<forall>k < length (F j). h (blk h (D' j) (k div BSIZE)) (k mod BSIZE) = F j ! k)" if j: "j \<in> I" "j \<noteq> i" for j
  proof -
    have b: "blk h (D' j) m = blk (img s) (D j) m" if "m \<le> MAXFILE" for m using hb[OF j(1) that] gD(4)[OF j(1) that] j(2) by simp
    have "h (blk h (D' j) (k div BSIZE)) (k mod BSIZE) = F j ! k" if k: "k < length (F j)" for k
    proof -
      let ?m = "k div BSIZE"
      have m: "?m < MAXFILE" using k storedD(4)[OF st j(1)] by (simp add: less_mult_imp_div_less)
      then have nz: "blk (img s) (D j) ?m \<noteq> 0" using storedD(5)[OF st j(1) m] k by (simp add: div_times_less_eq_dividend le_less_trans)
      have "h (blk h (D' j) ?m) = img t (blk h (D' j) ?m)" by (rule hx[OF j(1)]) (use m hb[OF j(1)] j(2) in auto)
      also have "\<dots> = img s (blk h (D' j) ?m)" by (rule gD(8)[OF j(1) m]) (use b m nz j(2) in auto)
      finally show ?thesis using storedD(7)[OF st j(1) k] b m by simp
    qed
    then show ?thesis using b storedD(4-6)[OF st j(1)] by simp
  qed
  have cov: "blk h (D' i) m \<noteq> 0 \<longleftrightarrow> m * BSIZE < off + length xs" if m: "m < MAXFILE" for m
  proof (cases "m = q")
    case True
    then show ?thesis using hb[OF i, of q] qq c(1) oq xs(1) by simp
  next
    case False
    then have "blk h (D' i) m = blk (img s) (D i) m" using hb[OF i, of m] gD(4)[OF i, of m] m by (simp add: mis)
    moreover have "m * BSIZE < off \<longleftrightarrow> m * BSIZE < off + length xs"
    proof (cases "m < q")
      case True
      then have "m * BSIZE < q * BSIZE" by simp
      then show ?thesis using oq by linarith
    next
      case False
      then have "(q + 1) * BSIZE \<le> m * BSIZE" using \<open>m \<noteq> q\<close> by (intro mult_le_mono1) simp
      then show ?thesis using oq c(3) by (simp add: algebra_simps)
    qed
    ultimately show ?thesis using storedD(5)[OF st i m] by (simp add: off_def)
  qed
  have ind: "blk h (D' i) MAXFILE \<noteq> 0 \<longleftrightarrow> NDIRECT * BSIZE < off + length xs"
  proof (cases "MAXFILE \<in> missing (img s) (D i) q")
    case True
    then have "NDIRECT * BSIZE \<le> q * BSIZE" by (intro mult_le_mono1) (auto simp: mis)
    then have "NDIRECT * BSIZE < off + length xs" using oq xs(1) by linarith
    then show ?thesis using hb[OF i order_refl] gD(3)[OF order_refl i True] by simp
  next
    case False
    then have "blk h (D' i) MAXFILE = blk (img s) (D i) MAXFILE" using hb[OF i order_refl] gD(4)[OF i order_refl] by simp
    moreover have "NDIRECT * BSIZE < off + length xs \<longleftrightarrow> NDIRECT * BSIZE < off"
    proof (cases "NDIRECT * BSIZE < off")
      case f: False
      then have "\<not> NDIRECT \<le> q" using False storedD(6)[OF st i] by (simp add: mis off_def)
      then have "(q + 1) * BSIZE \<le> NDIRECT * BSIZE" by (intro mult_le_mono1) simp
      then show ?thesis using f oq c(3) by (simp add: algebra_simps)
    qed simp
    ultimately show ?thesis using storedD(6)[OF st i] by (simp add: off_def)
  qed
  have len: "off + length xs \<le> MAXFILE * BSIZE"
  proof -
    have "(q + 1) * BSIZE \<le> MAXFILE * BSIZE" using q(2) by (intro mult_le_mono1) simp
    then show ?thesis using c(3) oq by (simp add: algebra_simps)
  qed
  have con: "h (blk h (D' i) (k div BSIZE)) (k mod BSIZE) = (F i @ xs) ! k" if k: "k < off + length xs" for k
  proof (cases "k div BSIZE = q")
    case kq: True
    then have hk: "h (blk h (D' i) (k div BSIZE)) = bcopy_at xs (off mod BSIZE) (img t x)" using hb[OF i, of q] q(2) xb by (simp add: h_def)
    show ?thesis
    proof (cases "k < off")
      case True
      then have km: "k mod BSIZE < off mod BSIZE" using kq oq by (metis add_less_cancel_left div_mult_mod_eq)
      then have "\<not> q * BSIZE = off" using oq by linarith
      then have nz: "blk (img s) (D i) q \<noteq> 0" using storedD(5)[OF st i q(2)] oq by (simp add: off_def[symmetric])
      then have nm: "q \<notin> missing (img s) (D i) q" by (simp add: mis)
      then have e: "x = blk (img s) (D i) q" using gD(4)[OF i, of q] q(2) xb by simp
      have "img t x = img s x" by (rule gD(8)[OF i q(2) e]) (use x nm in auto)
      then show ?thesis using hk km True storedD(7)[OF st i True[unfolded off_def]] e kq by (simp add: bcopy_at_def nth_append off_def)
    next
      case False
      then obtain j where j: "k = off + j" using le_Suc_ex not_less by blast
      then have "k mod BSIZE = off mod BSIZE + j" using oq div_mult_mod_eq[of k BSIZE, unfolded kq] by linarith
      then show ?thesis using hk k j by (simp add: bcopy_at_def nth_append off_def)
    qed
  next
    case kq: False
    have m: "k div BSIZE < MAXFILE" using k len by (simp add: less_mult_imp_div_less)
    have "k div BSIZE = q" if "off \<le> k" by (rule div_nat_eqI) (use that k oq c(3) in \<open>simp_all add: algebra_simps\<close>)
    then have ko: "k < length (F i)" using kq by (auto simp: off_def simp flip: not_less)
    let ?m = "k div BSIZE"
    have nz: "blk (img s) (D i) ?m \<noteq> 0" using storedD(5)[OF st i m] ko by (simp add: div_times_less_eq_dividend le_less_trans)
    have b: "blk (img t) (D' i) ?m = blk (img s) (D i) ?m" using gD(4)[OF i, of ?m] m kq by (simp add: mis)
    have "h (blk h (D' i) ?m) = img t (blk h (D' i) ?m)" by (rule hx[OF i]) (use m hb[OF i] kq in auto)
    also have "\<dots> = img s (blk h (D' i) ?m)" by (rule gD(8)[OF i m]) (use b hb[OF i, of ?m] m nz kq in \<open>auto simp: mis\<close>)
    finally show ?thesis using storedD(7)[OF st i ko] b hb[OF i, of ?m] m ko by (simp add: nth_append)
  qed
  have "unat (freeblock t) + need off = nmeta + (\<Sum>j \<in> I. need (length (F j))) + need (off + length xs)"
    using gD(2) storedD(3)[OF st] card_missing[OF st i xs(1) xs(2)[unfolded q(1)]] q by (simp add: off_def)
  then have fb: "unat (freeblock t) = nmeta + (\<Sum>j \<in> I. need (length ((F(i := F i @ xs)) j)))"
    using sum_need[OF storedD(2)[OF st] i, of F "F i @ xs"] by (simp add: off_def)
  show ?thesis unfolding stored_def h_def[symmetric, unfolded off_def] D'_def[symmetric]
    using pl fb storedD(2)[OF st] other cov ind con len unfolding off_def by (auto simp: stored_def)
qed

text \<open>Only blocks behind the metadata and the counter of free blocks are changed.\<close>

definition only_data :: "mkfs \<Rightarrow> mkfs \<Rightarrow> bool" where
  "only_data s t \<longleftrightarrow> (\<exists>g b. t = s\<lparr>img := g, freeblock := b\<rparr>) \<and> (\<forall>b < nmeta. img t b = img s b)"

lemma only_data_refl: "only_data s s"
  unfolding only_data_def by (cases s) auto

lemma only_data_trans: "only_data s t \<Longrightarrow> only_data t u \<Longrightarrow> only_data s u"
  unfolding only_data_def by force

definition same_inode :: "dinode \<Rightarrow> dinode \<Rightarrow> bool" where
  "same_inode d e \<longleftrightarrow> (\<exists>a. e = d\<lparr>d_addrs := a\<rparr> \<and> (\<forall>k > NDIRECT. a k = d_addrs d k))"

lemma same_inode_refl: "same_inode d d"
  unfolding same_inode_def by (rule exI[of _ "d_addrs d"]) simp

lemma same_inode_trans: "same_inode d e \<Longrightarrow> same_inode e f \<Longrightarrow> same_inode d f"
  unfolding same_inode_def by auto

lemma iappend_loop_run:
  assumes "stored (img s) (unat (freeblock s)) D F I" "i \<in> I" "nsect s = FSSIZE"
    "length (F i) + length p \<le> MAXFILE * BSIZE" "unat (freeblock s) + need (length (F i) + length p) \<le> FSSIZE + need (length (F i))"
  shows "\<exists>d' t. iappend_loop (D i) (length (F i)) p s = Ok (d', length (F i) + length p) t \<and>
    stored (img t) (unat (freeblock t)) (D(i := d')) (F(i := F i @ p)) I \<and> only_data s t \<and> same_inode (D i) d'"
  using assms
proof (induction "length p" arbitrary: p s D F rule: less_induct)
  case less
  show ?case
  proof (cases "p = []")
    case True
    then show ?thesis using less.prems(1) only_data_refl same_inode_refl by (simp add: iappend_loop.simps kret_apply)
  next
    case False
    define off q where "off = length (F i)" and "q = off div BSIZE"
    define n1 where "n1 = min (length p) ((q + 1) * BSIZE - off)"
    note st = less.prems(1) and i = less.prems(2)
    have qo: "off < (q + 1) * BSIZE" by (simp add: q_def dividend_less_div_times)
    have n1: "0 < n1" "n1 \<le> (q + 1) * BSIZE - off" "n1 \<le> length p" using False qo by (simp_all add: n1_def)
    have lp: "0 < length p" using False by simp
    have "off < MAXFILE * BSIZE" using less.prems(4) lp unfolding off_def by linarith
    then have q: "q < MAXFILE" by (simp add: q_def less_mult_imp_div_less)
    have cm: "need off + card (missing (img s) (D i) q) = need (off + n1)"
      using card_missing[OF st i n1(1)] n1(2) q by (simp add: q_def off_def)
    have "need (off + n1) \<le> need (off + length p)" using n1(3) by (intro need_mono) simp
    then have room: "unat (freeblock s) + card (missing (img s) (D i) q) \<le> FSSIZE" using cm less.prems(5) by (simp add: off_def)
    from iappend_block_run[OF storedD(1)[OF st] i q less.prems(3) room] obtain d1 x t where
      r: "iappend_block (D i) q s = Ok (d1, x) t" and g: "grew i I (missing (img s) (D i) q) D s (D(i := d1)) t"
      and x: "unat x = blk (img t) d1 q" "unat x \<noteq> 0" .
    note gD = grewD[OF g]
    define u where "u = t\<lparr>img := (img t)(unat x := bcopy_at (take n1 p) (off mod BSIZE) (img t (unat x)))\<rparr>"
    have su: "stored (img u) (unat (freeblock u)) (D(i := d1)) (F(i := F i @ take n1 p)) I"
      using stored_step[OF st i g, of "take n1 p"] n1 q x by (simp add: u_def off_def q_def)
    have xr: "nmeta \<le> unat x" "unat x < FSSIZE" using placed_range(1,3)[OF gD(1) i, of q] q x by simp_all
    have nt: "nsect t = FSSIZE" using gD(6) less.prems(3) by auto
    have od: "only_data s u" using gD(6,7) xr(1) unfolding only_data_def u_def by (cases s) auto
    have nu: "nsect u = FSSIZE" using nt by (simp add: u_def)
    have "off - q * BSIZE = off mod BSIZE" by (simp add: q_def minus_div_mult_eq_mod)
    then have step: "iappend_loop (D i) off p s = iappend_loop d1 (off + n1) (drop n1 p) u"
      using False q r sect_run[OF xr(2) nt] by (subst iappend_loop.simps) (simp add: Let_def kbind_apply kthen_apply kassert_apply n1_def q_def[symmetric] u_def)
    have si: "same_inode (D i) d1" using gD(5) unfolding same_inode_def by (metis fun_upd_same)
    have "length (drop n1 p) < length p" using n1 by simp
    moreover have "unat (freeblock u) + need off = unat (freeblock s) + need (off + n1)" using gD(2) cm by (simp add: u_def)
    ultimately obtain d' v where v: "iappend_loop d1 (off + n1) (drop n1 p) u = Ok (d', off + length p) v"
      "stored (img v) (unat (freeblock v)) (D(i := d')) (F(i := F i @ p)) I" "only_data u v" "same_inode d1 d'"
      using less.hyps[of "drop n1 p", OF _ su i nu] less.prems(4,5) n1(3) by (auto simp: off_def)
    then show ?thesis using step only_data_trans[OF od] same_inode_trans[OF si] by (auto simp: off_def)
  qed
qed

section \<open>Inodes on the image\<close>

definition dnode :: "(nat \<Rightarrow> bytes) \<Rightarrow> nat \<Rightarrow> dinode" where
  "dnode g i = get_dinode (g (IBLOCK i mkfs_sb)) (DINODE * (i mod IPB))"

lemma inode_sect_run:
  assumes "unat inum < NINODES" "nsect s = FSSIZE"
  shows "rinode inum s = Ok (dnode (img s) (unat inum)) s"
    "winode inum d s = Ok () (s\<lparr>img := (img s)(IBLOCK (unat inum) mkfs_sb :=
       put_dinode d (DINODE * (unat inum mod IPB)) (img s (IBLOCK (unat inum) mkfs_sb)))\<rparr>)"
proof -
  have i: "IBLOCK (unat inum) mkfs_sb < 132" using assms(1) by (auto simp: IBLOCK_def mkfs_sb_eq)
  then have "unat (inode_sect inum) = IBLOCK (unat inum) mkfs_sb" by (simp add: inode_sect_def unat_of_nat)
  then show "rinode inum s = Ok (dnode (img s) (unat inum)) s"
    "winode inum d s = Ok () (s\<lparr>img := (img s)(IBLOCK (unat inum) mkfs_sb :=
       put_dinode d (DINODE * (unat inum mod IPB)) (img s (IBLOCK (unat inum) mkfs_sb)))\<rparr>)"
    using sect_run[of "inode_sect inum" s] i assms(2) by (simp_all add: rinode_def winode_def kdefs dnode_def)
qed

text \<open>Writing an inode changes this inode only and no block behind the metadata.\<close>

lemma dnode_write:
  fixes g :: "nat \<Rightarrow> bytes"
  assumes "i < NINODES" "\<forall>k > NDIRECT. d_addrs d k = 0"
  defines "h \<equiv> g(IBLOCK i mkfs_sb := put_dinode d (DINODE * (i mod IPB)) (g (IBLOCK i mkfs_sb)))"
  shows "dnode h = (dnode g)(i := d)" "b < 32 \<or> nmeta - 1 \<le> b \<Longrightarrow> h b = g b"
proof -
  have "dnode h j = (if j = i then d else dnode g j)" for j
  proof (cases "j = i")
    case True
    then show ?thesis using get_put_dinode[OF assms(2)] by (simp add: dnode_def h_def)
  next
    case False
    show ?thesis
    proof (cases "IBLOCK j mkfs_sb = IBLOCK i mkfs_sb")
      case True
      then have "j div 2 = i div 2" by (simp add: IBLOCK_def)
      then have "j mod 2 \<noteq> i mod 2" using False by (metis div_mult_mod_eq)
      then have "DINODE * (j mod IPB) + DINODE \<le> DINODE * (i mod IPB) \<or> DINODE * (i mod IPB) + DINODE \<le> DINODE * (j mod IPB)" by auto
      from get_put_dinode_other[OF this] show ?thesis using False True by (simp add: dnode_def h_def)
    next
      case f: False
      then show ?thesis using False by (simp add: dnode_def h_def)
    qed
  qed
  then show "dnode h = (dnode g)(i := d)" by auto
  have "32 \<le> IBLOCK i mkfs_sb \<and> IBLOCK i mkfs_sb < 132" using assms(1) by (auto simp: IBLOCK_def mkfs_sb_eq)
  then show "b < 32 \<or> nmeta - 1 \<le> b \<Longrightarrow> h b = g b" by (auto simp: h_def layout)
qed

lemma dnode_addrs: "\<forall>k > NDIRECT. d_addrs (dnode g i) k = 0"
  unfolding dnode_def by (rule get_dinode_addrs)

lemma dnode_cong: "i < NINODES \<Longrightarrow> (\<And>b. b < nmeta \<Longrightarrow> h b = g b) \<Longrightarrow> dnode h i = dnode g i"
proof -
  assume i: "i < NINODES" and e: "\<And>b. b < nmeta \<Longrightarrow> h b = g b"
  have "IBLOCK i mkfs_sb < nmeta" using i by (auto simp: IBLOCK_def mkfs_sb_eq layout)
  then show ?thesis using e by (simp add: dnode_def)
qed

text \<open>Files do not depend on the metadata of the image.\<close>

lemma placed_blk:
  assumes "placed g fb D I" "i \<in> I" "n \<le> MAXFILE" "\<And>b. nmeta \<le> b \<Longrightarrow> h b = g b" "D' i = (D i)\<lparr>d_size := z\<rparr>"
  shows "blk h (D' i) n = blk g (D i) n"
proof -
  have "blk g (D i) MAXFILE = unat (d_addrs (D i) NDIRECT)" by (simp add: blk_def)
  then have "nmeta \<le> unat (d_addrs (D i) NDIRECT)" if "d_addrs (D i) NDIRECT \<noteq> 0"
    using placed_range(1)[OF assms(1,2), of MAXFILE] that by (simp add: unat_gt_0)
  then have "blk h (D i) n = blk g (D i) n" using assms(4) by (intro blk_cong) simp
  moreover have "blk h (D' i) n = blk h (D i) n" using assms(5) by (simp add: blk_def)
  ultimately show ?thesis by simp
qed

lemma stored_meta:
  assumes st: "stored g fb D F I" and h: "\<And>b. nmeta \<le> b \<Longrightarrow> h b = g b" and D: "\<And>i. i \<in> I \<Longrightarrow> \<exists>z. D' i = (D i)\<lparr>d_size := z\<rparr>"
  shows "stored h fb D' F I"
proof -
  note p = storedD(1)[OF st]
  have b: "blk h (D' i) n = blk g (D i) n" if "i \<in> I" "n \<le> MAXFILE" for i n
    using D[OF that(1)] placed_blk[OF p that h] by blast
  have "placed h fb D' I" using p b h unfolding placed_def by simp
  moreover have "h (blk h (D' i) (k div BSIZE)) (k mod BSIZE) = F i ! k" if i: "i \<in> I" "k < length (F i)" for i k
  proof -
    have "k < MAXFILE * BSIZE" using i(2) storedD(4)[OF st i(1)] by linarith
    then have m: "k div BSIZE < MAXFILE" by (simp add: less_mult_imp_div_less)
    have "k div BSIZE * BSIZE \<le> k" by (rule div_times_less_eq_dividend)
    then have "blk g (D i) (k div BSIZE) \<noteq> 0" using storedD(5)[OF st i(1) m] i(2) by linarith
    then have "nmeta \<le> blk g (D i) (k div BSIZE)" using placed_range(1)[OF p i(1)] m by simp
    then show ?thesis using b[OF i(1)] m h storedD(7)[OF st i] by simp
  qed
  ultimately show ?thesis using st b unfolding stored_def by simp
qed

end
