(* ===== verification/Mkfs_Tree.thy ===== *)
theory Mkfs_Tree
  imports Mkfs_Image
begin

text \<open>
  The image builder implements a list of files: an inode is a type, a mode and the bytes of the
  file, the number of an inode is its place in the list. From the list the contents of the image
  are read off, and the kernel finds a consistent file system on it.
\<close>

section \<open>The list of files\<close>

type_synonym mfile = "u16 \<times> u16 \<times> u8 list"

abbreviation (input) m_data :: "mfile \<Rightarrow> u8 list" where "m_data f \<equiv> snd (snd f)"

definition append_data :: "nat \<Rightarrow> u8 list \<Rightarrow> mfile list \<Rightarrow> mfile list" where
  "append_data i xs fs = fs[i - 1 := (fst (fs ! (i - 1)), fst (snd (fs ! (i - 1))), m_data (fs ! (i - 1)) @ xs)]"

definition file_of :: "mfile list \<Rightarrow> nat \<Rightarrow> u8 list" where
  "file_of fs i = (if i = 0 then [] else m_data (fs ! (i - 1)))"

definition fits :: "mfile list \<Rightarrow> bool" where
  "fits fs \<longleftrightarrow> length fs < NINODES \<and> (\<forall>f \<in> set fs. length (m_data f) \<le> MAXFILE * BSIZE) \<and>
     nmeta + (\<Sum>f \<leftarrow> fs. need (length (m_data f))) \<le> FSSIZE"

definition inode_head :: "mfile \<Rightarrow> dinode \<Rightarrow> bool" where
  "inode_head f d \<longleftrightarrow> d_type d = fst f \<and> d_mode d = fst (snd f) \<and> d_nlink d = 1 \<and> d_uid d = 0 \<and> d_gid d = 0 \<and>
     d_size d = of_nat (length (m_data f))"

definition on_image :: "mfile list \<Rightarrow> mkfs \<Rightarrow> bool" where
  "on_image fs s \<longleftrightarrow> nsect s = FSSIZE \<and> unat (freeinode s) = Suc (length fs) \<and> length fs < NINODES \<and>
     stored (img s) (unat (freeblock s)) (dnode (img s)) (file_of fs) {1..length fs} \<and>
     (\<forall>i \<in> {1..length fs}. inode_head (fs ! (i - 1)) (dnode (img s) i)) \<and> img s 1 = sb_block \<and> (\<forall>b \<in> {2..<32}. img s b = (\<lambda>_. 0))"

text \<open>Only the image and the counters are changed.\<close>

definition same_globals :: "mkfs \<Rightarrow> mkfs \<Rightarrow> bool" where
  "same_globals s t \<longleftrightarrow> rootino t = rootino s \<and> homeino t = homeino s \<and> binino t = binino s \<and> devino t = devino s \<and>
     etcino t = etcino s \<and> rootuserino t = rootuserino s"

lemma same_globals_trans: "same_globals s t \<Longrightarrow> same_globals t u \<Longrightarrow> same_globals s u"
  by (simp add: same_globals_def)

lemma sum_files: "(\<Sum>f \<leftarrow> fs. need (length (m_data f))) = (\<Sum>i \<in> {1..length fs}. need (length (file_of fs i)))"
proof -
  have "(\<Sum>f \<leftarrow> fs. need (length (m_data f))) = (\<Sum>k \<in> {..<length fs}. need (length (m_data (fs ! k))))"
    by (simp add: sum_list_sum_nth atLeast0LessThan)
  also have "\<dots> = (\<Sum>i \<in> {1..length fs}. need (length (file_of fs i)))"
    by (rule sum.reindex_bij_witness[of _ "\<lambda>i. i - 1" Suc]) (auto simp: file_of_def)
  finally show ?thesis .
qed

lemma append_data_length [simp]: "length (append_data i xs fs) = length fs"
  by (simp add: append_data_def)

lemma append_data_nth:
  assumes "1 \<le> i" "i \<le> length fs" "1 \<le> j" "j \<le> length fs"
  shows "append_data i xs fs ! (j - 1) = (if j = i then (fst (fs ! (i - 1)), fst (snd (fs ! (i - 1))), m_data (fs ! (i - 1)) @ xs) else fs ! (j - 1))"
  using assms by (auto simp: append_data_def nth_list_update)

lemma append_data_append:
  assumes "1 \<le> i" "i \<le> length fs"
  shows "append_data i ys (append_data i xs fs) = append_data i (xs @ ys) fs"
  using assms by (simp add: append_data_def)

lemma append_data_Nil: "1 \<le> i \<Longrightarrow> i \<le> length fs \<Longrightarrow> append_data i [] fs = fs"
  by (simp add: append_data_def)

section \<open>Operations on the image\<close>

lemma iappend_run:
  assumes im: "on_image fs s" and i: "1 \<le> unat inum" "unat inum \<le> length fs" and f: "fits (append_data (unat inum) p fs)"
  shows "\<exists>t. iappend inum p s = Ok () t \<and> on_image (append_data (unat inum) p fs) t \<and> same_globals s t"
proof -
  define n I F where "n = unat inum" and "I = {1..length fs}" and "F = file_of fs"
  have ns: "nsect s = FSSIZE" and st: "stored (img s) (unat (freeblock s)) (dnode (img s)) F I" and nI: "n \<in> I" "n < NINODES"
    using im i by (auto simp: on_image_def n_def I_def F_def)
  let ?fs = "append_data n p fs"
  have hd: "inode_head (fs ! (n - 1)) (dnode (img s) n)" using im nI by (auto simp: on_image_def I_def)
  have sz: "unat (d_size (dnode (img s) n)) = length (F n)"
  proof -
    have "length (F n) \<le> MAXFILE * BSIZE" using storedD(4)[OF st nI(1)] .
    then show ?thesis using hd nI by (simp add: inode_head_def F_def I_def file_of_def unat_of_nat)
  qed
  have F': "file_of ?fs = F(n := F n @ p)"
    using nI by (auto simp: F_def I_def file_of_def append_data_def fun_eq_iff)
  have len: "length (F n) + length p \<le> MAXFILE * BSIZE"
  proof -
    have "?fs ! (n - 1) \<in> set ?fs" using nI by (intro nth_mem) (auto simp: I_def)
    then have "length (file_of ?fs n) \<le> MAXFILE * BSIZE" using f nI by (auto simp: fits_def n_def[symmetric] file_of_def I_def)
    then show ?thesis by (simp add: F')
  qed
  have room: "unat (freeblock s) + need (length (F n) + length p) \<le> FSSIZE + need (length (F n))"
  proof -
    have "nmeta + (\<Sum>i \<in> I. need (length ((F(n := F n @ p)) i))) \<le> FSSIZE"
      using f unfolding fits_def n_def[symmetric] sum_files F' by (simp add: I_def)
    then show ?thesis using sum_need[OF storedD(2)[OF st] nI(1), of F "F n @ p"] storedD(3)[OF st] by simp
  qed
  obtain d' t where r: "iappend_loop (dnode (img s) n) (length (F n)) p s = Ok (d', length (F n) + length p) t"
    and st': "stored (img t) (unat (freeblock t)) ((dnode (img s))(n := d')) (F(n := F n @ p)) I"
    and od: "only_data s t" and si: "same_inode (dnode (img s) n) d'"
    using iappend_loop_run[OF st nI(1) ns len room] by blast
  define d u where "d = d'\<lparr>d_size := of_nat (length (F n) + length p)\<rparr>"
    and "u = t\<lparr>img := (img t)(IBLOCK n mkfs_sb := put_dinode d (DINODE * (n mod IPB)) (img t (IBLOCK n mkfs_sb)))\<rparr>"
  have nt: "nsect t = FSSIZE" using od ns by (auto simp: only_data_def)
  have run: "iappend inum p s = Ok () u"
    using inode_sect_run[OF nI(2)[unfolded n_def] ns] inode_sect_run[OF nI(2)[unfolded n_def] nt] r sz
    by (simp add: iappend_def kdefs n_def u_def d_def)
  have a: "\<forall>k > NDIRECT. d_addrs d k = 0" using si dnode_addrs[of "img s" n] by (auto simp: same_inode_def d_def)
  note w = dnode_write[OF nI(2) a, where g = "img t"]
  have du: "dnode (img u) = (dnode (img t))(n := d)" using w(1) by (simp add: u_def)
  have iu: "img u b = img t b" if "b < 32 \<or> nmeta - 1 \<le> b" for b using w(2)[OF that] by (simp add: u_def)
  have ds: "dnode (img t) j = dnode (img s) j" if "j \<in> I" for j
    using od im that by (intro dnode_cong) (auto simp: only_data_def on_image_def I_def)
  have "stored (img u) (unat (freeblock t)) (dnode (img u)) (F(n := F n @ p)) I"
  proof (rule stored_meta[OF st'])
    show "\<exists>z. dnode (img u) j = ((dnode (img s))(n := d')) j\<lparr>d_size := z\<rparr>" if "j \<in> I" for j
    proof (cases "j = n")
      case True
      then show ?thesis by (auto simp: du d_def)
    next
      case False
      then show ?thesis using ds[OF that] by (intro exI[of _ "d_size (dnode (img s) j)"]) (simp add: du)
    qed
  qed (use iu in \<open>simp add: layout\<close>)
  moreover have "inode_head (?fs ! (j - 1)) (dnode (img u) j)" if "j \<in> I" for j
  proof (cases "j = n")
    case True
    then show ?thesis using hd si nI append_data_nth[of n fs n p]
      by (auto simp: du d_def inode_head_def same_inode_def F_def file_of_def I_def)
  next
    case False
    have "inode_head (fs ! (j - 1)) (dnode (img s) j)" using im that by (auto simp: on_image_def I_def)
    then show ?thesis using False that ds nI append_data_nth[of n fs j p] by (simp add: du I_def)
  qed
  moreover have "img u 1 = sb_block" "\<forall>b \<in> {2..<32}. img u b = (\<lambda>_. 0)"
    using im od iu by (simp_all add: on_image_def only_data_def layout)
  ultimately have "on_image ?fs u"
    using im od by (auto simp: on_image_def F' I_def u_def only_data_def)
  moreover have "same_globals s u" using od by (auto simp: same_globals_def only_data_def u_def)
  ultimately show ?thesis using run by (auto simp: n_def)
qed

lemma stored_cong:
  assumes st: "stored g fb D F I" and F: "\<And>i. i \<in> I \<Longrightarrow> G i = F i"
  shows "stored g fb D G I"
proof -
  have "(\<Sum>i \<in> I. need (length (G i))) = (\<Sum>i \<in> I. need (length (F i)))" using F by (intro sum.cong) auto
  then show ?thesis using F storedD[OF st] unfolding stored_def by auto
qed

lemma stored_new:
  assumes st: "stored g fb D F I" and i: "i \<notin> I" "F i = []" "d_addrs (D i) = (\<lambda>_. 0)"
  shows "stored g fb D F (insert i I)"
proof -
  have b: "blk g (D i) n = 0" for n using i(3) by (simp add: blk_def)
  have "placed g fb D (insert i I)" using storedD(1)[OF st] b unfolding placed_def by auto
  then show ?thesis using st i(1,2) b unfolding stored_def by (simp add: need_def)
qed

lemma mkfs_ialloc_run:
  assumes im: "on_image fs s" and n: "Suc (length fs) < NINODES"
  shows "\<exists>t. mkfs_ialloc ty m s = Ok (of_nat (Suc (length fs))) t \<and> on_image (fs @ [(ty, m, [])]) t \<and> same_globals s t"
proof -
  define i where "i = Suc (length fs)"
  have fi1: "unat (freeinode s) = i" using im by (simp add: on_image_def i_def)
  moreover have "of_nat (unat (freeinode s)) = freeinode s" by simp
  ultimately have fi: "unat (freeinode s) = i" "freeinode s = of_nat i" by simp_all
  define d where "d = \<lparr>d_type = ty, d_major = 0, d_minor = 0, d_nlink = 1, d_size = 0, d_addrs = (\<lambda>_. 0), d_uid = 0, d_gid = 0, d_mode = m\<rparr>"
  define t where "t = s\<lparr>freeinode := freeinode s + 1, img := (img s)(IBLOCK i mkfs_sb := put_dinode d (DINODE * (i mod IPB)) (img s (IBLOCK i mkfs_sb)))\<rparr>"
  have i: "i < NINODES" using n by (simp add: i_def)
  have ns: "nsect s = FSSIZE" using im by (simp add: on_image_def)
  have run: "mkfs_ialloc ty m s = Ok (of_nat i) t"
    using inode_sect_run(2)[of "freeinode s" "s\<lparr>freeinode := freeinode s + 1\<rparr>" d] fi i ns
    by (simp add: mkfs_ialloc_def kdefs d_def t_def)
  have a: "\<forall>k > NDIRECT. d_addrs d k = 0" by (simp add: d_def)
  note w = dnode_write[OF i a, where g = "img s"]
  have dt: "dnode (img t) = (dnode (img s))(i := d)" using w(1) by (simp add: t_def)
  have it: "img t b = img s b" if "b < 32 \<or> nmeta - 1 \<le> b" for b using w(2)[OF that] by (simp add: t_def)
  let ?fs = "fs @ [(ty, m, [])]"
  have fo: "file_of ?fs j = file_of fs j" if "j \<in> {1..length fs}" for j using that by (auto simp: file_of_def nth_append)
  have "stored (img s) (unat (freeblock s)) (dnode (img s)) (file_of ?fs) {1..length fs}"
    using im fo unfolding on_image_def by (blast intro: stored_cong)
  then have "stored (img t) (unat (freeblock s)) (dnode (img t)) (file_of ?fs) {1..length fs}"
  proof (rule stored_meta)
    show "\<exists>z. dnode (img t) j = dnode (img s) j\<lparr>d_size := z\<rparr>" if "j \<in> {1..length fs}" for j
      using that by (intro exI[of _ "d_size (dnode (img s) j)"]) (auto simp: dt i_def)
  qed (use it in \<open>simp add: layout\<close>)
  moreover have "freeblock t = freeblock s" "d_addrs (dnode (img t) i) = (\<lambda>_. 0)" "file_of ?fs i = []" "i \<notin> {1..length fs}"
    by (simp add: t_def, simp add: dt d_def, simp_all add: file_of_def i_def)
  ultimately have "stored (img t) (unat (freeblock t)) (dnode (img t)) (file_of ?fs) (insert i {1..length fs})"
    using stored_new[of "img t" "unat (freeblock s)" "dnode (img t)" "file_of ?fs" "{1..length fs}" i] by metis
  moreover have "insert i {1..length fs} = {1..length ?fs}" by (auto simp: i_def)
  moreover have "inode_head (?fs ! (j - 1)) (dnode (img t) j)" if "j \<in> {1..length ?fs}" for j
  proof (cases "j = i")
    case True
    then show ?thesis by (simp add: dt d_def i_def inode_head_def)
  next
    case False
    then have "j \<in> {1..length fs}" using that by (auto simp: i_def)
    moreover have "inode_head (fs ! (j - 1)) (dnode (img s) j)" using im calculation by (auto simp: on_image_def)
    ultimately show ?thesis using False by (auto simp: dt nth_append)
  qed
  moreover have "img t 1 = sb_block" "\<forall>b \<in> {2..<32}. img t b = (\<lambda>_. 0)" using im it by (simp_all add: on_image_def)
  moreover have "unat (freeinode t) = Suc i" using fi(1) i by (simp add: t_def unat_plus_if')
  ultimately have "on_image ?fs t" using ns n by (simp add: on_image_def t_def i_def)
  moreover have "same_globals s t" by (simp add: same_globals_def t_def)
  ultimately show ?thesis using run by (auto simp: i_def)
qed

section \<open>What fits\<close>

lemma fits_less:
  assumes "fits gs" "length fs \<le> length gs" "\<And>k. k < length fs \<Longrightarrow> length (m_data (fs ! k)) \<le> length (m_data (gs ! k))"
  shows "fits fs"
proof -
  have "(\<Sum>k \<in> {..<length fs}. need (length (m_data (fs ! k)))) \<le> (\<Sum>k \<in> {..<length fs}. need (length (m_data (gs ! k))))"
    using assms(3) by (intro sum_mono need_mono) auto
  also have "\<dots> \<le> (\<Sum>k \<in> {..<length gs}. need (length (m_data (gs ! k))))" using assms(2) by (intro sum_mono2) auto
  finally have "(\<Sum>f \<leftarrow> fs. need (length (m_data f))) \<le> (\<Sum>f \<leftarrow> gs. need (length (m_data f)))"
    by (simp add: sum_list_sum_nth atLeast0LessThan)
  moreover have "length (m_data f) \<le> MAXFILE * BSIZE" if "f \<in> set fs" for f
  proof -
    from that obtain k where k: "k < length fs" "f = fs ! k" by (auto simp: in_set_conv_nth)
    then have "gs ! k \<in> set gs" using assms(2) by simp
    then have "length (m_data (gs ! k)) \<le> MAXFILE * BSIZE" using assms(1) by (auto simp: fits_def)
    then show ?thesis using assms(3)[OF k(1)] by (simp add: k(2))
  qed
  ultimately show ?thesis using assms(1,2) by (simp add: fits_def)
qed

lemma fits_new: "fits (fs @ [f]) \<Longrightarrow> fits fs"
  by (erule fits_less) (simp_all add: nth_append)

lemma fits_append: "fits (append_data i xs fs) \<Longrightarrow> fits fs"
proof (erule fits_less)
  show "length (m_data (fs ! k)) \<le> length (m_data (append_data i xs fs ! k))" if "k < length fs" for k
    using that by (cases "k = i - 1") (simp_all add: append_data_def)
qed simp

section \<open>The tree\<close>

text \<open>The files that the program builds for its arguments.\<close>

definition sub_dir :: "nat \<Rightarrow> string \<Rightarrow> mfile list \<Rightarrow> mfile list" where
  "sub_dir parent name fs =
     (let i = Suc (length fs) in
      append_data parent (dirent (cstr name) (of_nat i))
       (append_data i (dirent DOTDOT (of_nat parent)) (append_data i (dirent DOT (of_nat i)) (fs @ [(T_DIR, 493, [])]))))"

definition root_dir :: "mfile list" where
  "root_dir = append_data 1 (dirent DOTDOT 1) (append_data 1 (dirent DOT 1) [(T_DIR, 493, [])])"

definition mkfs_dirs :: "mfile list" where
  "mkfs_dirs = sub_dir 1 ''etc'' (sub_dir 4 ''root'' (sub_dir 1 ''home'' (sub_dir 1 ''bin'' (sub_dir 1 ''dev'' root_dir))))"

definition dest_dir :: "cstring \<Rightarrow> nat" where
  "dest_dir arg = (if is_binary (shortname arg) then 3 else if prefix_of ''cfg/'' arg then 6 else 5)"

definition dest_name :: "cstring \<Rightarrow> cstring" where
  "dest_name arg = (if is_binary (shortname arg) then drop 1 (shortname arg) else shortname arg)"

definition add_tree :: "(cstring \<Rightarrow> u8 list option) \<Rightarrow> cstring \<Rightarrow> mfile list \<Rightarrow> mfile list" where
  "add_tree host arg fs =
     (let i = Suc (length fs); d = dest_dir arg in
      append_data i (the (host arg))
       (append_data d (dirent (dest_name arg) (of_nat i)) (fs @ [(T_FILE, if d = 3 then 509 else 420, [])])))"

definition mkfs_tree :: "(cstring \<Rightarrow> u8 list option) \<Rightarrow> cstring list \<Rightarrow> mfile list" where
  "mkfs_tree host args = fold (add_tree host) args mkfs_dirs"

lemma sub_dir_length [simp]: "length (sub_dir parent name fs) = Suc (length fs)"
  by (simp add: sub_dir_def Let_def)

lemma add_tree_length [simp]: "length (add_tree host arg fs) = Suc (length fs)"
  by (simp add: add_tree_def Let_def)

lemma fits_count: "fits (append_data i xs fs) \<Longrightarrow> length fs < NINODES"
  by (simp add: fits_def)

lemma mk_subdir_run:
  assumes im: "on_image fs s" and i: "1 \<le> unat parent" "unat parent \<le> length fs" and f: "fits (sub_dir (unat parent) name fs)"
  shows "\<exists>t. mk_subdir parent name s = Ok (of_nat (Suc (length fs))) t \<and> on_image (sub_dir (unat parent) name fs) t \<and> same_globals s t"
proof -
  let ?i = "Suc (length fs)" and ?w = "of_nat (Suc (length fs)) :: u32"
  let ?f0 = "fs @ [(T_DIR, 493, [])]"
  let ?f1 = "append_data ?i (dirent DOT ?w) ?f0"
  let ?f2 = "append_data ?i (dirent DOTDOT parent) ?f1"
  have f3: "fits (append_data (unat parent) (dirent (cstr name) ?w) ?f2)" using f by (simp add: sub_dir_def Let_def)
  have f2: "fits ?f2" using f3 by (rule fits_append)
  have f1: "fits ?f1" using f2 by (rule fits_append)
  have n: "?i < NINODES" using f by (simp add: fits_def)
  then have u: "unat ?w = ?i" by (simp only: unat_of_nat) simp
  from mkfs_ialloc_run[OF im n] obtain s0 where s0: "mkfs_ialloc T_DIR 493 s = Ok ?w s0" "on_image ?f0 s0" "same_globals s s0" by blast
  from iappend_run[OF s0(2), of ?w "dirent DOT ?w"] f1 obtain s1 where
    s1: "iappend ?w (dirent DOT ?w) s0 = Ok () s1" "on_image ?f1 s1" "same_globals s0 s1" unfolding u by auto
  from iappend_run[OF s1(2), of ?w "dirent DOTDOT parent"] f2 obtain s2 where
    s2: "iappend ?w (dirent DOTDOT parent) s1 = Ok () s2" "on_image ?f2 s2" "same_globals s1 s2" unfolding u by auto
  from iappend_run[OF s2(2), of parent "dirent (cstr name) ?w"] f3 i obtain s3 where
    s3: "iappend parent (dirent (cstr name) ?w) s2 = Ok () s3"
    "on_image (append_data (unat parent) (dirent (cstr name) ?w) ?f2) s3" "same_globals s2 s3" by auto
  have "mk_subdir parent name s = Ok ?w s3" using s0(1) s1(1) s2(1) s3(1) by (simp add: mk_subdir_def kdefs)
  moreover have "on_image (sub_dir (unat parent) name fs) s3" using s3(2) by (simp add: sub_dir_def Let_def)
  ultimately show ?thesis using s0(3) s1(3) s2(3) s3(3) same_globals_trans by blast
qed

lemma copy_in_run:
  assumes "on_image fs s" "1 \<le> unat inum" "unat inum \<le> length fs" "fits (append_data (unat inum) data fs)"
  shows "\<exists>t. copy_in inum data s = Ok () t \<and> on_image (append_data (unat inum) data fs) t \<and> same_globals s t"
  using assms
proof (induction "length data" arbitrary: data fs s rule: less_induct)
  case less
  show ?case
  proof (cases "data = []")
    case True
    then show ?thesis using less.prems by (simp add: copy_in.simps kret_apply append_data_Nil same_globals_def)
  next
    case False
    let ?a = "take BSIZE data" and ?b = "drop BSIZE data" and ?i = "unat inum"
    have e: "append_data ?i ?b (append_data ?i ?a fs) = append_data ?i data fs"
      using append_data_append[OF less.prems(2,3)] by simp
    have fb: "fits (append_data ?i ?b (append_data ?i ?a fs))" using less.prems(4) e by simp
    from iappend_run[OF less.prems(1-3) fits_append[OF fb]] obtain t where
      t: "iappend inum ?a s = Ok () t" "on_image (append_data ?i ?a fs) t" "same_globals s t" by blast
    have "length ?b < length data" using False by simp
    from less.hyps[OF this t(2) less.prems(2) _ fb] less.prems(3) obtain u where
      u: "copy_in inum ?b t = Ok () u" "on_image (append_data ?i data fs) u" "same_globals t u" unfolding e by auto
    have "copy_in inum data s = Ok () u" using False t(1) u(1) by (subst copy_in.simps) (simp add: kthen_apply)
    then show ?thesis using u(2) same_globals_trans[OF t(3) u(3)] by blast
  qed
qed

text \<open>The inode numbers of the directories.\<close>

definition dirs_set :: "mkfs \<Rightarrow> bool" where
  "dirs_set s \<longleftrightarrow> rootino s = 1 \<and> devino s = 2 \<and> binino s = 3 \<and> homeino s = 4 \<and> rootuserino s = 5 \<and> etcino s = 6"

lemma add_file_run:
  assumes im: "on_image fs s" and d: "dirs_set s" "6 \<le> length fs" and f: "fits (add_tree host arg fs)" and a: "host arg \<noteq> None" "SLASH \<notin> set (shortname arg)"
  shows "\<exists>t. add_file host arg s = Ok () t \<and> on_image (add_tree host arg fs) t \<and> dirs_set t"
proof -
  from a obtain data where data: "host arg = Some data" by blast
  let ?i = "Suc (length fs)" and ?w = "of_nat (Suc (length fs)) :: u32" and ?d = "dest_dir arg"
  let ?f0 = "fs @ [(T_FILE, if ?d = 3 then 509 else 420, [])]"
  let ?f1 = "append_data ?d (dirent (dest_name arg) ?w) ?f0"
  have f2: "fits (append_data ?i data ?f1)" using f data by (simp add: add_tree_def Let_def)
  have f1: "fits ?f1" using f2 by (rule fits_append)
  have n: "?i < NINODES" using f by (simp add: fits_def)
  then have u: "unat ?w = ?i" by (simp only: unat_of_nat) simp
  have dd: "unat (of_nat ?d :: u32) = ?d" "1 \<le> ?d" "?d \<le> 6" by (simp_all add: dest_dir_def)
  have di: "(if is_binary (shortname arg) then binino s else if prefix_of ''cfg/'' arg then etcino s else rootuserino s) = of_nat ?d"
    "(of_nat ?d = binino s) = (?d = 3)"
    using d(1) by (simp_all add: dirs_set_def dest_dir_def)
  from mkfs_ialloc_run[OF im n] obtain s0 where
    s0: "mkfs_ialloc T_FILE (if ?d = 3 then 509 else 420) s = Ok ?w s0" "on_image ?f0 s0" "same_globals s s0" by blast
  from iappend_run[OF s0(2), of "of_nat ?d" "dirent (dest_name arg) ?w"] f1 dd d(2) obtain s1 where
    s1: "iappend (of_nat ?d) (dirent (dest_name arg) ?w) s0 = Ok () s1" "on_image ?f1 s1" "same_globals s0 s1" by auto
  from copy_in_run[OF s1(2), of ?w data] f2 obtain s2 where
    s2: "copy_in ?w data s1 = Ok () s2" "on_image (append_data ?i data ?f1) s2" "same_globals s1 s2" unfolding u by auto
  have "add_file host arg s = Ok () s2"
    using s0(1) s1(1) s2(1) a(2) data unfolding add_file_def Let_def di by (simp add: kdefs dest_name_def di)
  moreover have "on_image (add_tree host arg fs) s2" using s2(2) data by (simp add: add_tree_def Let_def)
  moreover have "dirs_set s2" using d(1) s0(3) s1(3) s2(3) by (simp add: dirs_set_def same_globals_def)
  ultimately show ?thesis by blast
qed

section \<open>The whole program\<close>

lemma fits_sub_dir: "fits (sub_dir parent name fs) \<Longrightarrow> fits fs"
  unfolding sub_dir_def Let_def by (blast dest: fits_append fits_new)

lemma fits_add_tree: "fits (add_tree host arg fs) \<Longrightarrow> fits fs"
  unfolding add_tree_def Let_def by (blast dest: fits_append fits_new)

lemma fits_fold: "fits (fold (add_tree host) args fs) \<Longrightarrow> fits fs"
  by (induction args arbitrary: fs) (auto dest: fits_add_tree)

lemma mkfs_dirs_length [simp]: "length mkfs_dirs = 6" "length root_dir = 1"
  by (simp_all add: mkfs_dirs_def root_dir_def)

lemma image_setter:
  "on_image fs (s\<lparr>rootino := r\<rparr>) = on_image fs s" "on_image fs (s\<lparr>devino := r\<rparr>) = on_image fs s" "on_image fs (s\<lparr>binino := r\<rparr>) = on_image fs s"
  "on_image fs (s\<lparr>homeino := r\<rparr>) = on_image fs s" "on_image fs (s\<lparr>rootuserino := r\<rparr>) = on_image fs s" "on_image fs (s\<lparr>etcino := r\<rparr>) = on_image fs s"
  by (simp_all add: on_image_def)

lemma makedirs_run:
  assumes im: "on_image [] s" and f: "fits mkfs_dirs"
  shows "\<exists>t. makedirs s = Ok () t \<and> on_image mkfs_dirs t \<and> dirs_set t"
proof -
  note fe = f[unfolded mkfs_dirs_def]
  note fr = fits_sub_dir[OF fe]
  note fh = fits_sub_dir[OF fr]
  note fb = fits_sub_dir[OF fh]
  note fd = fits_sub_dir[OF fb]
  have f2: "fits root_dir" using fd by (rule fits_sub_dir)
  have f1: "fits (append_data 1 (dirent DOT 1) [(T_DIR, 493, [])])" using f2 unfolding root_dir_def by (rule fits_append)
  from mkfs_ialloc_run[OF im, of T_DIR 493] obtain s0 where s0: "mkfs_ialloc T_DIR 493 s = Ok 1 s0" "on_image [(T_DIR, 493, [])] s0" by auto
  let ?s0 = "s0\<lparr>rootino := 1\<rparr>"
  from iappend_run[of "[(T_DIR, 493, [])]" ?s0 1 "dirent DOT 1"] s0(2) f1 obtain s1 where
    s1: "iappend 1 (dirent DOT 1) ?s0 = Ok () s1" "on_image (append_data 1 (dirent DOT 1) [(T_DIR, 493, [])]) s1" "same_globals ?s0 s1"
    by (auto simp: image_setter)
  from iappend_run[OF s1(2), of 1 "dirent DOTDOT 1"] f2 obtain s2 where
    s2: "iappend 1 (dirent DOTDOT 1) s1 = Ok () s2" "on_image root_dir s2" "same_globals s1 s2" by (auto simp: root_dir_def)
  from mk_subdir_run[OF s2(2), of 1 "''dev''"] fd obtain s3 where
    s3: "mk_subdir 1 ''dev'' s2 = Ok 2 s3" "on_image (sub_dir 1 ''dev'' root_dir) s3" "same_globals s2 s3" by auto
  from mk_subdir_run[of _ "s3\<lparr>devino := 2\<rparr>" 1 "''bin''"] s3(2) fb obtain s4 where
    s4: "mk_subdir 1 ''bin'' (s3\<lparr>devino := 2\<rparr>) = Ok 3 s4" "on_image (sub_dir 1 ''bin'' (sub_dir 1 ''dev'' root_dir)) s4"
    "same_globals (s3\<lparr>devino := 2\<rparr>) s4" by (force simp: image_setter)
  from mk_subdir_run[of _ "s4\<lparr>binino := 3\<rparr>" 1 "''home''"] s4(2) fh obtain s5 where
    s5: "mk_subdir 1 ''home'' (s4\<lparr>binino := 3\<rparr>) = Ok 4 s5" "on_image (sub_dir 1 ''home'' (sub_dir 1 ''bin'' (sub_dir 1 ''dev'' root_dir))) s5"
    "same_globals (s4\<lparr>binino := 3\<rparr>) s5" by (force simp: image_setter)
  from mk_subdir_run[of _ "s5\<lparr>homeino := 4\<rparr>" 4 "''root''"] s5(2) fr obtain s6 where
    s6: "mk_subdir 4 ''root'' (s5\<lparr>homeino := 4\<rparr>) = Ok 5 s6"
    "on_image (sub_dir 4 ''root'' (sub_dir 1 ''home'' (sub_dir 1 ''bin'' (sub_dir 1 ''dev'' root_dir)))) s6"
    "same_globals (s5\<lparr>homeino := 4\<rparr>) s6" by (force simp: image_setter)
  from mk_subdir_run[of _ "s6\<lparr>rootuserino := 5\<rparr>" 1 "''etc''"] s6(2) fe obtain s7 where
    s7: "mk_subdir 1 ''etc'' (s6\<lparr>rootuserino := 5\<rparr>) = Ok 6 s7" "on_image mkfs_dirs s7" "same_globals (s6\<lparr>rootuserino := 5\<rparr>) s7"
    by (force simp: image_setter mkfs_dirs_def)
  have "makedirs s = Ok () (s7\<lparr>etcino := 6\<rparr>)"
    using s0(1) s1(1) s2(1) s3(1) s4(1) s5(1) s6(1) s7(1) by (simp add: makedirs_def kdefs)
  moreover have "dirs_set (s7\<lparr>etcino := 6\<rparr>)"
    using s1(3) s2(3) s3(3) s4(3) s5(3) s6(3) s7(3) by (simp add: dirs_set_def same_globals_def)
  ultimately show ?thesis using s7(2) by (simp add: image_setter)
qed

lemma add_files_run:
  assumes "on_image fs s" "dirs_set s" "6 \<le> length fs" "fits (fold (add_tree host) args fs)"
    "\<forall>arg \<in> set args. host arg \<noteq> None \<and> SLASH \<notin> set (shortname arg)"
  shows "\<exists>t. kfor (add_file host) args s = Ok () t \<and> on_image (fold (add_tree host) args fs) t"
  using assms
proof (induction args arbitrary: fs s)
  case Nil
  then show ?case by (simp add: kret_apply)
next
  case (Cons arg args)
  from Cons.prems(4) have f: "fits (add_tree host arg fs)" by (auto dest: fits_fold)
  from add_file_run[OF Cons.prems(1-3) f] Cons.prems(5) obtain t where
    t: "add_file host arg s = Ok () t" "on_image (add_tree host arg fs) t" "dirs_set t" by auto
  show ?case using Cons.IH[OF t(2,3)] Cons.prems(3-5) t(1) by (simp add: kthen_apply)
qed

lemma blank_image:
  "\<exists>t. kthen (kfor (\<lambda>i. wsect (of_nat i) (\<lambda>_. 0)) [0..<FSSIZE]) (wsect 1 sb_block) (mkfs_init\<lparr>freeblock := of_nat nmeta\<rparr>) = Ok () t \<and> on_image [] t"
proof -
  let ?Q = "\<lambda>n (t :: mkfs). img t = (\<lambda>_ _. 0) \<and> nsect t = n \<and> freeinode t = 1 \<and> freeblock t = of_nat nmeta"
  have "\<exists>t. kfor (\<lambda>i. wsect (of_nat i) (\<lambda>_. 0)) [0..<FSSIZE] (mkfs_init\<lparr>freeblock := of_nat nmeta\<rparr>) = Ok () t \<and> ?Q FSSIZE t"
  proof (rule kfor_upt_succeeds)
    fix i and u :: mkfs assume i: "i < FSSIZE" and Q: "?Q i u"
    have "sector (of_nat i) = i" using i by (subst sector_small) (simp_all add: unat_of_nat)
    then show "\<exists>t. wsect (of_nat i) (\<lambda>_. 0) u = Ok () t \<and> ?Q (Suc i) t" using Q by (auto simp: wsect_def kdefs)
  qed (simp_all add: mkfs_init_def)
  then obtain t where t: "kfor (\<lambda>i. wsect (of_nat i) (\<lambda>_. 0)) [0..<FSSIZE] (mkfs_init\<lparr>freeblock := of_nat nmeta\<rparr>) = Ok () t" "?Q FSSIZE t" by blast
  let ?u = "t\<lparr>img := (img t)(1 := sb_block)\<rparr>"
  have "wsect 1 sb_block t = Ok () ?u" using sect_run(2)[of 1 t sb_block] t(2) by simp
  moreover have "on_image [] ?u" using t(2) by (auto simp: on_image_def stored_def placed_def layout)
  ultimately show ?thesis using t(1) by (auto simp: kthen_apply simp del: upt.simps)
qed

lemma used_map: "bmap_free (fold bmap_mark [0..<n] (\<lambda>_. 0)) b \<longleftrightarrow> n \<le> b"
proof (induction n)
  case 0
  then show ?case by (simp add: bmap_free_bit)
next
  case (Suc n)
  then show ?case by (auto simp: bmap_free_mark)
qed

lemma mkfs_main_run:
  assumes argv: "2 \<le> length argv" and f: "fits (mkfs_tree host (drop 2 argv))"
    and args: "\<forall>arg \<in> set (drop 2 argv). host arg \<noteq> None \<and> SLASH \<notin> set (shortname arg)"
  shows "\<exists>t. mkfs_main host argv mkfs_init = Ok () t \<and> on_image (mkfs_tree host (drop 2 argv)) t \<and>
    img t 133 = fold bmap_mark [0..<unat (freeblock t)] (\<lambda>_. 0)"
proof -
  let ?fs = "mkfs_tree host (drop 2 argv)"
  obtain s1 where s1: "kthen (kfor (\<lambda>i. wsect (of_nat i) (\<lambda>_. 0)) [0..<FSSIZE]) (wsect 1 sb_block) (mkfs_init\<lparr>freeblock := of_nat nmeta\<rparr>) = Ok () s1" "on_image [] s1"
    using blank_image by blast
  have fd: "fits mkfs_dirs" using f unfolding mkfs_tree_def by (rule fits_fold)
  from makedirs_run[OF s1(2) fd] obtain s2 where s2: "makedirs s1 = Ok () s2" "on_image mkfs_dirs s2" "dirs_set s2" by blast
  from add_files_run[OF s2(2,3) _ f[unfolded mkfs_tree_def] args] obtain s3 where
    s3: "kfor (add_file host) (drop 2 argv) s2 = Ok () s3" "on_image ?fs s3" by (auto simp: mkfs_tree_def)
  let ?m = "fold bmap_mark [0..<unat (freeblock s3)] (\<lambda>_. 0)"
  let ?t = "s3\<lparr>img := (img s3)(133 := ?m)\<rparr>"
  have ns: "nsect s3 = FSSIZE" and st: "stored (img s3) (unat (freeblock s3)) (dnode (img s3)) (file_of ?fs) {1..length ?fs}"
    and n: "length ?fs < NINODES" using s3(2) by (simp_all add: on_image_def)
  have fb: "unat (freeblock s3) \<le> FSSIZE" using storedD(1)[OF st] by (simp add: placed_def)
  then have "sint (freeblock s3) = int (unat (freeblock s3))" by (intro sint_unat_small) simp
  then have "sint (freeblock s3) < 4096" "nat (sint (freeblock s3)) = unat (freeblock s3)" using fb by linarith+
  then have "mkfs_balloc (sint (freeblock s3)) s3 = Ok () ?t"
    using sect_run(2)[of 133 s3 ?m] ns by (simp add: mkfs_balloc_def kdefs mkfs_sb_eq)
  moreover from s1(1) obtain s0 where
    "kfor (\<lambda>i. wsect (of_nat i) (\<lambda>_. 0)) [0..<FSSIZE] (mkfs_init\<lparr>freeblock := of_nat nmeta\<rparr>) = Ok () s0" "wsect 1 sb_block s0 = Ok () s1"
    unfolding kthen_Ok_iff by auto
  ultimately have "mkfs_main host argv mkfs_init = Ok () ?t"
    using argv s2(1) s3(1) by (simp add: mkfs_main_def kthen_apply kmod_apply del: upt.simps)
  moreover have d: "dnode (img ?t) i = dnode (img s3) i" if "i \<in> {1..length ?fs}" for i
  proof -
    have "IBLOCK i mkfs_sb \<noteq> 133" using that n by (auto simp: IBLOCK_def mkfs_sb_eq)
    then show ?thesis by (simp add: dnode_def)
  qed
  have "stored (img ?t) (unat (freeblock s3)) (dnode (img ?t)) (file_of ?fs) {1..length ?fs}"
  proof (rule stored_meta[OF st])
    show "\<exists>z. dnode (img ?t) i = dnode (img s3) i\<lparr>d_size := z\<rparr>" if "i \<in> {1..length ?fs}" for i
      using d[OF that] by (intro exI[of _ "d_size (dnode (img s3) i)"]) simp
  qed (simp add: layout)
  then have "on_image ?fs ?t" using s3(2) d by (simp add: on_image_def)
  ultimately show ?thesis by auto
qed

section \<open>The kernel on the image\<close>

text \<open>The kernel has the image as its disk, and its superblock and log are those of the image.\<close>

definition mounted :: "(nat \<Rightarrow> bytes) \<Rightarrow> 'a kfs_scheme \<Rightarrow> bool" where
  "mounted g s \<longleftrightarrow> (\<forall>b < FSSIZE. bview s b = g b) \<and> disksize s = FSSIZE \<and> fs_sb s = decode_sb (g 1) \<and>
     lg_start s = sb_logstart (decode_sb (g 1)) \<and> lg_size s = sb_nlog (decode_sb (g 1))"

text \<open>The slot \<open>ip\<close> of the inode cache holds the inode \<open>i\<close> as it was read from the disk.\<close>

definition has_inode :: "'a kfs_scheme \<Rightarrow> nat \<Rightarrow> nat \<Rightarrow> bool" where
  "has_inode s ip i \<longleftrightarrow> i_dev (icache s ip) = 1 \<and> i_inum (icache s ip) = i \<and>
     (\<exists>p. icache s ip = load_dinode (get_dinode (bview s (IBLOCK i (fs_sb s))) (DINODE * (i mod IPB))) p)"

lemma mounted_areas:
  assumes im: "on_image fs m" and mt: "mounted (img m) s" and map: "img m 133 = fold bmap_mark [0..<unat (freeblock m)] (\<lambda>_. 0)"
  shows "fs_sb s = mkfs_sb" "map_blocks s = {133}" "inode_blocks s \<subseteq> {32..<132}" "log_area s = {2..<32}"
    "b < FSSIZE \<Longrightarrow> in_use s b \<longleftrightarrow> b < unat (freeblock m)" "fs_ok s"
proof -
  show sb: "fs_sb s = mkfs_sb" using im mt by (simp add: mounted_def on_image_def decode_sb_block)
  show ma: "map_blocks s = {133}" by (auto simp: map_blocks_def sb BBLOCK_def mkfs_sb_eq image_iff) (rule exI[of _ 0], simp)
  show ia: "inode_blocks s \<subseteq> {32..<132}" by (auto simp: inode_blocks_def sb IBLOCK_def mkfs_sb_eq)
  show la: "log_area s = {2..<32}" using mt im by (simp add: log_area_def mounted_def on_image_def decode_sb_block mkfs_sb_eq)
  show iu: "in_use s b \<longleftrightarrow> b < unat (freeblock m)" if "b < FSSIZE" for b
  proof -
    have "bview s 133 = img m 133" using mt by (simp add: mounted_def)
    then show ?thesis using that map by (simp add: in_use_def sb BBLOCK_def mkfs_sb_eq used_map not_le)
  qed
  have "nmeta \<le> unat (freeblock m)" using im by (simp add: on_image_def stored_def placed_def)
  then have "in_use s 0" "\<forall>b < sb_size (fs_sb s). \<not> in_use s b \<longrightarrow> b \<notin> log_area s \<union> map_blocks s \<union> inode_blocks s"
    using iu ia by (auto simp: sb mkfs_sb_eq ma la layout)
  moreover have "disksize s = FSSIZE" using mt by (simp add: mounted_def)
  moreover have "map_blocks s \<inter> inode_blocks s = {}" using ia ma by auto
  ultimately show "fs_ok s" by (simp add: fs_ok_def sb mkfs_sb_eq)
qed

lemma mounted_file:
  assumes im: "on_image fs m" and mt: "mounted (img m) s" and map: "img m 133 = fold bmap_mark [0..<unat (freeblock m)] (\<lambda>_. 0)"
    and i: "1 \<le> i" "i \<le> length fs" and hi: "has_inode s ip i"
  shows "fsize s ip = length (file_of fs i)" "n < MAXFILE \<Longrightarrow> fblock s ip n = blk (img m) (dnode (img m) i) n"
    "indirect s ip = blk (img m) (dnode (img m) i) MAXFILE" "i_type (icache s ip) = fst (fs ! (i - 1))"
    "i_mode (icache s ip) = fst (snd (fs ! (i - 1)))" "i_uid (icache s ip) = 0" "i_nlink (icache s ip) = 1"
proof -
  let ?d = "dnode (img m) i"
  note a = mounted_areas[OF im mt map]
  have "i < NINODES" using i im by (simp add: on_image_def)
  then have "IBLOCK i mkfs_sb < FSSIZE" by (simp add: IBLOCK_def mkfs_sb_eq)
  then obtain p where p: "icache s ip = load_dinode ?d p" using hi mt by (auto simp: has_inode_def a(1) dnode_def mounted_def)
  have st: "stored (img m) (unat (freeblock m)) (dnode (img m)) (file_of fs) {1..length fs}" and iI: "i \<in> {1..length fs}"
    and hd: "inode_head (fs ! (i - 1)) ?d" using im i by (auto simp: on_image_def)
  have "length (file_of fs i) \<le> MAXFILE * BSIZE" using storedD(4)[OF st iI] .
  then show "fsize s ip = length (file_of fs i)" using p hd i by (simp add: fsize_def load_dinode_def inode_head_def file_of_def unat_of_nat)
  show ind: "indirect s ip = blk (img m) ?d MAXFILE" by (simp add: indirect_def p load_dinode_def blk_def)
  have "bview s (indirect s ip) = img m (indirect s ip)" if "indirect s ip \<noteq> 0"
    using placed_range(3)[OF storedD(1)[OF st] iI order_refl] that mt by (simp add: ind mounted_def)
  then show "n < MAXFILE \<Longrightarrow> fblock s ip n = blk (img m) ?d n"
    by (auto simp: fblock_def blk_def p load_dinode_def indirect_def unat_eq_zero)
  show "i_type (icache s ip) = fst (fs ! (i - 1))" "i_mode (icache s ip) = fst (snd (fs ! (i - 1)))" "i_uid (icache s ip) = 0" "i_nlink (icache s ip) = 1"
    using p hd by (simp_all add: load_dinode_def inode_head_def)
qed

lemma mounted_file_blocks:
  assumes im: "on_image fs m" and mt: "mounted (img m) s" and map: "img m 133 = fold bmap_mark [0..<unat (freeblock m)] (\<lambda>_. 0)"
    and i: "1 \<le> i" "i \<le> length fs" and hi: "has_inode s ip i" and b: "b \<in> file_blocks s ip"
  obtains n where "n \<le> MAXFILE" "b = blk (img m) (dnode (img m) i) n" "b \<noteq> 0"
proof -
  note f = mounted_file[OF im mt map i hi]
  from b have c: "b = indirect s ip \<or> (\<exists>n < MAXFILE. b = fblock s ip n)" and nz: "b \<noteq> 0" by (auto simp: file_blocks_def)
  from c show thesis
  proof
    assume "b = indirect s ip"
    then show thesis using that[of MAXFILE] f(3) nz by simp
  next
    assume "\<exists>n < MAXFILE. b = fblock s ip n"
    then obtain n where "n < MAXFILE" "b = fblock s ip n" by blast
    then show thesis using that[of n] f(2)[of n] nz by simp
  qed
qed

lemma mounted_wf:
  assumes im: "on_image fs m" and mt: "mounted (img m) s" and map: "img m 133 = fold bmap_mark [0..<unat (freeblock m)] (\<lambda>_. 0)"
    and i: "1 \<le> i" "i \<le> length fs" and hi: "has_inode s ip i"
  shows "wf_file s ip" "k < fsize s ip \<Longrightarrow> content s ip k = file_of fs i ! k"
proof -
  let ?b = "blk (img m) (dnode (img m) i)"
  note a = mounted_areas[OF im mt map] and f = mounted_file[OF im mt map i hi]
  have st: "stored (img m) (unat (freeblock m)) (dnode (img m)) (file_of fs) {1..length fs}" and iI: "i \<in> {1..length fs}"
    using im i by (auto simp: on_image_def)
  note pl = storedD(1)[OF st]
  have cov: "k div BSIZE < MAXFILE \<and> ?b (k div BSIZE) \<noteq> 0" if "k < length (file_of fs i)" for k
  proof -
    have "k < MAXFILE * BSIZE" using that storedD(4)[OF st iI] by linarith
    then have "k div BSIZE < MAXFILE" by (simp add: less_mult_imp_div_less)
    moreover have "k div BSIZE * BSIZE \<le> k" by (rule div_times_less_eq_dividend)
    ultimately show ?thesis using storedD(5)[OF st iI] that by (meson le_less_trans)
  qed
  have "b < FSSIZE \<and> in_use s b \<and> b \<notin> log_area s \<union> map_blocks s \<union> inode_blocks s" if "b \<in> file_blocks s ip" for b
  proof -
    from mounted_file_blocks[OF im mt map i hi that] obtain n where "n \<le> MAXFILE" "b = ?b n" "b \<noteq> 0" by blast
    then have "nmeta \<le> b" "b < unat (freeblock m)" "b < FSSIZE" using placed_range[OF pl iI] by blast+
    then show ?thesis using a(2-5) by (auto simp: layout)
  qed
  moreover have "wf_map (fblock s ip) (indirect s ip)"
  proof -
    have "fblock s ip n = 0" if "n' < MAXFILE" "n < MAXFILE" "n' \<noteq> n" "fblock s ip n' = fblock s ip n" for n n'
      using placed_inj[OF pl iI iI, of n' n] that f(2) by auto
    moreover have "fblock s ip n = 0" if "n < MAXFILE" "fblock s ip n = indirect s ip" for n
      using placed_inj[OF pl iI iI, of n MAXFILE] that f(2,3) by auto
    ultimately show ?thesis unfolding wf_map_def by blast
  qed
  moreover have "fsize s ip \<le> MAXFILE * BSIZE" using f(1) storedD(4)[OF st iI] by simp
  moreover have "\<forall>k < fsize s ip. fblock s ip (k div BSIZE) \<noteq> 0" using f(1,2) cov by simp
  moreover have "i < NINODES" using i im by (simp add: on_image_def)
  ultimately show "wf_file s ip" using hi unfolding wf_file_def a(1) has_inode_def by (auto simp: mkfs_sb_eq)
  show "content s ip k = file_of fs i ! k" if "k < fsize s ip"
  proof -
    have k: "k < length (file_of fs i)" using that f(1) by simp
    then have "?b (k div BSIZE) < FSSIZE" using cov[OF k] placed_range(3)[OF pl iI, of "k div BSIZE"] by simp
    then show ?thesis using cov[OF k] f(2) mt storedD(7)[OF st iI k] by (simp add: content_def mounted_def)
  qed
qed

lemma mounted_disjoint:
  assumes im: "on_image fs m" and mt: "mounted (img m) s" and map: "img m 133 = fold bmap_mark [0..<unat (freeblock m)] (\<lambda>_. 0)"
    and i: "1 \<le> i" "i \<le> length fs" "has_inode s ip i" and j: "1 \<le> j" "j \<le> length fs" "has_inode s jp j" and ne: "i \<noteq> j"
  shows "file_blocks s ip \<inter> file_blocks s jp = {}"
proof -
  have pl: "placed (img m) (unat (freeblock m)) (dnode (img m)) {1..length fs}" using im storedD(1) by (auto simp: on_image_def)
  have False if b: "b \<in> file_blocks s ip" "b \<in> file_blocks s jp" for b
  proof -
    obtain n where n: "n \<le> MAXFILE" "b = blk (img m) (dnode (img m) i) n" "b \<noteq> 0" by (rule mounted_file_blocks[OF im mt map i b(1)])
    obtain l where l: "l \<le> MAXFILE" "b = blk (img m) (dnode (img m) j) l" by (rule mounted_file_blocks[OF im mt map j b(2)])
    show False using placed_inj[OF pl, of i j n l] n l i(1,2) j(1,2) ne by auto
  qed
  then show ?thesis by blast
qed

text \<open>What the kernel has of the list: a consistent file system with these files and no others' blocks in them.\<close>

definition shows_files :: "mfile list \<Rightarrow> 'a kfs_scheme \<Rightarrow> bool" where
  "shows_files fs s \<longleftrightarrow> fs_ok s \<and>
     (\<forall>ip i. 1 \<le> i \<and> i \<le> length fs \<and> has_inode s ip i \<longrightarrow> wf_file s ip \<and> i_type (icache s ip) = fst (fs ! (i - 1)) \<and>
       i_mode (icache s ip) = fst (snd (fs ! (i - 1))) \<and> i_uid (icache s ip) = 0 \<and>
       fsize s ip = length (file_of fs i) \<and> (\<forall>k < fsize s ip. content s ip k = file_of fs i ! k)) \<and>
     (\<forall>ip jp i j. 1 \<le> i \<and> i \<le> length fs \<and> has_inode s ip i \<and> 1 \<le> j \<and> j \<le> length fs \<and> has_inode s jp j \<and> i \<noteq> j \<longrightarrow>
       file_blocks s ip \<inter> file_blocks s jp = {})"

lemma mounted_shows:
  assumes "on_image fs m" "mounted (img m) s" "img m 133 = fold bmap_mark [0..<unat (freeblock m)] (\<lambda>_. 0)"
  shows "shows_files fs s"
  unfolding shows_files_def
proof (intro conjI)
  show "fs_ok s" using mounted_areas(6)[OF assms] .
  show "\<forall>ip i. 1 \<le> i \<and> i \<le> length fs \<and> has_inode s ip i \<longrightarrow> wf_file s ip \<and> i_type (icache s ip) = fst (fs ! (i - 1)) \<and>
       i_mode (icache s ip) = fst (snd (fs ! (i - 1))) \<and> i_uid (icache s ip) = 0 \<and>
       fsize s ip = length (file_of fs i) \<and> (\<forall>k < fsize s ip. content s ip k = file_of fs i ! k)"
    by (intro allI impI, elim conjE, intro conjI allI impI)
      (rule mounted_file(1,4-6)[OF assms] mounted_wf[OF assms]; assumption)+
  show "\<forall>ip jp i j. 1 \<le> i \<and> i \<le> length fs \<and> has_inode s ip i \<and> 1 \<le> j \<and> j \<le> length fs \<and> has_inode s jp j \<and> i \<noteq> j \<longrightarrow>
       file_blocks s ip \<inter> file_blocks s jp = {}"
    by (intro allI impI, elim conjE, rule mounted_disjoint[OF assms])
qed

section \<open>Files in the tree\<close>

lemma file_of_append:
  assumes "1 \<le> i" "i \<le> length fs"
  shows "file_of (append_data i xs fs) j = (if j = i then file_of fs i @ xs else file_of fs j)"
  using assms by (auto simp: file_of_def append_data_def)

lemma file_of_new: "file_of (fs @ [(ty, m, xs)]) j = (if j = Suc (length fs) then xs else file_of fs j)" if "j \<le> Suc (length fs)"
  using that by (auto simp: file_of_def nth_append)

lemma dirent_length: "length (dirent name i) = DIRENT"
  by (simp add: dirent_def)

lemma dest_dir_range: "1 \<le> dest_dir arg" "dest_dir arg \<le> 6"
  by (simp_all add: dest_dir_def)

lemma file_of_add:
  assumes "6 \<le> length fs" "6 < i" "i \<le> Suc (length fs)"
  shows "file_of (add_tree host arg fs) i = (if i = Suc (length fs) then the (host arg) else file_of fs i)"
proof -
  have d: "dest_dir arg \<noteq> i" "1 \<le> dest_dir arg" "dest_dir arg \<le> Suc (length fs)" using dest_dir_range[of arg] assms by auto
  then show ?thesis using assms by (auto simp: add_tree_def Let_def file_of_append file_of_new)
qed

lemma type_of_add:
  assumes "6 \<le> length fs" "6 < i" "i \<le> Suc (length fs)"
  shows "fst (add_tree host arg fs ! (i - 1)) = (if i = Suc (length fs) then T_FILE else fst (fs ! (i - 1)))"
proof -
  have d: "dest_dir arg - 1 \<noteq> i - 1" "dest_dir arg - 1 < length fs" using dest_dir_range[of arg] assms by auto
  have "i - 1 = length fs \<or> i - 1 < length fs" using assms by auto
  then show ?thesis using assms d by (auto simp: add_tree_def Let_def append_data_def nth_append nth_list_update)
qed

text \<open>The argument number \<open>k\<close> is the file with the number \<open>7 + k\<close>.\<close>

lemma mkfs_tree_file:
  assumes "k < length args"
  shows "file_of (mkfs_tree host args) (7 + k) = the (host (args ! k)) \<and> fst (mkfs_tree host args ! (6 + k)) = T_FILE \<and>
    length (mkfs_tree host args) = 6 + length args"
  using assms
proof (induction args arbitrary: k rule: rev_induct)
  case (snoc a args)
  have e: "mkfs_tree host (args @ [a]) = add_tree host a (mkfs_tree host args)" by (simp add: mkfs_tree_def)
  have l: "length (mkfs_tree host args) = 6 + length args"
  proof (cases "args = []")
    case False
    then show ?thesis using snoc.IH[of 0] by simp
  qed (simp add: mkfs_tree_def)
  show ?case
  proof (cases "k = length args")
    case True
    then show ?thesis using file_of_add[of "mkfs_tree host args" "7 + k" host a] type_of_add[of "mkfs_tree host args" "7 + k" host a] l by (simp add: e)
  next
    case False
    then have "k < length args" using snoc.prems by simp
    then show ?thesis
      using snoc.IH[of k] file_of_add[of "mkfs_tree host args" "7 + k" host a] type_of_add[of "mkfs_tree host args" "7 + k" host a] l snoc.prems
      by (simp add: e nth_append)
  qed
qed simp

section \<open>An image with one file\<close>

definition ex_host :: "cstring \<Rightarrow> u8 list option" where
  "ex_host name = (if name = cstr ''README'' then Some (cstr ''xv6'') else None)"

definition ex_argv :: "cstring list" where
  "ex_argv = [cstr ''mkfs'', cstr ''fs.img'', cstr ''README'']"

text \<open>The kernel after booting from an image, with the inode 7 in slot 0 of the inode cache.\<close>

definition boot_view :: "(nat \<Rightarrow> bytes) \<Rightarrow> kfs" where
  "boot_view g = ex_fs\<lparr>memdisk := g, disksize := FSSIZE, fs_sb := decode_sb (g 1), lg_start := sb_logstart (decode_sb (g 1)),
     lg_size := sb_nlog (decode_sb (g 1)),
     icache := (\<lambda>_. (load_dinode (get_dinode (g (IBLOCK 7 (decode_sb (g 1)))) (DINODE * (7 mod IPB))) zero_inode)\<lparr>i_dev := 1, i_inum := 7\<rparr>)\<rparr>"

lemma boot_view_mounted: "mounted g (boot_view g)" "bview (boot_view g) = g" "held (boot_view g) = {}"
proof -
  have "findi (\<lambda>i. b_valid (bufs (boot_view g) i) \<and> b_dev (bufs (boot_view g) i) = 1 \<and> b_blockno (bufs (boot_view g) i) = b) NBUF = None" for b
    by (subst findi_None) (simp add: boot_view_def ex_fs_fields init_buf_def)
  then show v: "bview (boot_view g) = g" by (intro ext) (simp add: bview_def boot_view_def del: findi_None)
  show "mounted g (boot_view g)" unfolding mounted_def v by (simp add: boot_view_def)
  show "held (boot_view g) = {}" by (simp add: held_def boot_view_def ex_fs_fields init_buf_def initsleeplock_def)
qed

lemma boot_view_inode: "has_inode (boot_view g) 0 7"
proof -
  have "fs_sb (boot_view g) = decode_sb (g 1)" by (simp add: boot_view_def)
  then show ?thesis unfolding has_inode_def boot_view_mounted(2)
    by (auto simp: boot_view_def load_dinode_def intro!: exI[of _ "zero_inode\<lparr>i_dev := 1, i_inum := 7\<rparr>"])
qed

lemma ex_argv_ok:
  "2 \<le> length ex_argv" "\<forall>arg \<in> set (drop 2 ex_argv). ex_host arg \<noteq> None \<and> SLASH \<notin> set (shortname arg)"
  "fits (mkfs_tree ex_host (drop 2 ex_argv))"
proof -
  show "2 \<le> length ex_argv" by (simp add: ex_argv_def)
  have "SLASH \<notin> set (shortname (cstr ''README''))" by code_simp
  then show "\<forall>arg \<in> set (drop 2 ex_argv). ex_host arg \<noteq> None \<and> SLASH \<notin> set (shortname arg)"
    by (simp add: ex_argv_def ex_host_def)
  have "dest_dir (cstr ''README'') = 5" by code_simp
  then show "fits (mkfs_tree ex_host (drop 2 ex_argv))"
    by (simp add: fits_def mkfs_tree_def ex_argv_def ex_host_def cstr_def add_tree_def mkfs_dirs_def sub_dir_def root_dir_def append_data_def
        dirent_length Let_def need_def layout)
qed

lemma boot_view_log:
  assumes "on_image fs m"
  shows "log_tx {} 0 (boot_view (img m))"
proof -
  let ?s = "boot_view (img m)"
  have sb: "decode_sb (img m 1) = mkfs_sb" "img m 2 = (\<lambda>_. 0)" using assms by (simp_all add: on_image_def decode_sb_block)
  have f: "bufs ?s i = init_buf" "lh_n ?s = 0" "lg_dev ?s = 1" "disksize ?s = FSSIZE" "lg_start ?s = 2" "lg_size ?s = 30"
    "memdisk ?s = img m" "ptable ?s = ptable ex_fs" "mru ?s = mru ex_fs" for i
    using sb(1) by (simp_all add: boot_view_def ex_fs_fields mkfs_sb_eq)
  have "bio_inv ex_fs" using ex_fs_log_inv by (simp add: log_inv_def)
  then have "bio_inv ?s" by (simp add: bio_inv_def buf_ok_def f ex_fs_fields) (simp add: init_buf_def)
  moreover have "dirty_blocks ?s = {}" by (simp add: dirty_blocks_def dirty_def f init_buf_def)
  moreover have "logged ?s = {}" by (simp add: logged_def f)
  ultimately have "log_inv ?s" by (simp add: log_inv_def log_geometry_def f sb head_n_def)
  moreover have "own ?s = {}" by (simp add: own_def f init_buf_def)
  ultimately show ?thesis using \<open>logged ?s = {}\<close> by (simp add: log_tx_def boot_view_mounted f)
qed

section \<open>Properties\<close>

text \<open>
  C16. The image builder refines the list of files \<^const>\<open>mkfs_tree\<close>. When the files are there, have no directory left in their names
  and fit on the disk, it ends without an error, and a kernel that has the image as its disk finds a
  consistent file system on it: every inode of the list, once it is in the inode cache, is a well-formed file with the
  type, the mode and exactly the bytes of the list, and no two files share a block.
\<close>
theorem mkfs_correct:
  assumes "2 \<le> length argv" "fits (mkfs_tree host (drop 2 argv))"
    "\<forall>arg \<in> set (drop 2 argv). host arg \<noteq> None \<and> SLASH \<notin> set (shortname arg)"
  shows "\<exists>m. mkfs_main host argv mkfs_init = Ok () m \<and>
    (\<forall>s :: 'a kfs_scheme. mounted (img m) s \<longrightarrow> shows_files (mkfs_tree host (drop 2 argv)) s)"
  using mkfs_main_run[OF assms] mounted_shows by blast

theorem mkfs_correct_witness:
  "\<exists>m. mkfs_main ex_host ex_argv mkfs_init = Ok () m \<and> shows_files (mkfs_tree ex_host (drop 2 ex_argv)) (boot_view (img m)) \<and>
     has_inode (boot_view (img m)) 0 7 \<and> file_of (mkfs_tree ex_host (drop 2 ex_argv)) 7 = cstr ''xv6''"
proof -
  have "file_of (mkfs_tree ex_host (drop 2 ex_argv)) 7 = cstr ''xv6''"
    using mkfs_tree_file[of 0 "drop 2 ex_argv" ex_host] by (simp add: ex_argv_def ex_host_def)
  then show ?thesis using mkfs_correct[OF ex_argv_ok(1,3,2), where 'a = unit] boot_view_mounted(1) boot_view_inode by blast
qed

text \<open>
  C17. A file given to the image builder is what the running kernel reads: \<^verbatim>\<open>readi\<close> on the inode of the
  argument number \<open>k\<close>, from a state of the kernel that has the image as its disk, returns the first bytes of the host
  file and their number.
\<close>
theorem mkfs_then_readi:
  assumes "2 \<le> length argv" "fits (mkfs_tree host (drop 2 argv))"
    "\<forall>arg \<in> set (drop 2 argv). host arg \<noteq> None \<and> SLASH \<notin> set (shortname arg)" "2 + k < length argv" "host (argv ! (2 + k)) = Some data"
  shows "\<exists>m. mkfs_main host argv mkfs_init = Ok () m \<and>
    (\<forall>(s :: 'a kfs_scheme) ip dst n. mounted (img m) s \<and> has_inode s ip (7 + k) \<and> log_tx {} 0 s \<and> held s = {} \<longrightarrow>
      (let c = min (unat n) (length data) in
        \<exists>t. readi dv ip dst 0 n s = Ok (int c, \<lambda>j. if j < c then data ! j else dst j) t))"
proof -
  let ?fs = "mkfs_tree host (drop 2 argv)"
  from mkfs_main_run[OF assms(1-3)] obtain m where m: "mkfs_main host argv mkfs_init = Ok () m" "on_image ?fs m"
    "img m 133 = fold bmap_mark [0..<unat (freeblock m)] (\<lambda>_. 0)" by blast
  have f: "file_of ?fs (7 + k) = data" "fst (?fs ! (7 + k - 1)) = T_FILE" "7 + k \<le> length ?fs"
    using mkfs_tree_file[of k "drop 2 argv" host] assms(4,5) by simp_all
  have "let c = min (unat n) (length data) in \<exists>t. readi dv ip dst 0 n s = Ok (int c, \<lambda>j. if j < c then data ! j else dst j) t"
    if s: "mounted (img m) s" "has_inode s ip (7 + k)" "log_tx {} 0 s" "held s = {}" for s :: "'a kfs_scheme" and ip dst n
  proof -
    note mf = mounted_file[OF m(2) s(1) m(3) _ f(3) s(2)] and wf = mounted_wf[OF m(2) s(1) m(3) _ f(3) s(2)]
    have ty: "i_type (icache s ip) \<noteq> T_DEV" using mf(4) f(2) by simp
    have "\<exists>t. readi dv ip dst 0 n s = Ok (int (min (unat n) (length data)),
        \<lambda>j. if j < min (unat n) (length data) then content s ip j else dst j) t"
      using readi_run[OF s(3,4) mounted_areas(6)[OF m(2) s(1) m(3)] wf(1) ty, of 0 n dv dst] mf(1) f(1) by (auto cong: if_cong)
    moreover have "content s ip j = data ! j" if "j < min (unat n) (length data)" for j
      using wf(2)[of j] mf(1) f(1) that by simp
    ultimately show ?thesis by (simp cong: if_cong)
  qed
  then show ?thesis using m(1) by blast
qed

theorem mkfs_then_readi_witness:
  "\<exists>m t. mkfs_main ex_host ex_argv mkfs_init = Ok () m \<and>
     readi (\<lambda>_. (None, None)) 0 (\<lambda>_. 7) 0 100 (boot_view (img m)) = Ok (3, \<lambda>j. if j < 3 then cstr ''xv6'' ! j else 7) t"
proof -
  have h: "2 + 0 < length ex_argv" "ex_host (ex_argv ! (2 + 0)) = Some (cstr ''xv6'')" by (simp_all add: ex_argv_def ex_host_def)
  from mkfs_then_readi[OF ex_argv_ok(1,3,2) h, where 'a = unit, of "\<lambda>_. (None, None)"] obtain m where
    m: "mkfs_main ex_host ex_argv mkfs_init = Ok () m"
    and a: "mounted (img m) (boot_view (img m)) \<and> has_inode (boot_view (img m)) 0 (7 + 0) \<and> log_tx {} 0 (boot_view (img m)) \<and> held (boot_view (img m)) = {} \<longrightarrow>
      (let c = min (unat (100 :: u32)) (length (cstr ''xv6'')) in
        \<exists>t. readi (\<lambda>_. (None, None)) 0 (\<lambda>_. 7) 0 100 (boot_view (img m)) = Ok (int c, \<lambda>j. if j < c then cstr ''xv6'' ! j else 7) t)" by blast
  have "on_image (mkfs_tree ex_host (drop 2 ex_argv)) m" using mkfs_main_run[OF ex_argv_ok(1,3,2)] m by auto
  moreover have "length (cstr ''xv6'') = 3" by (simp add: cstr_def)
  ultimately show ?thesis using m a boot_view_log boot_view_mounted boot_view_inode by (intro exI[of _ m]) (simp add: Let_def)
qed

end
