(* ===== verification/Ulib.thy ===== *)
theory Ulib
  imports Xv6_Prelude "HOL-Library.Signed_Division"
begin

text \<open>
  The string and number functions of user programs (\<^verbatim>\<open>user/ulib.c\<close>). A C string is the list of its
  characters, which are not 0; reading at its end gives the terminating 0. Numbers read from text keep the
  width of \<^verbatim>\<open>int\<close>.
\<close>

type_synonym ustring = "u8 list"

text \<open>\<^verbatim>\<open>s[i]\<close>, and \<^verbatim>\<open>s + i\<close> where it still points into the string or to its end.\<close>

definition uch :: "ustring \<Rightarrow> nat \<Rightarrow> u8" where
  "uch s i = (if i < length s then s ! i else 0)"

definition uptr :: "ustring \<Rightarrow> nat \<Rightarrow> ustring option" where
  "uptr s i = (if i \<le> length s then Some (drop i s) else None)"

definition ustr :: "string \<Rightarrow> ustring" where
  "ustr = map of_char"

section \<open>Strings\<close>

fun strcmp :: "ustring \<Rightarrow> ustring \<Rightarrow> int" where
  "strcmp (p # ps) (q # qs) = (if p = q then strcmp ps qs else uint p - uint q)"
| "strcmp (p # ps) [] = uint p"
| "strcmp [] qs = - uint (uch qs 0)"

text \<open>\<^verbatim>\<open>strchr\<close> returns a pointer to the first occurrence: here its index.\<close>

fun strchr :: "ustring \<Rightarrow> u8 \<Rightarrow> nat option" where
  "strchr [] c = None"
| "strchr (x # s) c = (if x = c then Some 0 else map_option Suc (strchr s c))"

text \<open>The string in a buffer after \<^verbatim>\<open>safestrcpy(buf, t, n)\<close>, for \<^verbatim>\<open>n > 0\<close>.\<close>

definition safecopy :: "ustring \<Rightarrow> nat \<Rightarrow> ustring" where
  "safecopy t n = take (n - 1) t"

text \<open>
  \<^verbatim>\<open>gets\<close>: the argument \<open>inp\<close> is what successive calls of \<^verbatim>\<open>read(0, &c, 1)\<close> deliver until the first
  one that does not return a character. The result is the string read and the input left.
\<close>

fun gets_from :: "nat \<Rightarrow> nat \<Rightarrow> u8 list \<Rightarrow> u8 list \<times> u8 list" where
  "gets_from i m [] = ([], [])"
| "gets_from i m (c # inp) =
     (if i + 1 < m then
        if c = 10 \<or> c = 13 then ([c], inp)
        else let (s, rest) = gets_from (i + 1) m inp in (c # s, rest)
      else ([], c # inp))"

definition gets :: "nat \<Rightarrow> u8 list \<Rightarrow> u8 list \<times> u8 list" where
  "gets m inp = gets_from 0 m inp"

section \<open>Numbers\<close>

fun atoi_from :: "u32 \<Rightarrow> ustring \<Rightarrow> u32" where
  "atoi_from n [] = n"
| "atoi_from n (c # s) = (if 48 \<le> c \<and> c \<le> 57 then atoi_from (n * 10 + ucast c - 48) s else n)"

definition atoi :: "ustring \<Rightarrow> int" where
  "atoi s = sint (atoi_from 0 s)"

text \<open>The bytes \<^verbatim>\<open>itoa\<close> stores in front of the terminating 0.\<close>

function itoa :: "int \<Rightarrow> u8 list" where
  "itoa val = (if val \<noteq> 0 then of_int (val smod 10) # itoa (val sdiv 10) else [])"
  by pat_completeness auto
termination
  by (relation "measure (\<lambda>val. nat \<bar>val\<bar>)") (auto simp: signed_divide_int_def abs_mult)

function digitcount :: "int \<Rightarrow> nat" where
  "digitcount val = (if val sdiv 10 \<noteq> 0 then Suc (digitcount (val sdiv 10)) else 1)"
  by pat_completeness auto
termination
  by (relation "measure (\<lambda>val. nat \<bar>val\<bar>)") (auto simp: signed_divide_int_def abs_mult)

declare itoa.simps [simp del] digitcount.simps [simp del]

section \<open>Facts on strings and numbers\<close>

lemma strcmp_zero:
  "0 \<notin> set p \<Longrightarrow> 0 \<notin> set q \<Longrightarrow> strcmp p q = 0 \<longleftrightarrow> p = q"
proof (induction p q rule: strcmp.induct)
  case (3 qs)
  then show ?case by (cases qs) (auto simp: uch_def uint_0_iff)
qed (auto simp: uint_0_iff simp flip: word_uint_eq_iff)

lemma strchr_None: "strchr s c = None \<longleftrightarrow> c \<notin> set s"
  by (induction s) auto

lemma strchr_absent [simp]: "c \<notin> set s \<Longrightarrow> strchr s c = None"
  by (simp add: strchr_None)

lemma strchr_first [simp]: "c \<notin> set a \<Longrightarrow> strchr (a @ c # b) c = Some (length a)"
  by (induction a) auto

lemma strchr_Some_iff: "strchr s c = Some n \<longleftrightarrow> (\<exists>a b. s = a @ c # b \<and> c \<notin> set a \<and> length a = n)"
proof
  show "strchr s c = Some n \<Longrightarrow> \<exists>a b. s = a @ c # b \<and> c \<notin> set a \<and> length a = n"
  proof (induction s arbitrary: n)
    case (Cons x s)
    show ?case
    proof (cases "x = c")
      case True
      then show ?thesis using Cons.prems by auto
    next
      case False
      then obtain k where "n = Suc k" "strchr s c = Some k" using Cons.prems by auto
      with Cons.IH obtain a b where "s = a @ c # b" "c \<notin> set a" "length a = k" by blast
      then show ?thesis using False \<open>n = Suc k\<close> by (intro exI[of _ "x # a"] exI[of _ b]) simp
    qed
  qed simp
qed auto

lemma uptr_append [simp]: "uptr (a @ b) (length a) = Some b"
  by (simp add: uptr_def)

lemma gets_from_split: "gets_from i m inp = (s, rest) \<Longrightarrow> inp = s @ rest"
  by (induction i m inp arbitrary: s rest rule: gets_from.induct) (auto split: if_splits prod.splits)

lemma gets_line:
  assumes "10 \<notin> set l" "13 \<notin> set l" "i + length l + 1 < m"
  shows "gets_from i m (l @ 10 # rest) = (l @ [10], rest)"
  using assms by (induction l arbitrary: i) auto

text \<open>The decimal digits of a number, most significant first.\<close>

fun decimal :: "nat \<Rightarrow> ustring" where
  "decimal n = (if n < 10 then [48 + of_nat n] else decimal (n div 10) @ [48 + of_nat (n mod 10)])"

declare decimal.simps [simp del]

lemma decimal_digit: "d < 10 \<Longrightarrow> (48 :: u8) \<le> 48 + of_nat d \<and> 48 + of_nat d \<le> (57 :: u8) \<and> (ucast (48 + of_nat d :: u8) :: u32) = 48 + of_nat d"
proof -
  assume "d < 10"
  then have "d \<in> {0, 1, 2, 3, 4, 5, 6, 7, 8, 9}" by auto
  then show ?thesis by auto
qed

lemma decimal_digits: "c \<in> set (decimal n) \<Longrightarrow> 48 \<le> c \<and> c \<le> 57"
proof (induction n rule: decimal.induct)
  case (1 n)
  from 1(2) show ?case
    unfolding decimal.simps[of n] using 1(1) decimal_digit[of "n mod 10"] decimal_digit[of n]
    by (auto split: if_splits)
qed

lemma atoi_from_append:
  "(\<And>c. c \<in> set a \<Longrightarrow> 48 \<le> c \<and> c \<le> 57) \<Longrightarrow> atoi_from n (a @ b) = atoi_from (atoi_from n a) b"
  by (induction a arbitrary: n) auto

lemma atoi_from_decimal: "atoi_from 0 (decimal n) = of_nat n"
proof (induction n rule: decimal.induct)
  case (1 n)
  show ?case
  proof (cases "n < 10")
    case True
    then show ?thesis using decimal_digit[of n] by (simp add: decimal.simps[of n])
  next
    case False
    have "atoi_from 0 (decimal n) = atoi_from (of_nat (n div 10)) [48 + of_nat (n mod 10)]"
      using False 1 by (simp add: decimal.simps[of n] atoi_from_append decimal_digits del: atoi_from.simps)
    also have "\<dots> = of_nat (n div 10) * 10 + of_nat (n mod 10)"
      using decimal_digit[of "n mod 10"] by simp
    also have "\<dots> = (of_nat (n div 10 * 10 + n mod 10) :: u32)" by (simp only: of_nat_add of_nat_mult) simp
    also have "n div 10 * 10 + n mod 10 = n" by simp
    finally show ?thesis .
  qed
qed

lemma atoi_decimal: "n < 2 ^ 31 \<Longrightarrow> atoi (decimal n) = int n"
  by (simp add: atoi_def atoi_from_decimal signed_of_nat signed_take_bit_int_eq_self)

lemma digitcount_decimal: "digitcount (int n) = length (decimal n)"
proof (induction n rule: decimal.induct)
  case (1 n)
  have div: "int n sdiv 10 = int (n div 10)" by (cases "n = 0") (auto simp: signed_divide_int_def zdiv_int)
  have "n div 10 = 0 \<longleftrightarrow> n < 10" by auto
  then show ?case using 1 by (simp add: digitcount.simps[of "int n"] decimal.simps[of n] div)
qed

end
