(* ===== verification/Grep.thy ===== *)
theory Grep
  imports Ulib
begin

text \<open>
  The program \<^verbatim>\<open>grep\<close> (\<^verbatim>\<open>user/grep.c\<close>): its matcher for patterns with \<^verbatim>\<open>^ . * $\<close> against the
  language of the pattern, and its loop over a buffer of 1024 bytes against the lines of the file.
\<close>

section \<open>The matcher\<close>

text \<open>\<^verbatim>\<open>re\<close> and \<^verbatim>\<open>text\<close> advance together; the sum of what is left of both bounds the calls.\<close>

function matchhere :: "ustring \<Rightarrow> ustring \<Rightarrow> bool" and matchstar :: "u8 \<Rightarrow> ustring \<Rightarrow> ustring \<Rightarrow> bool" where
  "matchhere re text =
     (if re = [] then True
      else if uch re 1 = 42 then matchstar (uch re 0) (drop 2 re) text
      else if uch re 0 = 36 \<and> length re = 1 then text = []
      else if text \<noteq> [] \<and> (uch re 0 = 46 \<or> uch re 0 = uch text 0) then matchhere (drop 1 re) (drop 1 text)
      else False)"
| "matchstar c re text =
     (if matchhere re text then True
      else if text \<noteq> [] \<and> (uch text 0 = c \<or> c = 46) then matchstar c re (drop 1 text)
      else False)"
  by pat_completeness auto
termination
  by (relation "measure (\<lambda>x. case x of Inl (re, text) \<Rightarrow> 2 * (length re + length text)
      | Inr (c, re, text) \<Rightarrow> 2 * (length re + length text) + 1)") (auto simp: neq_Nil_conv)

declare matchhere.simps [simp del] matchstar.simps [simp del]

fun match_from :: "ustring \<Rightarrow> ustring \<Rightarrow> bool" where
  "match_from re [] = matchhere re []"
| "match_from re (c # text) = (matchhere re (c # text) \<or> match_from re text)"

definition match :: "ustring \<Rightarrow> ustring \<Rightarrow> bool" where
  "match re text = (if uch re 0 = 94 then matchhere (drop 1 re) text else match_from re text)"

section \<open>The loop over the file\<close>

text \<open>
  The part of the buffer from \<^verbatim>\<open>p\<close> on: the lines in it are tested and printed, the result is what was
  printed and what is left behind the last newline.
\<close>

function grep_lines :: "ustring \<Rightarrow> u8 list \<Rightarrow> u8 list \<times> u8 list" where
  "grep_lines re p =
     (case strchr (takeWhile (\<lambda>c. c \<noteq> 0) p) 10 of
        None \<Rightarrow> ([], p)
      | Some q \<Rightarrow>
          let (out, r) = grep_lines re (drop (q + 1) p) in
          ((if match re (take q p) then take (q + 1) p else []) @ out, r))"
  by pat_completeness auto
termination
proof (relation "measure (\<lambda>(re, p). length p)")
  fix re :: ustring and p q
  assume "strchr (takeWhile (\<lambda>c. c \<noteq> 0) p) 10 = Some q"
  then have "q < length (takeWhile (\<lambda>c. c \<noteq> 0) p)" by (auto simp: strchr_Some_iff)
  then have "q < length p" using length_takeWhile_le order_less_le_trans by blast
  then show "((re, drop (q + 1) p), re, p) \<in> measure (\<lambda>(re, p). length p)" by simp
qed simp

declare grep_lines.simps [simp del]

text \<open>
  The loop of \<^verbatim>\<open>grep\<close> on a regular file: \<open>b\<close> are the \<^verbatim>\<open>m\<close> bytes kept in the buffer, \<open>rest\<close> what has not
  been read of the file. The result is what is written to the output.
\<close>

function grep_loop :: "ustring \<Rightarrow> u8 list \<Rightarrow> u8 list \<Rightarrow> u8 list" where
  "grep_loop re b rest =
     (let chunk = take (1024 - length b - 1) rest in
      if chunk = [] then []
      else
        let buf = b @ chunk; (out, p) = grep_lines re buf in
        out @ grep_loop re (if length p = length buf then [] else p) (drop (1024 - length b - 1) rest))"
  by pat_completeness auto
termination
  by (relation "measure (\<lambda>(re, b, rest). length rest)") (auto simp: neq_Nil_conv)

declare grep_loop.simps [simp del]

definition grep :: "ustring \<Rightarrow> u8 list \<Rightarrow> u8 list" where
  "grep re content = grep_loop re [] content"

section \<open>The language of a pattern\<close>

text \<open>A pattern is a sequence of characters, each once or any number of times, and may end in \<^verbatim>\<open>$\<close>.\<close>

datatype item = One u8 | Star u8

fun items :: "ustring \<Rightarrow> item list" where
  "items [] = []"
| "items [c] = (if c = 36 then [] else [One c])"
| "items (c # d # re) = (if d = 42 then Star c # items re else One c # items (d # re))"

fun to_end :: "ustring \<Rightarrow> bool" where
  "to_end [] = False"
| "to_end [c] = (c = 36)"
| "to_end (c # d # re) = (if d = 42 then to_end re else to_end (d # re))"

definition fits :: "u8 \<Rightarrow> u8 \<Rightarrow> bool" where
  "fits p c \<longleftrightarrow> p = 46 \<or> p = c"

fun lang :: "item list \<Rightarrow> ustring set" where
  "lang [] = {[]}"
| "lang (One p # is) = {c # w | c w. fits p c \<and> w \<in> lang is}"
| "lang (Star p # is) = {u @ w | u w. list_all (fits p) u \<and> w \<in> lang is}"

text \<open>The text starts with a word of the pattern, which is all of it if the pattern ends in \<^verbatim>\<open>$\<close>.\<close>

definition starts :: "ustring \<Rightarrow> ustring \<Rightarrow> bool" where
  "starts re text \<longleftrightarrow> (\<exists>w post. text = w @ post \<and> w \<in> lang (items re) \<and> (to_end re \<longrightarrow> post = []))"

lemma starts_Nil: "starts [] text"
  by (simp add: starts_def)

lemma starts_end: "starts [36] text \<longleftrightarrow> text = []"
  by (auto simp: starts_def)

lemma starts_star:
  "starts (c # 42 # re) text \<longleftrightarrow> (\<exists>u t. text = u @ t \<and> list_all (fits c) u \<and> starts re t)"
proof
  assume "starts (c # 42 # re) text"
  then obtain v post where v: "text = v @ post" "v \<in> lang (Star c # items re)" and e: "to_end re \<longrightarrow> post = []"
    unfolding starts_def items.simps to_end.simps by (simp only: if_True simp_thms) blast
  from v(2) obtain u w where "v = u @ w" "list_all (fits c) u" "w \<in> lang (items re)" by auto
  with v e show "\<exists>u t. text = u @ t \<and> list_all (fits c) u \<and> starts re t"
    unfolding starts_def by (intro exI[of _ u] exI[of _ "w @ post"]) auto
next
  assume "\<exists>u t. text = u @ t \<and> list_all (fits c) u \<and> starts re t"
  then obtain u w post where "text = u @ (w @ post)" "list_all (fits c) u" "w \<in> lang (items re)" "to_end re \<longrightarrow> post = []"
    by (auto simp: starts_def)
  then show "starts (c # 42 # re) text"
    unfolding starts_def by (intro exI[of _ "u @ w"] exI[of _ post]) auto
qed

lemma starts_one:
  assumes "\<not> (re = [] \<and> c = 36)" "uch re 0 \<noteq> 42"
  shows "starts (c # re) text \<longleftrightarrow> (\<exists>t ts. text = t # ts \<and> fits c t \<and> starts re ts)"
proof -
  have it: "items (c # re) = One c # items re" "to_end (c # re) = to_end re"
    using assms by (cases re; simp add: uch_def)+
  show ?thesis
  proof
    assume "starts (c # re) text"
    then obtain v post where v: "text = v @ post" "v \<in> lang (One c # items re)" and e: "to_end re \<longrightarrow> post = []"
      unfolding starts_def it by blast
    from v(2) obtain t w where "v = t # w" "fits c t" "w \<in> lang (items re)" by auto
    with v e show "\<exists>t ts. text = t # ts \<and> fits c t \<and> starts re ts" by (auto simp: starts_def)
  next
    assume "\<exists>t ts. text = t # ts \<and> fits c t \<and> starts re ts"
    then obtain t w post where "text = (t # w) @ post" "fits c t" "w \<in> lang (items re)" "to_end re \<longrightarrow> post = []"
      by (auto simp: starts_def)
    then show "starts (c # re) text"
      unfolding starts_def it by (intro exI[of _ "t # w"] exI[of _ post]) auto
  qed
qed

lemma starts_after_star:
  "(\<exists>u t. text = u @ t \<and> list_all (fits c) u \<and> starts re t) \<longleftrightarrow>
    starts re text \<or> (\<exists>x xs. text = x # xs \<and> fits c x \<and> (\<exists>u t. xs = u @ t \<and> list_all (fits c) u \<and> starts re t))"
  (is "?l = ?r")
proof
  assume ?l
  then obtain u t where ut: "text = u @ t" "list_all (fits c) u" "starts re t" by blast
  then show ?r by (cases u) auto
next
  assume ?r
  then show ?l
  proof
    assume "starts re text"
    then show ?l by (intro exI[of _ "[]"] exI[of _ "text"]) simp
  next
    assume "\<exists>x xs. text = x # xs \<and> fits c x \<and> (\<exists>u t. xs = u @ t \<and> list_all (fits c) u \<and> starts re t)"
    then obtain x u t where "text = (x # u) @ t" "list_all (fits c) (x # u)" "starts re t" by auto
    then show ?l by blast
  qed
qed

lemma matchhere_starts:
  shows "matchhere re text \<longleftrightarrow> starts re text"
    and "matchstar c re text \<longleftrightarrow> (\<exists>u t. text = u @ t \<and> list_all (fits c) u \<and> starts re t)"
proof (induction re "text" and c re "text" rule: matchhere_matchstar.induct)
  case (1 re "text")
  show ?case
  proof (cases re)
    case Nil
    then show ?thesis by (simp add: matchhere.simps starts_Nil)
  next
    case (Cons c re')
    then have c: "uch re 0 = c" by (simp add: uch_def)
    consider (star) re'' where "re' = 42 # re''" | (last) "uch re' 0 \<noteq> 42" "re' = []" "c = 36"
      | (one) "uch re' 0 \<noteq> 42" "\<not> (re' = [] \<and> c = 36)"
      by (cases re') (auto simp: uch_def)
    then show ?thesis
    proof cases
      case star
      then have "matchhere re text = matchstar c re'' text"
        using Cons by (simp add: matchhere.simps[of "c # 42 # re''"] uch_def)
      then show ?thesis using 1(1) star Cons by (simp add: uch_def starts_star)
    next
      case last
      then show ?thesis using Cons by (simp add: matchhere.simps[of "[36]"] starts_end uch_def)
    next
      case one
      then have u: "uch re 1 \<noteq> 42" "\<not> (uch re 0 = 36 \<and> length re = 1)" using Cons c by (auto simp: uch_def)
      have "matchhere re text \<longleftrightarrow> (\<exists>t ts. text = t # ts \<and> fits c t \<and> matchhere re' ts)"
        unfolding matchhere.simps[of re "text"] using u Cons
        by (cases "text") (auto simp: fits_def uch_def)
      moreover have "text = t # ts \<Longrightarrow> fits c t \<Longrightarrow> matchhere re' ts \<longleftrightarrow> starts re' ts" for t ts
        using 1(2) u Cons by (auto simp: c uch_def fits_def)
      ultimately show ?thesis using one Cons starts_one[of re' c "text"] by auto
    qed
  qed
next
  case (2 c re "text")
  define E where "E xs = (\<exists>u t. xs = u @ t \<and> list_all (fits c) u \<and> starts re t)" for xs
  have "matchstar c re text \<longleftrightarrow> matchhere re text \<or> (\<exists>x xs. text = x # xs \<and> fits c x \<and> matchstar c re xs)"
    unfolding matchstar.simps[of c re "text"] by (cases "text") (auto simp: fits_def uch_def)
  also have "\<dots> \<longleftrightarrow> starts re text \<or> (\<exists>x xs. text = x # xs \<and> fits c x \<and> E xs)"
    using 2[folded E_def] by (cases "text") (auto simp: fits_def uch_def)
  finally show ?case using starts_after_star[of "text" c re, folded E_def] by (simp add: E_def)
qed

lemma match_from_starts: "match_from re text \<longleftrightarrow> (\<exists>a b. text = a @ b \<and> starts re b)"
proof (induction "text")
  case Nil
  then show ?case by (simp add: matchhere_starts)
next
  case (Cons c t)
  have "(\<exists>a b. c # t = a @ b \<and> starts re b) \<longleftrightarrow> starts re (c # t) \<or> (\<exists>a b. t = a @ b \<and> starts re b)"
    by (auto simp: Cons_eq_append_conv)
  then show ?case by (simp add: Cons matchhere_starts)
qed

section \<open>Lines\<close>

text \<open>The lines of a file, without their newline; text behind the last newline is no line.\<close>

fun lines_of :: "u8 list \<Rightarrow> u8 list \<Rightarrow> u8 list list" where
  "lines_of acc [] = []"
| "lines_of acc (c # s) = (if c = 10 then acc # lines_of [] s else lines_of (acc @ [c]) s)"

definition printed :: "ustring \<Rightarrow> u8 list list \<Rightarrow> u8 list" where
  "printed re ls = concat (map (\<lambda>l. l @ [10]) (filter (match re) ls))"

lemma printed_append [simp]: "printed re (a @ b) = printed re a @ printed re b"
  by (simp add: printed_def)

lemma lines_of_none: "10 \<notin> set s \<Longrightarrow> lines_of acc (s @ t) = lines_of (acc @ s) t"
  by (induction s arbitrary: acc) auto

lemma lines_of_first: "10 \<notin> set l \<Longrightarrow> lines_of [] (l @ 10 # t) = l # lines_of [] t"
  by (simp add: lines_of_none)

lemma grep_lines_spec:
  assumes "grep_lines re p = (out, r)" "0 \<notin> set p"
  shows "out = printed re (lines_of [] p) \<and> (\<forall>t. lines_of [] (p @ t) = lines_of [] p @ lines_of [] (r @ t)) \<and>
    10 \<notin> set r \<and> set r \<subseteq> set p \<and> length r \<le> length p \<and> (length r = length p \<longrightarrow> r = p)"
  using assms
proof (induction re p arbitrary: out r rule: grep_lines.induct)
  case (1 re p)
  have tw: "takeWhile (\<lambda>c. c \<noteq> 0) p = p" using 1(3) by (auto simp: takeWhile_eq_all_conv)
  show ?case
  proof (cases "strchr p 10")
    case None
    then have "out = []" "r = p" and None: "10 \<notin> set p"
      using 1(2) by (simp_all add: grep_lines.simps[of re p] tw strchr_None)
    moreover have "lines_of [] p = []" using None lines_of_none[of p "[]" "[]"] by simp
    ultimately show ?thesis using None by (simp add: printed_def)
  next
    case (Some q)
    then obtain a b where p: "p = a @ 10 # b" and a: "10 \<notin> set a" "length a = q"
      by (auto simp: strchr_Some_iff)
    have d: "drop (q + 1) p = b" "take (q + 1) p = a @ [10]" "take q p = a" using a by (simp_all add: p)
    obtain o' where o': "grep_lines re b = (o', r)" "out = (if match re a then a @ [10] else []) @ o'"
      using 1(2) Some by (auto simp: grep_lines.simps[of re p] tw d simp del: One_nat_def split: prod.splits)
    have zb: "0 \<notin> set b" using 1(3) by (simp add: p)
    note IH = 1(1)[unfolded tw, OF Some, unfolded d, OF o'(1) zb]
    show ?thesis using IH o'(2) a by (auto simp: p lines_of_first printed_def)
  qed
qed

lemma grep_loop_spec:
  assumes "10 \<notin> set b" "length b < 1023" "0 \<notin> set (b @ rest)" "list_all (\<lambda>l. length l < 1023) (lines_of b rest)"
  shows "grep_loop re b rest = printed re (lines_of b rest)"
  using assms
proof (induction "length rest" arbitrary: b rest rule: less_induct)
  case 1: less
  define chunk where "chunk = take (1023 - length b) rest"
  define rest' where "rest' = drop (1023 - length b) rest"
  have r: "rest = chunk @ rest'" by (simp add: chunk_def rest'_def)
  have all: "lines_of b rest = lines_of [] ((b @ chunk) @ rest')" using 1(2) by (simp add: lines_of_none r)
  show ?case
  proof (cases "chunk = []")
    case True
    then have e: "rest = []" using 1(3) by (auto simp: chunk_def)
    show ?thesis unfolding e grep_loop.simps[of re b "[]"] by (simp add: printed_def)
  next
    case False
    obtain out p where g: "grep_lines re (b @ chunk) = (out, p)" by force
    have z: "0 \<notin> set (b @ chunk)" using 1(4) by (simp add: r)
    note spec = grep_lines_spec[OF g z]
    define b' where "b' = (if length p = length (b @ chunk) then [] else p)"
    have step: "grep_loop re b rest = out @ grep_loop re b' rest'"
      using False g by (simp add: grep_loop.simps[of re b rest] chunk_def rest'_def b'_def Let_def)
    have lb: "length (b @ chunk) \<le> 1023" using 1(3) by (simp add: chunk_def)
    have zp: "0 \<notin> set p" "0 \<notin> set rest'" using z 1(4) spec by (auto simp: r)
    have keep: "lines_of b' rest' = lines_of [] (p @ rest')"
    proof (cases "length p = length (b @ chunk)")
      case True
      then have p: "p = b @ chunk" using spec by simp
      have "10 \<notin> set rest'"
      proof
        assume "10 \<in> set rest'"
        then obtain a c where a: "rest' = a @ 10 # c" "10 \<notin> set a" by (meson split_list_first)
        then have "1023 - length b \<le> length rest" unfolding rest'_def by (metis drop_all append_is_Nil_conv list.distinct(1) nat_le_linear)
        then have "length (b @ chunk) = 1023" using 1(3) by (simp add: chunk_def)
        moreover have "lines_of b rest = (b @ chunk @ a) # lines_of [] c"
          using lines_of_first[of "(b @ chunk) @ a" c] spec a unfolding all p by simp
        ultimately show False using 1(5) by simp
      qed
      then show ?thesis
        using True p spec lines_of_none[of rest' "[]" "[]"] lines_of_none[of "p @ rest'" "[]" "[]"] by (simp add: b'_def)
    next
      case False
      then show ?thesis using spec by (simp add: b'_def lines_of_none)
    qed
    have "list_all (\<lambda>l. length l < 1023) (lines_of b' rest')"
      using 1(5) spec unfolding all keep by (simp add: list_all_append)
    moreover have "10 \<notin> set b'" "length b' < 1023" "0 \<notin> set (b' @ rest')"
      using spec zp lb by (auto simp: b'_def)
    ultimately have "grep_loop re b' rest' = printed re (lines_of b' rest')"
      using False 1(1)[of rest' b'] by (simp add: r)
    then show ?thesis using spec by (simp add: step all keep)
  qed
qed

section \<open>Properties\<close>

text \<open>
  C21. The matcher of \<^verbatim>\<open>grep\<close> decides its patterns: it returns for every pattern and text, and reports a match
  exactly if the text contains a word of the pattern's language, at its start for a pattern with \<^verbatim>\<open>^\<close> and
  reaching to its end for one with \<^verbatim>\<open>$\<close>.
\<close>

theorem match_correct:
  "match re text \<longleftrightarrow>
    (\<exists>pre w post. text = pre @ w @ post \<and>
      (if re \<noteq> [] \<and> hd re = 94
       then pre = [] \<and> w \<in> lang (items (tl re)) \<and> (post = [] \<or> to_end (tl re) = False)
       else w \<in> lang (items re) \<and> (post = [] \<or> to_end re = False)))"
proof (cases "uch re 0 = 94")
  case True
  then have "re \<noteq> []" "hd re = 94" "drop 1 re = tl re" by (auto simp: uch_def hd_conv_nth drop_Suc split: if_splits)
  then show ?thesis using True by (auto simp: match_def matchhere_starts starts_def)
next
  case False
  then have "\<not> (re \<noteq> [] \<and> hd re = 94)" by (auto simp: uch_def hd_conv_nth)
  then show ?thesis using False by (auto simp: match_def match_from_starts starts_def)
qed



end
