(* ===== verification/Ufile.thy ===== *)
theory Ufile
  imports Ulib
begin

text \<open>
  Files of lines in user programs (\<^verbatim>\<open>user/ufile.c\<close>): reading a line, adding one, replacing one, and
  searching a list of names. An open regular file is seen through its system calls, as contents with an offset.
\<close>

section \<open>An open file as a program sees it\<close>

text \<open>
  \<^verbatim>\<open>read\<close>, \<^verbatim>\<open>write\<close>, \<^verbatim>\<open>lseek\<close> and \<^verbatim>\<open>trim\<close> on a regular file that may be read and written and stays below
  the maximal file size. Reading at or behind the end delivers nothing, writing behind the end fails.
\<close>

type_synonym ufd = "u8 list \<times> nat"

definition uread :: "nat \<Rightarrow> ufd \<Rightarrow> u8 list \<times> ufd" where
  "uread n f = (let d = take n (drop (snd f) (fst f)) in (d, (fst f, snd f + length d)))"

definition uwrite :: "u8 list \<Rightarrow> ufd \<Rightarrow> ufd" where
  "uwrite d f = (if snd f > length (fst f) then f
     else (take (snd f) (fst f) @ d @ drop (snd f + length d) (fst f), snd f + length d))"

definition lseek_set :: "nat \<Rightarrow> ufd \<Rightarrow> ufd" where
  "lseek_set o' f = (fst f, o')"

definition lseek_end :: "ufd \<Rightarrow> ufd" where
  "lseek_end f = (fst f, length (fst f))"

definition utrim :: "ufd \<Rightarrow> ufd" where
  "utrim f = (take (snd f) (fst f), snd f)"

section \<open>Reading a line\<close>

text \<open>
  The loop of \<^verbatim>\<open>getline\<close>. \<open>buf\<close> is its buffer of 128 bytes with the byte behind it, \<open>line\<close> the characters
  stored in \<^verbatim>\<open>*line\<close>, \<open>sz\<close> the value of \<^verbatim>\<open>*linesize\<close>.
\<close>

function getline_loop :: "bytes \<Rightarrow> nat \<Rightarrow> nat \<Rightarrow> u8 list \<Rightarrow> nat \<Rightarrow> ufd \<Rightarrow> int \<times> u8 list \<times> nat \<times> ufd" where
  "getline_loop buf i n line sz f =
     (if buf i = 10 then (0, line, sz, f)
      else if i \<ge> n then
        let (d, f') = uread 128 f in
        if d = [] then ((if line = [] then -1 else 0), line, sz, f')
        else getline_loop
               (\<lambda>k. if k < length d then d ! k else if k = length d \<and> length d < 128 then 0 else buf k)
               0 (length d) line sz f'
      else getline_loop buf (i + 1) n (line @ [buf i]) (if length line + 2 \<ge> sz then 2 * sz else sz) f)"
  by pat_completeness auto
termination
  by (relation "measures [\<lambda>(buf, i, n, line, sz, f). length (fst f) - snd f, \<lambda>(buf, i, n, line, sz, f). n - i]")
     (auto simp: uread_def Let_def)

declare getline_loop.simps [simp del]

text \<open>The buffer is a local variable: \<open>buf\<close> is what it happens to contain.\<close>

definition getline :: "bytes \<Rightarrow> nat \<Rightarrow> nat \<Rightarrow> ufd \<Rightarrow> int \<times> u8 list \<times> nat \<times> nat \<times> ufd" where
  "getline buf sz offset f =
     (let (code, line, sz', f') = getline_loop buf 0 0 [] sz (lseek_set offset f) in
      (code, line, sz', (if code = 0 then offset + length line + 1 else offset), f'))"

section \<open>Adding and replacing lines\<close>

definition addline :: "u8 list \<Rightarrow> ufd \<Rightarrow> ufd" where
  "addline line f = uwrite line (uwrite [10] (lseek_end f))"

text \<open>
  The two copy loops of \<^verbatim>\<open>changeline\<close>: from the file to the temporary file, where \<open>d\<close> has just been
  read, and back.
\<close>

function copy_out :: "u8 list \<Rightarrow> ufd \<Rightarrow> ufd \<Rightarrow> ufd \<times> ufd" where
  "copy_out d f t = (if d = [] then (f, t) else let (d', f') = uread 128 f in copy_out d' f' (uwrite d t))"
  by pat_completeness auto
termination
  by (relation "measure (\<lambda>(d, f, t). (if d = [] then 0 else 1) + 2 * (length (fst f) - snd f))")
     (auto simp: uread_def Let_def)

function copy_back :: "ufd \<Rightarrow> ufd \<Rightarrow> nat \<Rightarrow> ufd \<times> nat" where
  "copy_back t f newsize =
     (let (d, t') = uread 128 t in
      if d = [] then (f, newsize) else copy_back t' (uwrite d f) (newsize + length d))"
  by pat_completeness auto
termination
  by (relation "measure (\<lambda>(t, f, newsize). length (fst t) - snd t)") (auto simp: uread_def Let_def)

declare copy_out.simps [simp del] copy_back.simps [simp del]

text \<open>
  \<^verbatim>\<open>changeline\<close>: \<open>tmp\<close> is what the temporary file holds when it is opened. The result is the file and the
  new value of \<^verbatim>\<open>*offset\<close>; the temporary file is removed. There is no result if the old line were to start in
  front of the file.
\<close>

definition changeline :: "u8 list \<Rightarrow> u8 list \<Rightarrow> nat \<Rightarrow> nat \<Rightarrow> ufd \<Rightarrow> (ufd \<times> nat) option" where
  "changeline tmp line offset oldlength f =
     (if offset < oldlength + 1 then None
      else
        let newsize = offset - oldlength - 1;
            (d, f1) = uread 128 (lseek_set offset f);
            t1 = uwrite line (tmp, 0);
            t2 = (if d \<noteq> [] then uwrite [10] t1 else t1);
            (f2, t3) = copy_out d f1 t2;
            (f3, end') = copy_back (lseek_set 0 t3) (lseek_set newsize f2) newsize
        in Some (utrim (lseek_set end' f3), newsize + length line + 1))"

section \<open>Searching a list of names\<close>

text \<open>The length of the piece of a string up to a separator, which is counted, or up to its end.\<close>

definition piece_len :: "u8 \<Rightarrow> ustring \<Rightarrow> nat" where
  "piece_len sep p = (case strchr p sep of Some k \<Rightarrow> k + 1 | None \<Rightarrow> length p + 1)"

function find_piece :: "ustring \<Rightarrow> ustring \<Rightarrow> u8 \<Rightarrow> nat \<Rightarrow> int" where
  "find_piece str names sep i =
     (if i < length names then
        let n = piece_len sep (drop i names) in
        if strcmp (safecopy (drop i names) n) str = 0 then int i
        else find_piece str names sep (i + n)
      else -1)"
  by pat_completeness auto
termination
  by (relation "measure (\<lambda>(str, names, sep, i). length names - i)") (auto simp: piece_len_def split: option.splits)

declare find_piece.simps [simp del]

definition findstrinsetdivsep :: "ustring \<Rightarrow> ustring \<Rightarrow> u8 \<Rightarrow> int" where
  "findstrinsetdivsep str names sep = find_piece str names sep 0"

section \<open>What these functions do\<close>

lemma uread_at [simp]: "uread n (a @ b, length a) = (take n b, (a @ b, length a + min n (length b)))"
  by (simp add: uread_def Let_def min.commute)

lemma uwrite_at: "uwrite d (a @ b, length a) = (a @ d @ drop (length d) b, length a + length d)"
  by (simp add: uwrite_def)

lemma uwrite_end [simp]: "uwrite d (c, length c) = (c @ d, length c + length d)"
  using uwrite_at[of d c "[]"] by simp

text \<open>Pieces of a string with a separator between them.\<close>

fun join :: "u8 \<Rightarrow> ustring list \<Rightarrow> ustring" where
  "join sep [] = []"
| "join sep [a] = a"
| "join sep (a # b # as) = a @ sep # join sep (b # as)"

lemma piece_len_sep [simp]: "c \<notin> set a \<Longrightarrow> piece_len c (a @ c # b) = length a + 1"
  by (simp add: piece_len_def)

lemma piece_len_end [simp]: "c \<notin> set a \<Longrightarrow> piece_len c a = length a + 1"
  by (simp add: piece_len_def)

lemma safecopy_piece [simp]: "safecopy (a @ b) (Suc (length a)) = a" "safecopy a (Suc (length a)) = a"
  by (simp_all add: safecopy_def)

text \<open>
  Reading a line. The hypotheses on the buffer are that the bytes \<^verbatim>\<open>getline\<close> looks at before or behind what
  it has read are no newlines.
\<close>

lemma getline_loop_spec:
  assumes "10 \<notin> set line" "buf 128 \<noteq> 10" "i \<le> n" "n \<le> 128" "n < 128 \<longrightarrow> buf n \<noteq> 10"
    "line @ map buf [i..<n] @ drop (snd f) (fst f) \<noteq> []" "length line + 1 < sz"
  shows "\<exists>line' sz' f'. getline_loop buf i n line sz f = (0, line', sz', f') \<and> fst f' = fst f \<and> length line' + 1 < sz' \<and>
    line' = takeWhile (\<lambda>x. x \<noteq> 10) (line @ map buf [i..<n] @ drop (snd f) (fst f))"
  using assms
proof (induction buf i n line sz f rule: getline_loop.induct)
  case (1 buf i n line sz f)
  have tw: "takeWhile (\<lambda>x. x \<noteq> 10) (line @ xs) = line @ takeWhile (\<lambda>x. x \<noteq> 10) xs" for xs
    using 1(3) by (induction line) auto
  consider (nl) "buf i = 10" | (more) "buf i \<noteq> 10" "i = n" | (char) "buf i \<noteq> 10" "i < n" using 1(5) by linarith
  then show ?case
  proof cases
    case nl
    then have "i < n" using 1(4,5,6,7) by (cases "i = n") (auto simp: le_less)
    then have "map buf [i..<n] = 10 # map buf [Suc i..<n]" using nl by (simp add: upt_conv_Cons)
    moreover have "getline_loop buf i n line sz f = (0, line, sz, f)" using nl by (subst getline_loop.simps) simp
    ultimately show ?thesis using 1(9) by (simp add: tw)
  next
    case more
    obtain d f' where d: "uread 128 f = (d, f')" by (cases "uread 128 f")
    then have d': "d = take 128 (drop (snd f) (fst f))" "f' = (fst f, snd f + length d)"
      by (auto simp: uread_def Let_def)
    show ?thesis
    proof (cases "d = []")
      case True
      then have "drop (snd f) (fst f) = []" using d' by simp
      moreover have "getline_loop buf i n line sz f = ((if line = [] then -1 else 0), line, sz, f')"
        using more d True by (subst getline_loop.simps) simp
      ultimately show ?thesis using d' more 1(8,9) tw[of "[]", symmetric] by auto
    next
      case False
      define buf' where "buf' = (\<lambda>k. if k < length d then d ! k else if k = length d \<and> length d < 128 then 0 else buf k)"
      have len: "length d \<le> 128" by (simp add: d')
      have m: "map buf' [0..<length d] = d" by (rule nth_equalityI) (auto simp: buf'_def)
      have rest: "d @ drop (snd f') (fst f') = drop (snd f) (fst f)"
      proof -
        have "d = take (length d) (drop (snd f) (fst f))" by (metis d'(1) append_eq_conv_conj append_take_drop_id)
        moreover have "drop (snd f') (fst f') = drop (length d) (drop (snd f) (fst f))" by (simp add: d'(2) add.commute)
        ultimately show ?thesis by (metis append_take_drop_id)
      qed
      have "\<exists>line' sz' g. getline_loop buf' 0 (length d) line sz f' = (0, line', sz', g) \<and> fst g = fst f' \<and> length line' + 1 < sz' \<and>
          line' = takeWhile (\<lambda>x. x \<noteq> 10) (line @ map buf' [0..<length d] @ drop (snd f') (fst f'))"
        using 1(1)[OF more(1) _ d[symmetric] refl False, folded buf'_def] more False len 1(3-9) m
        by (auto simp: buf'_def)
      moreover have "getline_loop buf i n line sz f = getline_loop buf' 0 (length d) line sz f'"
        using more d False by (subst getline_loop.simps) (simp add: buf'_def)
      ultimately show ?thesis using d' more rest m by simp
    qed
  next
    case char
    then have "map buf [i..<n] = buf i # map buf [Suc i..<n]" by (simp add: upt_conv_Cons)
    moreover have "getline_loop buf i n line sz f =
        getline_loop buf (i + 1) n (line @ [buf i]) (if length line + 2 \<ge> sz then 2 * sz else sz) f"
      using char by (subst getline_loop.simps) simp
    ultimately show ?thesis using 1(2)[OF char(1)] char 1(3-9) by simp
  qed
qed

lemma getline_spec:
  assumes "buf 0 \<noteq> 10" "buf 128 \<noteq> 10" "f = (a @ b, o')" "1 < sz"
  shows "b \<noteq> [] \<Longrightarrow> \<exists>sz' f'. getline buf sz (length a) f =
      (0, takeWhile (\<lambda>x. x \<noteq> 10) b, sz', length a + length (takeWhile (\<lambda>x. x \<noteq> 10) b) + 1, f') \<and> fst f' = a @ b \<and>
      length (takeWhile (\<lambda>x. x \<noteq> 10) b) + 1 < sz'"
    and "length (fst f) \<le> off \<Longrightarrow> \<exists>f'. getline buf sz off f = (-1, [], sz, off, f') \<and> fst f' = fst f"
proof -
  show "\<exists>sz' f'. getline buf sz (length a) f =
      (0, takeWhile (\<lambda>x. x \<noteq> 10) b, sz', length a + length (takeWhile (\<lambda>x. x \<noteq> 10) b) + 1, f') \<and> fst f' = a @ b \<and>
      length (takeWhile (\<lambda>x. x \<noteq> 10) b) + 1 < sz'" if "b \<noteq> []"
    using getline_loop_spec[of "[]" buf 0 0 "(a @ b, length a)" sz] assms that by (auto simp: getline_def lseek_set_def)
  show "\<exists>f'. getline buf sz off f = (-1, [], sz, off, f') \<and> fst f' = fst f" if "length (fst f) \<le> off"
    using assms that by (simp add: getline_def lseek_set_def getline_loop.simps[of buf 0 0] uread_def Let_def)
qed

lemma uread_step:
  assumes "uread 128 (c, off) = (d, f)"
  shows "f = (c, off + length d)" "drop off c = d @ drop (off + length d) c" "d = [] \<longleftrightarrow> length c \<le> off"
proof -
  have d: "d = take 128 (drop off c)" and f: "f = (c, off + length d)" using assms by (auto simp: uread_def Let_def)
  have "drop off c = d @ drop (length d) (drop off c)" by (metis d append_eq_conv_conj append_take_drop_id)
  then show "drop off c = d @ drop (off + length d) c" by (simp add: add.commute)
  show "f = (c, off + length d)" by (rule f)
  show "d = [] \<longleftrightarrow> length c \<le> off" by (simp add: d)
qed

lemma copy_out_spec:
  "d \<noteq> [] \<Longrightarrow> \<exists>off'. copy_out d (c, off) (t, length t) = ((c, off'), (t @ d @ drop off c, length t + length d + length (drop off c)))"
proof (induction "length c - off" arbitrary: d off t rule: less_induct)
  case less
  obtain d' f where u: "uread 128 (c, off) = (d', f)" by (cases "uread 128 (c, off)")
  note st = uread_step[OF u]
  have step: "copy_out d (c, off) (t, length t) = copy_out d' f (t @ d, length (t @ d))"
    using less.prems u by (subst copy_out.simps) simp
  show ?case
  proof (cases "d' = []")
    case True
    then show ?thesis using st unfolding step by (simp add: copy_out.simps[of "[]"])
  next
    case False
    then have "length c - (off + length d') < length c - off" using st(3) by (intro diff_less_mono2) auto
    from less.hyps[OF this False, of "t @ d"] show ?thesis using st by (auto simp: step)
  qed
qed

lemma copy_back_spec:
  "n \<le> length c \<Longrightarrow> copy_back (t, k) (c, n) n =
    ((take n c @ drop k t @ drop (n + length (drop k t)) c, n + length (drop k t)), n + length (drop k t))"
proof (induction "length t - k" arbitrary: k c n rule: less_induct)
  case less
  obtain d f where u: "uread 128 (t, k) = (d, f)" by (cases "uread 128 (t, k)")
  note st = uread_step[OF u]
  show ?case
  proof (cases "d = []")
    case True
    then show ?thesis using st(3) u by (subst copy_back.simps) simp
  next
    case False
    define c' where "c' = take n c @ d @ drop (n + length d) c"
    have step: "copy_back (t, k) (c, n) n = copy_back (t, k + length d) (c', n + length d) (n + length d)"
      using False u st(1) less.prems by (subst copy_back.simps) (simp add: uwrite_def c'_def)
    have "length t - (k + length d) < length t - k" using False st(3) by (intro diff_less_mono2) auto
    moreover have "n + length d \<le> length c'" using less.prems by (simp add: c'_def)
    ultimately have "copy_back (t, k) (c, n) n = ((take (n + length d) c' @ drop (k + length d) t @
        drop (n + length d + length (drop (k + length d) t)) c', n + length d + length (drop (k + length d) t)),
        n + length d + length (drop (k + length d) t))"
      unfolding step by (rule less.hyps)
    moreover have "take (n + length d) c' = take n c @ d" using less.prems by (simp add: c'_def)
    moreover have "drop (n + length d + m) c' = drop (n + length d + m) c" for m
      using less.prems by (simp add: c'_def add.commute add.left_commute)
    moreover have "length (drop k t) = length d + length (drop (k + length d) t)" using st(2) by (metis length_append)
    ultimately show ?thesis using st(2) by (simp add: add.assoc)
  qed
qed

lemma changeline_spec:
  assumes "sep = [] \<and> rest = [] \<or> sep = [10]"
  shows "\<exists>o'. changeline [] line (length a + length old + 1) (length old) (a @ old @ sep @ rest, p) =
    Some ((a @ line @ (if rest = [] then [] else 10 # rest), o'), length a + length line + 1)"
proof -
  define c where "c = a @ old @ sep @ rest"
  define off where "off = length a + length old + 1"
  obtain d f where u: "uread 128 (c, off) = (d, f)" by (cases "uread 128 (c, off)")
  note st = uread_step[OF u]
  have drop: "drop off c = rest" using assms by (auto simp: c_def off_def)
  define t where "t = line @ (if rest = [] then [] else 10 # rest)"
  have d: "d = [] \<longleftrightarrow> rest = []" using drop st(3) by (metis drop_eq_Nil)
  have out: "\<exists>k l. copy_out d f (if d \<noteq> [] then uwrite [10] (uwrite line ([], 0)) else uwrite line ([], 0)) = ((c, k), (t, l))"
  proof (cases "d = []")
    case True
    then show ?thesis using d st(1) by (simp add: copy_out.simps[of "[]"] t_def uwrite_def)
  next
    case False
    from copy_out_spec[OF False, of c "off + length d" "line @ [10]"] obtain k where
      k: "copy_out d (c, off + length d) (line @ [10], length (line @ [10])) =
        ((c, k), ((line @ [10]) @ d @ drop (off + length d) c, length (line @ [10]) + length d + length (drop (off + length d) c)))"
      by blast
    have "(line @ [10]) @ d @ drop (off + length d) c = t"
      unfolding st(2)[unfolded drop, symmetric] using False d by (simp add: t_def)
    moreover have "uwrite [10] (uwrite line ([], 0)) = (line @ [10], length (line @ [10]))" by (simp add: uwrite_def)
    ultimately have "copy_out d f (uwrite [10] (uwrite line ([], 0))) = ((c, k), (t, length (line @ [10]) + length d + length (drop (off + length d) c)))"
      using k unfolding st(1) by metis
    then show ?thesis using False by simp
  qed
  then obtain k l where out: "copy_out d f (if d \<noteq> [] then uwrite [10] (uwrite line ([], 0)) else uwrite line ([], 0)) = ((c, k), (t, l))"
    by blast
  have "copy_back (t, 0) (c, length a) (length a) = ((a @ t @ drop (length a + length t) c, length a + length t), length a + length t)"
    using copy_back_spec[of "length a" c t 0] by (simp add: c_def)
  then show ?thesis
    using u out by (simp add: changeline_def lseek_set_def utrim_def Let_def c_def off_def t_def)
qed

section \<open>Files of lines\<close>

text \<open>
  A file holds a list of lines, not empty and without newlines in them; the last one may lack its newline.
  \<open>lines_at c off ls\<close>: from offset \<open>off\<close> on the file holds \<open>ls\<close>.
\<close>

definition text_of :: "u8 list list \<Rightarrow> u8 list" where
  "text_of ls = concat (map (\<lambda>l. l @ [10]) ls)"

definition holds :: "u8 list list \<Rightarrow> u8 list \<Rightarrow> bool" where
  "holds ls c \<longleftrightarrow> list_all (\<lambda>l. l \<noteq> [] \<and> 10 \<notin> set l) ls \<and> (c = text_of ls \<or> ls \<noteq> [] \<and> c @ [10] = text_of ls)"

definition lines_at :: "u8 list \<Rightarrow> nat \<Rightarrow> u8 list list \<Rightarrow> bool" where
  "lines_at c off ls \<longleftrightarrow> (\<exists>a b. c = a @ b \<and> off = length a \<and> holds ls b) \<or> ls = [] \<and> length c \<le> off"

text \<open>The bytes behind and at the start of the buffer of \<^verbatim>\<open>getline\<close> are no newlines.\<close>

definition calm :: "(nat \<Rightarrow> bytes) \<Rightarrow> bool" where
  "calm stk \<longleftrightarrow> (\<forall>k. stk k 0 \<noteq> 10 \<and> stk k 128 \<noteq> 10)"

lemma text_of_simps [simp]: "text_of [] = []" "text_of (l # ls) = l @ 10 # text_of ls"
  "text_of (ls @ ls') = text_of ls @ text_of ls'"
  by (simp_all add: text_of_def)

lemma text_of_last: "ls \<noteq> [] \<Longrightarrow> \<exists>x. text_of ls = x @ [10]"
  by (cases ls rule: rev_cases) auto

lemma holds_Cons:
  assumes "holds (l # ls) b"
  shows "\<exists>sep rest. b = l @ sep @ rest \<and> (sep = [] \<and> rest = [] \<and> ls = [] \<or> sep = [10] \<and> holds ls rest) \<and> l \<noteq> [] \<and> 10 \<notin> set l"
proof -
  have l: "l \<noteq> []" "10 \<notin> set l" "list_all (\<lambda>l. l \<noteq> [] \<and> 10 \<notin> set l) ls" using assms by (auto simp: holds_def)
  from assms consider "b = l @ 10 # text_of ls" | "b @ [10] = l @ 10 # text_of ls" by (auto simp: holds_def)
  then show ?thesis
  proof cases
    case 1
    then show ?thesis using l by (intro exI[of _ "[10]"] exI[of _ "text_of ls"]) (simp add: holds_def)
  next
    case 2
    show ?thesis
    proof (cases "ls = []")
      case True
      then show ?thesis using 2 l by auto
    next
      case False
      then obtain x where x: "text_of ls = x @ [10]" using text_of_last by blast
      then have "b = l @ [10] @ x" using 2 by (metis append.assoc append_Cons append_Nil butlast_snoc)
      then show ?thesis using l x False by (intro exI[of _ "[10]"] exI[of _ x]) (simp add: holds_def)
    qed
  qed
qed

lemma holds_rest: "holds ls rest \<Longrightarrow> rest = [] \<longleftrightarrow> ls = []"
  by (cases ls) (auto simp: holds_def Cons_eq_append_conv)

lemma holds_build:
  assumes "sep = [] \<and> rest = [] \<and> ls = [] \<or> sep = [10] \<and> holds ls rest"
    "list_all (\<lambda>l. l \<noteq> [] \<and> 10 \<notin> set l) pre" "l \<noteq> []" "10 \<notin> set l"
  shows "holds (pre @ l # ls) (text_of pre @ l @ (if rest = [] then [] else 10 # rest))"
  using assms holds_rest[of ls rest] by (auto simp: holds_def)

lemma getline_at:
  assumes "calm stk" "lines_at (fst f) off (l # ls)" "1 < sz"
  shows "\<exists>sz' f'. getline (stk off) sz off f = (0, l, sz', off + length l + 1, f') \<and> fst f' = fst f \<and> 1 < sz' \<and>
    lines_at (fst f) (off + length l + 1) ls"
proof -
  from assms(2) obtain a b where ab: "fst f = a @ b" "off = length a" "holds (l # ls) b" by (auto simp: lines_at_def)
  from holds_Cons[OF ab(3)] obtain sep rest where b: "b = l @ sep @ rest" and l: "l \<noteq> []" "10 \<notin> set l"
    and s: "sep = [] \<and> rest = [] \<and> ls = [] \<or> sep = [10] \<and> holds ls rest" by blast
  have tw: "takeWhile (\<lambda>x. x \<noteq> 10) b = l"
    using s l by (auto simp: b takeWhile_eq_all_conv takeWhile_append)
  have "\<exists>sz' f'. getline (stk (length a)) sz (length a) f = (0, l, sz', length a + length l + 1, f') \<and> fst f' = a @ b \<and> length l + 1 < sz'"
    using getline_spec(1)[of "stk (length a)" f a b "snd f" sz] assms(1,3) ab(1) l b
    unfolding tw by (cases f) (auto simp: calm_def)
  moreover have "lines_at (fst f) (off + length l + 1) ls"
  proof (cases "sep = []")
    case True
    then show ?thesis using s ab b by (auto simp: lines_at_def)
  next
    case False
    then have "fst f = (a @ l @ [10]) @ rest" "holds ls rest" using s ab b by auto
    then show ?thesis unfolding lines_at_def ab(2) by (intro disjI1 exI[of _ "a @ l @ [10]"] exI[of _ rest]) simp
  qed
  ultimately show ?thesis using ab by fastforce
qed

lemma getline_at_end:
  assumes "calm stk" "lines_at (fst f) off []" "1 < sz"
  shows "\<exists>f'. getline (stk off) sz off f = (-1, [], sz, off, f') \<and> fst f' = fst f"
proof -
  have "length (fst f) \<le> off" using assms(2) by (auto simp: lines_at_def holds_def)
  then show ?thesis using getline_spec(2)[of "stk off" f "fst f" "[]" "snd f" sz off] assms by (cases f) (auto simp: calm_def)
qed

lemma changeline_at:
  assumes "holds (pre @ l # ls) c" "l' \<noteq> []" "10 \<notin> set l'"
  shows "\<exists>c' o'. changeline [] l' (length (text_of pre) + length l + 1) (length l) (c, p) =
    Some ((c', o'), length (text_of pre) + length l' + 1) \<and> holds (pre @ l' # ls) c'"
proof -
  have w: "list_all (\<lambda>l. l \<noteq> [] \<and> 10 \<notin> set l) pre" using assms(1) by (simp add: holds_def)
  have "\<exists>b. c = text_of pre @ b \<and> holds (l # ls) b"
  proof (cases "c = text_of (pre @ l # ls)")
    case True
    then show ?thesis using assms(1) by (auto simp: holds_def)
  next
    case False
    then have "c @ [10] = text_of (pre @ l # ls)" using assms(1) by (simp add: holds_def)
    moreover obtain x where "text_of (l # ls) = x @ [10]" using text_of_last[of "l # ls"] by auto
    ultimately have "c = text_of pre @ x" "x @ [10] = text_of (l # ls)" by auto
    then show ?thesis using assms(1) by (auto simp: holds_def)
  qed
  then obtain b where b: "c = text_of pre @ b" "holds (l # ls) b" by blast
  from holds_Cons[OF b(2)] obtain sep rest where r: "b = l @ sep @ rest"
    and s: "sep = [] \<and> rest = [] \<and> ls = [] \<or> sep = [10] \<and> holds ls rest" by blast
  have "sep = [] \<and> rest = [] \<or> sep = [10]" using s by blast
  from changeline_spec[OF this, of l' "text_of pre" l p] b r holds_build[OF s w assms(2,3)]
  show ?thesis by auto
qed

section \<open>Lists of names\<close>

text \<open>Where a name starts in a list of names with separators.\<close>

fun place :: "ustring \<Rightarrow> ustring list \<Rightarrow> nat option" where
  "place str [] = None"
| "place str (a # as) = (if a = str then Some 0 else map_option (\<lambda>k. k + (length a + 1)) (place str as))"

definition names_ok :: "u8 \<Rightarrow> ustring list \<Rightarrow> bool" where
  "names_ok sep as \<longleftrightarrow> list_all (\<lambda>a. sep \<notin> set a \<and> 0 \<notin> set a \<and> a \<noteq> []) as"

lemma place_None: "place str as = None \<longleftrightarrow> str \<notin> set as"
  by (induction as) auto

lemma join_Cons: "as \<noteq> [] \<Longrightarrow> join sep (a # as) = a @ sep # join sep as"
  by (cases as) auto

lemma find_piece_join:
  assumes "names_ok sep as" "0 \<notin> set str"
  shows "find_piece str (pre @ join sep as) sep (length pre) = (case place str as of None \<Rightarrow> -1 | Some k \<Rightarrow> int (length pre + k))"
  using assms(1)
proof (induction as arbitrary: pre)
  case Nil
  then show ?case by (simp add: find_piece.simps)
next
  case (Cons a as)
  have a: "sep \<notin> set a" "0 \<notin> set a" "a \<noteq> []" and ok: "names_ok sep as" using Cons.prems by (auto simp: names_ok_def)
  have cmp: "strcmp a str = 0 \<longleftrightarrow> a = str" using a assms(2) by (simp add: strcmp_zero)
  show ?case
  proof (cases "as = []")
    case True
    have "find_piece str (pre @ a) sep (length pre + (length a + 1)) = -1" by (simp add: find_piece.simps)
    then show ?thesis using a cmp True by (subst find_piece.simps) (simp add: Let_def)
  next
    case False
    have "find_piece str ((pre @ a @ [sep]) @ join sep as) sep (length (pre @ a @ [sep])) =
        (case place str as of None \<Rightarrow> -1 | Some k \<Rightarrow> int (length (pre @ a @ [sep]) + k))"
      by (rule Cons.IH[OF ok])
    then show ?thesis using a cmp False
      by (subst find_piece.simps) (auto simp: Let_def join_Cons split: option.splits)
  qed
qed

lemma findstrinsetdivsep_join:
  "names_ok sep as \<Longrightarrow> 0 \<notin> set str \<Longrightarrow>
    findstrinsetdivsep str (join sep as) sep = (case place str as of None \<Rightarrow> -1 | Some k \<Rightarrow> int k)"
  using find_piece_join[of sep as str "[]"] by (simp add: findstrinsetdivsep_def split: option.splits)

end
