(* ===== verification/Uauth.thy ===== *)
theory Uauth
  imports Ufile "HOL-Library.Monad_Syntax"
begin

text \<open>
  User accounts (\<^verbatim>\<open>user/uauth.c\<close>): the lines of \<^verbatim>\<open>/etc/passwd\<close>, looking users up, checking and changing
  passwords. A function without a result (\<open>None\<close>) reads behind the end of a string, or does not return.
\<close>

section \<open>Lines of the password file\<close>

record struct_user =
  u_name :: ustring
  u_pass :: "ustring option"
  u_uid :: int
  u_gid :: int
  u_full :: ustring
  u_home :: ustring

definition getuserlength :: "struct_user \<Rightarrow> nat" where
  "getuserlength u = length (u_name u) + 2 + (case u_pass u of None \<Rightarrow> 0 | Some p \<Rightarrow> length p) +
     (digitcount (u_uid u) + 1) + (digitcount (u_gid u) + 1) + (length (u_full u) + 1) + length (u_home u)"

text \<open>The loop of \<^verbatim>\<open>user\<close> over the six segments of a line.\<close>

definition user_segment :: "nat \<Rightarrow> ustring \<Rightarrow> nat \<Rightarrow> struct_user \<Rightarrow> struct_user" where
  "user_segment k x n u =
     (if k = 0 then u\<lparr>u_name := x\<rparr>
      else if k = 1 then (if n > 1 then u\<lparr>u_pass := Some x\<rparr> else u)
      else if k = 2 then u\<lparr>u_uid := atoi x\<rparr>
      else if k = 3 then u\<lparr>u_gid := atoi x\<rparr>
      else if k = 4 then u\<lparr>u_full := x\<rparr>
      else u\<lparr>u_home := x\<rparr>)"

fun user_loop :: "ustring \<Rightarrow> nat \<Rightarrow> nat list \<Rightarrow> struct_user \<Rightarrow> struct_user option" where
  "user_loop line i [] u = Some u"
| "user_loop line i (k # ks) u =
     (case uptr line i of
        None \<Rightarrow> None
      | Some p \<Rightarrow>
          let n = piece_len 58 p in
          user_loop line (i + n) ks (user_segment k (safecopy p n) n u))"

definition user :: "ustring \<Rightarrow> struct_user option" where
  "user line = user_loop line 0 [0..<6]
     \<lparr>u_name = [], u_pass = None, u_uid = 0, u_gid = 0, u_full = [], u_home = []\<rparr>"

text \<open>
  The two loops of \<^verbatim>\<open>writeuser\<close> that store the digits of the user id and of the group id, and
  \<^verbatim>\<open>strncpy(line + i, s, sizeof(s))\<close>.
\<close>

function uid_digits :: "int \<Rightarrow> nat \<Rightarrow> bytes \<Rightarrow> bytes" where
  "uid_digits temp n s =
     (let s' = s(n := of_int (48 + temp smod 10)); temp' = temp sdiv 10 in
      if temp' > 0 then uid_digits temp' (n - 1) s' else s')"
  by pat_completeness auto
termination
  by (relation "measure (\<lambda>(temp, n, s). nat \<bar>temp\<bar>)") (auto simp: signed_divide_int_def abs_mult sgn_if split: if_splits)

function gid_digits :: "int \<Rightarrow> nat \<Rightarrow> bytes \<Rightarrow> bytes" where
  "gid_digits temp n s =
     (let s' = s(n := of_int (48 + temp smod 10)); temp' = temp sdiv 10 in
      if temp' \<noteq> 0 then gid_digits temp' (n - 1) s' else s')"
  by pat_completeness auto
termination
  by (relation "measure (\<lambda>(temp, n, s). nat \<bar>temp\<bar>)") (auto simp: signed_divide_int_def abs_mult)

declare uid_digits.simps [simp del] gid_digits.simps [simp del]

definition ncopy :: "bytes \<Rightarrow> nat \<Rightarrow> u8 list" where
  "ncopy s n = (let xs = takeWhile (\<lambda>c. c \<noteq> 0) (map s [0..<n]) in xs @ replicate (n - length xs) 0)"

text \<open>The array \<^verbatim>\<open>line\<close> of \<^verbatim>\<open>writeuser\<close>; \<open>raw\<close> is what the two arrays of digits contain at first.\<close>

definition user_line :: "bytes \<Rightarrow> struct_user \<Rightarrow> u8 list" where
  "user_line raw u =
     u_name u @ [58] @ (case u_pass u of None \<Rightarrow> [] | Some p \<Rightarrow> p) @ [58] @
     (let n = digitcount (u_uid u) in ncopy (uid_digits (u_uid u) (n - 1) raw) n) @ [58] @
     (let n = digitcount (u_gid u) in ncopy (gid_digits (u_gid u) (n - 1) raw) n) @ [58] @
     u_full u @ [58] @ u_home u"

section \<open>Facts on lines\<close>

lemma smod_digit: "int n smod 10 = int (n mod 10)" "int n sdiv 10 = int (n div 10)"
  by (cases "n = 0"; simp add: signed_modulo_int_def signed_divide_int_def zdiv_int zmod_int)+

lemma gid_digits_decimal:
  "map (gid_digits (int n) (length (decimal n) - Suc 0) raw) [0..<length (decimal n)] = decimal n \<and>
   (\<forall>k \<ge> length (decimal n). gid_digits (int n) (length (decimal n) - Suc 0) raw k = raw k)"
proof (induction n arbitrary: raw rule: decimal.induct)
  case (1 n)
  show ?case
  proof (cases "n < 10")
    case True
    then show ?thesis by (simp add: decimal.simps[of n] gid_digits.simps[of "int n"] smod_digit)
  next
    case False
    define m where "m = length (decimal (n div 10))"
    have dec: "decimal n = decimal (n div 10) @ [48 + of_nat (n mod 10)]" using False by (simp add: decimal.simps[of n])
    have m: "m > 0" by (simp add: m_def decimal.simps[of "n div 10"])
    define raw' where "raw' = raw(m := 48 + of_nat (n mod 10))"
    have "n div 10 \<noteq> 0" using False by auto
    then have step: "gid_digits (int n) m raw = gid_digits (int (n div 10)) (m - 1) raw'"
      using False by (simp add: gid_digits.simps[of "int n"] smod_digit raw'_def Let_def)
    note IH = 1[OF False, of raw', folded m_def]
    have "raw' m = 48 + of_nat (n mod 10)" "\<And>k. m < k \<Longrightarrow> raw' k = raw k" by (simp_all add: raw'_def)
    then show ?thesis using IH m by (auto simp: dec m_def[symmetric] step)
  qed
qed

lemma uid_digits_gid: "uid_digits (int n) k raw = gid_digits (int n) k raw"
proof (induction n arbitrary: k raw rule: decimal.induct)
  case (1 n)
  have "n div 10 = 0 \<longleftrightarrow> n < 10" by auto
  then show ?case using 1 by (cases "n < 10") (simp_all add: uid_digits.simps[of "int n"] gid_digits.simps[of "int n"] smod_digit Let_def)
qed

lemma ncopy_decimal [simp]:
  "ncopy (gid_digits (int n) (length (decimal n) - Suc 0) raw) (length (decimal n)) = decimal n"
proof -
  have "takeWhile (\<lambda>c. c \<noteq> 0) (decimal n) = decimal n"
    using decimal_digits by (force simp: takeWhile_eq_all_conv)
  then show ?thesis using gid_digits_decimal[of n raw] unfolding ncopy_def by (simp only: Let_def) simp
qed

text \<open>
  A user that a line can hold: no field has a colon, a newline or a 0 in it, and the ids are not negative. A line
  does not tell an empty password from none.
\<close>

definition plain :: "ustring \<Rightarrow> bool" where
  "plain s \<longleftrightarrow> 0 \<notin> set s \<and> 10 \<notin> set s \<and> 58 \<notin> set s"

definition wf_user :: "struct_user \<Rightarrow> bool" where
  "wf_user u \<longleftrightarrow> plain (u_name u) \<and> (case u_pass u of None \<Rightarrow> True | Some p \<Rightarrow> plain p \<and> p \<noteq> []) \<and>
     0 \<le> u_uid u \<and> u_uid u < 2 ^ 31 \<and> 0 \<le> u_gid u \<and> u_gid u < 2 ^ 31 \<and> plain (u_full u) \<and> plain (u_home u)"

definition reference_line :: "struct_user \<Rightarrow> u8 list" where
  "reference_line u = u_name u @ 58 # (case u_pass u of None \<Rightarrow> [] | Some p \<Rightarrow> p) @ 58 #
     decimal (nat (u_uid u)) @ 58 # decimal (nat (u_gid u)) @ 58 # u_full u @ 58 # u_home u"

lemma user_line_reference:
  assumes "0 \<le> u_uid u" "0 \<le> u_gid u"
  shows "user_line raw u = reference_line u"
proof -
  obtain a b where "u_uid u = int a" "u_gid u = int b" using assms by (metis nonneg_int_cases)
  then show ?thesis
    by (simp add: user_line_def reference_line_def digitcount_decimal uid_digits_gid Let_def)
qed

lemma ncopy_length [simp]: "length (ncopy s n) = n"
proof -
  have "length (takeWhile (\<lambda>c. c \<noteq> 0) (map s [0..<n])) \<le> n" by (metis length_map length_takeWhile_le length_upt minus_nat.diff_0)
  then show ?thesis by (simp add: ncopy_def Let_def)
qed

lemma user_line_length: "length (user_line raw u) = getuserlength u"
  by (auto simp: user_line_def getuserlength_def Let_def split: option.splits)

lemma plain_decimal: "plain (decimal n)"
  using decimal_digits[of _ n] by (force simp: plain_def)

fun user_segments :: "nat list \<Rightarrow> ustring list \<Rightarrow> struct_user \<Rightarrow> struct_user" where
  "user_segments (k # ks) (a # as) u = user_segments ks as (user_segment k a (length a + 1) u)"
| "user_segments ks as u = u"

lemma user_loop_join:
  assumes "list_all (\<lambda>a. 58 \<notin> set a) as" "length ks \<le> length as"
  shows "user_loop (pre @ join 58 as) (length pre) ks u = Some (user_segments ks as u)"
  using assms
proof (induction "58 :: u8" as arbitrary: pre ks u rule: join.induct)
  case 1
  then show ?case by simp
next
  case (2 a)
  then show ?case by (cases ks) (simp_all add: Let_def)
next
  case (3 a b as)
  then show ?case
  proof (cases ks)
    case (Cons k ks')
    then show ?thesis using 3(1)[of ks' "pre @ a @ [58]"] 3(2,3) by (simp add: Let_def add.assoc)
  qed simp
qed

lemma reference_line_join:
  "reference_line u = join 58 [u_name u, case u_pass u of None \<Rightarrow> [] | Some p \<Rightarrow> p,
     decimal (nat (u_uid u)), decimal (nat (u_gid u)), u_full u, u_home u]"
  by (simp add: reference_line_def)

lemma upt_6: "[0..<6] = [0, 1, 2, 3, 4, 5 :: nat]"
  by code_simp

lemma user_reference:
  assumes "wf_user u"
  shows "user (reference_line u) = Some u"
proof -
  let ?as = "[u_name u, case u_pass u of None \<Rightarrow> [] | Some p \<Rightarrow> p,
     decimal (nat (u_uid u)), decimal (nat (u_gid u)), u_full u, u_home u]"
  have "list_all (\<lambda>a. 58 \<notin> set a) ?as"
    using assms plain_decimal by (auto simp: wf_user_def plain_def split: option.splits)
  then have "user (reference_line u) = Some (user_segments [0, 1, 2, 3, 4, 5] ?as
      \<lparr>u_name = [], u_pass = None, u_uid = 0, u_gid = 0, u_full = [], u_home = []\<rparr>)"
    using user_loop_join[of ?as "[0, 1, 2, 3, 4, 5]" "[]"] unfolding user_def upt_6 reference_line_join by simp
  also have "\<dots> = Some u"
    using assms by (cases "u_pass u") (auto simp: user_segment_def wf_user_def atoi_decimal nat_less_iff)
  finally show ?thesis .
qed

section \<open>Looking users up\<close>

text \<open>
  The state the account functions share: the contents of \<^verbatim>\<open>/etc/passwd\<close> and \<^verbatim>\<open>/etc/group\<close>, which files
  the caller may open (for reading, for reading and writing), what the stack holds where a local array is not
  initialised, the static counters of ids, and the other system calls made on files, in order.
\<close>

datatype uact = Mkdir ustring | Chown ustring int int | Move ustring ustring | ChownAll ustring int int

record accounts =
  ac_passwd :: "u8 list"
  ac_group :: "u8 list"
  ac_open :: "string \<Rightarrow> bool \<Rightarrow> bool"
  ac_stack :: "nat \<Rightarrow> bytes"
  ac_nextuid :: int
  ac_nextgid :: int
  ac_acts :: "uact list"

abbreviation (input) NOTFOUND :: int where "NOTFOUND \<equiv> -1"
abbreviation (input) RESERVED :: int where "RESERVED \<equiv> -2"
abbreviation (input) NOPERMS :: int where "NOPERMS \<equiv> -1000"
abbreviation (input) AUTHFAIL :: int where "AUTHFAIL \<equiv> -200"
abbreviation (input) UNKNOWN :: int where "UNKNOWN \<equiv> -666"
abbreviation (input) BUFSIZE :: nat where "BUFSIZE \<equiv> 128"

text \<open>A line as a string: up to the first 0.\<close>

definition cut :: "u8 list \<Rightarrow> ustring" where
  "cut l = takeWhile (\<lambda>c. c \<noteq> 0) l"

text \<open>
  The loop of \<^verbatim>\<open>finduserbyuid\<close> and \<^verbatim>\<open>finduserbyname\<close>, which goes on while the user read is not the one
  wanted; \<open>usr\<close>, \<open>sz\<close> and \<open>offset\<close> are \<^verbatim>\<open>*usr\<close>, \<^verbatim>\<open>linesize\<close> and \<^verbatim>\<open>*offset\<close>.
\<close>

partial_function (option) finduser ::
    "(struct_user \<Rightarrow> bool) \<Rightarrow> (nat \<Rightarrow> bytes) \<Rightarrow> struct_user option \<Rightarrow> nat \<Rightarrow> nat \<Rightarrow> ufd \<Rightarrow> (int \<times> struct_user option \<times> nat \<times> ufd) option" where
  "finduser other stk usr sz offset f =
     (let (code, line, sz', offset', f') = getline (stk offset) sz offset f in
      if code \<noteq> 0 then Some (NOTFOUND, usr, offset', f')
      else Option.bind (user (cut line)) (\<lambda>u.
        if other u then finduser other stk (Some u) sz' offset' f'
        else Some (0, Some u, offset', f')))"

definition finduserbyuid :: "(nat \<Rightarrow> bytes) \<Rightarrow> int \<Rightarrow> struct_user option \<Rightarrow> ufd \<Rightarrow> (int \<times> struct_user option \<times> nat \<times> ufd) option" where
  "finduserbyuid stk uid usr f = finduser (\<lambda>u. u_uid u \<noteq> uid) stk usr BUFSIZE 0 f"

definition finduserbyname :: "(nat \<Rightarrow> bytes) \<Rightarrow> ustring \<Rightarrow> struct_user option \<Rightarrow> ufd \<Rightarrow> (int \<times> struct_user option \<times> nat \<times> ufd) option" where
  "finduserbyname stk name usr f = finduser (\<lambda>u. strcmp (u_name u) name \<noteq> 0) stk usr BUFSIZE 0 f"

text \<open>\<^verbatim>\<open>authuid\<close>: the result code and the user id it stores; \<open>chdir\<close> is the result of \<^verbatim>\<open>chdir\<close> for a directory.\<close>

definition authuid :: "(ustring \<Rightarrow> int) \<Rightarrow> ustring \<Rightarrow> ustring \<Rightarrow> accounts \<Rightarrow> (int \<times> int option) option" where
  "authuid chdir name pwd s =
     (if \<not> ac_open s ''/etc/passwd'' False then Some (NOPERMS, None)
      else Option.bind (finduserbyname (ac_stack s) name None (ac_passwd s, 0)) (\<lambda>(code, usr, offset, f).
        if code < 0 then Some (code, None)
        else Option.bind usr (\<lambda>u.
          case u_pass u of
            Some p \<Rightarrow> if strcmp p pwd \<noteq> 0 then Some (AUTHFAIL, None) else Some (chdir (u_home u), Some (u_uid u))
          | None \<Rightarrow> Some (chdir (u_home u), Some (u_uid u)))))"

text \<open>\<^verbatim>\<open>getuidforname\<close> reads the user found, without a test that there is one.\<close>

definition getuidforname :: "ustring \<Rightarrow> accounts \<Rightarrow> (int \<times> int option) option" where
  "getuidforname name s =
     (if \<not> ac_open s ''/etc/passwd'' False then Some (NOPERMS, None)
      else Option.bind (finduserbyname (ac_stack s) name None (ac_passwd s, 0)) (\<lambda>(code, usr, offset, f).
        Option.bind usr (\<lambda>u. Some (code, Some (u_uid u)))))"

definition getusername :: "int \<Rightarrow> accounts \<Rightarrow> (int \<times> ustring option) option" where
  "getusername uid s =
     (if \<not> ac_open s ''/etc/passwd'' False then Some (NOPERMS, None)
      else Option.bind (finduserbyuid (ac_stack s) uid None (ac_passwd s, 0)) (\<lambda>(code, usr, offset, f).
        if code < 0 then Some (code, None)
        else Option.bind usr (\<lambda>u. Some (0, Some (safecopy (u_name u) (length (u_name u) + 1))))))"

section \<open>Changing passwords\<close>

text \<open>
  \<^verbatim>\<open>writeuser\<close>: the new contents of the file. \<open>raw\<close> is what its arrays hold at first, \<open>tmp\<close> what the
  temporary file of \<^verbatim>\<open>changeline\<close> holds when it is opened.
\<close>

definition writeuser :: "bytes \<Rightarrow> u8 list \<Rightarrow> struct_user \<Rightarrow> nat \<Rightarrow> nat \<Rightarrow> ufd \<Rightarrow> u8 list option" where
  "writeuser raw tmp u offset oldlength f =
     (if oldlength = 0 then Some (fst (addline (user_line raw u) f))
      else map_option (\<lambda>(g, o'). fst g) (changeline tmp (user_line raw u) offset oldlength f))"

text \<open>\<^verbatim>\<open>changepass\<close> called with \<^verbatim>\<open>getuid() == uid\<close>.\<close>

definition changepass :: "u8 list \<Rightarrow> int \<Rightarrow> ustring \<Rightarrow> ustring \<Rightarrow> ustring \<Rightarrow> accounts \<Rightarrow> (int \<times> accounts) option" where
  "changepass tmp uid name oldpwd newpwd s =
     (if \<not> ac_open s ''/etc/passwd'' True then Some (NOPERMS, s)
      else Option.bind (finduserbyname (ac_stack s) name None (ac_passwd s, 0)) (\<lambda>(code, usr, offset, f).
        if code < 0 then Some (NOTFOUND, s)
        else Option.bind usr (\<lambda>u.
          if uid \<noteq> 0 \<and> (u_uid u \<noteq> uid \<or> (case u_pass u of None \<Rightarrow> False | Some p \<Rightarrow> strcmp p oldpwd \<noteq> 0))
          then Some (NOPERMS, s)
          else Option.bind (writeuser (ac_stack s offset) tmp
                 (u\<lparr>u_pass := Some (safecopy newpwd (length newpwd + 1))\<rparr>) offset (getuserlength u) f) (\<lambda>c.
            Some (0, s\<lparr>ac_passwd := c\<rparr>)))))"

section \<open>The password file as a list of users\<close>

definition passwd_of :: "struct_user list \<Rightarrow> u8 list \<Rightarrow> bool" where
  "passwd_of us c \<longleftrightarrow> list_all wf_user us \<and> holds (map reference_line us) c"

lemma reference_line_chars: "wf_user u \<Longrightarrow> 0 \<notin> set (reference_line u) \<and> 10 \<notin> set (reference_line u) \<and> reference_line u \<noteq> []"
  using plain_decimal[unfolded plain_def]
  by (auto simp: reference_line_def wf_user_def plain_def split: option.splits)

lemma cut_plain: "0 \<notin> set l \<Longrightarrow> cut l = l"
  by (auto simp: cut_def takeWhile_eq_all_conv)

text \<open>Lines paired with the users they are read as.\<close>

definition reads :: "u8 list \<times> struct_user \<Rightarrow> bool" where
  "reads z \<longleftrightarrow> user (cut (fst z)) = Some (snd z)"

lemma finduser_reads:
  assumes "calm stk" "lines_at (fst f) off (map fst zs)" "list_all reads zs" "1 < sz"
  shows "case find (\<lambda>z. \<not> other (snd z)) zs of
      None \<Rightarrow> \<exists>usr' off' f'. finduser other stk usr sz off f = Some (NOTFOUND, usr', off', f') \<and> fst f' = fst f
    | Some z \<Rightarrow> \<exists>f'. finduser other stk usr sz off f = Some (0, Some (snd z),
        off + length (text_of (map fst (takeWhile (\<lambda>z. other (snd z)) zs))) + length (fst z) + 1, f') \<and> fst f' = fst f"
  using assms
proof (induction zs arbitrary: usr sz off f)
  case Nil
  then obtain f' where "getline (stk off) sz off f = (-1, [], sz, off, f')" "fst f' = fst f"
    using getline_at_end[OF Nil.prems(1) _ Nil.prems(4), of f off] by (simp del: split_paired_Ex) blast
  then show ?case by (simp add: finduser.simps[of other stk usr sz off])
next
  case (Cons z zs)
  obtain l u where z: "z = (l, u)" by (cases z)
  from getline_at[OF Cons.prems(1), of f off l "map fst zs" sz] Cons.prems
  obtain sz' f' where g: "getline (stk off) sz off f = (0, l, sz', off + length l + 1, f')"
    and f': "fst f' = fst f" "1 < sz'" "lines_at (fst f) (off + length l + 1) (map fst zs)"
    by (auto simp: z)
  have u: "user (cut l) = Some u" using Cons.prems(3) by (simp add: reads_def z)
  have step: "finduser other stk usr sz off f = (if other u then finduser other stk (Some u) sz' (off + length l + 1) f'
      else Some (0, Some u, off + length l + 1, f'))"
    by (subst finduser.simps) (simp add: g u)
  show ?case
  proof (cases "other u")
    case True
    have "list_all reads zs" using Cons.prems(3) by simp
    with Cons.IH[OF Cons.prems(1), of f' "off + length l + 1" sz' "Some u"] f'
    show ?thesis using True by (auto simp: z step algebra_simps split: option.splits)
  next
    case False
    then show ?thesis using f' by (simp add: z step)
  qed
qed

lemma finduserbyname_reads:
  assumes "calm stk" "holds (map fst zs) c" "list_all reads zs" "list_all (\<lambda>z. 0 \<notin> set (u_name (snd z))) zs" "0 \<notin> set name"
  shows "case find (\<lambda>z. u_name (snd z) = name) zs of
      None \<Rightarrow> \<exists>usr' off' f'. finduserbyname stk name usr (c, p) = Some (NOTFOUND, usr', off', f') \<and> fst f' = c
    | Some z \<Rightarrow> \<exists>f'. finduserbyname stk name usr (c, p) = Some (0, Some (snd z),
        length (text_of (map fst (takeWhile (\<lambda>z. u_name (snd z) \<noteq> name) zs))) + length (fst z) + 1, f') \<and> fst f' = c"
proof -
  have "strcmp (u_name (snd z)) name \<noteq> 0 \<longleftrightarrow> u_name (snd z) \<noteq> name" if "z \<in> set zs" for z
    using that assms by (subst strcmp_zero) (auto simp: list_all_iff)
  then have eq: "find (\<lambda>z. \<not> strcmp (u_name (snd z)) name \<noteq> 0) zs = find (\<lambda>z. u_name (snd z) = name) zs"
    "takeWhile (\<lambda>z. strcmp (u_name (snd z)) name \<noteq> 0) zs = takeWhile (\<lambda>z. u_name (snd z) \<noteq> name) zs"
    by (auto intro: find_cong takeWhile_cong)
  have "lines_at (fst (c, p)) 0 (map fst zs)" using assms(2) by (auto simp: lines_at_def)
  from finduser_reads[OF assms(1) this assms(3), of BUFSIZE "\<lambda>u. strcmp (u_name u) name \<noteq> 0" usr]
  show ?thesis unfolding finduserbyname_def eq by (auto split: option.splits)
qed

definition listed :: "struct_user list \<Rightarrow> (u8 list \<times> struct_user) list" where
  "listed us = map (\<lambda>u. (reference_line u, u)) us"

lemma listed_facts:
  "map fst (listed us) = map reference_line us" "list_all wf_user us \<Longrightarrow> list_all reads (listed us)"
  "list_all wf_user us \<Longrightarrow> list_all (\<lambda>z. 0 \<notin> set (u_name (snd z))) (listed us)"
  "find (\<lambda>z. P (snd z)) (listed us) = map_option (\<lambda>u. (reference_line u, u)) (find P us)"
  "map fst (takeWhile (\<lambda>z. P (snd z)) (listed us)) = map reference_line (takeWhile P us)"
  by (induction us)
    (use reference_line_chars user_reference in \<open>auto simp: listed_def reads_def cut_plain wf_user_def plain_def\<close>)

lemma finduserbyname_spec:
  assumes "calm stk" "passwd_of us c" "0 \<notin> set name"
  shows "case find (\<lambda>u. u_name u = name) us of
      None \<Rightarrow> \<exists>usr' off' f'. finduserbyname stk name usr (c, p) = Some (NOTFOUND, usr', off', f') \<and> fst f' = c
    | Some u \<Rightarrow> \<exists>f'. finduserbyname stk name usr (c, p) = Some (0, Some u,
        length (text_of (map reference_line (takeWhile (\<lambda>u. u_name u \<noteq> name) us))) + length (reference_line u) + 1, f') \<and> fst f' = c"
  using finduserbyname_reads[OF assms(1), of "listed us" c name usr p] assms(2,3)
    listed_facts(4)[of "\<lambda>u. u_name u = name" us] listed_facts(5)[of "\<lambda>u. u_name u \<noteq> name" us]
  by (auto simp: passwd_of_def listed_facts(1,2,3) split: option.splits)

lemma find_append: "find P (xs @ ys) = (case find P xs of None \<Rightarrow> find P ys | Some x \<Rightarrow> Some x)"
  by (induction xs) auto

lemma find_split: "find P us = Some u \<Longrightarrow> us = takeWhile (\<lambda>u. \<not> P u) us @ u # tl (dropWhile (\<lambda>u. \<not> P u) us)"
  by (induction us) (auto split: if_splits)

text \<open>May the user with id \<open>uid\<close> who knows \<open>oldpwd\<close> change the password of \<open>u\<close>?\<close>

definition may_change :: "int \<Rightarrow> ustring \<Rightarrow> struct_user \<Rightarrow> bool" where
  "may_change uid oldpwd u \<longleftrightarrow> uid = 0 \<or> u_uid u = uid \<and> (u_pass u = None \<or> u_pass u = Some oldpwd)"

lemma changepass_test:
  assumes "wf_user u" "0 \<notin> set oldpwd"
  shows "uid \<noteq> 0 \<and> (u_uid u \<noteq> uid \<or> (case u_pass u of None \<Rightarrow> False | Some p \<Rightarrow> strcmp p oldpwd \<noteq> 0)) \<longleftrightarrow>
    \<not> may_change uid oldpwd u"
  using assms strcmp_zero[of _ oldpwd] by (auto simp: may_change_def wf_user_def plain_def split: option.splits)

lemma changepass_run:
  assumes "calm (ac_stack s)" "passwd_of us (ac_passwd s)" "ac_open s ''/etc/passwd'' True" "0 \<notin> set name" "0 \<notin> set oldpwd"
    "find (\<lambda>u. u_name u = name) us = Some u" "may_change uid oldpwd u" "10 \<notin> set newpwd"
  shows "\<exists>c. changepass [] uid name oldpwd newpwd s = Some (0, s\<lparr>ac_passwd := c\<rparr>) \<and>
    holds (map reference_line (takeWhile (\<lambda>u. u_name u \<noteq> name) us) @ reference_line (u\<lparr>u_pass := Some newpwd\<rparr>) #
      map reference_line (tl (dropWhile (\<lambda>u. u_name u \<noteq> name) us))) c"
proof -
  let ?pre = "takeWhile (\<lambda>u. u_name u \<noteq> name) us" and ?u = "u\<lparr>u_pass := Some newpwd\<rparr>"
  from find_split[OF assms(6)] have us: "us = ?pre @ u # tl (dropWhile (\<lambda>u. u_name u \<noteq> name) us)" .
  have wf: "wf_user u" using assms(2) us unfolding passwd_of_def by (metis list_all_append list.pred_inject(2))
  from finduserbyname_spec[OF assms(1,2,4), of None 0] assms(6) obtain f where
    f: "finduserbyname (ac_stack s) name None (ac_passwd s, 0) = Some (0, Some u,
        length (text_of (map reference_line ?pre)) + length (reference_line u) + 1, f)" "fst f = ac_passwd s" by auto
  have line: "user_line raw ?u = reference_line ?u" for raw using wf by (intro user_line_reference) (auto simp: wf_user_def)
  have len: "getuserlength u = length (reference_line u)" "reference_line u \<noteq> []"
    using user_line_reference[of u "\<lambda>_. 0"] user_line_length[of "\<lambda>_. 0" u] wf reference_line_chars[OF wf] by (auto simp: wf_user_def)
  have "10 \<notin> set (reference_line ?u)" "reference_line ?u \<noteq> []"
    using reference_line_chars[OF wf] assms(8) by (auto simp: reference_line_def)
  with changeline_at[of "map reference_line ?pre" "reference_line u" "map reference_line (tl (dropWhile (\<lambda>u. u_name u \<noteq> name) us))"
      "ac_passwd s" "reference_line ?u" "snd f"] assms(2) us
  obtain c o' where c: "changeline [] (reference_line ?u) (length (text_of (map reference_line ?pre)) + length (reference_line u) + 1)
      (length (reference_line u)) (ac_passwd s, snd f) = Some ((c, o'), length (text_of (map reference_line ?pre)) + length (reference_line ?u) + 1)"
    and h: "holds (map reference_line ?pre @ reference_line ?u # map reference_line (tl (dropWhile (\<lambda>u. u_name u \<noteq> name) us))) c"
    unfolding passwd_of_def by (metis (no_types, lifting) list.simps(9) map_append)
  have "f = (ac_passwd s, snd f)" using f(2) by (cases f) simp
  with c have "writeuser raw [] ?u (length (text_of (map reference_line ?pre)) + length (reference_line u) + 1) (getuserlength u) f = Some c" for raw
    using len by (simp add: writeuser_def line)
  then show ?thesis using h f changepass_test[OF wf assms(5), of uid] assms(3,7)
    by (auto simp: changepass_def safecopy_def)
qed

lemma changepass_users:
  assumes "calm (ac_stack s)" "passwd_of us (ac_passwd s)" "ac_open s ''/etc/passwd'' True" "0 \<notin> set name" "0 \<notin> set oldpwd"
    "find (\<lambda>u. u_name u = name) us = Some u" "may_change uid oldpwd u" "plain newpwd" "newpwd \<noteq> []"
  shows "\<exists>c. changepass [] uid name oldpwd newpwd s = Some (0, s\<lparr>ac_passwd := c\<rparr>) \<and>
    passwd_of (takeWhile (\<lambda>u. u_name u \<noteq> name) us @ u\<lparr>u_pass := Some newpwd\<rparr> # tl (dropWhile (\<lambda>u. u_name u \<noteq> name) us)) c"
proof -
  have wf: "list_all wf_user (takeWhile (\<lambda>u. u_name u \<noteq> name) us @ u # tl (dropWhile (\<lambda>u. u_name u \<noteq> name) us))"
    using find_split[OF assms(6)] assms(2) unfolding passwd_of_def by metis
  then have "wf_user (u\<lparr>u_pass := Some newpwd\<rparr>)" using assms(8,9) by (simp add: wf_user_def)
  then show ?thesis using wf changepass_run[OF assms(1-7), of newpwd] assms(8) by (auto simp: passwd_of_def plain_def)
qed

lemma getusername_run:
  assumes "calm (ac_stack s)" "passwd_of us (ac_passwd s)" "ac_open s ''/etc/passwd'' False"
  shows "getusername uid s = Some (case find (\<lambda>u. u_uid u = uid) us of None \<Rightarrow> (NOTFOUND, None) | Some u \<Rightarrow> (0, Some (u_name u)))"
  using finduser_reads[OF assms(1), of "(ac_passwd s, 0)" 0 "listed us" BUFSIZE "\<lambda>u. u_uid u \<noteq> uid" None] assms(2,3)
    listed_facts(4)[of "\<lambda>u. u_uid u = uid" us]
  by (auto simp: getusername_def finduserbyuid_def passwd_of_def listed_facts lines_at_def safecopy_def split: option.splits)

lemma authuid_run:
  assumes "calm (ac_stack s)" "passwd_of us (ac_passwd s)" "ac_open s ''/etc/passwd'' False" "0 \<notin> set name" "0 \<notin> set pwd"
  shows "authuid chdir name pwd s = Some (case find (\<lambda>u. u_name u = name) us of
      None \<Rightarrow> (NOTFOUND, None)
    | Some u \<Rightarrow> if u_pass u = None \<or> u_pass u = Some pwd then (chdir (u_home u), Some (u_uid u)) else (AUTHFAIL, None))"
proof (cases "find (\<lambda>u. u_name u = name) us")
  case None
  then show ?thesis using finduserbyname_spec[OF assms(1,2,4), of None 0] assms(3) by (auto simp: authuid_def)
next
  case (Some u)
  then have "wf_user u" using assms(2) by (auto simp: passwd_of_def find_Some_iff list_all_length)
  then have "strcmp p pwd = 0 \<longleftrightarrow> p = pwd" if "u_pass u = Some p" for p
    using that assms(5) by (intro strcmp_zero) (auto simp: wf_user_def plain_def)
  then show ?thesis using Some finduserbyname_spec[OF assms(1,2,4), of None 0] assms(3)
    by (auto simp: authuid_def split: option.splits)
qed

section \<open>Properties\<close>

text \<open>
  C26. Lines of the password file round-trip: the line \<^verbatim>\<open>writeuser\<close> builds for a user whose fields have no
  colon, newline or 0 in them fills its array exactly, and \<^verbatim>\<open>user\<close> reads the same user back from it.
\<close>

theorem user_roundtrip:
  assumes "wf_user u"
  shows "user (cut (user_line raw u)) = Some u \<and> length (user_line raw u) = getuserlength u"
  using assms reference_line_chars[OF assms] user_line_reference[of u raw] user_reference[OF assms] user_line_length[of raw u]
  by (simp add: wf_user_def cut_plain)

definition ex_user :: struct_user where
  "ex_user = \<lparr>u_name = [98, 111, 98], u_pass = Some [112], u_uid = 1001, u_gid = 7, u_full = [66], u_home = [47]\<rparr>"

lemma ex_user_wf: "wf_user ex_user"
  by (simp add: ex_user_def wf_user_def plain_def)

theorem user_roundtrip_witness: "user (cut (user_line (\<lambda>_. 0) ex_user)) = Some ex_user"
  using user_roundtrip[OF ex_user_wf] by simp

text \<open>
  C9. Logging in: on a password file that holds a list of users, \<^verbatim>\<open>authuid\<close> returns, and gives the user id of
  the first user with the name exactly if this user has no password or the one given; it reports a wrong password
  and an unknown name.
\<close>

theorem authuid_correct:
  assumes "calm (ac_stack s)" "passwd_of us (ac_passwd s)" "ac_open s ''/etc/passwd'' False" "0 \<notin> set name" "0 \<notin> set pwd"
  shows "authuid chdir name pwd s = Some (case find (\<lambda>u. u_name u = name) us of
      None \<Rightarrow> (NOTFOUND, None)
    | Some u \<Rightarrow> if u_pass u = None \<or> u_pass u = Some pwd then (chdir (u_home u), Some (u_uid u)) else (AUTHFAIL, None))"
  by (rule authuid_run[OF assms])

definition ex_accounts :: accounts where
  "ex_accounts = \<lparr>ac_passwd = text_of [reference_line ex_user], ac_group = [], ac_open = (\<lambda>_ _. True), ac_stack = (\<lambda>_ _. 0),
     ac_nextuid = 1002, ac_nextgid = 1002, ac_acts = []\<rparr>"

lemma ex_accounts_ok:
  "calm (ac_stack ex_accounts)" "passwd_of [ex_user] (ac_passwd ex_accounts)" "ac_open ex_accounts g b"
  using ex_user_wf reference_line_chars[OF ex_user_wf] by (auto simp: ex_accounts_def calm_def passwd_of_def holds_def)

theorem authuid_correct_witness:
  "authuid (\<lambda>_. 0) [98, 111, 98] [112] ex_accounts = Some (0, Some 1001) \<and>
   authuid (\<lambda>_. 0) [98, 111, 98] [113] ex_accounts = Some (AUTHFAIL, None)"
  by (subst (1 2) authuid_correct[OF ex_accounts_ok(1,2,3)]) (simp_all add: ex_user_def)

text \<open>
  C20. Changing a password: on a password file that holds a list of users, \<^verbatim>\<open>changepass\<close> returns; it changes
  the password of the first user with the name, and nothing else in the file, exactly if the caller is the superuser or
  is this user and knows the old password or there is none. The new password must not contain a colon or a newline.
\<close>

theorem changepass_correct:
  assumes "calm (ac_stack s)" "passwd_of us (ac_passwd s)" "ac_open s ''/etc/passwd'' True" "0 \<notin> set name" "0 \<notin> set oldpwd"
    "plain newpwd" "newpwd \<noteq> []"
  shows "case find (\<lambda>u. u_name u = name) us of
      None \<Rightarrow> changepass [] uid name oldpwd newpwd s = Some (NOTFOUND, s)
    | Some u \<Rightarrow>
        if may_change uid oldpwd u then
          \<exists>c. changepass [] uid name oldpwd newpwd s = Some (0, s\<lparr>ac_passwd := c\<rparr>) \<and>
            passwd_of (takeWhile (\<lambda>u. u_name u \<noteq> name) us @ u\<lparr>u_pass := Some newpwd\<rparr> # tl (dropWhile (\<lambda>u. u_name u \<noteq> name) us)) c
        else changepass [] uid name oldpwd newpwd s = Some (NOPERMS, s)"
proof (cases "find (\<lambda>u. u_name u = name) us")
  case None
  then show ?thesis using finduserbyname_spec[OF assms(1,2,4), of None 0] assms(3) by (auto simp: changepass_def)
next
  case (Some u)
  then have "wf_user u" using assms(2) by (auto simp: passwd_of_def find_Some_iff list_all_length)
  then show ?thesis
    using Some changepass_users[OF assms(1-5) Some _ assms(6,7), of uid] finduserbyname_spec[OF assms(1,2,4), of None 0] assms(3)
      changepass_test[of u oldpwd uid] assms(5)
    by (auto simp: changepass_def)
qed

theorem changepass_correct_witness:
  "\<exists>c. changepass [] 1001 [98, 111, 98] [112] [113] ex_accounts = Some (0, ex_accounts\<lparr>ac_passwd := c\<rparr>) \<and>
    passwd_of [ex_user\<lparr>u_pass := Some [113]\<rparr>] c"
  using changepass_correct[OF ex_accounts_ok(1,2,3), of "[98, 111, 98]" "[112]" "[113]" 1001]
  by (simp add: ex_user_def may_change_def plain_def)

text \<open>
  C39. Nothing keeps a new password from containing colons: a user who may change their own password becomes the
  superuser by choosing one of the form \<open>x:0:0:f:h\<close> and logging in with the password \<open>x\<close>.
\<close>

theorem changepass_injection:
  assumes "calm (ac_stack s)" "passwd_of us (ac_passwd s)" "\<And>w. ac_open s ''/etc/passwd'' w" "plain name" "0 \<notin> set oldpwd"
    "find (\<lambda>u. u_name u = name) us = Some u" "may_change uid oldpwd u" "plain x" "x \<noteq> []" "plain h"
  shows "\<exists>c. changepass [] uid name oldpwd (x @ [58, 48, 58, 48, 58, 58] @ h) s = Some (0, s\<lparr>ac_passwd := c\<rparr>) \<and>
    authuid chdir name x (s\<lparr>ac_passwd := c\<rparr>) = Some (chdir h, Some 0)"
proof -
  let ?pre = "takeWhile (\<lambda>u. u_name u \<noteq> name) us" and ?post = "tl (dropWhile (\<lambda>u. u_name u \<noteq> name) us)"
  let ?w = "x @ [58, 48, 58, 48, 58, 58] @ h"
  define l where "l = reference_line (u\<lparr>u_pass := Some ?w\<rparr>)"
  have "10 \<notin> set ?w" "0 \<notin> set name" using assms(4,8,10) by (auto simp: plain_def)
  with changepass_run[OF assms(1,2) assms(3) _ assms(5-7), of ?w] obtain c where
    c: "changepass [] uid name oldpwd ?w s = Some (0, s\<lparr>ac_passwd := c\<rparr>)"
    and h: "holds (map reference_line ?pre @ l # map reference_line ?post) c" by (auto simp: l_def)
  define v where "v = \<lparr>u_name = name, u_pass = Some x, u_uid = 0, u_gid = 0, u_full = [], u_home = h\<rparr>"
  have us: "us = ?pre @ u # ?post" by (rule find_split[OF assms(6)])
  have wf: "list_all wf_user ?pre" "wf_user u" "list_all wf_user ?post" 
    using assms(2) us unfolding passwd_of_def by (metis list_all_append list.pred_inject(2))+
  have name: "u_name u = name" using assms(6) by (auto simp: find_Some_iff)
  have l: "l = join 58 [name, x, [48], [48], [], h, decimal (nat (u_uid u)), decimal (nat (u_gid u)), u_full u, u_home u]"
    by (simp add: l_def reference_line_def name)
  have "reads (l, v)"
  proof -
    have "0 \<notin> set l" using wf(2) assms(8,10) plain_decimal by (auto simp: l wf_user_def plain_def name)
    moreover have "user l = Some v"
      using user_loop_join[of "[name, x, [48], [48], [], h, decimal (nat (u_uid u)), decimal (nat (u_gid u)), u_full u, u_home u]"
        "[0, 1, 2, 3, 4, 5]" "[]"] wf(2) assms(4,8-10) plain_decimal
      by (auto simp: user_def upt_6 l v_def user_segment_def wf_user_def plain_def atoi_def)
    ultimately show ?thesis by (simp add: reads_def cut_plain)
  qed
  then have zs: "list_all reads (listed ?pre @ (l, v) # listed ?post)"
    "list_all (\<lambda>z. 0 \<notin> set (u_name (snd z))) (listed ?pre @ (l, v) # listed ?post)"
    using wf listed_facts(2,3) assms(4) by (auto simp: v_def plain_def)
  have "find (\<lambda>u. u_name u = name) ?pre = None" by (auto simp: find_None_iff dest: set_takeWhileD)
  then have "find (\<lambda>z. u_name (snd z) = name) (listed ?pre @ (l, v) # listed ?post) = Some (l, v)"
    using listed_facts(4)[of "\<lambda>u. u_name u = name" ?pre] by (simp add: v_def find_append)
  with finduserbyname_reads[OF assms(1) _ zs, of c name None 0] h assms(4) obtain off f where
    "finduserbyname (ac_stack s) name None (c, 0) = Some (0, Some v, off, f)" by (auto simp: listed_facts plain_def)
  then have "authuid chdir name x (s\<lparr>ac_passwd := c\<rparr>) = Some (chdir h, Some 0)"
    using assms(3,8) strcmp_zero[of x x] by (simp add: authuid_def v_def plain_def)
  with c show ?thesis by blast
qed

theorem changepass_injection_witness:
  "\<exists>c. changepass [] 1001 [98, 111, 98] [112] [120, 58, 48, 58, 48, 58, 58, 47] ex_accounts = Some (0, ex_accounts\<lparr>ac_passwd := c\<rparr>) \<and>
    authuid (\<lambda>_. 0) [98, 111, 98] [120] (ex_accounts\<lparr>ac_passwd := c\<rparr>) = Some (0, Some 0)"
  using changepass_injection[OF ex_accounts_ok(1,2,3), of "[98, 111, 98]" "[112]" ex_user 1001 "[120]" "[47]" "\<lambda>_. 0"]
  by (simp add: ex_user_def may_change_def plain_def)

end
