(* ===== verification/Uauthgrp.thy ===== *)
theory Uauthgrp
  imports Uauth
begin

text \<open>
  Groups (\<^verbatim>\<open>user/uauthgrp.c\<close>): the lines of \<^verbatim>\<open>/etc/group\<close>, membership, and changing it. The temporary file of
  \<^verbatim>\<open>changeline\<close> does not exist before, as every call removes it.
\<close>

section \<open>Lines of the group file\<close>

record struct_group =
  g_name :: ustring
  g_gid :: int
  g_users :: "ustring option"

definition getgrouplength :: "struct_group \<Rightarrow> nat" where
  "getgrouplength g = length (g_name g) + 1 + (digitcount (g_gid g) + 1) +
     (case g_users g of None \<Rightarrow> 0 | Some us \<Rightarrow> length us)"

definition group_segment :: "nat \<Rightarrow> ustring \<Rightarrow> nat \<Rightarrow> struct_group \<Rightarrow> struct_group" where
  "group_segment k x n g =
     (if k = 0 then g\<lparr>g_name := x\<rparr>
      else if k = 1 then g\<lparr>g_gid := atoi x\<rparr>
      else if n > 1 then g\<lparr>g_users := Some x\<rparr> else g)"

fun group_loop :: "ustring \<Rightarrow> nat \<Rightarrow> nat list \<Rightarrow> struct_group \<Rightarrow> struct_group option" where
  "group_loop line i [] g = Some g"
| "group_loop line i (k # ks) g =
     (case uptr line i of
        None \<Rightarrow> None
      | Some p \<Rightarrow>
          let n = piece_len 58 p in
          group_loop line (i + n) ks (group_segment k (safecopy p n) n g))"

definition group :: "ustring \<Rightarrow> struct_group option" where
  "group line = group_loop line 0 [0..<3] \<lparr>g_name = [], g_gid = 0, g_users = None\<rparr>"

definition groupfromattr :: "ustring \<Rightarrow> int \<Rightarrow> ustring option \<Rightarrow> struct_group" where
  "groupfromattr name gid users = \<lparr>g_name = safecopy name (length name + 1), g_gid = gid,
     g_users = map_option (\<lambda>us. safecopy us (length us + 1)) users\<rparr>"

definition group_line :: "bytes \<Rightarrow> struct_group \<Rightarrow> u8 list" where
  "group_line raw g = g_name g @ [58] @
     (let n = digitcount (g_gid g) in ncopy (gid_digits (g_gid g) (n - 1) raw) n) @ [58] @
     (case g_users g of None \<Rightarrow> [] | Some us \<Rightarrow> us)"

text \<open>\<^verbatim>\<open>writegroup\<close>: the file and the new value of \<^verbatim>\<open>*offset\<close>.\<close>

definition writegroup :: "bytes \<Rightarrow> struct_group \<Rightarrow> nat \<Rightarrow> nat \<Rightarrow> ufd \<Rightarrow> (ufd \<times> nat) option" where
  "writegroup raw g offset oldlength f =
     (if oldlength = 0 then Some (addline (group_line raw g) f, offset)
      else changeline [] (group_line raw g) offset oldlength f)"

section \<open>Looking groups up\<close>

partial_function (option) findgroup ::
    "(struct_group \<Rightarrow> bool) \<Rightarrow> (nat \<Rightarrow> bytes) \<Rightarrow> struct_group option \<Rightarrow> nat \<Rightarrow> nat \<Rightarrow> ufd \<Rightarrow> (int \<times> struct_group option \<times> nat \<times> ufd) option" where
  "findgroup other stk grp sz offset f =
     (let (code, line, sz', offset', f') = getline (stk offset) sz offset f in
      if code \<noteq> 0 then Some (NOTFOUND, grp, offset', f')
      else Option.bind (group (cut line)) (\<lambda>g.
        if other g then findgroup other stk (Some g) sz' offset' f'
        else Some (0, Some g, offset', f')))"

definition findgroupbyname :: "(nat \<Rightarrow> bytes) \<Rightarrow> ustring \<Rightarrow> struct_group option \<Rightarrow> ufd \<Rightarrow> (int \<times> struct_group option \<times> nat \<times> ufd) option" where
  "findgroupbyname stk name grp f = findgroup (\<lambda>g. strcmp (g_name g) name \<noteq> 0) stk grp BUFSIZE 0 f"

definition findgroupbygid :: "(nat \<Rightarrow> bytes) \<Rightarrow> int \<Rightarrow> struct_group option \<Rightarrow> ufd \<Rightarrow> (int \<times> struct_group option \<times> nat \<times> ufd) option" where
  "findgroupbygid stk gid grp f = findgroup (\<lambda>g. g_gid g \<noteq> gid) stk grp BUFSIZE 0 f"

definition getgroupname :: "int \<Rightarrow> accounts \<Rightarrow> (int \<times> ustring option) option" where
  "getgroupname gid s =
     (if \<not> ac_open s ''/etc/group'' False then Some (NOPERMS, None)
      else Option.bind (findgroupbygid (ac_stack s) gid None (ac_group s, 0)) (\<lambda>(code, grp, offset, f).
        if code \<noteq> 0 then Some (code, None)
        else Option.bind grp (\<lambda>g. Some (0, Some (safecopy (g_name g) (length (g_name g) + 1))))))"

definition getgidforname :: "ustring \<Rightarrow> accounts \<Rightarrow> (int \<times> int option) option" where
  "getgidforname name s =
     (if \<not> ac_open s ''/etc/group'' False then Some (NOPERMS, None)
      else Option.bind (findgroupbyname (ac_stack s) name None (ac_group s, 0)) (\<lambda>(code, grp, offset, f).
        Option.bind grp (\<lambda>g. Some (code, Some (g_gid g)))))"

text \<open>\<^verbatim>\<open>getgids\<close>: the loop over the lines of the file adds the ids of the groups of a user to \<open>gids\<close>.\<close>

partial_function (option) getgids_loop :: "(nat \<Rightarrow> bytes) \<Rightarrow> ustring \<Rightarrow> int list \<Rightarrow> nat \<Rightarrow> nat \<Rightarrow> ufd \<Rightarrow> int list option" where
  "getgids_loop stk name gids sz offset f =
     (let (code, line, sz', offset', f') = getline (stk offset) sz offset f in
      if code \<noteq> 0 then Some gids
      else Option.bind (group (cut line)) (\<lambda>g.
        case g_users g of
          None \<Rightarrow> getgids_loop stk name gids sz' offset' f'
        | Some us \<Rightarrow>
            getgids_loop stk name (if findstrinsetdivsep name us 44 \<ge> 0 then gids @ [g_gid g] else gids) sz' offset' f'))"

definition getgids :: "ustring \<Rightarrow> int list \<Rightarrow> accounts \<Rightarrow> (int \<times> int list) option" where
  "getgids name gids s =
     (if \<not> ac_open s ''/etc/group'' False then Some (NOPERMS, gids)
      else Option.bind (getgids_loop (ac_stack s) name gids BUFSIZE 0 (ac_group s, 0)) (\<lambda>gids. Some (0, gids)))"

section \<open>Changing membership\<close>

definition addusertogroup :: "ustring \<Rightarrow> struct_group \<Rightarrow> int \<times> struct_group" where
  "addusertogroup name g =
     (case g_users g of
        None \<Rightarrow> (0, g\<lparr>g_users := Some (safecopy name (length name + 1))\<rparr>)
      | Some us \<Rightarrow>
          let code = findstrinsetdivsep name us 44 in
          if code > 0 then (1, g)
          else if code < 0 \<and> code \<noteq> NOTFOUND then (code, g)
          else (0, g\<lparr>g_users := Some (us @ [44] @ safecopy name (length name + 1))\<rparr>))"

text \<open>
  \<^verbatim>\<open>removeuserfromgroup\<close>; there is no result for a group without users, and where the end of the new list
  would be read from behind the old one.
\<close>

definition removeuserfromgroup :: "ustring \<Rightarrow> struct_group \<Rightarrow> (int \<times> struct_group) option" where
  "removeuserfromgroup name g =
     Option.bind (g_users g) (\<lambda>us.
       let code = findstrinsetdivsep name us 44 in
       if code < 0 then Some (code, g)
       else
         let n = (case strchr (drop (nat code) us) 44 of Some k \<Rightarrow> int k | None \<Rightarrow> int (length us) - code) in
         if strchr (drop (nat code) us) 44 = None \<and> n \<ge> int (length us) then Some (0, g\<lparr>g_users := None\<rparr>)
         else
           let n' = (if code > 0 then n + 1 else n);
               code' = (if code > 0 then code - 1 else code);
               end' = code' + n' + 1
           in if end' > int (length us) then None
              else Some (0, g\<lparr>g_users := Some (take (nat code') us @ drop (nat end') us)\<rparr>))"

text \<open>\<^verbatim>\<open>updateusername\<close>: every group with users is rewritten in place.\<close>

partial_function (option) updateusername_loop ::
    "(nat \<Rightarrow> bytes) \<Rightarrow> ustring \<Rightarrow> ustring \<Rightarrow> nat \<Rightarrow> nat \<Rightarrow> ufd \<Rightarrow> ufd option" where
  "updateusername_loop stk name new sz offset f =
     (let (code, line, sz', offset', f') = getline (stk offset) sz offset f in
      if code \<noteq> 0 then Some f'
      else Option.bind (group (cut line)) (\<lambda>g.
        if g_users g = None then updateusername_loop stk name new sz' offset' f'
        else
          Option.bind (removeuserfromgroup name g) (\<lambda>(code, h).
          Option.bind (writegroup (stk offset') (if code \<ge> 0 then snd (addusertogroup new h) else h) offset' (getgrouplength g) f')
            (\<lambda>(f'', offset''). updateusername_loop stk name new sz' offset'' f''))))"

definition updateusername :: "ustring \<Rightarrow> ustring \<Rightarrow> accounts \<Rightarrow> (int \<times> accounts) option" where
  "updateusername name new s =
     (if \<not> ac_open s ''/etc/group'' True then Some (NOPERMS, s)
      else Option.bind (updateusername_loop (ac_stack s) name new BUFSIZE 0 (ac_group s, 0)) (\<lambda>f.
        Some (0, s\<lparr>ac_group := fst f\<rparr>)))"

text \<open>\<^verbatim>\<open>addgroup\<close>, with its search for an id that is not taken.\<close>

partial_function (option) freegid :: "(nat \<Rightarrow> bytes) \<Rightarrow> int \<Rightarrow> ufd \<Rightarrow> int option" where
  "freegid stk gid f =
     Option.bind (findgroupbygid stk gid None f) (\<lambda>(code, grp, offset, f').
       if code = 0 then freegid stk (gid + 1) f' else Some gid)"

definition addgroup :: "ustring \<Rightarrow> int \<Rightarrow> accounts \<Rightarrow> (int \<times> accounts) option" where
  "addgroup name gid s =
     (if \<not> ac_open s ''/etc/group'' True then Some (NOPERMS, s)
      else
        Option.bind (findgroupbyname (ac_stack s) name None (ac_group s, 0)) (\<lambda>(code, grp, offset, f).
        if code = 0 then Some (RESERVED, s)
        else if gid = 0 then
          Option.bind (freegid (ac_stack s) (ac_nextgid s) f) (\<lambda>id.
          Option.bind (writegroup (ac_stack s 0) (groupfromattr name id None) 0 0 f) (\<lambda>(g, o').
            Some (0, s\<lparr>ac_group := fst g, ac_nextgid := id + 1\<rparr>)))
        else
          Option.bind (findgroupbygid (ac_stack s) gid None f) (\<lambda>(code, grp, offset, f).
          if code = 0 then Some (RESERVED, s)
          else Option.bind (writegroup (ac_stack s 0) (groupfromattr name gid None) 0 0 f) (\<lambda>(g, o').
            Some (0, s\<lparr>ac_group := fst g\<rparr>)))))"

text \<open>
  \<^verbatim>\<open>changegroups\<close>: the first loop runs while \<^verbatim>\<open>getline\<close> fails, and then on a line that was not read; the
  second one adds the user to each group named.
\<close>

function changegroups_loop :: "(nat \<Rightarrow> bytes) \<Rightarrow> ustring \<Rightarrow> ustring \<Rightarrow> nat \<Rightarrow> ufd \<Rightarrow> ufd option" where
  "changegroups_loop stk name groups i f =
     (if i < length groups then
        let n = piece_len 44 (drop i groups) in
        Option.bind (findgroupbyname stk (safecopy (drop i groups) n) None f) (\<lambda>(code, grp, offset, f').
          if code < 0 then changegroups_loop stk name groups (i + n) f'
          else Option.bind grp (\<lambda>g.
            Option.bind (writegroup (stk offset) (snd (addusertogroup name g)) offset (getgrouplength g) f') (\<lambda>(f'', o').
              changegroups_loop stk name groups (i + n) f'')))
      else Some f)"
  by pat_completeness auto
termination
  by (relation "measure (\<lambda>(stk, name, groups, i, f). length groups - i)") (auto simp: piece_len_def split: option.splits)

declare changegroups_loop.simps [simp del]

definition changegroups :: "ustring \<Rightarrow> ustring \<Rightarrow> int \<Rightarrow> accounts \<Rightarrow> (int \<times> accounts) option" where
  "changegroups name groups flag s =
     (if \<not> ac_open s ''/etc/group'' True then Some (NOPERMS, s)
      else
        let (code, line, sz, offset, f) =
          (if flag \<noteq> 1 then getline (ac_stack s 0) BUFSIZE 0 (ac_group s, 0) else (0, [], BUFSIZE, 0, (ac_group s, 0))) in
        if code \<noteq> 0 then None
        else Option.bind (changegroups_loop (ac_stack s) name groups 0 f) (\<lambda>g. Some (0, s\<lparr>ac_group := fst g\<rparr>)))"

section \<open>The group file as a list of groups\<close>

text \<open>A group as the file means it: a name, an id and the names of its members.\<close>

type_synonym groupspec = "ustring \<times> int \<times> ustring list"

definition wf_group :: "groupspec \<Rightarrow> bool" where
  "wf_group g \<longleftrightarrow> (case g of (name, gid, ms) \<Rightarrow>
     plain name \<and> 0 \<le> gid \<and> gid < 2 ^ 31 \<and> list_all plain ms \<and> names_ok 44 ms)"

definition group_of :: "groupspec \<Rightarrow> struct_group" where
  "group_of g = (case g of (name, gid, ms) \<Rightarrow>
     \<lparr>g_name = name, g_gid = gid, g_users = (if ms = [] then None else Some (join 44 ms))\<rparr>)"

definition group_text :: "groupspec \<Rightarrow> u8 list" where
  "group_text g = (case g of (name, gid, ms) \<Rightarrow> join 58 [name, decimal (nat gid), join 44 ms])"

definition groups_of :: "groupspec list \<Rightarrow> u8 list \<Rightarrow> bool" where
  "groups_of gs c \<longleftrightarrow> list_all wf_group gs \<and> holds (map group_text gs) c"

fun group_segments :: "nat list \<Rightarrow> ustring list \<Rightarrow> struct_group \<Rightarrow> struct_group" where
  "group_segments (k # ks) (a # as) g = group_segments ks as (group_segment k a (length a + 1) g)"
| "group_segments ks as g = g"

lemma group_loop_join:
  assumes "list_all (\<lambda>a. 58 \<notin> set a) as" "length ks \<le> length as"
  shows "group_loop (pre @ join 58 as) (length pre) ks g = Some (group_segments ks as g)"
  using assms
proof (induction "58 :: u8" as arbitrary: pre ks g rule: join.induct)
  case 1
  then show ?case by simp
next
  case (2 a)
  then show ?case by (cases ks) (simp_all add: Let_def)
next
  case (3 a b as)
  then show ?case
  proof (cases ks)
    case (Cons k ks')
    then show ?thesis using 3(1)[of ks' "pre @ a @ [58]"] 3(2,3) by (simp add: Let_def add.assoc)
  qed simp
qed

lemma join_chars: "list_all plain ms \<Longrightarrow> plain (join 44 ms)"
  by (induction "44 :: u8" ms rule: join.induct) (auto simp: plain_def)

lemma join_eq_Nil: "names_ok sep ms \<Longrightarrow> join sep ms = [] \<longleftrightarrow> ms = []"
  by (cases "(sep, ms)" rule: join.cases) (auto simp: names_ok_def)

lemma group_text_chars: "wf_group g \<Longrightarrow> 0 \<notin> set (group_text g) \<and> 10 \<notin> set (group_text g) \<and> group_text g \<noteq> []"
  using plain_decimal join_chars by (auto simp: wf_group_def group_text_def plain_def split: prod.splits)

lemma upt_3: "[0..<3] = [0, 1, 2 :: nat]"
  by code_simp

lemma group_text_group:
  assumes "wf_group g"
  shows "group (cut (group_text g)) = Some (group_of g)"
proof -
  obtain name gid ms where g: "g = (name, gid, ms)" by (cases g)
  have w: "plain name" "0 \<le> gid" "gid < 2 ^ 31" "plain (join 44 ms)" "names_ok 44 ms"
    using assms by (auto simp: wf_group_def g join_chars)
  have "cut (group_text g) = group_text g" using group_text_chars[OF assms] by (simp add: cut_plain)
  moreover have "group (group_text g) = Some (group_segments [0, 1, 2] [name, decimal (nat gid), join 44 ms]
      \<lparr>g_name = [], g_gid = 0, g_users = None\<rparr>)"
    using group_loop_join[of "[name, decimal (nat gid), join 44 ms]" "[0, 1, 2]" "[]"] w plain_decimal
    unfolding group_def upt_3 group_text_def g by (simp add: plain_def)
  moreover have "\<dots> = Some (group_of g)"
    using w join_eq_Nil[of 44 ms] by (simp add: group_segment_def group_of_def g atoi_decimal nat_less_iff)
  ultimately show ?thesis by simp
qed

lemma getgids_loop_spec:
  assumes "calm stk" "lines_at (fst f) off (map group_text gs)" "list_all wf_group gs" "1 < sz" "0 \<notin> set name"
  shows "getgids_loop stk name gids sz off f = Some (gids @ map (\<lambda>(n, i, ms). i) (filter (\<lambda>(n, i, ms). name \<in> set ms) gs))"
  using assms
proof (induction gs arbitrary: gids sz off f)
  case Nil
  then obtain f' where "getline (stk off) sz off f = (-1, [], sz, off, f')"
    using getline_at_end[OF Nil.prems(1) _ Nil.prems(4), of f off] by (simp del: split_paired_Ex) blast
  then show ?case by (simp add: getgids_loop.simps[of stk name gids sz off])
next
  case (Cons g gs)
  from getline_at[OF Cons.prems(1), of f off "group_text g" "map group_text gs" sz] Cons.prems
  obtain sz' f' where l: "getline (stk off) sz off f = (0, group_text g, sz', off + length (group_text g) + 1, f')"
    and f': "fst f' = fst f" "1 < sz'" "lines_at (fst f) (off + length (group_text g) + 1) (map group_text gs)"
    by auto
  have g: "group (cut (group_text g)) = Some (group_of g)" using Cons.prems(3) by (simp add: group_text_group)
  obtain n i ms where gs: "g = (n, i, ms)" by (cases g)
  have ok: "names_ok 44 ms" using Cons.prems(3) by (simp add: gs wf_group_def)
  have IH: "getgids_loop stk name gids' sz' (off + length (group_text g) + 1) f' =
      Some (gids' @ map (\<lambda>(n, i, ms). i) (filter (\<lambda>(n, i, ms). name \<in> set ms) gs))" for gids'
    using Cons.IH[OF Cons.prems(1), of f'] f' Cons.prems(3,5) by simp
  have "findstrinsetdivsep name (join 44 ms) 44 \<ge> 0 \<longleftrightarrow> name \<in> set ms"
    using findstrinsetdivsep_join[OF ok Cons.prems(5)] place_None[of name ms] by (auto split: option.splits)
  then show ?case using IH by (subst getgids_loop.simps) (auto simp: l g[unfolded gs] gs group_of_def)
qed

lemma join_append: "xs \<noteq> [] \<Longrightarrow> ys \<noteq> [] \<Longrightarrow> join sep (xs @ ys) = join sep xs @ sep # join sep ys"
proof (induction xs)
  case (Cons a xs)
  then show ?case by (cases "xs = []") (auto simp: join_Cons)
qed simp

lemma join_last: "join sep (xs @ [a @ b] @ ys) = join sep (xs @ [a]) @ join sep (b # ys)"
  by (induction xs) (cases ys; simp add: join_Cons)+

lemma place_append: "xs \<noteq> [] \<Longrightarrow> str \<notin> set xs \<Longrightarrow> place str (xs @ str # ys) = Some (length (join sep xs) + 1)"
proof (induction xs)
  case (Cons a xs)
  then show ?case by (cases "xs = []") (auto simp: join_Cons)
qed simp

lemma getgids_run:
  assumes "calm (ac_stack s)" "groups_of gs (ac_group s)" "ac_open s ''/etc/group'' False" "0 \<notin> set name"
  shows "getgids name gids s = Some (0, gids @ map (\<lambda>(n, i, ms). i) (filter (\<lambda>(n, i, ms). name \<in> set ms) gs))"
proof -
  have "lines_at (fst (ac_group s, 0)) 0 (map group_text gs)" "list_all wf_group gs"
    using assms(2) by (auto simp: groups_of_def lines_at_def)
  from getgids_loop_spec[OF assms(1) this _ assms(4), of BUFSIZE gids] show ?thesis
    using assms(3) by (simp add: getgids_def)
qed

section \<open>Properties\<close>

text \<open>
  C25. Groups of a user: on a group file that holds a list of groups, \<^verbatim>\<open>getgids\<close> returns, and appends to the array it is
  given the ids of exactly the groups the user is a member of, in the order of the file.
\<close>

theorem getgids_correct:
  assumes "calm (ac_stack s)" "groups_of gs (ac_group s)" "ac_open s ''/etc/group'' False" "0 \<notin> set name"
  shows "getgids name gids s = Some (0, gids @ map (\<lambda>(n, i, ms). i) (filter (\<lambda>(n, i, ms). name \<in> set ms) gs))"
  by (rule getgids_run[OF assms])

definition ex_groups :: accounts where
  "ex_groups = ex_accounts\<lparr>ac_group := text_of (map group_text [([97], 5, [[98, 111, 98], [120]]), ([99], 6, []), ([100], 7, [[120], [98, 111, 98]])])\<rparr>"

lemma ex_groups_ok:
  "groups_of [([97], 5, [[98, 111, 98], [120]]), ([99], 6, []), ([100], 7, [[120], [98, 111, 98]])] (ac_group ex_groups)"
  by (auto simp: groups_of_def ex_groups_def ex_accounts_def holds_def wf_group_def plain_def names_ok_def
      group_text_def decimal.simps)

theorem getgids_correct_witness: "getgids [98, 111, 98] [] ex_groups = Some (0, [5, 7])"
  using getgids_correct[OF _ ex_groups_ok, of "[98, 111, 98]" "[]"] by (simp add: ex_groups_def ex_accounts_def calm_def)

text \<open>
  Removing a member who is not the first of the list goes wrong: between two others it joins the names of
  the two neighbours to one name, and at the end of the list it makes a string without an end.
\<close>

theorem removeuser_merges:
  assumes "names_ok 44 (xs @ [a, name, b] @ ys)" "name \<notin> set (xs @ [a])"
  shows "removeuserfromgroup name (g\<lparr>g_users := Some (join 44 (xs @ [a, name, b] @ ys))\<rparr>) =
      Some (0, g\<lparr>g_users := Some (join 44 (xs @ [a @ b] @ ys))\<rparr>) \<and>
    removeuserfromgroup name (g\<lparr>g_users := Some (join 44 (xs @ [a, name]))\<rparr>) = None"
proof -
  define J where "J = join 44 (xs @ [a])"
  define R where "R = join 44 (b # ys)"
  have n: "44 \<notin> set name" "0 \<notin> set name" "names_ok 44 (xs @ [a, name])" using assms(1) by (auto simp: names_ok_def)
  have us: "join 44 (xs @ [a, name, b] @ ys) = J @ 44 # name @ 44 # R"
    using join_append[of "xs @ [a]" "name # b # ys" 44] by (simp add: J_def R_def join_Cons)
  have us': "join 44 (xs @ [a, name]) = J @ 44 # name" using join_append[of "xs @ [a]" "[name]" 44] by (simp add: J_def)
  have find: "findstrinsetdivsep name (J @ 44 # name @ 44 # R) 44 = int (length J + 1)"
    "findstrinsetdivsep name (J @ 44 # name) 44 = int (length J + 1)"
    using findstrinsetdivsep_join[OF assms(1) n(2)] findstrinsetdivsep_join[OF n(3) n(2)]
      place_append[of "xs @ [a]" name "b # ys" 44] place_append[of "xs @ [a]" name "[]" 44] assms(2)
    by (simp_all add: us[simplified] us' J_def[symmetric])
  have d: "drop (Suc (length J)) (J @ 44 # name @ 44 # R) = name @ 44 # R" "drop (Suc (length J)) (J @ 44 # name) = name" by simp_all
  have "nat (1 + int (length J)) = Suc (length J)" by simp
  then show ?thesis
    unfolding us us' join_last
    using n(1) by (simp add: removeuserfromgroup_def find d Let_def J_def[symmetric] R_def[symmetric] nat_add_distrib)
qed

theorem removeuser_merges_witness:
  "removeuserfromgroup [98] \<lparr>g_name = [120], g_gid = 5, g_users = Some [97, 44, 98, 44, 99]\<rparr> =
    Some (0, \<lparr>g_name = [120], g_gid = 5, g_users = Some [97, 99]\<rparr>)"
  using removeuser_merges[of "[]" "[97]" "[98]" "[99]" "[]" "\<lparr>g_name = [120], g_gid = 5, g_users = None\<rparr>"]
  by (simp add: names_ok_def)

end
