(* ===== verification/Login.thy ===== *)
theory Login
  imports Uauthgrp
begin

text \<open>
  Adding and changing users (\<^verbatim>\<open>adduser\<close> and \<^verbatim>\<open>changeuser\<close> of \<^verbatim>\<open>user/uauth.c\<close>) and the programs that log
  users in and change passwords (\<^verbatim>\<open>user/getty.c\<close>, \<^verbatim>\<open>user/passwd.c\<close>).
\<close>

section \<open>Adding and changing users\<close>

definition userfromattr :: "ustring \<Rightarrow> ustring option \<Rightarrow> int \<Rightarrow> int \<Rightarrow> ustring \<Rightarrow> ustring \<Rightarrow> accounts \<Rightarrow> struct_user \<times> accounts" where
  "userfromattr name pwd uid gid full home s =
     (\<lparr>u_name = safecopy name (length name + 1), u_pass = map_option (\<lambda>p. safecopy p (length p + 1)) pwd, u_uid = uid, u_gid = gid,
       u_full = safecopy full (length full + 1), u_home = safecopy home (length home + 1)\<rparr>,
      s\<lparr>ac_acts := ac_acts s @ [Mkdir home, Chown home uid uid]\<rparr>)"

partial_function (option) freeuid :: "(nat \<Rightarrow> bytes) \<Rightarrow> int \<Rightarrow> ufd \<Rightarrow> int option" where
  "freeuid stk uid f =
     Option.bind (finduserbyuid stk uid None f) (\<lambda>(code, usr, offset, f').
       if code = 0 then freeuid stk (uid + 1) f' else Some uid)"

text \<open>The part of \<^verbatim>\<open>adduser\<close> after the user id has been chosen.\<close>

definition adduser_as :: "ustring \<Rightarrow> int \<Rightarrow> ustring \<Rightarrow> ustring \<Rightarrow> ufd \<Rightarrow> accounts \<Rightarrow> (int \<times> accounts) option" where
  "adduser_as name uid full home f s =
     (let (u, s1) = userfromattr name None uid uid full home s in
      Option.bind (addgroup name uid s1) (\<lambda>(code, s2).
        if code < 0 then Some (RESERVED, s2)
        else Option.bind (changegroups name name 0 s2) (\<lambda>(code, s3).
          if code < 0 then Some (UNKNOWN, s3)
          else Option.bind (writeuser (ac_stack s 0) [] u 0 0 f) (\<lambda>c. Some (0, s3\<lparr>ac_passwd := c\<rparr>)))))"

definition adduser :: "ustring \<Rightarrow> int \<Rightarrow> ustring \<Rightarrow> ustring \<Rightarrow> accounts \<Rightarrow> (int \<times> accounts) option" where
  "adduser name uid full home s =
     (if \<not> ac_open s ''/etc/passwd'' True then Some (NOPERMS, s)
      else
        Option.bind (finduserbyname (ac_stack s) name None (ac_passwd s, 0)) (\<lambda>(code, usr, offset, f).
        if code = 0 then Some (RESERVED, s)
        else if uid = 0 then
          Option.bind (freeuid (ac_stack s) (ac_nextuid s) f) (\<lambda>id.
            adduser_as name id full home f (s\<lparr>ac_nextuid := id + 1\<rparr>))
        else
          Option.bind (finduserbyuid (ac_stack s) uid usr f) (\<lambda>(code, usr, offset, f).
            if code = 0 then Some (RESERVED, s) else adduser_as name uid full home f s)))"

text \<open>\<^verbatim>\<open>changeuser\<close>: a null pointer is \<open>None\<close>, the id 0 stands for no change of the id.\<close>

definition change_fields :: "ustring option \<Rightarrow> int \<Rightarrow> ustring option \<Rightarrow> ustring option \<Rightarrow> bool \<Rightarrow> struct_user \<Rightarrow> struct_user \<times> uact list" where
  "change_fields new uid full home m u =
     (let u1 = (case new of None \<Rightarrow> u | Some n \<Rightarrow> u\<lparr>u_name := safecopy n (length n + 1)\<rparr>);
          u2 = (if uid \<noteq> 0 then u1\<lparr>u_uid := uid\<rparr> else u1);
          a2 = (if uid \<noteq> 0 then [ChownAll (u_home u2) (u_uid u2) (u_uid u2)] else []);
          u3 = (case full of None \<Rightarrow> u2 | Some n \<Rightarrow> u2\<lparr>u_full := safecopy n (length n + 1)\<rparr>)
      in case home of
           None \<Rightarrow> (u3, a2)
         | Some h \<Rightarrow> (u3\<lparr>u_home := safecopy h (length h + 1)\<rparr>,
             a2 @ [if m then Move (u_home u3) h else Mkdir h, ChownAll h (u_uid u3) (u_uid u3)]))"

definition changeuser ::
    "ustring \<Rightarrow> ustring option \<Rightarrow> int \<Rightarrow> ustring option \<Rightarrow> ustring option \<Rightarrow> bool \<Rightarrow> accounts \<Rightarrow> (int \<times> accounts) option" where
  "changeuser name new uid full home m s =
     (if \<not> ac_open s ''/etc/passwd'' True then Some (NOPERMS, s)
      else
        Option.bind (case new of None \<Rightarrow> Some (NOTFOUND, None, 0, (ac_passwd s, 0))
                     | Some n \<Rightarrow> finduserbyname (ac_stack s) n None (ac_passwd s, 0)) (\<lambda>(code, usr, offset, f).
        if code = 0 then Some (RESERVED, s)
        else
        Option.bind (if uid = 0 then Some (NOTFOUND, usr, 0, f) else finduserbyuid (ac_stack s) uid usr f) (\<lambda>(code, usr, offset, f).
        if code = 0 then Some (RESERVED, s)
        else
        Option.bind (finduserbyname (ac_stack s) name None f) (\<lambda>(code, usr, offset, f).
        if code < 0 then Some (code, s)
        else
        Option.bind usr (\<lambda>u.
          let (u', acts) = change_fields new uid full home m u; s1 = s\<lparr>ac_acts := ac_acts s @ acts\<rparr> in
          Option.bind (writeuser (ac_stack s offset) [] u' offset (getuserlength u) f) (\<lambda>c.
            case new of
              None \<Rightarrow> Some (0, s1\<lparr>ac_passwd := c\<rparr>)
            | Some n \<Rightarrow> map_option (\<lambda>(code, t). (0, t)) (updateusername name n (s1\<lparr>ac_passwd := c\<rparr>))))))))"

section \<open>Logging in\<close>

text \<open>\<^verbatim>\<open>getinput\<close>: the line read with its newline, and the input left; no result at the end of the input.\<close>

definition getinput :: "nat \<Rightarrow> u8 list \<Rightarrow> (ustring \<times> u8 list) option" where
  "getinput nbuf inp = (let (s, rest) = gets nbuf inp in if uch s 0 = 0 then None else Some (cut s, rest))"

text \<open>
  The second half of \<^verbatim>\<open>getty\<close>: the comparison of the function \<^verbatim>\<open>authuid\<close> with 0 is never true, so the groups of
  the user are added to \<open>gids\<close> whatever \<^verbatim>\<open>authuid\<close> returned. The result is the code, the user id stored, and the groups.
\<close>

definition getty_auth :: "(ustring \<Rightarrow> int) \<Rightarrow> ustring \<Rightarrow> ustring \<Rightarrow> int list \<Rightarrow> accounts \<Rightarrow> (int \<times> int option \<times> int list) option" where
  "getty_auth chdir name pwd gids s =
     Option.bind (authuid chdir name pwd s) (\<lambda>(success, uid).
     Option.bind (getgids name gids s) (\<lambda>(code, gids').
       Some (success, uid, gids')))"

text \<open>\<^verbatim>\<open>getty\<close>, with the input left after it; \<open>Some None\<close> where it exits at the end of the input.\<close>

definition getty :: "(ustring \<Rightarrow> int) \<Rightarrow> int list \<Rightarrow> accounts \<Rightarrow> u8 list \<Rightarrow> ((int \<times> int option \<times> int list) \<times> u8 list) option option" where
  "getty chdir gids s inp =
     (case getinput 100 inp of
        None \<Rightarrow> Some None
      | Some (b, inp1) \<Rightarrow>
         (case getinput 100 inp1 of
            None \<Rightarrow> Some None
          | Some (b', inp2) \<Rightarrow>
              map_option (\<lambda>r. Some (r, inp2)) (getty_auth chdir (safecopy b (length b)) (safecopy b' (length b')) gids s)))"

text \<open>
  The loop of \<^verbatim>\<open>main\<close> over attempts to log in. It ends with the ids given to \<^verbatim>\<open>setuid\<close> and \<^verbatim>\<open>setgrps\<close>, or with
  \<^verbatim>\<open>exit\<close> at the end of the input.
\<close>

datatype login_end = LoggedIn "int option" "int list" | LoginExit

lemma getinput_shorter: "getinput n inp = Some (b, rest) \<Longrightarrow> length rest < length inp"
  by (cases "gets n inp") (auto simp: getinput_def gets_def uch_def dest: gets_from_split split: if_splits)

lemma getty_shorter: "getty chdir gids s inp = Some (Some (r, rest)) \<Longrightarrow> length rest < length inp"
  by (fastforce simp: getty_def dest!: getinput_shorter split: option.splits)

function login :: "(ustring \<Rightarrow> int) \<Rightarrow> int option \<Rightarrow> int list \<Rightarrow> accounts \<Rightarrow> u8 list \<Rightarrow> login_end option" where
  "login chdir uid gids s inp =
     (case getty chdir gids s inp of
        None \<Rightarrow> None
      | Some None \<Rightarrow> Some LoginExit
      | Some (Some ((success, uid', gids'), inp2)) \<Rightarrow>
          let uid'' = (case uid' of None \<Rightarrow> uid | Some x \<Rightarrow> Some x) in
          if success \<noteq> 0 then login chdir uid'' gids' s inp2 else Some (LoggedIn uid'' gids'))"
  by pat_completeness auto
termination
  by (relation "measure (\<lambda>(chdir, uid, gids, s, inp). length inp)") (auto dest!: getty_shorter)

declare login.simps [simp del]

section \<open>Changing one's password\<close>

text \<open>
  \<^verbatim>\<open>main\<close> of \<^verbatim>\<open>user/passwd.c\<close>, run by the user \<open>uid\<close> with the name \<open>arg\<close> as its argument, if there is one: the
  message printed at the end and the accounts. The array for the name has 128 bytes; a longer argument is stored past its end.
\<close>

definition passwd :: "u8 list \<Rightarrow> int \<Rightarrow> ustring option \<Rightarrow> u8 list \<Rightarrow> accounts \<Rightarrow> (string \<times> accounts) option" where
  "passwd tmp uid arg inp s =
     (case getinput 100 inp of None \<Rightarrow> Some ([], s) | Some (b, inp1) \<Rightarrow>
     (case getinput 100 inp1 of None \<Rightarrow> Some ([], s) | Some (b1, inp2) \<Rightarrow>
     (case getinput 100 inp2 of None \<Rightarrow> Some ([], s) | Some (b2, inp3) \<Rightarrow>
       let oldpwd = safecopy b (length b); newpwd = safecopy b1 (length b1); newpwdagain = safecopy b2 (length b2) in
       if strcmp newpwd newpwdagain \<noteq> 0 then Some (''Your new password didn't match.'', s)
       else Option.bind (case arg of
              Some a \<Rightarrow> if length a + 1 \<le> 128 then Some (Some a) else None
            | None \<Rightarrow> Option.bind (getusername uid s) (\<lambda>(code, n). if code \<noteq> 0 then Some None else Some n)) (\<lambda>name.
         case name of
           None \<Rightarrow> Some (''User not found.'', s)
         | Some n \<Rightarrow> Option.bind (changepass tmp uid n oldpwd newpwd s) (\<lambda>(code, s').
             Some (if code = NOTFOUND then ''User not found.''
                   else if code = AUTHFAIL then ''Password change failed. Authentication error''
                   else if code < 0 then ''Unknown error''
                   else ''Password changed successfully.'', s'))))))"

section \<open>What logging in does\<close>

definition typable :: "ustring \<Rightarrow> bool" where
  "typable l \<longleftrightarrow> 0 \<notin> set l \<and> 10 \<notin> set l \<and> 13 \<notin> set l \<and> length l < 99"

definition typed :: "(ustring \<times> ustring) list \<Rightarrow> u8 list" where
  "typed as = concat (map (\<lambda>(n, p). n @ 10 # p @ [10]) as)"

definition member_gids :: "groupspec list \<Rightarrow> ustring \<Rightarrow> int list" where
  "member_gids gs name = map (\<lambda>(n, i, ms). i) (filter (\<lambda>(n, i, ms). name \<in> set ms) gs)"

definition refused :: "struct_user list \<Rightarrow> ustring \<times> ustring \<Rightarrow> bool" where
  "refused us a \<longleftrightarrow> (case find (\<lambda>u. u_name u = fst a) us of
     None \<Rightarrow> True | Some u \<Rightarrow> u_pass u \<noteq> None \<and> u_pass u \<noteq> Some (snd a))"

lemma getinput_typed: "typable l \<Longrightarrow> getinput 100 (l @ 10 # rest) = Some (l @ [10], rest)"
  using gets_line[of l 0 100 rest]
  by (cases l) (auto simp: getinput_def gets_def typable_def uch_def cut_def takeWhile_append)

lemma login_attempt:
  assumes "typable n" "typable p"
  shows "login chdir uid gids s (typed [(n, p)] @ rest) =
    (case getty_auth chdir n p gids s of
       None \<Rightarrow> None
     | Some (success, uid', gids') \<Rightarrow>
         let uid'' = (case uid' of None \<Rightarrow> uid | Some x \<Rightarrow> Some x) in
         if success \<noteq> 0 then login chdir uid'' gids' s rest else Some (LoggedIn uid'' gids'))"
  using getinput_typed[OF assms(1), of "p @ 10 # rest"] getinput_typed[OF assms(2), of rest]
  by (subst login.simps) (simp add: getty_def typed_def safecopy_def split: option.splits)

lemma getty_run:
  assumes "calm (ac_stack s)" "passwd_of us (ac_passwd s)" "groups_of gs (ac_group s)"
    "ac_open s ''/etc/passwd'' False" "ac_open s ''/etc/group'' False" "typable n" "typable p"
  shows "getty_auth chdir n p gids s = Some (case find (\<lambda>u. u_name u = n) us of
      None \<Rightarrow> (NOTFOUND, None, gids @ member_gids gs n)
    | Some u \<Rightarrow> if u_pass u = None \<or> u_pass u = Some p then (chdir (u_home u), Some (u_uid u), gids @ member_gids gs n)
        else (AUTHFAIL, None, gids @ member_gids gs n))"
  using authuid_run[OF assms(1,2,4), of n p chdir] getgids_run[OF assms(1,3,5), of n gids] assms(6,7)
  by (auto simp: getty_auth_def member_gids_def typable_def split: option.splits)

section \<open>Properties\<close>

text \<open>
  C40. Logging in adds the groups of every name tried: after attempts that were refused, a user who logs in gets, beside
  their own, the groups of all the names typed before, whose passwords they did not know.
\<close>

theorem refused_logins_give_groups:
  assumes "calm (ac_stack s)" "passwd_of us (ac_passwd s)" "groups_of gs (ac_group s)"
    "ac_open s ''/etc/passwd'' False" "ac_open s ''/etc/group'' False"
    "list_all (\<lambda>(n, p). typable n \<and> typable p) (as @ [(n, p)])" "list_all (refused us) as"
    "find (\<lambda>u. u_name u = n) us = Some u" "u_pass u = Some p" "chdir (u_home u) = 0"
  shows "login chdir None [] s (typed (as @ [(n, p)]) @ rest) =
    Some (LoggedIn (Some (u_uid u)) (concat (map (\<lambda>a. member_gids gs (fst a)) as) @ member_gids gs n))"
proof -
  have "login chdir None gids s (typed (as @ [(n, p)]) @ rest) =
      Some (LoggedIn (Some (u_uid u)) (gids @ concat (map (\<lambda>a. member_gids gs (fst a)) as) @ member_gids gs n))" for gids
    using assms(6,7)
  proof (induction as arbitrary: gids)
    case Nil
    then show ?case using login_attempt[of n p chdir None gids s rest] getty_run[OF assms(1-5), of n p chdir gids] assms(8-10)
      by simp
  next
    case (Cons a as)
    obtain m q where a: "a = (m, q)" by (cases a)
    have t: "typable m" "typable q" using Cons.prems by (auto simp: a)
    have "getty_auth chdir m q gids s = Some (c, None, gids @ member_gids gs m) \<Longrightarrow> c \<noteq> 0 \<Longrightarrow> ?case" for c
      using Cons login_attempt[OF t, of chdir None gids s "typed (as @ [(n, p)]) @ rest"] by (simp add: a typed_def)
    moreover have "\<exists>c. getty_auth chdir m q gids s = Some (c, None, gids @ member_gids gs m) \<and> c \<noteq> 0"
      using getty_run[OF assms(1-5) t, of chdir gids] Cons.prems(2) by (auto simp: a refused_def split: option.splits)
    ultimately show ?case by blast
  qed
  from this[of "[]"] show ?thesis by simp
qed

theorem refused_logins_give_groups_witness:
  "login (\<lambda>_. 0) None [] ex_groups (typed [([120], [113]), ([98, 111, 98], [112])]) = Some (LoggedIn (Some 1001) [5, 7, 5, 7])"
  using refused_logins_give_groups[OF _ _ ex_groups_ok, of "[ex_user]" "[([120], [113])]" "[98, 111, 98]" "[112]" ex_user "\<lambda>_. 0" "[]"]
    ex_accounts_ok(2)
  by (simp add: ex_groups_def ex_accounts_def calm_def typable_def refused_def ex_user_def member_gids_def)

text \<open>
  C27. Changing one's password works together with logging in: after a user who knows their old password has typed it and
  twice a new one to \<^verbatim>\<open>passwd\<close>, exactly the new password is accepted for their name, and gives the user id they had.
\<close>

theorem passwd_then_login:
  assumes "calm (ac_stack s)" "passwd_of us (ac_passwd s)" "\<And>w. ac_open s ''/etc/passwd'' w"
    "find (\<lambda>u. u_uid u = uid) us = Some v" "find (\<lambda>u. u_name u = u_name v) us = Some u" "may_change uid oldpwd u"
    "typable oldpwd" "typable newpwd" "plain newpwd" "newpwd \<noteq> []" "0 \<notin> set pwd"
  shows "\<exists>c. passwd [] uid None (oldpwd @ 10 # newpwd @ 10 # newpwd @ [10]) s = Some (''Password changed successfully.'', s\<lparr>ac_passwd := c\<rparr>) \<and>
    authuid chdir (u_name v) pwd (s\<lparr>ac_passwd := c\<rparr>) =
      Some (if pwd = newpwd then (chdir (u_home u), Some (u_uid u)) else (AUTHFAIL, None))"
proof -
  have "wf_user v" using assms(2,4) by (auto simp: passwd_of_def find_Some_iff list_all_length)
  then have name: "0 \<notin> set (u_name v)" by (simp add: wf_user_def plain_def)
  have "0 \<notin> set oldpwd" using assms(7) by (simp add: typable_def)
  from changepass_users[OF assms(1,2,3) name this assms(5,6,9,10)] obtain c where
    c: "changepass [] uid (u_name v) oldpwd newpwd s = Some (0, s\<lparr>ac_passwd := c\<rparr>)"
    and us: "passwd_of (takeWhile (\<lambda>u. u_name u \<noteq> u_name v) us @ u\<lparr>u_pass := Some newpwd\<rparr> #
      tl (dropWhile (\<lambda>u. u_name u \<noteq> u_name v) us)) c" (is "passwd_of ?us c") by blast
  have "find (\<lambda>u. u_name u = u_name v) ?us = Some (u\<lparr>u_pass := Some newpwd\<rparr>)"
  proof -
    have "find (\<lambda>u. u_name u = u_name v) (takeWhile (\<lambda>u. u_name u \<noteq> u_name v) us) = None"
      by (auto simp: find_None_iff dest: set_takeWhileD)
    moreover have "u_name u = u_name v" using assms(5) by (auto simp: find_Some_iff)
    ultimately show ?thesis by (simp add: find_append)
  qed
  with authuid_run[of "s\<lparr>ac_passwd := c\<rparr>" ?us "u_name v" pwd chdir] us assms(1,3,11) name
  have "authuid chdir (u_name v) pwd (s\<lparr>ac_passwd := c\<rparr>) =
      Some (if pwd = newpwd then (chdir (u_home u), Some (u_uid u)) else (AUTHFAIL, None))" by auto
  moreover have "strcmp newpwd newpwd = 0" using assms(9) strcmp_zero[of newpwd newpwd] by (simp add: plain_def)
  then have "passwd [] uid None (oldpwd @ 10 # newpwd @ 10 # newpwd @ [10]) s = Some (''Password changed successfully.'', s\<lparr>ac_passwd := c\<rparr>)"
    using getinput_typed[OF assms(7), of "newpwd @ 10 # newpwd @ [10]"] getinput_typed[OF assms(8), of "newpwd @ [10]"]
      getinput_typed[OF assms(8), of "[]"] getusername_run[OF assms(1,2,3), of uid] assms(4) c
    by (simp add: passwd_def safecopy_def)
  ultimately show ?thesis by blast
qed

theorem passwd_then_login_witness:
  "\<exists>c. passwd [] 1001 None [112, 10, 113, 10, 113, 10] ex_accounts = Some (''Password changed successfully.'', ex_accounts\<lparr>ac_passwd := c\<rparr>) \<and>
    authuid (\<lambda>_. 0) [98, 111, 98] [113] (ex_accounts\<lparr>ac_passwd := c\<rparr>) = Some (0, Some 1001)"
  using passwd_then_login[OF ex_accounts_ok(1,2,3), of 1001 ex_user ex_user "[112]" "[113]" "[113]" "\<lambda>_. 0"]
  by (simp add: ex_user_def may_change_def plain_def typable_def)

end
