(* ===== verification/Sh.thy ===== *)
theory Sh
  imports Ulib
begin

text \<open>
  The parser of the shell (\<^verbatim>\<open>user/sh.c\<close>). The pointers into the line are indices into it; \<^verbatim>\<open>es\<close> is its
  length. A command is a tree whose words are pairs of the start and the end of a word in the line, as in the
  \<^verbatim>\<open>argv\<close> and \<^verbatim>\<open>eargv\<close> of the code. A \<^verbatim>\<open>panic\<close> of the shell is \<open>Inl\<close> with its message.
\<close>

section \<open>Tokens\<close>

abbreviation (input) whitespace :: ustring where "whitespace \<equiv> [32, 9, 13, 10, 11]"
abbreviation (input) symbols :: ustring where "symbols \<equiv> [60, 124, 62, 38, 59, 40, 41]"

definition is_ws :: "u8 \<Rightarrow> bool" where
  "is_ws c \<longleftrightarrow> strchr whitespace c \<noteq> None"

definition is_symbol :: "u8 \<Rightarrow> bool" where
  "is_symbol c \<longleftrightarrow> strchr symbols c \<noteq> None"

function skip_ws :: "ustring \<Rightarrow> nat \<Rightarrow> nat" where
  "skip_ws s i = (if i < length s \<and> is_ws (uch s i) then skip_ws s (i + 1) else i)"
  by pat_completeness auto
termination by (relation "measure (\<lambda>(s, i). length s - i)") auto

function skip_word :: "ustring \<Rightarrow> nat \<Rightarrow> nat" where
  "skip_word s i =
     (if i < length s \<and> \<not> is_ws (uch s i) \<and> \<not> is_symbol (uch s i)
      then skip_word s (i + 1) else i)"
  by pat_completeness auto
termination by (relation "measure (\<lambda>(s, i). length s - i)") auto

declare skip_ws.simps [simp del] skip_word.simps [simp del]

text \<open>\<^verbatim>\<open>gettoken\<close>: its result, \<^verbatim>\<open>*q\<close>, \<^verbatim>\<open>*eq\<close> and \<^verbatim>\<open>*ps\<close>.\<close>

definition token_end :: "ustring \<Rightarrow> nat \<Rightarrow> u8 \<times> nat" where
  "token_end s i =
     (let c = uch s i in
      if c = 0 then (c, i)
      else if c = 124 \<or> c = 40 \<or> c = 41 \<or> c = 59 \<or> c = 38 \<or> c = 60 then (c, i + 1)
      else if c = 62 then (if uch s (i + 1) = 62 then (43, i + 2) else (c, i + 1))
      else (97, skip_word s i))"

record token =
  t_ret :: u8
  t_q :: nat
  t_eq :: nat
  t_ps :: nat

definition gettoken :: "ustring \<Rightarrow> nat \<Rightarrow> token" where
  "gettoken s i = (let q = skip_ws s i; (ret, eq) = token_end s q in \<lparr>t_ret = ret, t_q = q, t_eq = eq, t_ps = skip_ws s eq\<rparr>)"

definition peek :: "ustring \<Rightarrow> nat \<Rightarrow> ustring \<Rightarrow> bool \<times> nat" where
  "peek s i toks = (let j = skip_ws s i in (uch s j \<noteq> 0 \<and> strchr toks (uch s j) \<noteq> None, j))"

text \<open>How far the functions on tokens move.\<close>

lemma skip_ws_bounds: "i \<le> skip_ws s i" "i \<le> length s \<Longrightarrow> skip_ws s i \<le> length s"
proof (induction s i rule: skip_ws.induct)
  case (1 s i)
  { case 1 show ?case using "1.IH"(1) by (subst skip_ws.simps) auto }
  { case 2 then show ?case using "1.IH"(2) by (subst skip_ws.simps) auto }
qed

lemma skip_word_bounds: "i \<le> skip_word s i" "i \<le> length s \<Longrightarrow> skip_word s i \<le> length s"
proof (induction s i rule: skip_word.induct)
  case (1 s i)
  { case 1 show ?case using "1.IH"(1) by (subst skip_word.simps) auto }
  { case 2 then show ?case using "1.IH"(2) by (subst skip_word.simps) auto }
qed

lemma uch_nonzero: "uch s i \<noteq> 0 \<Longrightarrow> i < length s"
  by (auto simp: uch_def split: if_splits)

lemma is_ws_iff: "is_ws c \<longleftrightarrow> c \<in> {32, 9, 13, 10, 11}"
  by (auto simp: is_ws_def split: if_splits)

lemma is_symbol_iff: "is_symbol c \<longleftrightarrow> c \<in> {60, 124, 62, 38, 59, 40, 41}"
  by (auto simp: is_symbol_def split: if_splits)

lemma skip_ws_stop: "\<not> (skip_ws s i < length s \<and> is_ws (uch s (skip_ws s i)))"
proof (induction s i rule: skip_ws.induct)
  case (1 s i)
  then show ?case by (cases "i < length s \<and> is_ws (uch s i)") (auto simp: skip_ws.simps[of s i])
qed

lemma skip_ws_idle [simp]: "skip_ws s (skip_ws s i) = skip_ws s i"
  using skip_ws_stop[of s i] by (subst skip_ws.simps) auto

lemma skip_ws_end: "\<not> is_ws (uch s (skip_ws s i))"
  using skip_ws_stop[of s i] by (auto simp: uch_def is_ws_iff)

lemma token_end_bounds:
  assumes "token_end s i = (t, j)" "t \<noteq> 0" "\<not> is_ws (uch s i)"
  shows "i < j" "j \<le> length s"
proof -
  have nz: "uch s i \<noteq> 0" using assms(1,2) by (auto simp: token_end_def Let_def)
  then have i: "i < length s" by (rule uch_nonzero)
  have word: "i < skip_word s i" if "uch s i \<notin> {124, 40, 41, 59, 38, 60, 62}"
    using that i assms(3) skip_word_bounds(1)[of "i + 1" s] by (subst skip_word.simps) (auto simp: is_symbol_iff)
  show "i < j" using assms(1) nz word by (auto simp: token_end_def Let_def split: if_splits)
  show "j \<le> length s"
    using assms(1) nz i skip_word_bounds(2)[of i s] uch_nonzero[of s "Suc i"]
    by (auto simp: token_end_def Let_def split: if_splits)
qed

lemma gettoken_bounds:
  assumes "i \<le> length s"
  shows "i \<le> t_q (gettoken s i)" "t_q (gettoken s i) \<le> t_eq (gettoken s i)" "t_eq (gettoken s i) \<le> t_ps (gettoken s i)"
    "t_ps (gettoken s i) \<le> length s" "t_ret (gettoken s i) \<noteq> 0 \<Longrightarrow> t_q (gettoken s i) < t_eq (gettoken s i)"
    "skip_ws s (t_ps (gettoken s i)) = t_ps (gettoken s i)"
proof -
  obtain t e where e: "token_end s (skip_ws s i) = (t, e)" by (cases "token_end s (skip_ws s i)")
  then have r: "gettoken s i = \<lparr>t_ret = t, t_q = skip_ws s i, t_eq = e, t_ps = skip_ws s e\<rparr>" by (simp add: gettoken_def)
  have q: "i \<le> skip_ws s i" "skip_ws s i \<le> length s" using skip_ws_bounds assms by auto
  have te: "skip_ws s i < e \<and> e \<le> length s" if "t \<noteq> 0" using token_end_bounds[OF e _ skip_ws_end] that by simp
  have z: "skip_ws s i = e" if "t = 0" using that e by (auto simp: token_end_def Let_def split: if_splits)
  show "i \<le> t_q (gettoken s i)" "t_ret (gettoken s i) \<noteq> 0 \<Longrightarrow> t_q (gettoken s i) < t_eq (gettoken s i)"
    "skip_ws s (t_ps (gettoken s i)) = t_ps (gettoken s i)" using q te by (simp_all add: r)
  show "t_q (gettoken s i) \<le> t_eq (gettoken s i)" using te z by (cases "t = 0") (auto simp: r)
  show "t_eq (gettoken s i) \<le> t_ps (gettoken s i)" using skip_ws_bounds by (simp add: r)
  show "t_ps (gettoken s i) \<le> length s" using te z q skip_ws_bounds(2)[of e s] by (cases "t = 0") (auto simp: r)
qed

lemma peek_ws: "snd (peek s i toks) = skip_ws s i"
  by (simp add: peek_def Let_def)

lemma peek_token:
  assumes "fst (peek s i toks)"
  shows "skip_ws s i < length s" "skip_ws s i < t_ps (gettoken s (skip_ws s i))" "t_ps (gettoken s (skip_ws s i)) \<le> length s"
proof -
  have nz: "uch s (skip_ws s i) \<noteq> 0" using assms by (auto simp: peek_def Let_def)
  then show i: "skip_ws s i < length s" by (rule uch_nonzero)
  have "t_ret (gettoken s (skip_ws s i)) \<noteq> 0"
    using nz by (auto simp: gettoken_def token_end_def Let_def split: prod.splits if_splits)
  with gettoken_bounds[of "skip_ws s i" s] i
  show "skip_ws s i < t_ps (gettoken s (skip_ws s i))" "t_ps (gettoken s (skip_ws s i)) \<le> length s" by auto
qed

section \<open>Commands\<close>

abbreviation (input) MAXARGS :: nat where "MAXARGS \<equiv> 10"

text \<open>Commands over the words they are made of: words in the line, or later the strings they stand for.\<close>

datatype 'w command =
    ExecCmd "'w list"
  | RedirCmd "'w command" 'w int nat
  | PipeCmd "'w command" "'w command"
  | ListCmd "'w command" "'w command"
  | BackCmd "'w command"

type_synonym cmd = "(nat \<times> nat) command"

text \<open>
  While redirections are wrapped around it, \<^verbatim>\<open>parseexec\<close> stores words in the \<^verbatim>\<open>execcmd\<close> inside, to which it
  keeps a pointer.
\<close>

fun add_arg :: "'w \<Rightarrow> 'w command \<Rightarrow> 'w command" where
  "add_arg w (ExecCmd ws) = ExecCmd (ws @ [w])"
| "add_arg w (RedirCmd c f mode fd) = RedirCmd (add_arg w c) f mode fd"
| "add_arg w c = c"

text \<open>The redirection a token and the file name after it stand for.\<close>

definition redir_of :: "u8 \<Rightarrow> cmd \<Rightarrow> token \<Rightarrow> cmd" where
  "redir_of tok cmd f =
     (if tok = 60 then RedirCmd cmd (t_q f, t_eq f) 4 0
      else if tok = 62 \<or> tok = 43 then RedirCmd cmd (t_q f, t_eq f) 58 1
      else cmd)"

lemma redir_progress:
  assumes "fst (peek s i toks)"
  shows "length s - t_ps (gettoken s (t_ps (gettoken s (skip_ws s i)))) < length s - i"
    "i \<le> t_ps (gettoken s (t_ps (gettoken s (skip_ws s i))))" "t_ps (gettoken s (t_ps (gettoken s (skip_ws s i)))) \<le> length s"
  using peek_token[OF assms] gettoken_bounds[of "t_ps (gettoken s (skip_ws s i))" s] skip_ws_bounds(1)[of i s] by auto

function parseredirs :: "ustring \<Rightarrow> cmd \<Rightarrow> nat \<Rightarrow> string + cmd \<times> nat" where
  "parseredirs s cmd i =
     (if \<not> fst (peek s i [60, 62]) then Inr (cmd, snd (peek s i [60, 62]))
      else
        let t = gettoken s (snd (peek s i [60, 62])); f = gettoken s (t_ps t) in
        if t_ret f \<noteq> 97 then Inl ''missing file for redirection''
        else parseredirs s (redir_of (t_ret t) cmd f) (t_ps f))"
  by pat_completeness auto
termination
  by (relation "measure (\<lambda>(s, cmd, i). length s - i)") (auto simp: peek_ws redir_progress)

declare parseredirs.simps [simp del]

lemma parseredirs_bounds:
  "parseredirs s cmd i = Inr (c, j) \<Longrightarrow> i \<le> j \<and> (i \<le> length s \<longrightarrow> j \<le> length s)"
proof (induction s cmd i rule: parseredirs.induct)
  case (1 s cmd i)
  let ?t = "gettoken s (skip_ws s i)" let ?f = "gettoken s (t_ps ?t)"
  let ?c = "redir_of (t_ret ?t) cmd ?f"
  show ?case
  proof (cases "fst (peek s i [60, 62])")
    case False
    then have "j = skip_ws s i" using 1(2) unfolding parseredirs.simps[of s cmd i] by (simp add: peek_ws)
    then show ?thesis using skip_ws_bounds by simp
  next
    case True
    then have f: "t_ret ?f = 97" "parseredirs s ?c (t_ps ?f) = Inr (c, j)"
      using 1(2) unfolding parseredirs.simps[of s cmd i] by (simp_all add: peek_ws Let_def split: if_splits)
    have "t_ps ?f \<le> j \<and> (t_ps ?f \<le> length s \<longrightarrow> j \<le> length s)"
      using 1(1) True f by (simp only: peek_ws not_not) blast
    then show ?thesis using redir_progress[OF True] by auto
  qed
qed

text \<open>The loop of \<^verbatim>\<open>parseexec\<close> over words and redirections; \<open>argc\<close> words are already stored.\<close>

function parseargs :: "ustring \<Rightarrow> cmd \<Rightarrow> nat \<Rightarrow> nat \<Rightarrow> string + cmd \<times> nat" where
  "parseargs s ret argc i =
     (if fst (peek s i [124, 41, 38, 59]) then Inr (ret, snd (peek s i [124, 41, 38, 59]))
      else
        let t = gettoken s (snd (peek s i [124, 41, 38, 59])) in
        if t_ret t = 0 then Inr (ret, t_ps t)
        else if t_ret t \<noteq> 97 then Inl ''syntax''
        else if argc + 1 \<ge> MAXARGS then Inl ''too many args''
        else
          case parseredirs s (add_arg (t_q t, t_eq t) ret) (t_ps t) of
            Inl m \<Rightarrow> Inl m
          | Inr r \<Rightarrow> parseargs s (fst r) (argc + 1) (snd r))"
  by pat_completeness auto
termination
  by (relation "measure (\<lambda>(s, ret, argc, i). MAXARGS - argc)") auto

declare parseargs.simps [simp del]

lemma parseargs_bounds:
  "parseargs s ret argc i = Inr (c, j) \<Longrightarrow> i \<le> length s \<Longrightarrow> i \<le> j \<and> j \<le> length s"
proof (induction s ret argc i rule: parseargs.induct)
  case (1 s ret argc i)
  let ?t = "gettoken s (skip_ws s i)"
  have w: "i \<le> skip_ws s i" "skip_ws s i \<le> length s" using skip_ws_bounds 1(3) by auto
  have t: "i \<le> t_ps ?t" "t_ps ?t \<le> length s" using gettoken_bounds[OF w(2)] w by auto
  note step = 1(2)[unfolded parseargs.simps[of s ret argc i] peek_ws]
  show ?case
  proof (cases "fst (peek s i [124, 41, 38, 59]) \<or> t_ret ?t = 0")
    case True
    then show ?thesis using step w t by (auto simp: Let_def split: if_splits)
  next
    case False
    then obtain r where r: "t_ret ?t = 97" "\<not> argc + 1 \<ge> MAXARGS" "parseredirs s (add_arg (t_q ?t, t_eq ?t) ret) (t_ps ?t) = Inr r"
      "parseargs s (fst r) (argc + 1) (snd r) = Inr (c, j)"
      using step by (auto simp: Let_def split: if_splits sum.splits)
    have b: "t_ps ?t \<le> snd r \<and> snd r \<le> length s" using parseredirs_bounds[of s _ "t_ps ?t" "fst r" "snd r"] r(3) t by simp
    have "snd r \<le> j \<and> j \<le> length s"
      using 1(1)[unfolded peek_ws, OF _ refl _ _ _ r(3) r(4)] False r(1,2) b by auto
    then show ?thesis using b t by auto
  qed
qed

text \<open>The loop of \<^verbatim>\<open>parseline\<close> over \<^verbatim>\<open>&\<close>.\<close>

function parseback :: "ustring \<Rightarrow> cmd \<Rightarrow> nat \<Rightarrow> cmd \<times> nat" where
  "parseback s cmd i =
     (if fst (peek s i [38]) then parseback s (BackCmd cmd) (t_ps (gettoken s (snd (peek s i [38]))))
      else (cmd, snd (peek s i [38])))"
  by pat_completeness auto
termination
proof (relation "measure (\<lambda>(s, cmd, i). length s - i)", simp)
  fix s :: ustring and cmd and i
  assume p: "fst (peek s i [38])"
  show "((s, BackCmd cmd, t_ps (gettoken s (snd (peek s i [38])))), s, cmd, i) \<in> measure (\<lambda>(s, cmd, i). length s - i)"
    using peek_token[OF p] skip_ws_bounds(1)[of i s] by (simp add: peek_ws)
qed

declare parseback.simps [simp del]

lemma parseback_bounds: "i \<le> snd (parseback s cmd i)" "i \<le> length s \<Longrightarrow> snd (parseback s cmd i) \<le> length s"
proof (induction s cmd i rule: parseback.induct)
  case (1 s cmd i)
  { case 1 show ?case using "1.IH"(1) peek_token(2)[of s i "[38]"] skip_ws_bounds(1)[of i s] by (subst parseback.simps) (auto simp: peek_ws) }
  { case 2 then show ?case using "1.IH"(2) peek_token(3)[of s i "[38]"] skip_ws_bounds(2)[of i s] by (subst parseback.simps) (auto simp: peek_ws) }
qed

section \<open>The parser\<close>

text \<open>
  The four functions call each other. Their first argument bounds the depth of the calls: \<open>None\<close> is the result of
  a call that is too deep. \<open>4 * length s + 4\<close> is always enough.
\<close>

definition pbind :: "(string + 'a) option \<Rightarrow> ('a \<Rightarrow> (string + 'b) option) \<Rightarrow> (string + 'b) option" where
  "pbind m f = (case m of None \<Rightarrow> None | Some (Inl e) \<Rightarrow> Some (Inl e) | Some (Inr x) \<Rightarrow> f x)"

fun parseline :: "nat \<Rightarrow> ustring \<Rightarrow> nat \<Rightarrow> (string + cmd \<times> nat) option"
  and parsepipe :: "nat \<Rightarrow> ustring \<Rightarrow> nat \<Rightarrow> (string + cmd \<times> nat) option"
  and parseexec :: "nat \<Rightarrow> ustring \<Rightarrow> nat \<Rightarrow> (string + cmd \<times> nat) option"
  and parseblock :: "nat \<Rightarrow> ustring \<Rightarrow> nat \<Rightarrow> (string + cmd \<times> nat) option" where
  "parseline 0 s i = None"
| "parseline (Suc n) s i =
     pbind (parsepipe n s i) (\<lambda>(c, j).
       let (c', k) = parseback s c j in
       if fst (peek s k [59]) then
         pbind (parseline n s (t_ps (gettoken s (snd (peek s k [59]))))) (\<lambda>(d, l). Some (Inr (ListCmd c' d, l)))
       else Some (Inr (c', snd (peek s k [59]))))"
| "parsepipe 0 s i = None"
| "parsepipe (Suc n) s i =
     pbind (parseexec n s i) (\<lambda>(c, j).
       if fst (peek s j [124]) then
         pbind (parsepipe n s (t_ps (gettoken s (snd (peek s j [124]))))) (\<lambda>(d, l). Some (Inr (PipeCmd c d, l)))
       else Some (Inr (c, snd (peek s j [124]))))"
| "parseexec 0 s i = None"
| "parseexec (Suc n) s i =
     (if fst (peek s i [40]) then parseblock n s (snd (peek s i [40]))
      else case parseredirs s (ExecCmd []) (snd (peek s i [40])) of
             Inl m \<Rightarrow> Some (Inl m)
           | Inr r \<Rightarrow> Some (parseargs s (fst r) 0 (snd r)))"
| "parseblock 0 s i = None"
| "parseblock (Suc n) s i =
     (if \<not> fst (peek s i [40]) then Some (Inl ''parseblock'')
      else
        pbind (parseline n s (t_ps (gettoken s (snd (peek s i [40]))))) (\<lambda>(c, j).
          if \<not> fst (peek s j [41]) then Some (Inl ''syntax - missing )'')
          else Some (parseredirs s c (t_ps (gettoken s (snd (peek s j [41])))))))"

definition parsecmd :: "ustring \<Rightarrow> (string + cmd) option" where
  "parsecmd s =
     pbind (parseline (4 * length s + 4) s 0) (\<lambda>(c, i).
       if snd (peek s i []) \<noteq> length s then Some (Inl ''syntax'') else Some (Inr c))"

text \<open>
  \<^verbatim>\<open>nulterminate\<close> stores a 0 behind every word of the line; what \<^verbatim>\<open>runcmd\<close> finds at the start of a word is
  then the string up to that 0.
\<close>

fun nulterminate :: "cmd \<Rightarrow> bytes \<Rightarrow> bytes" where
  "nulterminate (ExecCmd ws) b = fold (\<lambda>w b. b(snd w := 0)) ws b"
| "nulterminate (RedirCmd c f mode fd) b = (nulterminate c b)(snd f := 0)"
| "nulterminate (PipeCmd c d) b = nulterminate d (nulterminate c b)"
| "nulterminate (ListCmd c d) b = nulterminate d (nulterminate c b)"
| "nulterminate (BackCmd c) b = nulterminate c b"

section \<open>The parser returns\<close>

lemma pbind_simps [simp]: "pbind None f = None" "pbind (Some (Inl e)) f = Some (Inl e)" "pbind (Some (Inr x)) f = f x"
  by (simp_all add: pbind_def)

lemma pbind_SomeD: "pbind m f = Some r \<Longrightarrow> m \<noteq> None"
  by (cases m) auto

lemma pbind_Inr: "pbind m f = Some (Inr y) \<longleftrightarrow> (\<exists>x. m = Some (Inr x) \<and> f x = Some (Inr y))"
  by (auto simp: pbind_def split: option.splits sum.splits)

lemma pbind_None: "pbind m f = None \<longleftrightarrow> m = None \<or> (\<exists>x. m = Some (Inr x) \<and> f x = None)"
  by (auto simp: pbind_def split: option.splits sum.splits)

lemma peek_next:
  assumes "fst (peek s i toks)" "i \<le> length s"
  shows "i < t_ps (gettoken s (snd (peek s i toks)))" "t_ps (gettoken s (snd (peek s i toks))) \<le> length s"
  using peek_token[OF assms(1)] skip_ws_bounds(1)[of i s] by (simp_all add: peek_ws)

lemma peek_stay: "i \<le> length s \<Longrightarrow> i \<le> snd (peek s i toks) \<and> snd (peek s i toks) \<le> length s"
  using skip_ws_bounds[of i s] by (simp add: peek_ws)

lemma parse_bounds:
  "parseline n s i = Some (Inr (c, j)) \<Longrightarrow> i \<le> length s \<Longrightarrow> i \<le> j \<and> j \<le> length s"
  "parsepipe n s i = Some (Inr (c, j)) \<Longrightarrow> i \<le> length s \<Longrightarrow> i \<le> j \<and> j \<le> length s"
  "parseexec n s i = Some (Inr (c, j)) \<Longrightarrow> i \<le> length s \<Longrightarrow> i \<le> j \<and> j \<le> length s"
  "parseblock n s i = Some (Inr (c, j)) \<Longrightarrow> i \<le> length s \<Longrightarrow> i \<le> j \<and> j \<le> length s"
proof (induction n s i and n s i and n s i and n s i arbitrary: c j and c j and c j and c j
    rule: parseline_parsepipe_parseexec_parseblock.induct)
  case (2 n s i)
  obtain d k where d: "parsepipe n s i = Some (Inr (d, k))" using 2(3) by (auto simp: pbind_Inr)
  have k: "i \<le> k" "k \<le> length s" using 2(1)[OF d 2(4)] by auto
  obtain d' l where l: "parseback s d k = (d', l)" by (cases "parseback s d k")
  have lb: "k \<le> l" "l \<le> length s" using parseback_bounds[of k s d] k l by auto
  show ?case
  proof (cases "fst (peek s l [59])")
    case True
    then obtain e where e: "parseline n s (t_ps (gettoken s (snd (peek s l [59])))) = Some (Inr (e, j))"
      using 2(3) d l by (auto simp: pbind_Inr)
    have "t_ps (gettoken s (snd (peek s l [59]))) \<le> j \<and> j \<le> length s"
      by (rule 2(2)[OF l[symmetric] refl True e]) (rule peek_next(2)[OF True lb(2)])
    then show ?thesis using peek_next[OF True lb(2)] k lb by auto
  next
    case False
    then show ?thesis using 2(3) d l k lb peek_stay[OF lb(2), of "[59]"] by (auto simp: pbind_Inr)
  qed
next
  case (4 n s i)
  obtain d k where d: "parseexec n s i = Some (Inr (d, k))" using 4(3) by (auto simp: pbind_Inr)
  have k: "i \<le> k" "k \<le> length s" using 4(1)[OF d 4(4)] by auto
  show ?case
  proof (cases "fst (peek s k [124])")
    case True
    then obtain e where "parsepipe n s (t_ps (gettoken s (snd (peek s k [124])))) = Some (Inr (e, j))"
      using 4(3) d by (auto simp: pbind_Inr)
    from 4(2)[OF True this] peek_next[OF True k(2)] k show ?thesis by auto
  next
    case False
    then show ?thesis using 4(3) d k peek_stay[OF k(2), of "[124]"] by (auto simp: pbind_Inr)
  qed
next
  case (6 n s i)
  show ?case
  proof (cases "fst (peek s i [40])")
    case True
    then show ?thesis using 6(1)[OF True] 6(2,3) peek_stay[OF 6(3), of "[40]"] by force
  next
    case False
    then obtain r where r: "parseredirs s (ExecCmd []) (snd (peek s i [40])) = Inr r" "parseargs s (fst r) 0 (snd r) = Inr (c, j)"
      using 6(2) by (auto split: sum.splits)
    have "i \<le> snd r" "snd r \<le> length s"
      using parseredirs_bounds[of s _ _ "fst r" "snd r"] r(1) peek_stay[OF 6(3), of "[40]"] by fastforce+
    then show ?thesis using parseargs_bounds[OF r(2)] by auto
  qed
next
  case (8 n s i)
  then have p: "fst (peek s i [40])" by (auto split: if_splits)
  obtain d k where d: "parseline n s (t_ps (gettoken s (snd (peek s i [40])))) = Some (Inr (d, k))" using 8(2) p by (auto simp: pbind_Inr)
  have k: "i \<le> k" "k \<le> length s" using 8(1)[OF _ d] p peek_next[OF p 8(3)] by auto
  have q: "fst (peek s k [41])" "parseredirs s d (t_ps (gettoken s (snd (peek s k [41])))) = Inr (c, j)"
    using 8(2) p d by (auto simp: pbind_Inr split: if_splits)
  show ?case using parseredirs_bounds[OF q(2)] peek_next[OF q(1) k(2)] k by auto
qed auto

lemma parse_returns:
  "4 * (length s - i) + 4 \<le> n \<Longrightarrow> i \<le> length s \<Longrightarrow> parseline n s i \<noteq> None"
  "4 * (length s - i) + 3 \<le> n \<Longrightarrow> i \<le> length s \<Longrightarrow> parsepipe n s i \<noteq> None"
  "4 * (length s - i) + 2 \<le> n \<Longrightarrow> i \<le> length s \<Longrightarrow> parseexec n s i \<noteq> None"
  "4 * (length s - i) + 1 \<le> n \<Longrightarrow> i \<le> length s \<Longrightarrow> parseblock n s i \<noteq> None"
proof (induction n s i and n s i and n s i and n s i rule: parseline_parsepipe_parseexec_parseblock.induct)
  case (2 n s i)
  have "parseline (Suc n) s i \<noteq> None"
  proof
    assume "parseline (Suc n) s i = None"
    moreover have "parsepipe n s i \<noteq> None" using 2(1,3,4) by simp
    ultimately obtain d k where d: "parsepipe n s i = Some (Inr (d, k))" by (auto simp: pbind_None)
    obtain d' l where d': "parseback s d k = (d', l)" by (cases "parseback s d k")
    have f: "fst (peek s l [59])" "parseline n s (t_ps (gettoken s (snd (peek s l [59])))) = None"
      using \<open>parseline (Suc n) s i = None\<close> d d' by (auto simp: pbind_None split: if_splits)
    have l: "i \<le> l" "l \<le> length s" using parse_bounds(2)[OF d 2(4)] parseback_bounds[of k s d] d' by auto
    define T where "T = t_ps (gettoken s (snd (peek s l [59])))"
    have T: "i < T" "T \<le> length s" using peek_next[OF f(1) l(2)] l by (auto simp: T_def)
    then have "4 * (length s - T) + 4 \<le> n" using 2(3) by arith
    with 2(2)[OF d'[symmetric] refl f(1)] f(2) T show False by (simp add: T_def)
  qed
  then show ?case .
next
  case (4 n s i)
  have "parsepipe (Suc n) s i \<noteq> None"
  proof
    assume "parsepipe (Suc n) s i = None"
    moreover have "parseexec n s i \<noteq> None" using 4(1,3,4) by simp
    ultimately obtain d k where d: "parseexec n s i = Some (Inr (d, k))"
      and f: "fst (peek s k [124])" "parsepipe n s (t_ps (gettoken s (snd (peek s k [124])))) = None"
      by (auto simp: pbind_None split: if_splits)
    have k: "i \<le> k" "k \<le> length s" using parse_bounds(3)[OF d(1) 4(4)] by auto
    define T where "T = t_ps (gettoken s (snd (peek s k [124])))"
    have T: "i < T" "T \<le> length s" using peek_next[OF f(1) k(2)] k by (auto simp: T_def)
    then have "4 * (length s - T) + 3 \<le> n" using 4(3) by arith
    with 4(2)[OF f(1)] f(2) T show False by (simp add: T_def)
  qed
  then show ?case .
next
  case (6 n s i)
  then show ?case using peek_stay[OF 6(3), of "[40]"] by (auto split: sum.splits)
next
  case (8 n s i)
  show ?case
  proof (cases "fst (peek s i [40])")
    case True
    define T where "T = t_ps (gettoken s (snd (peek s i [40])))"
    have T: "i < T" "T \<le> length s" using peek_next[OF True 8(3)] by (auto simp: T_def)
    then have "4 * (length s - T) + 4 \<le> n" using 8(2) by arith
    with 8(1) True T have "parseline n s (t_ps (gettoken s (snd (peek s i [40])))) \<noteq> None" by (simp add: T_def)
    then show ?thesis using True by (auto simp: pbind_None)
  qed simp
qed auto

section \<open>The words of a command\<close>

definition word_at :: "ustring \<Rightarrow> nat \<times> nat \<Rightarrow> bool" where
  "word_at s w \<longleftrightarrow> fst w < snd w \<and> snd w \<le> length s \<and>
     list_all (\<lambda>k. \<not> is_ws (s ! k) \<and> \<not> is_symbol (s ! k)) [fst w..<snd w] \<and>
     (snd w < length s \<longrightarrow> is_ws (s ! snd w) \<or> is_symbol (s ! snd w))"

fun wf_cmd :: "ustring \<Rightarrow> cmd \<Rightarrow> bool" where
  "wf_cmd s (ExecCmd ws) \<longleftrightarrow> length ws < MAXARGS \<and> list_all (word_at s) ws"
| "wf_cmd s (RedirCmd c f mode fd) \<longleftrightarrow> wf_cmd s c \<and> word_at s f"
| "wf_cmd s (PipeCmd c d) \<longleftrightarrow> wf_cmd s c \<and> wf_cmd s d"
| "wf_cmd s (ListCmd c d) \<longleftrightarrow> wf_cmd s c \<and> wf_cmd s d"
| "wf_cmd s (BackCmd c) \<longleftrightarrow> wf_cmd s c"

text \<open>How many words the \<^verbatim>\<open>execcmd\<close> of \<^verbatim>\<open>parseexec\<close> has.\<close>

fun argc_of :: "'w command \<Rightarrow> nat" where
  "argc_of (ExecCmd ws) = length ws"
| "argc_of (RedirCmd c f mode fd) = argc_of c"
| "argc_of c = 0"

lemma skip_word_spec:
  "list_all (\<lambda>k. \<not> is_ws (s ! k) \<and> \<not> is_symbol (s ! k)) [i..<skip_word s i] \<and>
   (skip_word s i < length s \<longrightarrow> is_ws (s ! skip_word s i) \<or> is_symbol (s ! skip_word s i))"
proof (induction s i rule: skip_word.induct)
  case (1 s i)
  show ?case
  proof (cases "i < length s \<and> \<not> is_ws (uch s i) \<and> \<not> is_symbol (uch s i)")
    case True
    have "skip_word s i = skip_word s (i + 1)" using True by (subst skip_word.simps) simp
    moreover have "[i..<skip_word s (i + 1)] = i # [i + 1..<skip_word s (i + 1)]"
      using skip_word_bounds(1)[of "i + 1" s] by (simp add: upt_conv_Cons)
    ultimately show ?thesis using 1 True by (auto simp: uch_def)
  next
    case False
    then have "skip_word s i = i" by (subst skip_word.simps) auto
    then show ?thesis using False by (auto simp: uch_def)
  qed
qed

lemma gettoken_word:
  assumes "t_ret (gettoken s i) = 97" "i \<le> length s"
  shows "word_at s (t_q (gettoken s i), t_eq (gettoken s i))"
proof -
  have e: "t_eq (gettoken s i) = skip_word s (t_q (gettoken s i))"
    using assms(1) by (auto simp: gettoken_def token_end_def Let_def split: prod.splits if_splits)
  then show ?thesis
    using skip_word_spec[of s "t_q (gettoken s i)"] gettoken_bounds[OF assms(2)] assms(1) by (auto simp: word_at_def)
qed

lemma redir_of_wf: "wf_cmd s c \<Longrightarrow> word_at s (t_q f, t_eq f) \<Longrightarrow> wf_cmd s (redir_of tok c f)"
  "argc_of (redir_of tok c f) = argc_of c"
  by (auto simp: redir_of_def)

fun exec_leaf :: "'w command \<Rightarrow> bool" where
  "exec_leaf (ExecCmd ws) = True"
| "exec_leaf (RedirCmd c f mode fd) = exec_leaf c"
| "exec_leaf c = False"

lemma redir_of_leaf: "exec_leaf c \<Longrightarrow> exec_leaf (redir_of tok c f)"
  by (auto simp: redir_of_def)

lemma add_arg_facts:
  "exec_leaf c \<Longrightarrow> exec_leaf (add_arg w c) \<and> argc_of (add_arg w c) = Suc (argc_of c)"
  "exec_leaf c \<Longrightarrow> wf_cmd s c \<Longrightarrow> word_at s w \<Longrightarrow> argc_of c + 1 < MAXARGS \<Longrightarrow> wf_cmd s (add_arg w c)"
  by (induction w c rule: add_arg.induct) auto

lemma parseredirs_wf:
  "parseredirs s c i = Inr (d, j) \<Longrightarrow> i \<le> length s \<Longrightarrow> wf_cmd s c \<Longrightarrow>
    wf_cmd s d \<and> argc_of d = argc_of c \<and> (exec_leaf c \<longrightarrow> exec_leaf d)"
proof (induction s c i rule: parseredirs.induct)
  case (1 s c i)
  let ?t = "gettoken s (skip_ws s i)" let ?f = "gettoken s (t_ps ?t)" let ?c = "redir_of (t_ret ?t) c ?f"
  show ?case
  proof (cases "fst (peek s i [60, 62])")
    case False
    then show ?thesis using 1(2,4) unfolding parseredirs.simps[of s c i] by simp
  next
    case True
    then have f: "t_ret ?f = 97" "parseredirs s ?c (t_ps ?f) = Inr (d, j)"
      using 1(2) unfolding parseredirs.simps[of s c i] by (simp_all add: peek_ws Let_def split: if_splits)
    have "word_at s (t_q ?f, t_eq ?f)" by (rule gettoken_word[OF f(1) peek_token(3)[OF True]])
    then have wf: "wf_cmd s ?c" using redir_of_wf(1) 1(4) by simp
    have "wf_cmd s d \<and> argc_of d = argc_of ?c \<and> (exec_leaf ?c \<longrightarrow> exec_leaf d)"
      using 1(1)[unfolded peek_ws not_not, OF True refl refl _ f(2) redir_progress(3)[OF True] wf] f(1) by blast
    then show ?thesis by (simp add: redir_of_wf redir_of_leaf)
  qed
qed

lemma parseargs_wf:
  "parseargs s ret argc i = Inr (d, j) \<Longrightarrow> i \<le> length s \<Longrightarrow> wf_cmd s ret \<Longrightarrow> exec_leaf ret \<Longrightarrow> argc_of ret = argc \<Longrightarrow> wf_cmd s d"
proof (induction s ret argc i rule: parseargs.induct)
  case (1 s ret argc i)
  let ?t = "gettoken s (skip_ws s i)"
  have w: "skip_ws s i \<le> length s" using skip_ws_bounds 1(3) by auto
  have t: "t_ps ?t \<le> length s" using gettoken_bounds[OF w] by auto
  note step = 1(2)[unfolded parseargs.simps[of s ret argc i] peek_ws]
  show ?case
  proof (cases "fst (peek s i [124, 41, 38, 59]) \<or> t_ret ?t = 0")
    case True
    then show ?thesis using step 1(4) by (auto simp: Let_def split: if_splits)
  next
    case False
    then obtain r where r: "t_ret ?t = 97" "\<not> argc + 1 \<ge> MAXARGS" "parseredirs s (add_arg (t_q ?t, t_eq ?t) ret) (t_ps ?t) = Inr r"
      "parseargs s (fst r) (argc + 1) (snd r) = Inr (d, j)"
      using step by (auto simp: Let_def split: if_splits sum.splits)
    have r3: "parseredirs s (add_arg (t_q ?t, t_eq ?t) ret) (t_ps ?t) = Inr (fst r, snd r)" using r(3) by simp
    have "wf_cmd s (add_arg (t_q ?t, t_eq ?t) ret)"
      using add_arg_facts(2)[OF 1(5,4) gettoken_word[OF r(1) w]] r(2) 1(6) by simp
    from parseredirs_wf[OF r3 t this] add_arg_facts(1)[OF 1(5)] have
      f: "wf_cmd s (fst r)" "argc_of (fst r) = argc + 1" "exec_leaf (fst r)" by (simp_all add: 1(6))
    have "snd r \<le> length s" using parseredirs_bounds[OF r3] t by simp
    from 1(1)[unfolded peek_ws, OF _ refl _ _ _ r(3) r(4) this f(1,3,2)] False r(1,2) show ?thesis by auto
  qed
qed

lemma parseback_wf: "wf_cmd s c \<Longrightarrow> wf_cmd s (fst (parseback s c i))"
proof (induction s c i rule: parseback.induct)
  case (1 s c i)
  then show ?case by (subst parseback.simps) auto
qed

lemma parse_wf:
  "parseline n s i = Some (Inr (c, j)) \<Longrightarrow> i \<le> length s \<Longrightarrow> wf_cmd s c"
  "parsepipe n s i = Some (Inr (c, j)) \<Longrightarrow> i \<le> length s \<Longrightarrow> wf_cmd s c"
  "parseexec n s i = Some (Inr (c, j)) \<Longrightarrow> i \<le> length s \<Longrightarrow> wf_cmd s c"
  "parseblock n s i = Some (Inr (c, j)) \<Longrightarrow> i \<le> length s \<Longrightarrow> wf_cmd s c"
proof (induction n s i and n s i and n s i and n s i arbitrary: c j and c j and c j and c j
    rule: parseline_parsepipe_parseexec_parseblock.induct)
  case (2 n s i)
  obtain d k where d: "parsepipe n s i = Some (Inr (d, k))" using 2(3) by (auto simp: pbind_Inr)
  have k: "k \<le> length s" using parse_bounds(2)[OF d 2(4)] by auto
  obtain d' l where l: "parseback s d k = (d', l)" by (cases "parseback s d k")
  have lb: "l \<le> length s" using parseback_bounds[of k s d] k l by auto
  have wf: "wf_cmd s d'" using parseback_wf[OF 2(1)[OF d 2(4)], of k] l by simp
  show ?case
  proof (cases "fst (peek s l [59])")
    case True
    then obtain e where e: "parseline n s (t_ps (gettoken s (snd (peek s l [59])))) = Some (Inr (e, j))" "c = ListCmd d' e"
      using 2(3) d l by (auto simp: pbind_Inr)
    have "wf_cmd s e" by (rule 2(2)[OF l[symmetric] refl True e(1) peek_next(2)[OF True lb]])
    then show ?thesis using wf e by simp
  next
    case False
    then show ?thesis using 2(3) d l wf by (auto simp: pbind_Inr)
  qed
next
  case (4 n s i)
  obtain d k where d: "parseexec n s i = Some (Inr (d, k))" using 4(3) by (auto simp: pbind_Inr)
  have k: "k \<le> length s" using parse_bounds(3)[OF d 4(4)] by auto
  show ?case
  proof (cases "fst (peek s k [124])")
    case True
    then obtain e where e: "parsepipe n s (t_ps (gettoken s (snd (peek s k [124])))) = Some (Inr (e, j))" "c = PipeCmd d e"
      using 4(3) d by (auto simp: pbind_Inr)
    then show ?thesis using 4(1)[OF d 4(4)] 4(2)[OF True e(1) peek_next(2)[OF True k]] by simp
  next
    case False
    then show ?thesis using 4(1)[OF d 4(4)] 4(3) d by (auto simp: pbind_Inr)
  qed
next
  case (6 n s i)
  show ?case
  proof (cases "fst (peek s i [40])")
    case True
    then show ?thesis using 6(1)[OF True] 6(2,3) peek_stay[OF 6(3), of "[40]"] by simp
  next
    case False
    then obtain r where r: "parseredirs s (ExecCmd []) (snd (peek s i [40])) = Inr (fst r, snd r)" "parseargs s (fst r) 0 (snd r) = Inr (c, j)"
      using 6(2) by (auto split: sum.splits)
    have b: "snd r \<le> length s" using parseredirs_bounds[OF r(1)] peek_stay[OF 6(3), of "[40]"] by simp
    have "wf_cmd s (fst r) \<and> argc_of (fst r) = 0 \<and> exec_leaf (fst r)"
      using parseredirs_wf[OF r(1)] peek_stay[OF 6(3), of "[40]"] by simp
    then show ?thesis using parseargs_wf[OF r(2) b] by simp
  qed
next
  case (8 n s i)
  then have p: "fst (peek s i [40])" by (auto split: if_splits)
  obtain d k where d: "parseline n s (t_ps (gettoken s (snd (peek s i [40])))) = Some (Inr (d, k))" using 8(2) p by (auto simp: pbind_Inr)
  have k: "k \<le> length s" using parse_bounds(1)[OF d] peek_next[OF p 8(3)] by auto
  have q: "fst (peek s k [41])" "parseredirs s d (t_ps (gettoken s (snd (peek s k [41])))) = Inr (c, j)"
    using 8(2) p d by (auto simp: pbind_Inr split: if_splits)
  have "wf_cmd s d" using 8(1)[OF _ d] p peek_next[OF p 8(3)] by simp
  then show ?case using parseredirs_wf[OF q(2) peek_next(2)[OF q(1) k]] by simp
qed auto

section \<open>The line after \<^verbatim>\<open>nulterminate\<close>\<close>

lemma word_at_chars: "word_at s w \<Longrightarrow> fst w \<le> k \<Longrightarrow> k < snd w \<Longrightarrow> \<not> is_ws (s ! k) \<and> \<not> is_symbol (s ! k)"
  by (auto simp: word_at_def list_all_iff)

lemma word_end_outside:
  assumes "word_at s v" "word_at s w" "fst w \<le> snd v" "snd v < snd w"
  shows False
  using assms word_at_chars[OF assms(2-4)] by (auto simp: word_at_def)

lemma nulterminate_at:
  "nulterminate c b k = (if k \<in> snd ` set_command c then 0 else b k)"
proof (induction c arbitrary: b)
  case (ExecCmd ws)
  have "fold (\<lambda>w b. b(snd w := 0)) ws b k = (if k \<in> snd ` set ws then 0 else b k)" for b :: bytes
    by (induction ws arbitrary: b) auto
  then show ?case by simp
qed auto

lemma wf_cmd_words: "wf_cmd s c \<Longrightarrow> w \<in> set_command c \<Longrightarrow> word_at s w"
  by (induction c) (auto simp: list_all_iff)

section \<open>The grammar\<close>

text \<open>
  Command lines as sequences of tokens. \<open>spaced\<close> writes a space behind every token; \<open>pos ts\<close> is the place
  behind the tokens \<open>ts\<close>.
\<close>

definition spaced :: "ustring list \<Rightarrow> ustring" where
  "spaced ts = concat (map (\<lambda>t. t @ [32]) ts)"

definition pos :: "ustring list \<Rightarrow> nat" where
  "pos ts = length (spaced ts)"

definition is_word :: "ustring \<Rightarrow> bool" where
  "is_word t \<longleftrightarrow> t \<noteq> [] \<and> list_all (\<lambda>c. c \<noteq> 0 \<and> \<not> is_ws c \<and> \<not> is_symbol c) t"

definition is_token :: "ustring \<Rightarrow> bool" where
  "is_token t \<longleftrightarrow> is_word t \<or> t \<in> {[124], [40], [41], [59], [38], [60], [62], [62, 62]}"

definition kind :: "ustring \<Rightarrow> u8" where
  "kind t = (if is_word t then 97 else if t = [62, 62] then 43 else hd t)"

lemma spaced_simps [simp]: "spaced [] = []" "spaced (t # ts) = t @ 32 # spaced ts" "spaced (ts @ us) = spaced ts @ spaced us"
  by (simp_all add: spaced_def)

lemma pos_simps [simp]: "pos [] = 0" "pos (ts @ us) = pos ts + pos us" "pos (t # ts) = Suc (length t + pos ts)"
  by (simp_all add: pos_def)

lemma token_first: "is_token t \<Longrightarrow> t \<noteq> [] \<and> \<not> is_ws (hd t) \<and> hd t \<noteq> 0"
  by (cases t) (auto simp: is_token_def is_word_def is_ws_iff)

lemma skip_ws_token:
  assumes "list_all is_token ts"
  shows "skip_ws (spaced (ps @ ts)) (pos ps) = pos ps" "skip_ws (spaced ps @ t @ 32 # spaced ts) (pos ps + length t) = pos ps + length t + 1"
proof -
  have a: "skip_ws (spaced (ps @ ts)) (pos ps) = pos ps" if "list_all is_token ts" for ps ts
  proof (cases ts)
    case (Cons t us)
    then have "uch (spaced (ps @ ts)) (pos ps) = hd t"
      using token_first[of t] that by (cases t) (auto simp: uch_def pos_def nth_append)
    then show ?thesis using token_first[of t] that Cons by (subst skip_ws.simps) simp
  qed (subst skip_ws.simps, simp add: pos_def)
  then show "skip_ws (spaced (ps @ ts)) (pos ps) = pos ps" using assms .
  have "uch (spaced ps @ t @ 32 # spaced ts) (pos ps + length t) = 32" by (simp add: uch_def pos_def nth_append)
  then have "skip_ws (spaced ps @ t @ 32 # spaced ts) (pos ps + length t) = skip_ws (spaced ps @ t @ 32 # spaced ts) (pos ps + length t + 1)"
    by (subst skip_ws.simps) (simp add: is_ws_iff pos_def)
  also have "\<dots> = pos ps + length t + 1" using a[of ts "ps @ [t]"] assms by simp
  finally show "skip_ws (spaced ps @ t @ 32 # spaced ts) (pos ps + length t) = pos ps + length t + 1" .
qed

lemma skip_word_token:
  assumes "is_word t"
  shows "skip_word (spaced ps @ t @ 32 # rest) (pos ps) = pos ps + length t"
proof -
  let ?s = "spaced ps @ t @ 32 # rest"
  have "skip_word ?s (pos ps + k) = pos ps + length t" if "k \<le> length t" for k
    using that
  proof (induction "length t - k" arbitrary: k)
    case 0
    then have "uch ?s (pos ps + k) = 32" by (simp add: uch_def pos_def nth_append)
    then show ?case using 0 by (subst skip_word.simps) (simp add: is_ws_iff)
  next
    case (Suc n)
    then have k: "k < length t" by simp
    then have "uch ?s (pos ps + k) = t ! k" by (simp add: uch_def pos_def nth_append)
    then have "skip_word ?s (pos ps + k) = skip_word ?s (pos ps + Suc k)"
      using assms k by (subst skip_word.simps) (auto simp: is_word_def list_all_length pos_def)
    then show ?case using Suc(1)[of "Suc k"] Suc(2) k by simp
  qed
  from this[of 0] show ?thesis by simp
qed

lemma kind_facts:
  "is_word t \<Longrightarrow> kind t = 97" "kind [124] = 124" "kind [40] = 40" "kind [41] = 41" "kind [59] = 59" "kind [38] = 38"
  "kind [60] = 60" "kind [62] = 62" "kind [62, 62] = 43"
  by (auto simp: kind_def is_word_def is_symbol_iff)

lemma gettoken_spaced:
  assumes "list_all is_token (t # ts)"
  shows "gettoken (spaced (ps @ t # ts)) (pos ps) =
    \<lparr>t_ret = kind t, t_q = pos ps, t_eq = pos ps + length t, t_ps = pos ps + length t + 1\<rparr>"
proof -
  let ?s = "spaced (ps @ t # ts)"
  have ch: "uch ?s (pos ps + k) = (t @ [32]) ! k" if "k \<le> length t" for k
    using that by (auto simp: uch_def pos_def nth_append)
  have "token_end ?s (pos ps) = (kind t, pos ps + length t)"
  proof (cases "is_word t")
    case True
    then have "uch ?s (pos ps) = hd t" "hd t \<noteq> 0" "\<not> is_symbol (hd t)"
      using ch[of 0] by (cases t; auto simp: is_word_def)+
    moreover have "skip_word ?s (pos ps) = pos ps + length t" using skip_word_token[OF True, of ps "spaced ts"] by simp
    ultimately show ?thesis using True by (auto simp: token_end_def Let_def kind_facts is_symbol_iff)
  next
    case False
    then have "t \<in> {[124], [40], [41], [59], [38], [60], [62], [62, 62]}" using assms by (simp add: is_token_def)
    then show ?thesis using ch[of 0] ch[of 1] by (auto simp: token_end_def Let_def kind_facts)
  qed
  moreover have "skip_ws ?s (pos ps) = pos ps" by (rule skip_ws_token(1)[OF assms])
  moreover have "skip_ws ?s (pos ps + length t) = pos ps + length t + 1" using skip_ws_token(2)[of ts ps t] assms by simp
  ultimately show ?thesis by (simp add: gettoken_def Let_def)
qed

lemma gettoken_end: "gettoken (spaced ps) (pos ps) = \<lparr>t_ret = 0, t_q = pos ps, t_eq = pos ps, t_ps = pos ps\<rparr>"
  using skip_ws_token(1)[of "[]" ps] by (simp add: gettoken_def token_end_def uch_def pos_def Let_def)

lemma peek_spaced:
  assumes "list_all is_token ts" "0 \<notin> set toks"
  shows "peek (spaced (ps @ ts)) (pos ps) toks = (ts \<noteq> [] \<and> hd (hd ts) \<in> set toks, pos ps)"
proof (cases ts)
  case (Cons t us)
  then have "uch (spaced (ps @ ts)) (pos ps) = hd t" "hd t \<noteq> 0"
    using token_first[of t] assms by (cases t; auto simp: uch_def pos_def nth_append)+
  then show ?thesis using skip_ws_token(1)[OF assms(1), of ps] Cons by (simp add: peek_def strchr_None)
qed (use skip_ws_token(1)[of "[]" ps] in \<open>simp add: peek_def uch_def pos_def\<close>)

text \<open>The pieces of a simple command, and the tree a sequence of them builds.\<close>

datatype piece = Arg ustring | In ustring | Out ustring | App ustring

fun put_piece :: "piece \<Rightarrow> ustring command \<Rightarrow> ustring command" where
  "put_piece (Arg w) c = add_arg w c"
| "put_piece (In f) c = RedirCmd c f 4 0"
| "put_piece (Out f) c = RedirCmd c f 58 1"
| "put_piece (App f) c = RedirCmd c f 58 1"

fun piece_text :: "piece \<Rightarrow> ustring list" where
  "piece_text (Arg w) = [w]"
| "piece_text (In f) = [[60], f]"
| "piece_text (Out f) = [[62], f]"
| "piece_text (App f) = [[62, 62], f]"

fun piece_word :: "piece \<Rightarrow> ustring" where
  "piece_word (Arg w) = w"
| "piece_word (In f) = f"
| "piece_word (Out f) = f"
| "piece_word (App f) = f"

fun is_arg :: "piece \<Rightarrow> bool" where
  "is_arg (Arg w) = True"
| "is_arg _ = False"

definition texts :: "piece list \<Rightarrow> ustring list" where
  "texts xs = concat (map piece_text xs)"

definition sub :: "ustring \<Rightarrow> nat \<times> nat \<Rightarrow> ustring" where
  "sub s w = take (snd w - fst w) (drop (fst w) s)"

text \<open>
  The grammar of command lines with the tree of each: a simple command or a block with redirections, a pipe of
  these, and a line of pipes, each in the background or not.
\<close>

inductive line_of :: "ustring command \<Rightarrow> ustring list \<Rightarrow> bool"
  and pipe_of :: "ustring command \<Rightarrow> ustring list \<Rightarrow> bool"
  and exec_of :: "ustring command \<Rightarrow> ustring list \<Rightarrow> bool" where
  simple: "list_all (\<lambda>x. is_word (piece_word x)) xs \<Longrightarrow> length (filter is_arg xs) < MAXARGS \<Longrightarrow>
    exec_of (fold put_piece xs (ExecCmd [])) (texts xs)"
| block: "line_of c ts \<Longrightarrow> list_all (\<lambda>x. is_word (piece_word x) \<and> \<not> is_arg x) rs \<Longrightarrow>
    exec_of (fold put_piece rs c) ([40] # ts @ [41] # texts rs)"
| last: "exec_of c ts \<Longrightarrow> pipe_of c ts"
| pipe: "exec_of c ts \<Longrightarrow> pipe_of d us \<Longrightarrow> pipe_of (PipeCmd c d) (ts @ [124] # us)"
| line: "pipe_of c ts \<Longrightarrow> line_of ((BackCmd ^^ k) c) (ts @ replicate k [38])"
| more: "pipe_of c ts \<Longrightarrow> line_of d us \<Longrightarrow> line_of (ListCmd ((BackCmd ^^ k) c) d) (ts @ replicate k [38] @ [59] # us)"

definition follow :: "u8 set \<Rightarrow> ustring list \<Rightarrow> bool" where
  "follow F us \<longleftrightarrow> us = [] \<or> hd (hd us) \<in> F"

lemma texts_simps [simp]: "texts [] = []" "texts (x # xs) = piece_text x @ texts xs" "texts (xs @ ys) = texts xs @ texts ys"
  by (simp_all add: texts_def)

lemma texts_tokens: "list_all (\<lambda>x. is_word (piece_word x)) xs \<Longrightarrow> list_all is_token (texts xs)"
proof (induction xs)
  case (Cons x xs)
  then show ?case by (cases x) (simp_all add: is_token_def)
qed simp

lemma map_command_add_arg: "map_command f (add_arg w c) = add_arg (f w) (map_command f c)"
  by (induction w c rule: add_arg.induct) auto

lemma sub_spaced: "sub (spaced (ps @ t # ts)) (pos ps, pos ps + length t) = t"
  by (simp add: sub_def pos_def)

lemma parseredirs_step:
  assumes "t \<in> {[60], [62], [62, 62]}" "is_word f" "list_all is_token us"
  shows "parseredirs (spaced (ps @ t # f # us)) c (pos ps) =
    parseredirs (spaced (ps @ t # f # us))
      (RedirCmd c (pos (ps @ [t]), pos (ps @ [t]) + length f) (if t = [60] then 4 else 58) (if t = [60] then 0 else 1)) (pos (ps @ [t, f]))"
proof -
  define s where "s = spaced (ps @ t # f # us)"
  have tok: "list_all is_token (t # f # us)" using assms by (auto simp: is_token_def)
  have p: "peek s (pos ps) [60, 62] = (True, pos ps)"
    using peek_spaced[OF tok, of "[60, 62]" ps] assms(1) unfolding s_def by auto
  note g = gettoken_spaced[OF tok, of ps, folded s_def]
  have h: "gettoken s (pos ps + length t + 1) =
      \<lparr>t_ret = kind f, t_q = pos (ps @ [t]), t_eq = pos (ps @ [t]) + length f, t_ps = pos (ps @ [t]) + length f + 1\<rparr>"
    using gettoken_spaced[of f us "ps @ [t]"] tok unfolding s_def by simp
  have "kind t = (if t = [60] then 60 else if t = [62] then 62 else 43)" using assms(1) by (auto simp: kind_facts)
  then show ?thesis
    using assms(1,2) unfolding s_def[symmetric] parseredirs.simps[of s c "pos ps"] p fst_conv snd_conv g
    by (auto simp: h[simplified] Let_def kind_facts redir_of_def)
qed

lemma parseredirs_spaced:
  assumes "list_all (\<lambda>x. is_word (piece_word x) \<and> \<not> is_arg x) rs" "list_all is_token us" "us = [] \<or> hd (hd us) \<notin> {60, 62}"
  shows "\<exists>c'. parseredirs (spaced (ps @ texts rs @ us)) c (pos ps) = Inr (c', pos (ps @ texts rs)) \<and>
    map_command (sub (spaced (ps @ texts rs @ us))) c' = fold put_piece rs (map_command (sub (spaced (ps @ texts rs @ us))) c)"
  using assms(1)
proof (induction rs arbitrary: ps c)
  case Nil
  have "peek (spaced (ps @ us)) (pos ps) [60, 62] = (False, pos ps)"
    using peek_spaced[OF assms(2), of "[60, 62]" ps] assms(3) by auto
  then show ?case by (subst parseredirs.simps) simp
next
  case (Cons r rs)
  define t where "t = hd (piece_text r)"
  define f where "f = piece_word r"
  have r: "piece_text r = [t, f]" "t \<in> {[60], [62], [62, 62]}" "is_word f"
    "put_piece r d = RedirCmd d f (if t = [60] then 4 else 58) (if t = [60] then 0 else 1)" for d
    using Cons.prems by (cases r; auto simp: t_def f_def)+
  have toks: "list_all is_token (texts rs @ us)" using texts_tokens[of rs] Cons.prems assms(2) by (auto simp: list_all_iff)
  let ?s = "spaced (ps @ texts (r # rs) @ us)"
  let ?c = "RedirCmd c (pos (ps @ [t]), pos (ps @ [t]) + length f) (if t = [60] then 4 else 58) (if t = [60] then 0 else 1)"
  have s: "?s = spaced (ps @ t # f # texts rs @ us)" "?s = spaced ((ps @ [t, f]) @ texts rs @ us)" by (simp_all add: r(1))
  have step: "parseredirs ?s c (pos ps) = parseredirs ?s ?c (pos (ps @ [t, f]))"
    unfolding s(1) by (rule parseredirs_step[OF r(2,3) toks])
  have "sub ?s (pos (ps @ [t]), pos (ps @ [t]) + length f) = f" using sub_spaced[of "ps @ [t]" f "texts rs @ us"] by (simp add: r(1))
  then have m: "map_command (sub ?s) ?c = put_piece r (map_command (sub ?s) c)" by (simp add: r(4))
  have "list_all (\<lambda>x. is_word (piece_word x) \<and> \<not> is_arg x) rs" using Cons.prems by simp
  from Cons.IH[OF this, of "ps @ [t, f]" ?c, folded s(2)] obtain c' where
    "parseredirs ?s ?c (pos (ps @ [t, f])) = Inr (c', pos ((ps @ [t, f]) @ texts rs))"
    "map_command (sub ?s) c' = fold put_piece rs (map_command (sub ?s) ?c)" by blast
  then show ?case using step m by (auto simp: r(1))
qed

text \<open>Splitting a sequence of pieces at its first word.\<close>

lemma redirs_split: "xs = takeWhile (\<lambda>x. \<not> is_arg x) xs @ dropWhile (\<lambda>x. \<not> is_arg x) xs"
  by simp

lemma next_word:
  assumes "list_all (\<lambda>x. is_word (piece_word x)) ys" "ys = [] \<or> is_arg (hd ys)" "list_all is_token us" "follow {124, 41, 38, 59} us"
  shows "texts ys @ us = [] \<or> hd (hd (texts ys @ us)) \<notin> {60, 62}" "follow {124, 41, 38, 59} (texts ys @ us) \<longleftrightarrow> ys = []"
    "texts ys @ us = [] \<or> hd (hd (texts ys @ us)) \<noteq> 40"
proof -
  have "hd (hd (texts ys @ us)) \<notin> {60, 62, 124, 41, 38, 59, 40} \<and> texts ys @ us \<noteq> []" if ne: "ys \<noteq> []"
  proof -
    obtain y zs where y: "ys = y # zs" using ne by (cases ys) auto
    then obtain w where "y = Arg w" "is_word w" using assms(1,2) by (cases y) auto
    note y = y[unfolded this(1)] this(2)
    then show ?thesis using y by (cases w) (auto simp: is_word_def is_symbol_iff)
  qed
  then show "texts ys @ us = [] \<or> hd (hd (texts ys @ us)) \<notin> {60, 62}" "follow {124, 41, 38, 59} (texts ys @ us) \<longleftrightarrow> ys = []"
    "texts ys @ us = [] \<or> hd (hd (texts ys @ us)) \<noteq> 40"
    using assms(4) by (cases "ys = []"; auto simp: follow_def)+
qed

lemma parseargs_spaced:
  assumes "list_all (\<lambda>x. is_word (piece_word x)) xs" "xs = [] \<or> is_arg (hd xs)" "list_all is_token us" "follow {124, 41, 38, 59} us"
    "argc + length (filter is_arg xs) < MAXARGS"
  shows "\<exists>c'. parseargs (spaced (ps @ texts xs @ us)) c argc (pos ps) = Inr (c', pos (ps @ texts xs)) \<and>
    map_command (sub (spaced (ps @ texts xs @ us))) c' = fold put_piece xs (map_command (sub (spaced (ps @ texts xs @ us))) c)"
  using assms
proof (induction "length xs" arbitrary: xs ps c argc rule: less_induct)
  case less
  show ?case
  proof (cases xs)
    case Nil
    show ?thesis
    proof (cases us)
      case Nil
      then show ?thesis using \<open>xs = []\<close> peek_spaced[of "[]" "[124, 41, 38, 59]" ps] gettoken_end[of ps]
        by (subst parseargs.simps) simp
    next
      case (Cons u us')
      then have "peek (spaced (ps @ us)) (pos ps) [124, 41, 38, 59] = (True, pos ps)"
        using peek_spaced[OF less.prems(3), of "[124, 41, 38, 59]" ps] less.prems(4) by (auto simp: follow_def)
      then show ?thesis using \<open>xs = []\<close> by (subst parseargs.simps) simp
    qed
  next
    case (Cons x zs)
    then obtain w where x: "x = Arg w" "is_word w" using less.prems(1,2) by (cases x) auto
    define rs ys where "rs = takeWhile (\<lambda>x. \<not> is_arg x) zs" and "ys = dropWhile (\<lambda>x. \<not> is_arg x) zs"
    have zs: "zs = rs @ ys" by (simp add: rs_def ys_def)
    have "set rs \<subseteq> set zs" "set ys \<subseteq> set zs" using zs by auto
    then have ok: "list_all (\<lambda>x. is_word (piece_word x) \<and> \<not> is_arg x) rs" "list_all (\<lambda>x. is_word (piece_word x)) ys"
      "filter is_arg rs = []"
      using less.prems(1) Cons by (auto simp: rs_def list_all_iff filter_empty_conv dest: set_takeWhileD)
    have ya: "ys = [] \<or> is_arg (hd ys)" using hd_dropWhile[of "\<lambda>x. \<not> is_arg x" zs] by (auto simp: ys_def)
    define s where "s = spaced (ps @ texts xs @ us)"
    have toks: "list_all is_token (w # texts zs @ us)" "list_all is_token (texts ys @ us)"
      using texts_tokens[of zs] texts_tokens[of ys] less.prems(1,3) Cons x ok(2) by (auto simp: list_all_iff is_token_def)
    have s: "s = spaced (ps @ w # texts zs @ us)" "s = spaced ((ps @ [w]) @ texts rs @ texts ys @ us)"
      "s = spaced ((ps @ [w] @ texts rs) @ texts ys @ us)" by (simp_all add: s_def Cons x zs)
    have fo: "hd w \<notin> {124, 41, 38, 59}" using x(2) by (cases w) (auto simp: is_word_def is_symbol_iff)
    have pk: "peek s (pos ps) [124, 41, 38, 59] = (False, pos ps)"
      using peek_spaced[OF toks(1), of "[124, 41, 38, 59]" ps] fo unfolding s(1) by simp
    note g = gettoken_spaced[OF toks(1), of ps, folded s(1)]
    obtain d where d: "parseredirs s (add_arg (pos ps, pos ps + length w) c) (pos (ps @ [w])) = Inr (d, pos (ps @ [w] @ texts rs))"
      "map_command (sub s) d = fold put_piece rs (map_command (sub s) (add_arg (pos ps, pos ps + length w) c))"
      using parseredirs_spaced[OF ok(1) toks(2) next_word(1)[OF ok(2) ya less.prems(3,4)], of "ps @ [w]", folded s(2)] by auto
    have "argc + 1 + length (filter is_arg ys) < MAXARGS" "length ys < length xs"
      using less.prems(5) ok(3) by (simp_all add: Cons x zs)
    from less.hyps[OF this(2) ok(2) ya less.prems(3,4) this(1), of "ps @ [w] @ texts rs" d, folded s(3)]
    obtain c' where c': "parseargs s d (argc + 1) (pos (ps @ [w] @ texts rs)) = Inr (c', pos ((ps @ [w] @ texts rs) @ texts ys))"
      "map_command (sub s) c' = fold put_piece ys (map_command (sub s) d)" by blast
    have "parseargs s c argc (pos ps) = Inr (c', pos (ps @ texts xs))"
      using less.prems(5) c'(1) d(1) x unfolding parseargs.simps[of s c argc "pos ps"] pk fst_conv snd_conv g
      by (simp add: kind_facts Let_def Cons zs)
    moreover have "sub s (pos ps, pos ps + length w) = w" using sub_spaced[of ps w "texts zs @ us"] unfolding s(1) .
    ultimately show ?thesis using c'(2) d(2) unfolding s_def[symmetric] by (auto simp: Cons x zs map_command_add_arg)
  qed
qed

lemma parseback_spaced:
  assumes "list_all is_token us" "us = [] \<or> hd (hd us) \<noteq> 38"
  shows "parseback (spaced (ps @ replicate k [38] @ us)) c (pos ps) = ((BackCmd ^^ k) c, pos (ps @ replicate k [38]))"
proof (induction k arbitrary: ps c)
  case 0
  have "peek (spaced (ps @ us)) (pos ps) [38] = (False, pos ps)"
    using peek_spaced[OF assms(1), of "[38]" ps] assms(2) by auto
  then show ?case by (subst parseback.simps) simp
next
  case (Suc k)
  define s where "s = spaced (ps @ replicate (Suc k) [38] @ us)"
  have toks: "list_all is_token ([38] # replicate k [38] @ us)" using assms(1) by (auto simp: list_all_iff is_token_def)
  have s: "s = spaced (ps @ [38] # replicate k [38] @ us)" "s = spaced ((ps @ [[38]]) @ replicate k [38] @ us)" by (simp_all add: s_def)
  have p: "peek s (pos ps) [38] = (True, pos ps)" using peek_spaced[OF toks, of "[38]" ps] unfolding s(1) by simp
  have g: "t_ps (gettoken s (pos ps)) = pos (ps @ [[38]])" using gettoken_spaced[OF toks, of ps] unfolding s(1) by simp
  have "parseback s c (pos ps) = parseback s (BackCmd c) (pos (ps @ [[38]]))"
    unfolding parseback.simps[of s c "pos ps"] p fst_conv snd_conv g by simp
  also have "\<dots> = ((BackCmd ^^ k) (BackCmd c), pos ((ps @ [[38]]) @ replicate k [38]))" using Suc[of "ps @ [[38]]" "BackCmd c"] unfolding s(2) .
  finally show ?case unfolding s_def by (simp add: funpow_swap1)
qed

text \<open>More depth does not change a result.\<close>

lemma parse_mono:
  "parseline n s i = Some r \<Longrightarrow> n \<le> m \<Longrightarrow> parseline m s i = Some r"
  "parsepipe n s i = Some r \<Longrightarrow> n \<le> m \<Longrightarrow> parsepipe m s i = Some r"
  "parseexec n s i = Some r \<Longrightarrow> n \<le> m \<Longrightarrow> parseexec m s i = Some r"
  "parseblock n s i = Some r \<Longrightarrow> n \<le> m \<Longrightarrow> parseblock m s i = Some r"
proof (induction n s i and n s i and n s i and n s i arbitrary: m r and m r and m r and m r
    rule: parseline_parsepipe_parseexec_parseblock.induct)
  case (2 n s i)
  obtain m' where m: "m = Suc m'" "n \<le> m'" using 2(4) by (cases m) auto
  have "parsepipe n s i \<noteq> None" using 2(3) by (cases "parsepipe n s i") auto
  then obtain q where q: "parsepipe n s i = Some q" "parsepipe m' s i = Some q" using 2(1)[OF _ m(2)] by blast
  show ?case
  proof (cases q)
    case (Inl e)
    show ?thesis using 2(3) unfolding m(1) parseline.simps q Inl pbind_simps .
  next
    case (Inr x)
    obtain c j where x: "x = (c, j)" by (cases x)
    obtain c' k where k: "parseback s c j = (c', k)" by (cases "parseback s c j")
    note res = 2(3)[unfolded parseline.simps q Inr x pbind_simps prod.case k Let_def]
    show ?thesis
    proof (cases "fst (peek s k [59])")
      case True
      then have "parseline n s (t_ps (gettoken s (snd (peek s k [59])))) \<noteq> None" using res by (auto dest!: pbind_SomeD)
      then obtain y where y: "parseline n s (t_ps (gettoken s (snd (peek s k [59])))) = Some y" by auto
      have "parseline m' s (t_ps (gettoken s (snd (peek s k [59])))) = Some y" by (rule 2(2)[OF k[symmetric] refl True y m(2)])
      then show ?thesis using True res y unfolding m(1) parseline.simps q Inr x pbind_simps prod.case k Let_def by simp
    next
      case False
      then show ?thesis using res unfolding m(1) parseline.simps q Inr x pbind_simps prod.case k Let_def by simp
    qed
  qed
next
  case (4 n s i)
  obtain m' where m: "m = Suc m'" "n \<le> m'" using 4(4) by (cases m) auto
  have "parseexec n s i \<noteq> None" using 4(3) by (cases "parseexec n s i") auto
  then obtain q where q: "parseexec n s i = Some q" "parseexec m' s i = Some q" using 4(1)[OF _ m(2)] by blast
  show ?case
  proof (cases q)
    case (Inl e)
    show ?thesis using 4(3) unfolding m(1) parsepipe.simps q Inl pbind_simps .
  next
    case (Inr x)
    obtain c k where x: "x = (c, k)" by (cases x)
    note res = 4(3)[unfolded parsepipe.simps q Inr x pbind_simps prod.case]
    show ?thesis
    proof (cases "fst (peek s k [124])")
      case True
      then have "parsepipe n s (t_ps (gettoken s (snd (peek s k [124])))) \<noteq> None" using res by (auto dest!: pbind_SomeD)
      then obtain y where y: "parsepipe n s (t_ps (gettoken s (snd (peek s k [124])))) = Some y" by auto
      have "parsepipe m' s (t_ps (gettoken s (snd (peek s k [124])))) = Some y" by (rule 4(2)[OF True y m(2)])
      then show ?thesis using True res y unfolding m(1) parsepipe.simps q Inr x pbind_simps prod.case by simp
    next
      case False
      then show ?thesis using res unfolding m(1) parsepipe.simps q Inr x pbind_simps prod.case by simp
    qed
  qed
next
  case (6 n s i)
  obtain m' where m: "m = Suc m'" "n \<le> m'" using 6(3) by (cases m) auto
  show ?case
  proof (cases "fst (peek s i [40])")
    case True
    then show ?thesis using 6(1)[OF True _ m(2)] 6(2) m(1) by simp
  next
    case False
    then show ?thesis using 6(2) m(1) by simp
  qed
next
  case (8 n s i)
  obtain m' where m: "m = Suc m'" "n \<le> m'" using 8(3) by (cases m) auto
  show ?case
  proof (cases "fst (peek s i [40])")
    case True
    then have "parseline n s (t_ps (gettoken s (snd (peek s i [40])))) \<noteq> None"
      using 8(2) by (cases "parseline n s (t_ps (gettoken s (snd (peek s i [40]))))") auto
    then obtain q where "parseline n s (t_ps (gettoken s (snd (peek s i [40])))) = Some q"
      "parseline m' s (t_ps (gettoken s (snd (peek s i [40])))) = Some q" using 8(1)[OF _ _ m(2)] True by blast
    then show ?thesis using 8(2) True m(1) by simp
  next
    case False
    then show ?thesis using 8(2) m(1) by simp
  qed
qed auto

lemma symbol_tokens [simp]: "is_token [124]" "is_token [40]" "is_token [41]" "is_token [59]" "is_token [38]"
  by (simp_all add: is_token_def)

lemma grammar_tokens:
  "line_of c ts \<Longrightarrow> list_all is_token ts" "pipe_of c ts \<Longrightarrow> list_all is_token ts" "exec_of c ts \<Longrightarrow> list_all is_token ts"
proof (induction rule: line_of_pipe_of_exec_of.inducts)
  case (simple xs)
  then show ?case by (simp add: texts_tokens)
next
  case (block c ts rs)
  then show ?case using texts_tokens[of rs] by (auto simp: list_all_iff)
qed (auto simp: list_all_iff)

lemma simple_parsed:
  assumes "list_all (\<lambda>x. is_word (piece_word x)) xs" "length (filter is_arg xs) < MAXARGS" "list_all is_token us" "follow {124, 41, 38, 59} us"
  shows "\<exists>c'. parseexec 1 (spaced (ps @ texts xs @ us)) (pos ps) = Some (Inr (c', pos (ps @ texts xs))) \<and>
    map_command (sub (spaced (ps @ texts xs @ us))) c' = fold put_piece xs (ExecCmd [])"
proof -
  define s where "s = spaced (ps @ texts xs @ us)"
  define rs ys where "rs = takeWhile (\<lambda>x. \<not> is_arg x) xs" and "ys = dropWhile (\<lambda>x. \<not> is_arg x) xs"
  have xs: "xs = rs @ ys" by (simp add: rs_def ys_def)
  then have "set rs \<subseteq> set xs" "set ys \<subseteq> set xs" by auto
  then have ok: "list_all (\<lambda>x. is_word (piece_word x) \<and> \<not> is_arg x) rs" "list_all (\<lambda>x. is_word (piece_word x)) ys" "filter is_arg rs = []"
    using assms(1) by (auto simp: rs_def list_all_iff filter_empty_conv dest: set_takeWhileD)
  have ya: "ys = [] \<or> is_arg (hd ys)" using hd_dropWhile[of "\<lambda>x. \<not> is_arg x" xs] by (auto simp: ys_def)
  have toks: "list_all is_token (texts xs @ us)" "list_all is_token (texts ys @ us)"
    using texts_tokens[OF assms(1)] texts_tokens[OF ok(2)] assms(3) by (auto simp: list_all_iff)
  have s: "s = spaced (ps @ texts rs @ texts ys @ us)" "s = spaced ((ps @ texts rs) @ texts ys @ us)" by (simp_all add: s_def xs)
  have "texts xs @ us = [] \<or> hd (hd (texts xs @ us)) \<noteq> 40"
  proof (cases rs)
    case Nil
    then show ?thesis using next_word(3)[OF ok(2) ya assms(3,4)] by (simp add: xs)
  next
    case (Cons r rs')
    then show ?thesis using ok(1) by (cases r) (auto simp: xs)
  qed
  then have pk: "peek s (pos ps) [40] = (False, pos ps)" using peek_spaced[OF toks(1), of "[40]" ps] by (auto simp: s_def)
  from parseredirs_spaced[OF ok(1) toks(2) next_word(1)[OF ok(2) ya assms(3,4)], of ps "ExecCmd []", folded s(1)] obtain d where
    d: "parseredirs s (ExecCmd []) (pos ps) = Inr (d, pos (ps @ texts rs))" "map_command (sub s) d = fold put_piece rs (ExecCmd [])" by auto
  have "0 + length (filter is_arg ys) < MAXARGS" using assms(2) by (simp add: xs)
  from parseargs_spaced[OF ok(2) ya assms(3,4) this, of "ps @ texts rs" d, folded s(2)] d(2) obtain c' where
    c': "parseargs s d 0 (pos (ps @ texts rs)) = Inr (c', pos ((ps @ texts rs) @ texts ys))" "map_command (sub s) c' = fold put_piece xs (ExecCmd [])"
    by (auto simp: xs)
  have "parseexec 1 s (pos ps) = Some (Inr (c', pos (ps @ texts xs)))"
    unfolding One_nat_def parseexec.simps pk fst_conv snd_conv using d(1) c'(1) by (simp add: xs)
  then show ?thesis using c'(2) unfolding s_def[symmetric] by blast
qed

lemma follow_mono: "follow F us \<Longrightarrow> F \<subseteq> G \<Longrightarrow> follow G us"
  by (auto simp: follow_def)

lemma peek_follow:
  assumes "list_all is_token us" "follow F us" "c \<notin> F" "c \<noteq> 0"
  shows "peek (spaced (ps @ us)) (pos ps) [c] = (False, pos ps)"
  using peek_spaced[OF assms(1), of "[c]" ps] assms(2-4) by (auto simp: follow_def)

lemma symbol_step:
  assumes "t \<in> {[124], [40], [41], [59], [38]}" "list_all is_token us"
  shows "peek (spaced (ps @ t # us)) (pos ps) t = (True, pos ps)" "t_ps (gettoken (spaced (ps @ t # us)) (pos ps)) = pos (ps @ [t])"
proof -
  have toks: "list_all is_token (t # us)" using assms by (auto simp: is_token_def)
  show "peek (spaced (ps @ t # us)) (pos ps) t = (True, pos ps)" using peek_spaced[OF toks, of t ps] assms(1) by auto
  show "t_ps (gettoken (spaced (ps @ t # us)) (pos ps)) = pos (ps @ [t])" using gettoken_spaced[OF toks, of ps] by simp
qed

lemma grammar_parsed:
  "line_of c ts \<Longrightarrow> list_all is_token us \<Longrightarrow> follow {41} us \<Longrightarrow>
    \<exists>n c'. parseline n (spaced (ps @ ts @ us)) (pos ps) = Some (Inr (c', pos (ps @ ts))) \<and> map_command (sub (spaced (ps @ ts @ us))) c' = c"
  "pipe_of c ts \<Longrightarrow> list_all is_token us \<Longrightarrow> follow {41, 38, 59} us \<Longrightarrow>
    \<exists>n c'. parsepipe n (spaced (ps @ ts @ us)) (pos ps) = Some (Inr (c', pos (ps @ ts))) \<and> map_command (sub (spaced (ps @ ts @ us))) c' = c"
  "exec_of c ts \<Longrightarrow> list_all is_token us \<Longrightarrow> follow {124, 41, 38, 59} us \<Longrightarrow>
    \<exists>n c'. parseexec n (spaced (ps @ ts @ us)) (pos ps) = Some (Inr (c', pos (ps @ ts))) \<and> map_command (sub (spaced (ps @ ts @ us))) c' = c"
proof (induction arbitrary: ps us and ps us and ps us rule: line_of_pipe_of_exec_of.inducts)
  case (simple xs)
  then show ?case using simple_parsed[of xs us ps] by blast
next
  case (block c ts rs)
  define s where "s = spaced (ps @ ([40] # ts @ [41] # texts rs) @ us)"
  have toks: "list_all is_token (ts @ [41] # texts rs @ us)" "list_all is_token ([41] # texts rs @ us)" "list_all is_token (texts rs @ us)"
    using grammar_tokens(1)[OF block.hyps(1)] texts_tokens[of rs] block.hyps(2) block.prems(1) by (auto simp: list_all_iff)
  have s: "s = spaced (ps @ [40] # ts @ [41] # texts rs @ us)" "s = spaced ((ps @ [[40]]) @ ts @ [41] # texts rs @ us)"
    "s = spaced ((ps @ [40] # ts) @ [41] # texts rs @ us)" "s = spaced ((ps @ [40] # ts @ [[41]]) @ texts rs @ us)" by (simp_all add: s_def)
  note lp = symbol_step[of "[40]" "ts @ [41] # texts rs @ us" ps, folded s(1), OF _ toks(1), simplified]
  note rp = symbol_step[of "[41]" "texts rs @ us" "ps @ [40] # ts", folded s(3), OF _ toks(3), simplified]
  have "follow {41} ([41] # texts rs @ us)" by (simp add: follow_def)
  from block.IH[OF toks(2) this, of "ps @ [[40]]", folded s(2)] obtain n d where
    d: "parseline n s (pos (ps @ [[40]])) = Some (Inr (d, pos ((ps @ [[40]]) @ ts)))" "map_command (sub s) d = c" by blast
  have "us = [] \<or> hd (hd us) \<notin> {60, 62}" using block.prems(2) by (auto simp: follow_def)
  from parseredirs_spaced[OF block.hyps(2) block.prems(1) this, of "ps @ [40] # ts @ [[41]]" d, folded s(4)] d(2) obtain c' where
    c': "parseredirs s d (pos (ps @ [40] # ts @ [[41]])) = Inr (c', pos ((ps @ [40] # ts @ [[41]]) @ texts rs))"
    "map_command (sub s) c' = fold put_piece rs c" by auto
  have "parseblock (Suc n) s (pos ps) = Some (Inr (c', pos (ps @ [40] # ts @ [41] # texts rs)))"
    unfolding parseblock.simps using lp rp d(1) c'(1) by simp
  then have "parseexec (Suc (Suc n)) s (pos ps) = Some (Inr (c', pos (ps @ [40] # ts @ [41] # texts rs)))"
    unfolding parseexec.simps using lp by simp
  then show ?case using c'(2) unfolding s_def[symmetric] by (intro exI[of _ "Suc (Suc n)"] exI[of _ c']) simp
next
  case (last c ts)
  define s where "s = spaced (ps @ ts @ us)"
  have s: "s = spaced ((ps @ ts) @ us)" by (simp add: s_def)
  from last.IH[OF last.prems(1) follow_mono[OF last.prems(2)], of ps, folded s_def] obtain n c' where
    c': "parseexec n s (pos ps) = Some (Inr (c', pos (ps @ ts)))" "map_command (sub s) c' = c" by auto
  have "peek s (pos (ps @ ts)) [124] = (False, pos (ps @ ts))" using peek_follow[OF last.prems, of 124 "ps @ ts"] unfolding s by simp
  then have "parsepipe (Suc n) s (pos ps) = Some (Inr (c', pos (ps @ ts)))"
    unfolding parsepipe.simps c'(1) by simp
  then show ?case using c'(2) unfolding s_def[symmetric] by blast
next
  case (pipe c ts d vs)
  define s where "s = spaced (ps @ (ts @ [124] # vs) @ us)"
  have toks: "list_all is_token ([124] # vs @ us)" "list_all is_token (vs @ us)"
    using grammar_tokens(2)[OF pipe.hyps(2)] pipe.prems(1) by (auto simp: list_all_iff)
  have s: "s = spaced (ps @ ts @ [124] # vs @ us)" "s = spaced ((ps @ ts) @ [124] # vs @ us)"
    "s = spaced ((ps @ ts @ [[124]]) @ vs @ us)" by (simp_all add: s_def)
  have "follow {124, 41, 38, 59} ([124] # vs @ us)" by (simp add: follow_def)
  from pipe.IH(1)[OF toks(1) this, of ps, folded s(1)] obtain n c' where
    c': "parseexec n s (pos ps) = Some (Inr (c', pos (ps @ ts)))" "map_command (sub s) c' = c" by auto
  from pipe.IH(2)[OF pipe.prems, of "ps @ ts @ [[124]]", folded s(3)] obtain m d' where
    d': "parsepipe m s (pos (ps @ ts @ [[124]])) = Some (Inr (d', pos ((ps @ ts @ [[124]]) @ vs)))" "map_command (sub s) d' = d" by auto
  note sym = symbol_step[of "[124]" "vs @ us" "ps @ ts", folded s(2), OF _ toks(2), simplified]
  have "parsepipe (Suc (max n m)) s (pos ps) = Some (Inr (PipeCmd c' d', pos (ps @ ts @ [124] # vs)))"
    unfolding parsepipe.simps parse_mono(3)[OF c'(1) max.cobounded1[of n m]]
    using sym parse_mono(2)[OF d'(1) max.cobounded2[of m n]] by simp
  then show ?case using c'(2) d'(2) unfolding s_def[symmetric] by (intro exI[of _ "Suc (max n m)"] exI[of _ "PipeCmd c' d'"]) simp
next
  case (line c ts k)
  define s where "s = spaced (ps @ (ts @ replicate k [38]) @ us)"
  have toks: "list_all is_token (replicate k [38] @ us)" using line.prems(1) by (auto simp: list_all_iff)
  have s: "s = spaced (ps @ ts @ replicate k [38] @ us)" "s = spaced ((ps @ ts) @ replicate k [38] @ us)"
    "s = spaced ((ps @ ts @ replicate k [38]) @ us)" by (simp_all add: s_def)
  have "follow {41, 38, 59} (replicate k [38] @ us)" using line.prems(2) by (cases k) (auto simp: follow_def)
  from line.IH[OF toks this, of ps, folded s(1)] obtain n c' where
    c': "parsepipe n s (pos ps) = Some (Inr (c', pos (ps @ ts)))" "map_command (sub s) c' = c" by auto
  have "us = [] \<or> hd (hd us) \<noteq> 38" using line.prems(2) by (auto simp: follow_def)
  note b = parseback_spaced[OF line.prems(1) this, of "ps @ ts" k c', folded s(2)]
  have "peek s (pos (ps @ ts @ replicate k [38])) [59] = (False, pos (ps @ ts @ replicate k [38]))"
    using peek_follow[OF line.prems, of 59 "ps @ ts @ replicate k [38]"] unfolding s(3) by simp
  then have "parseline (Suc n) s (pos ps) = Some (Inr ((BackCmd ^^ k) c', pos (ps @ ts @ replicate k [38])))"
    unfolding parseline.simps c'(1) using b by simp
  moreover have "map_command (sub s) ((BackCmd ^^ k) c') = (BackCmd ^^ k) c" using c'(2) by (induction k) auto
  ultimately show ?case unfolding s_def[symmetric]
    by (intro exI[of _ "Suc n"] exI[of _ "(BackCmd ^^ k) c'"]) simp
next
  case (more c ts d vs k)
  define s where "s = spaced (ps @ (ts @ replicate k [38] @ [59] # vs) @ us)"
  have toks: "list_all is_token (replicate k [38] @ [59] # vs @ us)" "list_all is_token ([59] # vs @ us)" "list_all is_token (vs @ us)"
    using grammar_tokens(1)[OF more.hyps(2)] more.prems(1) by (auto simp: list_all_iff)
  have s: "s = spaced (ps @ ts @ replicate k [38] @ [59] # vs @ us)" "s = spaced ((ps @ ts) @ replicate k [38] @ [59] # vs @ us)"
    "s = spaced ((ps @ ts @ replicate k [38]) @ [59] # vs @ us)" "s = spaced ((ps @ ts @ replicate k [38] @ [[59]]) @ vs @ us)"
    by (simp_all add: s_def)
  have "follow {41, 38, 59} (replicate k [38] @ [59] # vs @ us)" by (cases k) (auto simp: follow_def)
  from more.IH(1)[OF toks(1) this, of ps, folded s(1)] obtain n c' where
    c': "parsepipe n s (pos ps) = Some (Inr (c', pos (ps @ ts)))" "map_command (sub s) c' = c" by auto
  note b = parseback_spaced[OF toks(2), of "ps @ ts" k c', folded s(2), simplified]
  from more.IH(2)[OF more.prems, of "ps @ ts @ replicate k [38] @ [[59]]", folded s(4)] obtain m d' where
    d': "parseline m s (pos (ps @ ts @ replicate k [38] @ [[59]])) = Some (Inr (d', pos ((ps @ ts @ replicate k [38] @ [[59]]) @ vs)))"
    "map_command (sub s) d' = d" by auto
  note sym = symbol_step[of "[59]" "vs @ us" "ps @ ts @ replicate k [38]", folded s(3), OF _ toks(3), simplified]
  have "parseline (Suc (max n m)) s (pos ps) = Some (Inr (ListCmd ((BackCmd ^^ k) c') d', pos (ps @ ts @ replicate k [38] @ [59] # vs)))"
    unfolding parseline.simps parse_mono(2)[OF c'(1) max.cobounded1[of n m]]
    using b sym parse_mono(1)[OF d'(1) max.cobounded2[of m n]] by simp
  moreover have "map_command (sub s) ((BackCmd ^^ k) c') = (BackCmd ^^ k) c" using c'(2) by (induction k) auto
  ultimately show ?case using d'(2) unfolding s_def[symmetric]
    by (intro exI[of _ "Suc (max n m)"] exI[of _ "ListCmd ((BackCmd ^^ k) c') d'"]) simp
qed

section \<open>Properties\<close>

text \<open>
  C28. The parser of the shell is safe: it returns for every line, by a command or by one of its error messages. In a
  command no \<^verbatim>\<open>execcmd\<close> has more than 9 words, so that the array of 10 suffices with its 0 at the end, every word
  lies in the line, and after \<^verbatim>\<open>nulterminate\<close> each word is terminated where it ended in the line and otherwise as typed.
\<close>

theorem parsecmd_safe:
  "\<exists>r. parsecmd s = Some r \<and> (\<forall>c. r = Inr c \<longrightarrow> wf_cmd s c \<and>
    (\<forall>w \<in> set_command c. map (nulterminate c (uch s)) [fst w..<snd w] = take (snd w - fst w) (drop (fst w) s) \<and>
      nulterminate c (uch s) (snd w) = 0))"
proof -
  have "parseline (4 * length s + 4) s 0 \<noteq> None" using parse_returns(1)[of s 0] by simp
  then have "parsecmd s \<noteq> None" by (auto simp: parsecmd_def pbind_None)
  then obtain r where r: "parsecmd s = Some r" by auto
  moreover have "wf_cmd s c \<and> (\<forall>w \<in> set_command c. map (nulterminate c (uch s)) [fst w..<snd w] = take (snd w - fst w) (drop (fst w) s) \<and>
      nulterminate c (uch s) (snd w) = 0)" if rc: "r = Inr c" for c
  proof -
    obtain i where "parseline (4 * length s + 4) s 0 = Some (Inr (c, i))"
      using r rc by (auto simp: parsecmd_def pbind_Inr split: if_splits)
    then have wf: "wf_cmd s c" by (rule parse_wf(1)) simp
    have "map (nulterminate c (uch s)) [fst w..<snd w] = take (snd w - fst w) (drop (fst w) s)" if w: "w \<in> set_command c" for w
    proof (rule nth_equalityI)
      have wa: "word_at s w" by (rule wf_cmd_words[OF wf w])
      then show "length (map (nulterminate c (uch s)) [fst w..<snd w]) = length (take (snd w - fst w) (drop (fst w) s))"
        by (auto simp: word_at_def)
      fix k
      assume k: "k < length (map (nulterminate c (uch s)) [fst w..<snd w])"
      have "fst w + k \<notin> snd ` set_command c"
        using word_end_outside[OF _ wa] wf_cmd_words[OF wf] k by fastforce
      then show "map (nulterminate c (uch s)) [fst w..<snd w] ! k = take (snd w - fst w) (drop (fst w) s) ! k"
        using k wa by (auto simp: nulterminate_at uch_def word_at_def)
    qed
    then show ?thesis using wf by (auto simp: nulterminate_at)
  qed
  ultimately show ?thesis by blast
qed

theorem parsecmd_safe_witness:
  "\<exists>c. parsecmd [97, 32, 98, 124, 99] = Some (Inr c) \<and> wf_cmd [97, 32, 98, 124, 99] c \<and> c = PipeCmd (ExecCmd [(0, 1), (2, 3)]) (ExecCmd [(4, 5)]) \<and>
    nulterminate c (uch [97, 32, 98, 124, 99]) 3 = 0"
proof -
  have "parsecmd [97, 32, 98, 124, 99] = Some (Inr (PipeCmd (ExecCmd [(0, 1), (2, 3)]) (ExecCmd [(4, 5)])))" by code_simp
  then show ?thesis using parsecmd_safe[of "[97, 32, 98, 124, 99]"] by auto
qed



end
