(* ===== verification/Spec2Isabelle.thy ===== *)
theory Spec2Isabelle
  imports Sched Privilege Spinlock Fs_Lookup Mkfs_Tree Grep Login Sh
begin

text \<open>
  Verification of xv6 with user accounts (sources under \<^verbatim>\<open>src/\<close>): a Unix-like teaching kernel to
  which users, groups, file modes and set-user-id programs were added.

  \<^bold>\<open>How the code is modelled.\<close> A kernel function is a function of type \<open>('s, 'a) km\<close>: from a state to
  \<open>Ok\<close> with a result and a new state, \<open>Panic\<close> with the message the kernel stops with (also the
  places where C leaves the behaviour open, such as a store past an array or through a null pointer), or
  \<open>Sleep\<close> with the channel the process sleeps on and the state at the context switch. Code that goes
  on after a sleep is either a loop that tests its condition again, and then the function is the part up to the sleep,
  or has a definition of its own (\<open>sleep_resume\<close>, \<open>trap_resume\<close>). The state is an extensible record
  which each theory extends by what its source files own: physical memory and the free list (\<open>kmem\<close>), the
  process table (\<open>kbase\<close>), buffers and disk (\<open>bio\<close>), the log (\<open>klog\<close>), inodes (\<open>kfs\<close>), pipes and open
  files (\<open>kfile\<close>), the clock (\<open>ksys\<close>), process creation (\<open>kproc\<close>), the console (\<open>kcons\<close>) and the
  keyboard (\<open>kkbd\<close>). An operation is defined on every extension of the state it needs. Between context
  switches the kernel code of one process is executed without interleaving, as with the spin-locks held; that
  spin-locks give this is the subject of \<open>Spinlock\<close>, where CPUs interleave inside \<^verbatim>\<open>acquire\<close> and
  \<^verbatim>\<open>release\<close>.

  \<^bold>\<open>Theories.\<close>
  \<^item> \<open>Xv6_Prelude\<close>: integer types, outcomes and their combinators, little-endian words in byte arrays.
  \<^item> \<open>Kstring\<close> (\<^verbatim>\<open>kernel/string.c\<close>), \<open>Kalloc\<close> (\<^verbatim>\<open>kernel/kalloc.c\<close>), \<open>Vm\<close> (\<^verbatim>\<open>kernel/vm.c\<close>):
    memory functions, the page allocator, page tables.
  \<^item> \<open>Proc_Table\<close> (\<^verbatim>\<open>kernel/proc.h\<close>, \<^verbatim>\<open>sleep\<close>, \<^verbatim>\<open>wakeup\<close> and \<^verbatim>\<open>kill\<close> of \<^verbatim>\<open>kernel/proc.c\<close>,
    \<^verbatim>\<open>kernel/sleeplock.c\<close>); \<open>Spinlock\<close> (\<^verbatim>\<open>kernel/spinlock.c\<close>).
  \<^item> \<open>Block_Iface\<close>, \<open>Bio\<close>, \<open>Log\<close>: the interface of the buffer cache as a locale, the cache with the
    in-memory disk (\<^verbatim>\<open>kernel/bio.c\<close>, \<^verbatim>\<open>kernel/memide.c\<close>) which interprets it, the log
    (\<^verbatim>\<open>kernel/log.c\<close>) proved on the interface.
  \<^item> \<open>Fs_Inode\<close>, \<open>Fs_Dir\<close> (\<^verbatim>\<open>kernel/fs.c\<close>); \<open>Fs_Tx\<close>, a locale for reading and changing blocks inside a
    transaction, interpreted on the log; on it \<open>Fs_Alloc\<close> (allocation of blocks), \<open>Fs_Content\<close> and
    \<open>Fs_File\<close> (the bytes of a file) and \<open>Fs_Lookup\<close> (directories as tables of names); \<open>Fs_Dinode\<close>, inodes on the disk.
  \<^item> \<open>Mkfs\<close> (\<^verbatim>\<open>tools/mkfs.c\<close>) with \<open>Mkfs_Image\<close> and \<open>Mkfs_Tree\<close>: the image builder, the blocks it gives to
    files, and the list of files it implements.
  \<^item> \<open>Ring\<close>, a locale for ring buffers which \<open>Pipe\<close>
    (\<^verbatim>\<open>kernel/pipe.c\<close>) and \<open>Console_Edit\<close> interpret; \<open>File\<close> (\<^verbatim>\<open>kernel/file.c\<close>).
  \<^item> \<open>Syscall\<close>, \<open>Sysfile\<close>, \<open>Proc\<close>, \<open>Exec\<close>: arguments of system calls, the calls of
    \<^verbatim>\<open>kernel/sysfile.c\<close> and \<^verbatim>\<open>kernel/sysproc.c\<close>, the life cycle of processes, \<^verbatim>\<open>kernel/exec.c\<close>.
  \<^item> \<open>Console\<close>, \<open>Console_Edit\<close>, \<open>Kbd\<close>: \<^verbatim>\<open>kernel/console.c\<close>, \<^verbatim>\<open>kernel/uart.c\<close> and
    \<^verbatim>\<open>kernel/kbd.c\<close>.
  \<^item> \<open>Trap\<close>: \<^verbatim>\<open>kernel/trap.c\<close> and the dispatcher of \<^verbatim>\<open>kernel/syscall.c\<close>.
  \<^item> \<open>Frame\<close>, \<open>Frame_Sys\<close>: which parts of the state kernel code leaves alone, as a tower of locales from
    single stores up to \<^verbatim>\<open>trap\<close>.
  \<^item> \<open>Privilege\<close>, \<open>Proc_Life\<close>, \<open>Proc_Family\<close>, \<open>Sched\<close>: properties of the whole kernel over
    these locales.
  \<^item> \<open>Ulib\<close>, \<open>Ufile\<close>, \<open>Uauth\<close>, \<open>Uauthgrp\<close> (the files of these names under \<^verbatim>\<open>user/\<close>): strings, lines of files, the
    password file and the group file; a regular file is its bytes and an offset, the system calls on it are those of the kernel
    as a program sees them. \<open>Login\<close> (\<^verbatim>\<open>user/getty.c\<close>, \<^verbatim>\<open>user/passwd.c\<close>), \<open>Grep\<close> (\<^verbatim>\<open>user/grep.c\<close>) and
    \<open>Sh\<close> (the parser of \<^verbatim>\<open>user/sh.c\<close>).

  \<^bold>\<open>What is shown.\<close> The log makes transactions atomic over crashes at any disk write and durable.
  Inside a transaction \<^verbatim>\<open>writei\<close> changes exactly the bytes of its range and \<^verbatim>\<open>readi\<close> reads them back, other files keep their
  contents, and names added to a directory are found again; the kernel finds on a new image the files the image builder was given.
  System calls change credentials only as the user-account design says; \<^verbatim>\<open>exec\<close> and \<^verbatim>\<open>open\<close> respect file
  modes; arguments of system calls lie in the memory of the process. Spin-locks exclude each other.
  Process ids are unique, no parent misses the exit of a child, \<^verbatim>\<open>fork\<close>, \<^verbatim>\<open>exit\<close> and \<^verbatim>\<open>wait\<close> do what
  they promise, the scheduler is fair, a killed process does not return to user mode. Pipes and console input
  implement queues and a line editor; the page allocator a list of pages. Of the programs: accounts and groups are looked up
  and changed as the files say, a changed password is the one that logs in, the shell parses its grammar, \<^verbatim>\<open>grep\<close> decides the
  language of a pattern. Some theorems state faults of the code: formatted output with \<^verbatim>\<open>%x\<close>, a password that makes a
  superuser, groups kept from refused logins, a count that passes the test of \<^verbatim>\<open>setgrps\<close>.

  \<^bold>\<open>Bounds.\<close> Loops of the C code are structural recursions over their index, \<open>function\<close>s with a measure,
  or folds over a list of indices. \<^verbatim>\<open>strlen\<close>, the scanning of user strings and the loops of programs over the lines of a
  file have no bound in C and are \<open>partial_function\<close>s; a property that is about one of them also shows that it returns. Only the parser of the shell,
  whose functions call each other, has fuel: four times the length of the line and four more, which \<open>parse_returns\<close> shows to be enough for
  every line.

  \<^bold>\<open>Not modelled.\<close> Assembly and the boot loader, the initialisation of devices, segments and interrupt tables, and the
  interrupt controllers: stores to registers of the machine. The driver of a real disk (\<^verbatim>\<open>kernel/ide.c\<close>), which the in-memory disk
  replaces. Saved kernel contexts, since a process that sleeps is described by the state at its switch. Of the programs: running the commands the shell
  has parsed, the memory allocator and the formatted output of programs, walking over directories in \<^verbatim>\<open>user/ufile.c\<close>, the commands
  that only pass their arguments to one system call, and the test programs.
\<close>

end
